(* ===== verification/Prelude.thy ===== *)
theory Prelude
  imports Main "HOL-Library.Word"
begin

unbundle bit_operations_syntax

text \<open>
  Shared ground of the development: names for the C integer types, the generic
  byte loop of the checksum routines, and the lemmas on lists and words that the
  component theories use through simp rules and the collections declared here.
\<close>

section \<open>C integer types\<close>

type_synonym u8 = "8 word"
type_synonym u16 = "16 word"
type_synonym u32 = "32 word"
type_synonym u64 = "64 word"
type_synonym bytes = "8 word list"

named_theorems word_to_nat \<open>rules that move size_t arithmetic to natural numbers\<close>

section \<open>Outcomes\<close>

text \<open>The three ways a call ends: it returns, an assertion fails, or it accesses memory out of bounds.\<close>

datatype 'a outcome = Done 'a | Aborted | Undefined

fun returned :: "'a outcome \<Rightarrow> 'a option" where
  "returned (Done x) = Some x"
| "returned Aborted = None"
| "returned Undefined = None"

section \<open>Loops over a byte buffer\<close>

text \<open>
  \<open>while (length--) { ... *buffer++ ... }\<close>: the body runs \<open>n\<close> times, each time on
  the next byte of the buffer. \<open>None\<close> is a read past the end of the buffer.
\<close>

primrec bytes_loop :: "('s \<Rightarrow> u8 \<Rightarrow> 's) \<Rightarrow> nat \<Rightarrow> bytes \<Rightarrow> 's \<Rightarrow> 's option" where
  "bytes_loop body 0 buffer s = Some s"
| "bytes_loop body (Suc n) buffer s =
     (case buffer of [] \<Rightarrow> None | b # bs \<Rightarrow> bytes_loop body n bs (body s b))"

lemma bytes_loop_foldl:
  "n \<le> length buffer \<Longrightarrow> bytes_loop body n buffer s = Some (foldl body s (take n buffer))"
  by (induction n arbitrary: buffer s) (auto split: list.split)

lemma bytes_loop_overrun: "length buffer < n \<Longrightarrow> bytes_loop body n buffer s = None"
  by (induction n arbitrary: buffer s) (auto split: list.split)

lemma bytes_loop_invariant:
  assumes "bytes_loop body n buffer s = Some r" "P s" "\<And>s b. P s \<Longrightarrow> P (body s b)"
  shows "P r"
  using assms(1,2)
proof (induction n arbitrary: buffer s)
  case (Suc n)
  then show ?case using assms(3) by (cases buffer) fastforce+
qed simp

section \<open>Copying into a buffer\<close>

text \<open>\<open>memcpy (dst + off, src, length src)\<close> into a buffer that is long enough.\<close>

definition overwrite :: "'a list \<Rightarrow> nat \<Rightarrow> 'a list \<Rightarrow> 'a list" where
  "overwrite dst off src = take off dst @ src @ drop (off + length src) dst"

lemma length_overwrite [simp]:
  "off + length src \<le> length dst \<Longrightarrow> length (overwrite dst off src) = length dst"
  by (simp add: overwrite_def)

lemma take_overwrite:
  "off + length src \<le> length dst \<Longrightarrow> take (off + length src) (overwrite dst off src) = take off dst @ src"
  by (simp add: overwrite_def)

lemma overwrite_full:
  "off + length src = length dst \<Longrightarrow> overwrite dst off src = take off dst @ src"
  by (simp add: overwrite_def)

lemma take_overwrite_0: "length src \<le> length dst \<Longrightarrow> take (length src) (overwrite dst 0 src) = src"
  by (simp add: overwrite_def)

section \<open>Iterating a step\<close>

lemma funpow_commute_map:
  "(\<And>x. h (f x) = g (h x)) \<Longrightarrow> h ((f ^^ n) x) = (g ^^ n) (h x)"
  by (induction n) simp_all

lemma foldl_commute_map:
  "(\<And>s x. h (f s x) = g (h s) (k x)) \<Longrightarrow> h (foldl f s xs) = foldl g (h s) (map k xs)"
  by (induction xs arbitrary: s) simp_all

lemma funpow_8: "(f ^^ 8) x = f (f (f (f (f (f (f (f x)))))))"
  by (simp add: eval_nat_numeral)

section \<open>Words as bit vectors\<close>

lemma less_32_cases:
  "(n::nat) < 32 \<Longrightarrow> n \<in> {0,1,2,3,4,5,6,7,8,9,10,11,12,13,14,15,16,17,18,19,20,21,22,23,24,25,26,27,28,29,30,31}"
  by (simp, presburger)

lemma and_power_nonzero_iff: "(c AND 2 ^ k \<noteq> (0 :: 'a::len word)) = bit c k"
  by (simp add: and_exp_eq_0_iff_not_bit)

lemma word_reverse_xor: "word_reverse (a XOR b) = word_reverse a XOR word_reverse b"
  by (rule bit_word_eqI) (simp add: bit_simps)

lemma word_reverse_push_bit: "word_reverse (push_bit k a) = drop_bit k (word_reverse a)"
  by (rule bit_word_eqI) (auto simp: bit_simps add.commute)

lemma word_reverse_zero: "word_reverse 0 = 0"
  by (rule bit_word_eqI) (simp add: bit_simps)

lemma bit_u8_less: "bit (b :: u8) n \<Longrightarrow> n < 8"
  using bit_imp_le_length [of b n] by simp

lemma xor_zero_eq: "a XOR b = 0 \<Longrightarrow> a = (b :: 'a::len word)"
  by (metis bit.xor_left_self xor.right_neutral)

lemma unat_less_power_iff: "unat x < 2 ^ w \<longleftrightarrow> (\<forall>i. bit x i \<longrightarrow> i < w)"
proof -
  have "unat x < 2 ^ w \<longleftrightarrow> take_bit w (unat x) = unat x"
    by (simp add: take_bit_nat_eq_self_iff)
  also have "\<dots> \<longleftrightarrow> (\<forall>i. bit x i \<longrightarrow> i < w)"
    by (auto simp: bit_eq_iff [of "take_bit w (unat x)"] bit_simps)
  finally show ?thesis .
qed

lemma unat_ucast_less: "unat (x :: u32) < 2 ^ w \<Longrightarrow> unat (ucast x :: 'a::len word) < 2 ^ w"
  by (simp add: unat_less_power_iff bit_simps)

lemma ucast_word_bound: "unat (ucast (x :: 'a::len word) :: u32) < 2 ^ LENGTH('a)"
  by (auto simp: unat_less_power_iff bit_simps dest: bit_imp_le_length)

lemma ucast_up_less: "unat (x :: 'a::len word) < 2 ^ w \<Longrightarrow> unat (ucast x :: u32) < 2 ^ w"
  by (simp add: unat_less_power_iff bit_simps)

lemma unat_ucast_of_nat: "n < 2 ^ 32 \<Longrightarrow> unat (ucast (of_nat n :: u64) :: u32) = n"
  by (simp add: unsigned_ucast_eq unsigned_of_nat take_bit_nat_eq_self)

lemma bit_u8_ge: "8 \<le> n \<Longrightarrow> \<not> bit (b :: u8) n"
  using bit_u8_less [of b n] by linarith

lemma unat_ucast_u32_u64: "unat (ucast (x :: u32) :: u64) = unat x"
proof -
  have "unat x < 2 ^ 32" using unsigned_less [of x] by simp
  then have "unat x < 2 ^ 64" by simp
  then show ?thesis by (simp add: unsigned_ucast_eq take_bit_nat_eq_self)
qed

lemma ucast_of_nat_u64: "ucast (of_nat n :: u64) = (of_nat n :: u32)"
  by (rule bit_word_eqI) (simp add: bit_simps)

lemma div_small_sum: "x < n \<Longrightarrow> y < n \<Longrightarrow> (x + y) div (n::nat) = (if n \<le> x + y then 1 else 0)"
  by (simp add: le_div_geq)

lemma div_add_carry: "0 < (n::nat) \<Longrightarrow>
   (a + b) div n = a div n + b div n + (if n \<le> a mod n + b mod n then 1 else 0)"
  using div_small_sum [of "a mod n" n "b mod n"] by (simp add: div_add1_eq [of a b n])

lemma byte_of_nat_u32:
  "k + 8 \<le> 32 \<Longrightarrow> ucast (drop_bit k (of_nat n :: u32) AND 255) = (of_nat (n div 2 ^ k) :: u8)"
proof -
  assume k: "k + 8 \<le> 32"
  have m: "(255 :: u32) = mask 8" by (simp add: mask_eq_exp_minus_1)
  show ?thesis unfolding m
    using k by (intro bit_word_eqI) (auto simp: bit_simps add.commute simp flip: drop_bit_eq_div)
qed

lemma and_15_mod: "(n::nat) AND 15 = n mod 16"
  using take_bit_eq_mask [of 4 n] by (simp add: take_bit_eq_mod mask_eq_exp_minus_1)

lemma mod_neq_window: "s < t \<Longrightarrow> t < s + c \<Longrightarrow> s mod c \<noteq> t mod (c::nat)"
  using nat_dvd_not_less [of "t - s" c] mod_eq_dvd_iff_nat [of s t c] by auto

lemma sum_change_one:
  assumes "i < (n :: nat)" "\<And>j. j < n \<Longrightarrow> j \<noteq> i \<Longrightarrow> f' j = (f j :: nat)"
  shows "(\<Sum>j<n. f' j) + f i = (\<Sum>j<n. f j) + f' i"
proof -
  have "sum f' ({..<n} - {i}) = sum f ({..<n} - {i})" using assms(2) by (intro sum.cong) auto
  moreover have "sum g {..<n} = g i + sum g ({..<n} - {i})" for g :: "nat \<Rightarrow> nat"
    by (rule sum.remove) (use assms(1) in simp_all)
  ultimately show ?thesis by simp
qed

lemma sint_small: "unat (k :: u64) < 2 ^ 63 \<Longrightarrow> sint k = int (unat k)"
proof -
  assume "unat k < 2 ^ 63"
  then have hi: "int (unat k) < 2 ^ 63" by (metis of_nat_less_iff of_nat_numeral of_nat_power)
  have "- (2 ^ 63) \<le> (0 :: int)" by simp
  also have "0 \<le> int (unat k)" by (rule of_nat_0_le_iff)
  finally have "signed_take_bit 63 (int (unat k)) = int (unat k)"
    using hi by (rule signed_take_bit_int_eq_self)
  then show ?thesis by (simp add: sint_uint)
qed

end
