(* ===== verification/Crc.thy ===== *)
theory Crc
  imports Prelude
begin

unbundle bit_operations_syntax

text \<open>
  The checksum component, \<^verbatim>\<open>cxl_memory_sharing/crc.c\<close> and \<^verbatim>\<open>crc.h\<close>: bit reflection,
  the seven CRC routines of widths 4 to 32, the dispatcher and the CRC-32 that the
  shared-memory programs put at the end of each block. The lemmas show that the reflection
  is a bit reversal, that \<open>calculate_crc32\<close> is the usual least-significant-bit-first
  CRC-32, and that it detects every error confined to four consecutive bytes.
\<close>

section \<open>Model\<close>

datatype REFLECTED_MODE =
    REF_4BIT | REF_5BIT | REF_6BIT | REF_7BIT | REF_8BIT | REF_16BIT | REF_32BIT

record CRC_Type =
  ct_width :: u8
  ct_poly :: u32
  ct_init :: u32
  ct_refIn :: bool
  ct_refOut :: bool
  ct_xorOut :: u32

definition ReflectedData :: "u32 \<Rightarrow> REFLECTED_MODE \<Rightarrow> u32" where
  "ReflectedData data mode =
    (let data = drop_bit 16 (data AND 0xffff0000) OR push_bit 16 (data AND 0x0000ffff);
         data = drop_bit 8 (data AND 0xff00ff00) OR push_bit 8 (data AND 0x00ff00ff);
         data = drop_bit 4 (data AND 0xf0f0f0f0) OR push_bit 4 (data AND 0x0f0f0f0f);
         data = drop_bit 2 (data AND 0xcccccccc) OR push_bit 2 (data AND 0x33333333);
         data = drop_bit 1 (data AND 0xaaaaaaaa) OR push_bit 1 (data AND 0x55555555)
     in case mode of
          REF_32BIT \<Rightarrow> data
        | REF_16BIT \<Rightarrow> drop_bit 16 data AND 0xffff
        | REF_8BIT \<Rightarrow> drop_bit 24 data AND 0xff
        | REF_7BIT \<Rightarrow> drop_bit 25 data AND 0x7f
        | REF_6BIT \<Rightarrow> drop_bit 26 data AND 0x7f
        | REF_5BIT \<Rightarrow> drop_bit 27 data AND 0x1f
        | REF_4BIT \<Rightarrow> drop_bit 28 data AND 0x0f)"

text \<open>
  The body of the inner \<open>for\<close> loop of the right-shifting routines (the reflected
  branch of \<open>CheckCrc4\<close> to \<open>CheckCrc7\<close>) and of the left-shifting ones.
\<close>

definition lsb_step :: "u8 \<Rightarrow> u8 \<Rightarrow> u8" where
  "lsb_step poly crc =
    (if crc AND 0x01 \<noteq> 0 then drop_bit 1 crc XOR poly else drop_bit 1 crc)"

definition msb_step8 :: "u8 \<Rightarrow> u8 \<Rightarrow> u8" where
  "msb_step8 poly crc =
    (if crc AND 0x80 \<noteq> 0 then push_bit 1 crc XOR poly else push_bit 1 crc)"

definition msb_step16 :: "u16 \<Rightarrow> u16 \<Rightarrow> u16" where
  "msb_step16 poly crc =
    (if crc AND 0x8000 \<noteq> 0 then push_bit 1 crc XOR poly else push_bit 1 crc)"

definition msb_step32 :: "u32 \<Rightarrow> u32 \<Rightarrow> u32" where
  "msb_step32 poly crc =
    (if crc AND 0x80000000 \<noteq> 0 then push_bit 1 crc XOR poly else push_bit 1 crc)"

text \<open>
  \<open>CheckCrc4\<close> to \<open>CheckCrc7\<close> differ in the reflection mode and in the shift that
  aligns the register to the top of the byte, each function with its own constants.
\<close>

definition CheckCrc4 :: "u8 \<Rightarrow> u8 \<Rightarrow> bool \<Rightarrow> bool \<Rightarrow> u8 \<Rightarrow> bytes \<Rightarrow> u32 \<Rightarrow> u8 option" where
  "CheckCrc4 poly init refIn refOut xorOut buffer len =
    (if refIn then
       (let poly = ucast (ReflectedData (ucast poly) REF_4BIT) in
        map_option (\<lambda>crc. crc XOR xorOut)
          (bytes_loop (\<lambda>crc b. (lsb_step poly ^^ 8) (crc XOR b)) (unat len) buffer init))
     else
       (let crc = push_bit 4 init; poly = push_bit 4 poly in
        map_option (\<lambda>crc. drop_bit 4 crc XOR xorOut)
          (bytes_loop (\<lambda>crc b. (msb_step8 poly ^^ 8) (crc XOR b)) (unat len) buffer crc)))"

definition CheckCrc5 :: "u8 \<Rightarrow> u8 \<Rightarrow> bool \<Rightarrow> bool \<Rightarrow> u8 \<Rightarrow> bytes \<Rightarrow> u32 \<Rightarrow> u8 option" where
  "CheckCrc5 poly init refIn refOut xorOut buffer len =
    (if refIn then
       (let poly = ucast (ReflectedData (ucast poly) REF_5BIT) in
        map_option (\<lambda>crc. crc XOR xorOut)
          (bytes_loop (\<lambda>crc b. (lsb_step poly ^^ 8) (crc XOR b)) (unat len) buffer init))
     else
       (let crc = push_bit 3 init; poly = push_bit 3 poly in
        map_option (\<lambda>crc. drop_bit 3 crc XOR xorOut)
          (bytes_loop (\<lambda>crc b. (msb_step8 poly ^^ 8) (crc XOR b)) (unat len) buffer crc)))"

definition CheckCrc6 :: "u8 \<Rightarrow> u8 \<Rightarrow> bool \<Rightarrow> bool \<Rightarrow> u8 \<Rightarrow> bytes \<Rightarrow> u32 \<Rightarrow> u8 option" where
  "CheckCrc6 poly init refIn refOut xorOut buffer len =
    (if refIn then
       (let poly = ucast (ReflectedData (ucast poly) REF_6BIT) in
        map_option (\<lambda>crc. crc XOR xorOut)
          (bytes_loop (\<lambda>crc b. (lsb_step poly ^^ 8) (crc XOR b)) (unat len) buffer init))
     else
       (let crc = push_bit 2 init; poly = push_bit 2 poly in
        map_option (\<lambda>crc. drop_bit 2 crc XOR xorOut)
          (bytes_loop (\<lambda>crc b. (msb_step8 poly ^^ 8) (crc XOR b)) (unat len) buffer crc)))"

definition CheckCrc7 :: "u8 \<Rightarrow> u8 \<Rightarrow> bool \<Rightarrow> bool \<Rightarrow> u8 \<Rightarrow> bytes \<Rightarrow> u32 \<Rightarrow> u8 option" where
  "CheckCrc7 poly init refIn refOut xorOut buffer len =
    (if refIn then
       (let poly = ucast (ReflectedData (ucast poly) REF_7BIT) in
        map_option (\<lambda>crc. crc XOR xorOut)
          (bytes_loop (\<lambda>crc b. (lsb_step poly ^^ 8) (crc XOR b)) (unat len) buffer init))
     else
       (let crc = push_bit 1 init; poly = push_bit 1 poly in
        map_option (\<lambda>crc. drop_bit 1 crc XOR xorOut)
          (bytes_loop (\<lambda>crc b. (msb_step8 poly ^^ 8) (crc XOR b)) (unat len) buffer crc)))"

definition CheckCrc8 :: "u8 \<Rightarrow> u8 \<Rightarrow> bool \<Rightarrow> bool \<Rightarrow> u8 \<Rightarrow> bytes \<Rightarrow> u32 \<Rightarrow> u8 option" where
  "CheckCrc8 poly init refIn refOut xorOut buffer len =
    map_option
      (\<lambda>crc. (if refOut then ucast (ReflectedData (ucast crc) REF_8BIT) else crc) XOR xorOut)
      (bytes_loop
        (\<lambda>crc b. (msb_step8 poly ^^ 8)
           (crc XOR (if refIn then ucast (ReflectedData (ucast b) REF_8BIT) else b)))
        (unat len) buffer init)"

definition CheckCrc16 :: "u16 \<Rightarrow> u16 \<Rightarrow> bool \<Rightarrow> bool \<Rightarrow> u16 \<Rightarrow> bytes \<Rightarrow> u32 \<Rightarrow> u16 option" where
  "CheckCrc16 poly init refIn refOut xorOut buffer len =
    map_option
      (\<lambda>crc. (if refOut then ucast (ReflectedData (ucast crc) REF_16BIT) else crc) XOR xorOut)
      (bytes_loop
        (\<lambda>crc b. (msb_step16 poly ^^ 8)
           (crc XOR (if refIn then ucast (push_bit 8 (ReflectedData (ucast b) REF_8BIT))
                     else push_bit 8 (ucast b))))
        (unat len) buffer init)"

definition CheckCrc32 :: "u32 \<Rightarrow> u32 \<Rightarrow> bool \<Rightarrow> bool \<Rightarrow> u32 \<Rightarrow> bytes \<Rightarrow> u32 \<Rightarrow> u32 option" where
  "CheckCrc32 poly init refIn refOut xorOut buffer len =
    map_option
      (\<lambda>crc. (if refOut then ReflectedData crc REF_32BIT else crc) XOR xorOut)
      (bytes_loop
        (\<lambda>crc b. (msb_step32 poly ^^ 8)
           (crc XOR (if refIn then push_bit 24 (ReflectedData (ucast b) REF_8BIT)
                     else push_bit 24 (ucast b))))
        (unat len) buffer init)"

text \<open>
  The dispatcher passes the 32-bit parameters on at the width of the callee's
  parameter types, so the narrow routines see them truncated.
\<close>

definition CrcCheck :: "CRC_Type \<Rightarrow> bytes \<Rightarrow> u32 \<Rightarrow> u32 option" where
  "CrcCheck t buffer len =
    (if ct_width t = 4 then map_option ucast (CheckCrc4 (ucast (ct_poly t)) (ucast (ct_init t)) (ct_refIn t) (ct_refOut t)
        (ucast (ct_xorOut t)) buffer len)
     else if ct_width t = 5 then map_option ucast (CheckCrc5 (ucast (ct_poly t)) (ucast (ct_init t)) (ct_refIn t) (ct_refOut t)
        (ucast (ct_xorOut t)) buffer len)
     else if ct_width t = 6 then map_option ucast (CheckCrc6 (ucast (ct_poly t)) (ucast (ct_init t)) (ct_refIn t) (ct_refOut t)
        (ucast (ct_xorOut t)) buffer len)
     else if ct_width t = 7 then map_option ucast (CheckCrc7 (ucast (ct_poly t)) (ucast (ct_init t)) (ct_refIn t) (ct_refOut t)
        (ucast (ct_xorOut t)) buffer len)
     else if ct_width t = 8 then map_option ucast (CheckCrc8 (ucast (ct_poly t)) (ucast (ct_init t)) (ct_refIn t) (ct_refOut t)
        (ucast (ct_xorOut t)) buffer len)
     else if ct_width t = 16 then map_option ucast (CheckCrc16 (ucast (ct_poly t)) (ucast (ct_init t)) (ct_refIn t) (ct_refOut t)
        (ucast (ct_xorOut t)) buffer len)
     else if ct_width t = 32 then CheckCrc32 (ct_poly t) (ct_init t) (ct_refIn t) (ct_refOut t)
        (ct_xorOut t) buffer len
     else Some 0)"

definition calculate_crc32 :: "bytes \<Rightarrow> u64 \<Rightarrow> u32 option" where
  "calculate_crc32 addr sz =
    (let crcType = \<lparr>ct_width = 32, ct_poly = 0x04c11db7, ct_init = 0xffffffff,
                    ct_refIn = True, ct_refOut = True, ct_xorOut = 0xffffffff\<rparr>
     in CrcCheck crcType addr (ucast sz))"

section \<open>Specification: the reflected CRC-32\<close>

text \<open>
  The number of low bits a reflection mode mirrors, and the usual byte-wise form of CRC-32
  with the reversed polynomial, shifting towards the least significant bit.
\<close>

primrec ref_bits :: "REFLECTED_MODE \<Rightarrow> nat" where
  "ref_bits REF_4BIT = 4"
| "ref_bits REF_5BIT = 5"
| "ref_bits REF_6BIT = 6"
| "ref_bits REF_7BIT = 7"
| "ref_bits REF_8BIT = 8"
| "ref_bits REF_16BIT = 16"
| "ref_bits REF_32BIT = 32"

definition lsb_step32 :: "u32 \<Rightarrow> u32" where
  "lsb_step32 c = drop_bit 1 c XOR (if bit c 0 then 0xEDB88320 else 0)"

definition crc32_byte :: "u32 \<Rightarrow> u8 \<Rightarrow> u32" where
  "crc32_byte c b = (lsb_step32 ^^ 8) (c XOR ucast b)"

definition crc32_spec :: "bytes \<Rightarrow> u32" where
  "crc32_spec xs = NOT (foldl crc32_byte (NOT 0) xs)"

section \<open>Bit reflection\<close>

definition swap_layer :: "nat \<Rightarrow> u32 \<Rightarrow> u32 \<Rightarrow> u32 \<Rightarrow> u32" where
  "swap_layer k hi lo d = drop_bit k (d AND hi) OR push_bit k (d AND lo)"

lemma bit_times_two: "bit (d * 2 :: u32) n \<longleftrightarrow> 0 < n \<and> n < 32 \<and> bit d (n - 1)"
proof -
  have "d * 2 = push_bit 1 d" by (simp add: push_bit_eq_mult)
  then show ?thesis by (auto simp: bit_push_bit_iff simp del: push_bit_of_1 One_nat_def)
qed

lemma bit_swap_layer_16:
  "i < 32 \<Longrightarrow> bit (swap_layer 16 0xffff0000 0x0000ffff d) i =
     bit d (if i mod 32 < 16 then i + 16 else i - 16)"
  unfolding swap_layer_def
  by (drule less_32_cases) (elim insertE emptyE;
      simp add: bit_or_iff bit_and_iff bit_drop_bit_eq bit_push_bit_iff)

lemma bit_swap_layer_8:
  "i < 32 \<Longrightarrow> bit (swap_layer 8 0xff00ff00 0x00ff00ff d) i =
     bit d (if i mod 16 < 8 then i + 8 else i - 8)"
  unfolding swap_layer_def
  by (drule less_32_cases) (elim insertE emptyE;
      simp add: bit_or_iff bit_and_iff bit_drop_bit_eq bit_push_bit_iff)

lemma bit_swap_layer_4:
  "i < 32 \<Longrightarrow> bit (swap_layer 4 0xf0f0f0f0 0x0f0f0f0f d) i =
     bit d (if i mod 8 < 4 then i + 4 else i - 4)"
  unfolding swap_layer_def
  by (drule less_32_cases) (elim insertE emptyE;
      simp add: bit_or_iff bit_and_iff bit_drop_bit_eq bit_push_bit_iff)

lemma bit_swap_layer_2:
  "i < 32 \<Longrightarrow> bit (swap_layer 2 0xcccccccc 0x33333333 d) i =
     bit d (if i mod 4 < 2 then i + 2 else i - 2)"
  unfolding swap_layer_def
  by (drule less_32_cases) (elim insertE emptyE;
      simp add: bit_or_iff bit_and_iff bit_drop_bit_eq bit_push_bit_iff
        bit_times_two; simp add: eval_nat_numeral)

lemma bit_swap_layer_1:
  "i < 32 \<Longrightarrow> bit (swap_layer 1 0xaaaaaaaa 0x55555555 d) i =
     bit d (if i mod 2 < 1 then i + 1 else i - 1)"
  unfolding swap_layer_def
  by (drule less_32_cases) (elim insertE emptyE;
      simp add: bit_or_iff bit_and_iff bit_drop_bit_eq bit_push_bit_iff
        bit_times_two; simp add: eval_nat_numeral)

lemmas bit_swap_layers =
  bit_swap_layer_16 bit_swap_layer_8 bit_swap_layer_4 bit_swap_layer_2 bit_swap_layer_1

lemma ReflectedData_layers: "ReflectedData x REF_32BIT = 
   swap_layer 1 0xaaaaaaaa 0x55555555 (swap_layer 2 0xcccccccc 0x33333333 (swap_layer 4 0xf0f0f0f0 0x0f0f0f0f
   (swap_layer 8 0xff00ff00 0x00ff00ff (swap_layer 16 0xffff0000 0x0000ffff x))))"
  unfolding ReflectedData_def Let_def REFLECTED_MODE.case swap_layer_def ..

lemma ReflectedData_32: "ReflectedData x REF_32BIT = word_reverse x"
proof (rule bit_word_eqI)
  fix n assume "n < LENGTH(32)"
  then have "n \<in> {0,1,2,3,4,5,6,7,8,9,10,11,12,13,14,15,16,17,18,19,20,21,22,23,24,25,26,27,28,29,30,31}"
   by (intro less_32_cases) simp
  then show "bit (ReflectedData x REF_32BIT) n \<longleftrightarrow> bit (word_reverse x) n"
  unfolding ReflectedData_layers
  by (elim insertE emptyE; simp add: bit_swap_layers bit_word_reverse_iff del: One_nat_def)
qed

lemma mask_numerals: "0x0f = (mask 4 :: u32)" "0x1f = (mask 5 :: u32)" "0x7f = (mask 7 :: u32)"
  "0xff = (mask 8 :: u32)" "0xffff = (mask 16 :: u32)"
  by (simp_all add: mask_eq_exp_minus_1)

lemma ReflectedData_mode:
  "ReflectedData d mode = drop_bit (32 - ref_bits mode) (word_reverse d)"
proof -
  have "ReflectedData d mode =
    (let r = ReflectedData d REF_32BIT in
     case mode of
          REF_32BIT \<Rightarrow> r
        | REF_16BIT \<Rightarrow> drop_bit 16 r AND 0xffff
        | REF_8BIT \<Rightarrow> drop_bit 24 r AND 0xff
        | REF_7BIT \<Rightarrow> drop_bit 25 r AND 0x7f
        | REF_6BIT \<Rightarrow> drop_bit 26 r AND 0x7f
        | REF_5BIT \<Rightarrow> drop_bit 27 r AND 0x1f
        | REF_4BIT \<Rightarrow> drop_bit 28 r AND 0x0f)"
    by (simp only: ReflectedData_def Let_def REFLECTED_MODE.case)
  then show ?thesis
    unfolding ReflectedData_32 Let_def
    by (cases mode; simp; intro bit_word_eqI; force simp: mask_numerals bit_simps)
qed

lemma bit_ReflectedData:
  "bit (ReflectedData d mode) i \<longleftrightarrow> i < ref_bits mode \<and> bit d (ref_bits mode - 1 - i)"
  by (cases mode) (auto simp: ReflectedData_mode bit_simps)

section \<open>CRC-32 is the reflected CRC-32\<close>

lemma word_reverse_poly: "word_reverse (0x04c11db7 :: u32) = 0xEDB88320"
  unfolding ReflectedData_32 [symmetric] by (simp add: ReflectedData_def)

lemma msb_step32_bit: "msb_step32 p c = push_bit 1 c XOR (if bit c 31 then p else 0)"
  using and_power_nonzero_iff [of c 31] by (simp add: msb_step32_def)

lemma word_reverse_msb_step: "word_reverse (msb_step32 0x04c11db7 c) = lsb_step32 (word_reverse c)"
  by (simp add: msb_step32_bit lsb_step32_def word_reverse_xor word_reverse_push_bit
      word_reverse_poly word_reverse_zero bit_word_reverse_iff del: push_bit_of_1 push_bit_Suc)

lemma word_reverse_byte: "word_reverse (push_bit 24 (ReflectedData (ucast (b::u8)) REF_8BIT)) = ucast b"
proof (rule bit_word_eqI)
  fix n :: nat
  show "bit (word_reverse (push_bit 24 (ReflectedData (ucast b) REF_8BIT))) n \<longleftrightarrow> bit (ucast b :: u32) n"
    if "n < LENGTH(32)"
    using that bit_u8_less [of b n]
    by (cases "n < 8") (auto simp: bit_simps bit_ReflectedData)
qed

lemma word_reverse_crc_loop:
  "word_reverse (foldl (\<lambda>crc b. (msb_step32 0x04c11db7 ^^ 8)
     (crc XOR push_bit 24 (ReflectedData (ucast b) REF_8BIT))) c xs) = foldl crc32_byte (word_reverse c) xs"
proof -
  have "word_reverse ((msb_step32 0x04c11db7 ^^ 8) (s XOR push_bit 24 (ReflectedData (ucast b) REF_8BIT)))
      = crc32_byte (word_reverse s) b" for s and b :: u8
    unfolding crc32_byte_def
    by (subst funpow_commute_map [where g = lsb_step32])
       (simp_all add: word_reverse_msb_step word_reverse_xor word_reverse_byte)
  then show ?thesis
    by (rule foldl_commute_map [where h = word_reverse and k = id and g = crc32_byte, simplified])
qed

lemma calculate_crc32_eq_spec:
  assumes "unat (ucast sz :: u32) \<le> length addr"
  shows "calculate_crc32 addr sz = Some (crc32_spec (take (unat (ucast sz :: u32)) addr))"
proof -
  have m1: "(0xffffffff :: u32) = NOT 0" by simp
  have rev1: "word_reverse (NOT 0 :: u32) = NOT 0" by (rule bit_word_eqI) (simp add: bit_simps)
  have not: "a XOR NOT 0 = NOT a" for a :: u32 by simp
  show ?thesis
    unfolding calculate_crc32_def CrcCheck_def CheckCrc32_def Let_def CRC_Type.simps m1
    using assms
    by (simp add: rev1 [simplified] bytes_loop_foldl ReflectedData_32 word_reverse_crc_loop crc32_spec_def
            )
qed

section \<open>Error detection\<close>

lemma lsb_step32_xor: "lsb_step32 (a XOR b) = lsb_step32 a XOR lsb_step32 b"
  by (rule bit_word_eqI) (auto simp: lsb_step32_def bit_simps)

lemma lsb_step32_kernel: "lsb_step32 x = 0 \<Longrightarrow> x = 0"
proof -
  assume z: "lsb_step32 x = 0"
  have "\<not> bit x 0"
  proof
    assume "bit x 0"
    with z have "drop_bit 1 x XOR 0xEDB88320 = 0" by (simp add: lsb_step32_def)
    then have "drop_bit 1 x = 0xEDB88320" by (rule xor_zero_eq)
    then have "bit (drop_bit 1 x) 31" by simp
    then have "bit x 32" by (simp add: bit_simps)
    then show False using bit_imp_le_length [of x 32] by simp
  qed
  moreover have "\<not> bit x (Suc n)" for n
    using z \<open>\<not> bit x 0\<close> bit_imp_le_length [of x "Suc n"]
    by (auto simp: lsb_step32_def bit_eq_iff bit_simps)
  ultimately show "x = 0" by (metis bit_eqI bit_0_eq bot_apply bot_bool_def nat.exhaust)
qed

lemma inj_lsb_step32: "inj lsb_step32"
proof (rule injI)
  fix x y assume "lsb_step32 x = lsb_step32 y"
  then have "lsb_step32 (x XOR y) = 0" by (simp add: lsb_step32_xor)
  then have "x XOR y = 0" by (rule lsb_step32_kernel)
  then show "x = y" by (rule xor_zero_eq)
qed

lemma inj_crc32_byte: "crc32_byte c b = crc32_byte d b \<Longrightarrow> c = d"
proof -
  assume "crc32_byte c b = crc32_byte d b"
  then have "c XOR ucast b = d XOR ucast b"
    unfolding crc32_byte_def by (rule injD [OF inj_fn [OF inj_lsb_step32]])
  then have "(c XOR ucast b) XOR ucast b = (d XOR ucast b) XOR ucast b" by simp
  then show "c = d" by (simp only: xor.assoc xor_self_eq xor.right_neutral)
qed

lemma inj_crc32_foldl: "foldl crc32_byte c xs = foldl crc32_byte d xs \<Longrightarrow> c = d"
  by (induction xs arbitrary: c d) (auto dest: inj_crc32_byte)

lemma funpow_lsb_step32_xor:
  "(lsb_step32 ^^ k) (a XOR b) = (lsb_step32 ^^ k) a XOR (lsb_step32 ^^ k) b"
  by (induction k) (simp_all add: lsb_step32_xor)

primrec le_pack :: "bytes \<Rightarrow> u32" where
  "le_pack [] = 0"
| "le_pack (b # bs) = ucast b XOR push_bit 8 (le_pack bs)"

lemma bit_le_pack: "bit (le_pack xs) n \<Longrightarrow> n < 8 * length xs"
  by (induction xs arbitrary: n) (fastforce simp: bit_simps dest: bit_u8_less)+

lemma lsb_step32_shift:
  "k < 8 \<Longrightarrow> (\<And>n. bit w n \<Longrightarrow> n < 24) \<Longrightarrow> lsb_step32 (push_bit (Suc k) w) = push_bit k w"
  by (rule bit_word_eqI) (fastforce simp: lsb_step32_def bit_simps simp del: push_bit_Suc)

lemma funpow_lsb_step32_shift:
  assumes "\<And>n. bit w n \<Longrightarrow> n < 24"
  shows "k \<le> 8 \<Longrightarrow> (lsb_step32 ^^ k) (push_bit k w) = w"
  by (induction k) (simp_all add: funpow_Suc_right lsb_step32_shift [OF _ assms] del: funpow.simps(2) push_bit_Suc)

lemma crc32_foldl_pack:
  "length xs \<le> 4 \<Longrightarrow>
   foldl crc32_byte c xs = ((lsb_step32 ^^ 8) ^^ length xs) (c XOR le_pack xs)"
proof (induction xs arbitrary: c)
  case (Cons b bs)
  have small: "n < 24" if "bit (le_pack bs) n" for n
    using bit_le_pack [OF that] Cons.prems by simp
  have "(lsb_step32 ^^ 8) (c XOR ucast b) XOR le_pack bs =
      (lsb_step32 ^^ 8) ((c XOR ucast b) XOR push_bit 8 (le_pack bs))"
    using funpow_lsb_step32_shift [of "le_pack bs" 8] small
    by (simp only: funpow_lsb_step32_xor order_refl)
  then show ?case
    using Cons by (simp add: crc32_byte_def funpow_Suc_right xor.assoc del: funpow.simps(2))
qed simp

lemma le_pack_inj: "length xs = length ys \<Longrightarrow> length xs \<le> 4 \<Longrightarrow> le_pack xs = le_pack ys \<Longrightarrow> xs = ys"
proof (induction xs ys rule: list_induct2)
  case (Cons x xs y ys)
  have eq: "bit (ucast x XOR push_bit 8 (le_pack xs) :: u32) n = bit (ucast y XOR push_bit 8 (le_pack ys) :: u32) n" for n
    using Cons.prems by simp
  have "x = y"
  proof (rule bit_word_eqI)
    show "bit x n = bit y n" if "n < LENGTH(8)" for n
      using eq [of n] that by (simp add: bit_simps)
  qed
  moreover have "le_pack xs = le_pack ys"
  proof (rule bit_word_eqI)
    show "bit (le_pack xs) n = bit (le_pack ys) n" if "n < LENGTH(32)" for n
      using eq [of "n + 8"] that bit_le_pack [of xs n] bit_le_pack [of ys n] Cons.prems Cons.hyps
        bit_u8_less [of _ "n + 8"]
      by (auto simp: bit_simps)
  qed
  ultimately show ?case using Cons by simp
qed simp

lemma crc32_spec_burst:
  assumes "length x = length y" "length x \<le> 4" "x \<noteq> y"
  shows "crc32_spec (p @ x @ s) \<noteq> crc32_spec (p @ y @ s)"
proof
  let ?c = "foldl crc32_byte (NOT 0) p"
  assume "crc32_spec (p @ x @ s) = crc32_spec (p @ y @ s)"
  then have "foldl crc32_byte (foldl crc32_byte ?c x) s = foldl crc32_byte (foldl crc32_byte ?c y) s"
    by (simp add: crc32_spec_def)
  then have "foldl crc32_byte ?c x = foldl crc32_byte ?c y" by (rule inj_crc32_foldl)
  then have "?c XOR le_pack x = ?c XOR le_pack y"
    using assms by (simp only: crc32_foldl_pack) (rule injD [OF inj_fn [OF inj_fn [OF inj_lsb_step32]]])
  then have "?c XOR (?c XOR le_pack x) = ?c XOR (?c XOR le_pack y)" by simp
  then have "le_pack x = le_pack y" by (simp only: xor.assoc [symmetric] xor_self_eq xor.left_neutral)
  with assms show False using le_pack_inj by blast
qed

section \<open>Width of the result\<close>

lemma lsb_step_bit: "lsb_step p c = drop_bit 1 c XOR (if bit c 0 then p else 0)"
  using and_power_nonzero_iff [of c 0] by (simp add: lsb_step_def)

lemma funpow_lsb_step_bits:
  assumes p: "\<And>n. bit p n \<Longrightarrow> n < w"
  shows "bit ((lsb_step p ^^ k) c) n \<Longrightarrow> n < w \<or> n + k < 8"
proof (induction k arbitrary: n)
  case 0
  then show ?case by (auto dest: bit_u8_less)
next
  case (Suc k)
  from Suc.prems have "bit ((lsb_step p ^^ k) c) (Suc n) \<or> bit p n"
    by (auto simp: lsb_step_bit [of p "(lsb_step p ^^ k) c"] bit_simps split: if_splits)
  then show ?case using Suc.IH [of "Suc n"] p by auto
qed

lemma crc_lsb_bound:
  assumes "bytes_loop (\<lambda>crc b. (lsb_step p ^^ 8) (crc XOR b)) n buffer c = Some r"
    and "\<And>i. bit p i \<Longrightarrow> i < w" and "\<And>i. bit c i \<Longrightarrow> i < w"
  shows "bit r i \<Longrightarrow> i < w"
proof -
  have "\<forall>i. bit r i \<longrightarrow> i < w"
    using assms(1)
  proof (rule bytes_loop_invariant)
    show "\<forall>i. bit ((lsb_step p ^^ 8) (s XOR b)) i \<longrightarrow> i < w" for s b
      using funpow_lsb_step_bits [of p w, OF assms(2)] by fastforce
  qed (use assms(3) in blast)
  then show "bit r i \<Longrightarrow> i < w" by blast
qed

definition narrow_crc :: "nat \<Rightarrow> REFLECTED_MODE \<Rightarrow> u8 \<Rightarrow> u8 \<Rightarrow> bool \<Rightarrow> u8 \<Rightarrow> bytes \<Rightarrow> u32 \<Rightarrow> u8 option" where
  "narrow_crc k mode poly init refIn xorOut buffer len =
    (if refIn then
        map_option (\<lambda>crc. crc XOR xorOut)
          (bytes_loop (\<lambda>crc b. (lsb_step (ucast (ReflectedData (ucast poly) mode)) ^^ 8) (crc XOR b)) (unat len) buffer init)
     else
        map_option (\<lambda>crc. drop_bit k crc XOR xorOut)
          (bytes_loop (\<lambda>crc b. (msb_step8 (push_bit k poly) ^^ 8) (crc XOR b)) (unat len) buffer (push_bit k init)))"

lemma CheckCrc_narrow:
  "CheckCrc4 poly init refIn refOut xorOut buffer len = narrow_crc 4 REF_4BIT poly init refIn xorOut buffer len"
  "CheckCrc5 poly init refIn refOut xorOut buffer len = narrow_crc 3 REF_5BIT poly init refIn xorOut buffer len"
  "CheckCrc6 poly init refIn refOut xorOut buffer len = narrow_crc 2 REF_6BIT poly init refIn xorOut buffer len"
  "CheckCrc7 poly init refIn refOut xorOut buffer len = narrow_crc 1 REF_7BIT poly init refIn xorOut buffer len"
  unfolding CheckCrc4_def CheckCrc5_def CheckCrc6_def CheckCrc7_def narrow_crc_def Let_def by (rule refl)+

lemma narrow_crc_fits:
  assumes r: "narrow_crc k mode p c rin x buffer len = Some r"
    and w: "ref_bits mode = w" "k + w = 8" and c: "unat c < 2 ^ w" and x: "unat x < 2 ^ w"
  shows "unat r < 2 ^ w"
proof (cases rin)
  case True
  with r obtain s where s: "bytes_loop (\<lambda>crc b. (lsb_step (ucast (ReflectedData (ucast p) mode)) ^^ 8) (crc XOR b))
      (unat len) buffer c = Some s" and rs: "r = s XOR x"
    by (auto simp: narrow_crc_def)
  have "bit s i \<Longrightarrow> i < w" for i
  proof (rule crc_lsb_bound [OF s])
    show "i < w" if "bit (ucast (ReflectedData (ucast p) mode) :: u8) i" for i
      using that w by (simp add: bit_simps bit_ReflectedData)
    show "i < w" if "bit c i" for i using c that unat_less_power_iff by blast
  qed
  with rs x show ?thesis by (auto simp: unat_less_power_iff bit_simps)
next
  case False
  with r obtain s where rs: "r = drop_bit k s XOR x"
    by (auto simp: narrow_crc_def)
  have "i < w" if "bit r i" for i
    using that x w(2) bit_u8_less [of s "k + i"] unfolding rs
    by (auto simp: unat_less_power_iff bit_simps)
  then show ?thesis by (simp add: unat_less_power_iff)
qed

lemma narrow_crc_fits_u32:
  assumes "map_option ucast (narrow_crc k mode p (ucast c) rin (ucast x) buffer len) = Some r"
    and "ref_bits mode = w" "k + w = 8" and "unat (c :: u32) < 2 ^ w" and "unat (x :: u32) < 2 ^ w"
  shows "unat (r :: u32) < 2 ^ w"
  using assms narrow_crc_fits [of k mode p "ucast c" rin "ucast x" buffer len _ w]
  by (auto intro: ucast_up_less simp: unat_ucast_less)

section \<open>Properties\<close>

text \<open>
  \<open>ReflectedData\<close> mirrors the low bits of its argument: with a mode of \<open>n\<close> bits, bit \<open>i\<close> of
  the result is bit \<open>n - 1 - i\<close> of the data for \<open>i < n\<close>, and every higher bit is clear.
\<close>

theorem ReflectedData_mirrors:
  "bit (ReflectedData d mode) i \<longleftrightarrow> i < ref_bits mode \<and> bit d (ref_bits mode - 1 - i)"
  by (rule bit_ReflectedData)

text \<open>
  C38: for a buffer of fewer than \<open>2 ^ 32\<close> bytes and its own length, \<open>calculate_crc32\<close>
  returns the CRC-32 of the whole buffer in the usual reflected form (polynomial
  \<open>0xEDB88320\<close>, shifting right, all-ones start value and final complement).
\<close>

theorem calculate_crc32_correct:
  assumes "length data < 2 ^ 32"
  shows "calculate_crc32 data (of_nat (length data)) = Some (crc32_spec data)"
proof -
  have "unat (ucast (of_nat (length data) :: u64) :: u32) = length data"
    using assms by (simp add: unat_ucast_of_nat)
  then show ?thesis by (simp add: calculate_crc32_eq_spec)
qed

theorem calculate_crc32_correct_witness:
  "calculate_crc32 [0x31, 0x32, 0x33, 0x34, 0x35, 0x36, 0x37, 0x38, 0x39] 9 = Some 0xCBF43926"
  using calculate_crc32_correct [of "[0x31, 0x32, 0x33, 0x34, 0x35, 0x36, 0x37, 0x38, 0x39]"]
  by (simp add: crc32_spec_def crc32_byte_def funpow_8 lsb_step32_def)

text \<open>
  C39: error detection. Two buffers of the same length that differ only inside a window of
  at most four bytes never have the same \<open>calculate_crc32\<close>, so the readers' comparison
  of the computed and the stored checksum catches every such corruption.
\<close>

theorem calculate_crc32_detects_burst:
  assumes "length (p @ x @ s) < 2 ^ 32"
    and "length y = length x" and "length x \<le> 4" and "x \<noteq> y"
  shows "calculate_crc32 (p @ x @ s) (of_nat (length (p @ x @ s))) \<noteq>
         calculate_crc32 (p @ y @ s) (of_nat (length (p @ y @ s)))"
proof -
  have "unat (ucast (of_nat (length (p @ x @ s)) :: u64) :: u32) = length (p @ x @ s)"
    using assms(1) by (rule unat_ucast_of_nat)
  moreover have "length (p @ y @ s) = length (p @ x @ s)" using assms(2) by simp
  ultimately show ?thesis
    using assms crc32_spec_burst [of x y p s] by (simp add: calculate_crc32_eq_spec)
qed

theorem calculate_crc32_detects_burst_witness:
  "calculate_crc32 [1, 2, 3] 3 \<noteq> calculate_crc32 [1, 7, 3] 3"
  using calculate_crc32_detects_burst [of "[1]" "[2]" "[3]" "[7]"] by simp

text \<open>
  the result of \<open>CrcCheck\<close> is a value of the width asked for, whenever the initial
  value and the final XOR are, for every width the dispatcher knows (any other width gives 0).
\<close>

theorem CrcCheck_fits_width:
  assumes r: "CrcCheck t buffer len = Some r"
    and i: "unat (ct_init t) < 2 ^ unat (ct_width t)" and x: "unat (ct_xorOut t) < 2 ^ unat (ct_width t)"
  shows "unat r < 2 ^ unat (ct_width t)"
proof -
  have narrow: ?thesis
    if "CrcCheck t buffer len = map_option ucast (narrow_crc k mode (ucast (ct_poly t))
          (ucast (ct_init t)) (ct_refIn t) (ucast (ct_xorOut t)) buffer len)"
      and "ref_bits mode = unat (ct_width t)" "k + unat (ct_width t) = 8" for k mode
    using narrow_crc_fits_u32 [OF _ that(2,3) i x] r that(1) by simp
  consider (4) "ct_width t = 4" | (5) "ct_width t = 5" | (6) "ct_width t = 6" | (7) "ct_width t = 7"
    | (8) "ct_width t = 8" | (16) "ct_width t = 16" | (32) "ct_width t = 32"
    | (other) "ct_width t \<notin> {4,5,6,7,8,16,32}" by blast
  then show ?thesis
  proof cases
    case 4 then show ?thesis by (intro narrow [of 4 REF_4BIT]) (simp_all add: CrcCheck_def CheckCrc_narrow)
  next
    case 5 then show ?thesis by (intro narrow [of 3 REF_5BIT]) (simp_all add: CrcCheck_def CheckCrc_narrow)
  next
    case 6 then show ?thesis by (intro narrow [of 2 REF_6BIT]) (simp_all add: CrcCheck_def CheckCrc_narrow)
  next
    case 7 then show ?thesis by (intro narrow [of 1 REF_7BIT]) (simp_all add: CrcCheck_def CheckCrc_narrow)
  next
    case 8 then show ?thesis using r ucast_word_bound [where 'a = 8] by (auto simp: CrcCheck_def)
  next
    case 16 then show ?thesis using r ucast_word_bound [where 'a = 16] by (auto simp: CrcCheck_def)
  next
    case 32 then show ?thesis using unsigned_less [of r] by simp
  next
    case other then show ?thesis using r by (simp add: CrcCheck_def)
  qed
qed

theorem CrcCheck_fits_width_witness:
  "CrcCheck \<lparr>ct_width = 4, ct_poly = 3, ct_init = 0, ct_refIn = True, ct_refOut = True,
             ct_xorOut = 0\<rparr> [0x31, 0x32] 2 = Some 13 \<and> unat (13 :: u32) < 2 ^ 4"
proof -
  have two: "unat (2 :: u32) = Suc (Suc 0)" by simp
  have p: "ucast (ReflectedData (ucast (3 :: u8)) REF_4BIT) = (0xC :: u8)"
    by (simp add: ReflectedData_def)
  have "CheckCrc4 3 0 True True 0 [0x31, 0x32] 2 = Some 13"
    unfolding CheckCrc4_def Let_def if_True two p bytes_loop.simps list.case
    by (simp add: funpow_8 lsb_step_def)
  then have "CrcCheck \<lparr>ct_width = 4, ct_poly = 3, ct_init = 0, ct_refIn = True,
      ct_refOut = True, ct_xorOut = 0\<rparr> [0x31, 0x32] 2 = Some 13"
    by (simp add: CrcCheck_def)
  then show ?thesis using CrcCheck_fits_width [of _ "[0x31, 0x32]" 2 13] by fastforce
qed

text \<open>
  memory safety of the byte loops. For the supported widths \<open>CrcCheck\<close> reads past the
  end of the buffer exactly when the length it is given exceeds the buffer.
\<close>

theorem CrcCheck_reads:
  assumes "ct_width t \<in> {4,5,6,7,8,16,32}"
  shows "CrcCheck t buffer len = None \<longleftrightarrow> length buffer < unat len"
proof -
  have lp: "bytes_loop body (unat len) buffer s = None \<longleftrightarrow> length buffer < unat len" for body :: "'s \<Rightarrow> u8 \<Rightarrow> 's" and s
    using bytes_loop_foldl [of "unat len" buffer body s] bytes_loop_overrun [of buffer "unat len" body s]
    by (cases "length buffer < unat len") auto
  show ?thesis
    using assms
    by (auto simp: CrcCheck_def CheckCrc_narrow narrow_crc_def CheckCrc8_def CheckCrc16_def CheckCrc32_def lp)
qed

theorem CrcCheck_reads_witness:
  "CrcCheck \<lparr>ct_width = 16, ct_poly = 0x1021, ct_init = 0, ct_refIn = False, ct_refOut = False,
             ct_xorOut = 0\<rparr> [1, 2] 3 = None"
  using CrcCheck_reads [of "\<lparr>ct_width = 16, ct_poly = 0x1021, ct_init = 0, ct_refIn = False,
     ct_refOut = False, ct_xorOut = 0\<rparr>" "[1, 2]" 3] by simp

end
