(* ===== verification/Hash_KV.thy ===== *)
theory Hash_KV
  imports Prelude "HOL-Library.Signed_Division"
begin

unbundle bit_operations_syntax

text \<open>
  The chained hash table of \<^verbatim>\<open>cxl_memory_sharing/hash_kv.c\<close>, in an explicit heap of nodes:
  a pointer is an address (0 is \<open>NULL\<close>), a read through a pointer to no node is \<open>None\<close>, and so
  is an access outside the 256 list. The result of each \<open>malloc\<close> is an argument. The lemmas
  show that on non-negative keys the table is a finite map with \<open>-1\<close> for absent keys, that the
  loops end, and that \<open>freeHashTable\<close> frees every node exactly once.
\<close>

section \<open>Model\<close>

type_synonym ptr = nat
type_synonym long = u64

definition TABLE_SIZE :: nat where
  "TABLE_SIZE = 256"

record Node =
  key :: long
  "value" :: long
  "next" :: ptr

type_synonym node_heap = "ptr \<rightharpoonup> Node"

record HashTable =
  list :: "ptr list"

text \<open>\<open>key % TABLE_SIZE\<close> on \<open>long int\<close> truncates towards zero; the result becomes \<open>unsigned long\<close>.\<close>

definition hashFunction :: "long \<Rightarrow> u64" where
  "hashFunction k = word_of_int (sint k smod int TABLE_SIZE)"

definition createHashTable :: "bool \<Rightarrow> HashTable option" where
  "createHashTable malloc_ok =
    (if malloc_ok then Some \<lparr>list = replicate TABLE_SIZE 0\<rparr> else None)"

text \<open>
  The search loop of \<open>setKeyValue\<close>: \<open>Some (Some h)\<close> after an update in place, \<open>Some None\<close> when
  the end of the chain is reached.
\<close>

partial_function (option) set_loop :: "node_heap \<Rightarrow> ptr \<Rightarrow> long \<Rightarrow> long \<Rightarrow> node_heap option option" where
  "set_loop h node k v =
    (if node = 0 then Some None
     else Option.bind (h node) (\<lambda>n.
       if key n = k then Some (Some (h(node \<mapsto> n\<lparr>value := v\<rparr>)))
       else set_loop h (next n) k v))"

declare set_loop.simps [code]

definition setKeyValue ::
    "HashTable option \<Rightarrow> node_heap \<Rightarrow> ptr option \<Rightarrow> long \<Rightarrow> long \<Rightarrow> (HashTable option \<times> node_heap) option" where
  "setKeyValue table h new_node k v =
    (case table of
       None \<Rightarrow> Some (table, h)
     | Some t \<Rightarrow>
        (let index = unat (hashFunction k) in
         if index < length (list t) then
           (case set_loop h (list t ! index) k v of
              None \<Rightarrow> None
            | Some (Some h') \<Rightarrow> Some (table, h')
            | Some None \<Rightarrow>
               (case new_node of
                  None \<Rightarrow> Some (table, h)
                | Some a \<Rightarrow> Some (Some (t\<lparr>list := (list t)[index := a]\<rparr>),
                    h(a \<mapsto> \<lparr>key = k, value = v, next = list t ! index\<rparr>))))
         else None))"

partial_function (option) get_loop :: "node_heap \<Rightarrow> ptr \<Rightarrow> long \<Rightarrow> long option" where
  "get_loop h node k =
    (if node = 0 then Some (-1)
     else Option.bind (h node) (\<lambda>n.
       if key n = k then Some (value n) else get_loop h (next n) k))"

declare get_loop.simps [code]

definition getKeyValue :: "HashTable option \<Rightarrow> node_heap \<Rightarrow> long \<Rightarrow> long option" where
  "getKeyValue table h k =
    (case table of
       None \<Rightarrow> Some (-1)
     | Some t \<Rightarrow>
        (let index = unat (hashFunction k) in
         if index < length (list t) then get_loop h (list t ! index) k else None))"

text \<open>The inner loop of \<open>freeHashTable\<close>: \<open>temp = node; node = node->next; free (temp)\<close>.\<close>

partial_function (option) free_chain :: "node_heap \<Rightarrow> ptr \<Rightarrow> node_heap option" where
  "free_chain h node =
    (if node = 0 then Some h
     else Option.bind (h node) (\<lambda>n. free_chain (h(node := None)) (next n)))"

declare free_chain.simps [code]

text \<open>
  \<open>freeHashTable\<close> frees the chains bucket by bucket; the table itself is not a node of the heap, and
  its own \<open>free\<close> ends the life of the argument.
\<close>

definition freeHashTable :: "HashTable option \<Rightarrow> node_heap \<Rightarrow> node_heap option" where
  "freeHashTable table h =
    (case table of
       None \<Rightarrow> Some h
     | Some t \<Rightarrow>
        fold (\<lambda>i r. Option.bind r (\<lambda>h. free_chain h (list t ! i))) [0..<TABLE_SIZE] (Some h))"

section \<open>Specification: a finite map\<close>

primrec chain :: "node_heap \<Rightarrow> ptr \<Rightarrow> ptr list \<Rightarrow> bool" where
  "chain h p [] \<longleftrightarrow> p = 0"
| "chain h p (a # as) \<longleftrightarrow> p = a \<and> a \<noteq> 0 \<and> (\<exists>n. h a = Some n \<and> chain h (next n) as)"

definition entries :: "node_heap \<Rightarrow> ptr list \<Rightarrow> (long \<times> long) list" where
  "entries h as = map (\<lambda>a. (key (the (h a)), value (the (h a)))) as"

definition bucket_of :: "long \<Rightarrow> nat" where
  "bucket_of k = unat (hashFunction k)"

definition table_repr :: "HashTable \<Rightarrow> node_heap \<Rightarrow> (nat \<Rightarrow> ptr list) \<Rightarrow> bool" where
  "table_repr t h A \<longleftrightarrow>
     length (list t) = TABLE_SIZE \<and>
     (\<forall>i < TABLE_SIZE. chain h (list t ! i) (A i) \<and> distinct (A i) \<and>
        distinct (map fst (entries h (A i))) \<and>
        (\<forall>k \<in> fst ` set (entries h (A i)). bucket_of k = i)) \<and>
     (\<forall>i < TABLE_SIZE. \<forall>j < TABLE_SIZE. i \<noteq> j \<longrightarrow> set (A i) \<inter> set (A j) = {})"

definition table_nodes :: "(nat \<Rightarrow> ptr list) \<Rightarrow> ptr set" where
  "table_nodes A = (\<Union>i<TABLE_SIZE. set (A i))"

text \<open>
  \<open>table_ok h0 t h m\<close>: the table holds the map \<open>m\<close> (on non-negative keys), and the heap is \<open>h0\<close>
  apart from the nodes of the table.
\<close>

definition table_ok :: "node_heap \<Rightarrow> HashTable \<Rightarrow> node_heap \<Rightarrow> (long \<rightharpoonup> long) \<Rightarrow> bool" where
  "table_ok h0 t h m \<longleftrightarrow>
     (\<exists>A. table_repr t h A \<and> h |` (- table_nodes A) = h0 \<and>
        (\<forall>k. 0 \<le> sint k \<longrightarrow> m k = map_of (entries h (A (bucket_of k))) k))"


definition lookup_default :: "(long \<rightharpoonup> long) \<Rightarrow> long \<Rightarrow> long" where
  "lookup_default m k = (case m k of None \<Rightarrow> -1 | Some v \<Rightarrow> v)"

lemma sint_nonneg_unat: "0 \<le> sint (k :: long) \<Longrightarrow> sint k = int (unat k)"
proof -
  assume "0 \<le> sint k"
  moreover have "sint k < 2 ^ 64" using sint_lt [of k] by simp
  ultimately have "uint k = sint k"
    unfolding uint_sint by (intro take_bit_int_eq_self) simp_all
  then show ?thesis by (simp add: uint_nat [symmetric])
qed

lemma smod_nonneg: "0 \<le> k \<Longrightarrow> 0 < l \<Longrightarrow> k smod l = k mod (l :: int)"
  by (cases "k = 0") (auto simp: signed_modulo_int_def)

lemma bucket_of_nonneg: "0 \<le> sint k \<Longrightarrow> bucket_of k = unat k mod 256"
proof -
  assume k: "0 \<le> sint k"
  then have "sint k smod 256 = int (unat k mod 256)"
    by (simp only: smod_nonneg) (simp add: sint_nonneg_unat [OF k] zmod_int)
  then have "bucket_of k = unat (of_nat (unat k mod 256) :: u64)"
    by (simp add: bucket_of_def hashFunction_def TABLE_SIZE_def)
  also have "\<dots> = unat k mod 256" by (simp add: unat_of_nat)
  finally show ?thesis .
qed

lemma bucket_of_less: "0 \<le> sint k \<Longrightarrow> bucket_of k < TABLE_SIZE"
  by (simp add: bucket_of_nonneg TABLE_SIZE_def)

lemma entries_simps [simp]: "entries h [] = []" 
  "entries h (a # as) = (key (the (h a)), value (the (h a))) # entries h as"
  by (simp_all add: entries_def)

lemma chain_dom: "chain h p as \<Longrightarrow> a \<in> set as \<Longrightarrow> a \<in> dom h \<and> a \<noteq> 0"
  by (induction as arbitrary: p) auto

lemma chain_upd: "a \<notin> set as \<Longrightarrow> chain (h(a := x)) p as = chain h p as"
  by (induction as arbitrary: p) auto

lemma entries_upd: "a \<notin> set as \<Longrightarrow> entries (h(a := x)) as = entries h as"
  by (induction as) auto

lemma get_loop_chain: "chain h p as \<Longrightarrow> get_loop h p k = Some (lookup_default (map_of (entries h as)) k)"
proof (induction as arbitrary: p)
  case Nil
  then show ?case by (subst get_loop.simps) (simp add: lookup_default_def)
next
  case (Cons a as)
  then show ?case by (subst get_loop.simps) (auto simp: lookup_default_def)
qed

lemma set_loop_absent: "chain h p as \<Longrightarrow> k \<notin> fst ` set (entries h as) \<Longrightarrow> set_loop h p k v = Some None"
proof (induction as arbitrary: p)
  case Nil
  then show ?case by (subst set_loop.simps) simp
next
  case (Cons a as)
  then show ?case by (subst set_loop.simps) auto
qed

lemma set_loop_present:
  "chain h p as \<Longrightarrow> k \<in> fst ` set (entries h as) \<Longrightarrow> \<exists>a n. a \<in> set as \<and> h a = Some n \<and> key n = k \<and>
     set_loop h p k v = Some (Some (h(a \<mapsto> n\<lparr>value := v\<rparr>)))"
proof (induction as arbitrary: p)
  case Nil
  then show ?case by simp
next
  case (Cons a as)
  then obtain n where n: "h a = Some n" "p = a" "a \<noteq> 0" "chain h (next n) as" by auto
  show ?case
  proof (cases "key n = k")
    case True
    then show ?thesis using n by (subst set_loop.simps) auto
  next
    case False
    then have "k \<in> fst ` set (entries h as)" using Cons.prems n by auto
    with Cons.IH [OF n(4)] obtain a' n' where "a' \<in> set as" "h a' = Some n'" "key n' = k"
       "set_loop h (next n) k v = Some (Some (h(a' \<mapsto> n'\<lparr>value := v\<rparr>)))" by blast
    then show ?thesis using n False by (subst set_loop.simps) auto
  qed
qed

lemma chain_set_value:
  "h a = Some n \<Longrightarrow> chain (h(a \<mapsto> n\<lparr>value := v\<rparr>)) p as = chain h p as"
  by (induction as arbitrary: p) auto

lemma keys_set_value:
  "h a = Some n \<Longrightarrow> map fst (entries (h(a \<mapsto> n\<lparr>value := v\<rparr>)) as) = map fst (entries h as)"
  by (induction as) auto

lemma map_of_set_value:
  assumes "h a = Some n" "distinct (map fst (entries h as))" "a \<in> set as"
  shows "map_of (entries (h(a \<mapsto> n\<lparr>value := v\<rparr>)) as) = (map_of (entries h as))(key n \<mapsto> v)"
  using assms(2,3)
proof (induction as)
  case (Cons b as)
  show ?case
  proof (cases "b = a")
    case True
    then have "a \<notin> set as" using Cons.prems(1) assms(1) by (auto simp: entries_def image_iff)
    then have "entries (h(a \<mapsto> n\<lparr>value := v\<rparr>)) as = entries h as" by (rule entries_upd)
    then show ?thesis using True assms(1) by (simp del: fun_upd_apply add: fun_upd_same)
  next
    case False
    then have "key (the (h b)) \<noteq> key n" using Cons.prems assms(1) by (force simp: entries_def image_iff)
    then show ?thesis using Cons False by (auto simp: fun_upd_twist)
  qed
qed simp

lemma table_ok_get:
  assumes "table_ok h0 t h m" "0 \<le> sint k"
  shows "getKeyValue (Some t) h k = Some (lookup_default m k)"
proof -
  obtain A where A: "table_repr t h A" "m k = map_of (entries h (A (bucket_of k))) k"
    using assms by (auto simp: table_ok_def)
  have b: "bucket_of k < TABLE_SIZE" using assms(2) by (rule bucket_of_less)
  then have "chain h (list t ! bucket_of k) (A (bucket_of k))" using A by (auto simp: table_repr_def)
  from get_loop_chain [OF this] show ?thesis
    using A b by (simp add: getKeyValue_def bucket_of_def Let_def table_repr_def lookup_default_def)
qed

lemma table_repr_disjoint:
  "table_repr t h A \<Longrightarrow> i < TABLE_SIZE \<Longrightarrow> j < TABLE_SIZE \<Longrightarrow> i \<noteq> j \<Longrightarrow> set (A i) \<inter> set (A j) = {}"
  by (simp add: table_repr_def)

lemma table_repr_set_value:
  assumes "table_repr t h A" "h a = Some n"
  shows "table_repr t (h(a \<mapsto> n\<lparr>value := v\<rparr>)) A"
proof -
  have "fst ` set (entries (h(a \<mapsto> n\<lparr>value := v\<rparr>)) as) = fst ` set (entries h as)" for as
    using keys_set_value [where h = h and a = a and n = n and v = v and as = as, OF assms(2)] by (metis set_map)
  then show ?thesis
    using assms by (simp add: table_repr_def chain_set_value keys_set_value)
qed

lemma frame_set_value:
  "a \<in> set (A i) \<Longrightarrow> i < TABLE_SIZE \<Longrightarrow> (h(a := x)) |` (- table_nodes A) = h |` (- table_nodes A)"
  by (auto simp: table_nodes_def restrict_map_def fun_eq_iff)

lemma frame_insert:
  "h a = None \<Longrightarrow> i < TABLE_SIZE \<Longrightarrow>
    (h(a := x)) |` (- table_nodes (A(i := a # A i))) = h |` (- table_nodes A)"
  by (auto simp: table_nodes_def restrict_map_def fun_eq_iff split: if_splits)

lemma table_repr_insert:
  assumes r: "table_repr t h A" and a: "a \<noteq> 0" "h a = None" and i: "bucket_of k = i" "i < TABLE_SIZE"
    and k: "k \<notin> fst ` set (entries h (A i))"
  shows "table_repr (t\<lparr>list := (list t)[i := a]\<rparr>)
     (h(a \<mapsto> \<lparr>key = k, value = v, next = list t ! i\<rparr>)) (A(i := a # A i))"
proof -
  have fresh: "a \<notin> set (A j)" if "j < TABLE_SIZE" for j
    using r that a chain_dom [of h "list t ! j" "A j" a] by (auto simp: table_repr_def)
  then show ?thesis
    using assms unfolding table_repr_def
    by (auto simp: chain_upd entries_upd nth_list_update)
qed

lemma table_ok_set:
  assumes ok: "table_ok h0 t h m" and k: "0 \<le> sint k"
    and new: "\<And>a. new_node = Some a \<Longrightarrow> a \<noteq> 0 \<and> h a = None"
  shows "\<exists>t' h'. setKeyValue (Some t) h new_node k v = Some (Some t', h') \<and>
     table_ok h0 t' h' (if k \<in> dom m \<or> new_node \<noteq> None then m(k \<mapsto> v) else m)"
proof -
  obtain A where A: "table_repr t h A" and fr: "h |` (- table_nodes A) = h0" and m: "\<And>k. 0 \<le> sint k \<Longrightarrow> m k = map_of (entries h (A (bucket_of k))) k"
    using ok by (auto simp: table_ok_def)
  let ?i = "bucket_of k"
  have i: "?i < TABLE_SIZE" using k by (rule bucket_of_less)
  have c: "chain h (list t ! ?i) (A ?i)" "distinct (map fst (entries h (A ?i)))" "length (list t) = TABLE_SIZE"
    using A i by (auto simp: table_repr_def)
  show ?thesis
  proof (cases "k \<in> fst ` set (entries h (A ?i))")
    case True
    from set_loop_present [OF c(1) True] obtain a n where an: "a \<in> set (A ?i)" "h a = Some n" "key n = k"
      "set_loop h (list t ! ?i) k v = Some (Some (h(a \<mapsto> n\<lparr>value := v\<rparr>)))" by blast
    let ?h = "h(a \<mapsto> n\<lparr>value := v\<rparr>)"
    have "(m(k \<mapsto> v)) k' = map_of (entries ?h (A (bucket_of k'))) k'" if k': "0 \<le> sint k'" for k'
    proof (cases "bucket_of k' = ?i")
      case True
      then show ?thesis using map_of_set_value [OF an(2) c(2) an(1), of v] m [OF k'] an(3) by (auto simp: fun_upd_def)
    next
      case False
      then have "a \<notin> set (A (bucket_of k'))"
        using A i bucket_of_less [OF k'] an(1) unfolding table_repr_def by blast
      then show ?thesis using False m [OF k'] by (auto simp: entries_upd)
    qed
    then have "table_ok h0 t ?h (m(k \<mapsto> v))"
      using table_repr_set_value [OF A an(2)] frame_set_value [of a A ?i h, OF an(1) i] fr
      unfolding table_ok_def by (intro exI [of _ A]) simp
    moreover have "k \<in> dom m" using True m [OF k] by (simp add: domIff map_of_eq_None_iff)
    ultimately show ?thesis
      using an(4) i c(3) by (simp add: setKeyValue_def bucket_of_def Let_def)
  next
    case False
    then have nk: "k \<notin> dom m" using m [OF k] by (auto simp: domIff map_of_eq_None_iff)
    have l: "set_loop h (list t ! ?i) k v = Some None" using c(1) False by (rule set_loop_absent)
    show ?thesis
    proof (cases new_node)
      case None
      then show ?thesis using l i c(3) ok nk by (simp add: setKeyValue_def bucket_of_def Let_def domIff)
    next
      case (Some a)
      let ?h = "h(a \<mapsto> \<lparr>key = k, value = v, next = list t ! ?i\<rparr>)" and ?A = "A(?i := a # A ?i)"
      have a: "a \<noteq> 0" "h a = None" using new Some by auto
      have fresh: "a \<notin> set (A j)" if "j < TABLE_SIZE" for j
        using A that a chain_dom [of h "list t ! j" "A j" a] by (auto simp: table_repr_def)
      have "(m(k \<mapsto> v)) k' = map_of (entries ?h (?A (bucket_of k'))) k'" if k': "0 \<le> sint k'" for k'
        using m [OF k'] fresh [OF bucket_of_less [OF k']] fresh [OF i] by (auto simp: entries_upd)
      then have "table_ok h0 (t\<lparr>list := (list t)[?i := a]\<rparr>) ?h (m(k \<mapsto> v))"
        using table_repr_insert [OF A a refl i False, of v] frame_insert [of h a ?i _ A, OF a(2) i] fr
        unfolding table_ok_def by (intro exI [of _ ?A]) simp
      then show ?thesis using l i c(3) Some by (simp add: setKeyValue_def bucket_of_def Let_def)
    qed
  qed
qed

lemma table_ok_create: "createHashTable True = Some t \<Longrightarrow> table_ok h t h Map.empty"
proof -
  assume "createHashTable True = Some t"
  then have "table_repr t h (\<lambda>_. [])" by (auto simp: createHashTable_def table_repr_def)
  then show ?thesis unfolding table_ok_def by (intro exI [of _ "\<lambda>_. []"]) (auto simp: table_nodes_def restrict_map_def)
qed

text \<open>freeing\<close>

lemma free_chain_frees:
  "chain h p as \<Longrightarrow> distinct as \<Longrightarrow> free_chain h p = Some (h |` (- set as))"
proof (induction as arbitrary: h p)
  case Nil
  then show ?case by (subst free_chain.simps) (simp add: restrict_map_def)
next
  case (Cons a as)
  then obtain n where n: "h a = Some n" "p = a" "a \<noteq> 0" "chain h (next n) as" by auto
  have "free_chain h p = free_chain (h(a := None)) (next n)"
    using n by (subst free_chain.simps) simp
  also have "\<dots> = Some ((h(a := None)) |` (- set as))"
    using Cons.prems n by (intro Cons.IH) (simp_all only: chain_upd distinct.simps not_False_eq_True simp_thms)
  also have "(h(a := None)) |` (- set as) = h |` (- set (a # as))"
    by (auto simp: restrict_map_def fun_eq_iff)
  finally show ?case .
qed

lemma chain_restrict: "set as \<inter> S = {} \<Longrightarrow> chain (h |` (- S)) p as = chain h p as"
  by (induction as arbitrary: p) auto

lemma free_list:
  assumes r: "table_repr t h A" and "n \<le> TABLE_SIZE"
  shows "fold (\<lambda>i r. Option.bind r (\<lambda>h. free_chain h (list t ! i))) [0..<n] (Some h) =
    Some (h |` (- (\<Union>i<n. set (A i))))"
  using assms(2)
proof (induction n)
  case 0
  then show ?case by simp
next
  case (Suc n)
  let ?S = "\<Union>i<n. set (A i)"
  have "chain (h |` (- ?S)) (list t ! n) (A n)" "distinct (A n)"
  proof -
    have "set (A n) \<inter> set (A i) = {}" if "i < n" for i
      using table_repr_disjoint [OF r] that Suc.prems by simp
    then have "set (A n) \<inter> ?S = {}" by blast
    then show "chain (h |` (- ?S)) (list t ! n) (A n)"
      using r Suc.prems by (simp only: chain_restrict) (simp add: table_repr_def)
    show "distinct (A n)" using r Suc.prems by (simp add: table_repr_def)
  qed
  then have "free_chain (h |` (- ?S)) (list t ! n) = Some (h |` (- ?S) |` (- set (A n)))"
    by (rule free_chain_frees)
  then show ?case using Suc by (simp add: restrict_restrict lessThan_Suc Un_commute Int_commute)
qed

lemma table_ok_free: "table_ok h0 t h m \<Longrightarrow> freeHashTable (Some t) h = Some h0"
  using free_list [OF _ order_refl] by (auto simp: table_ok_def table_nodes_def freeHashTable_def)

section \<open>The interface used by clients of the table\<close>

text \<open>
  A key-value store: \<open>holds s m\<close> says that \<open>s\<close> stores the map \<open>m\<close>; an update takes the result of the
  allocation it may need, and loses a new key when the allocation failed.
\<close>

locale kv_store =
  fixes lookup :: "'s \<Rightarrow> long \<Rightarrow> long option"
    and update :: "'s \<Rightarrow> ptr option \<Rightarrow> long \<Rightarrow> long \<Rightarrow> 's option"
    and holds :: "'s \<Rightarrow> (long \<rightharpoonup> long) \<Rightarrow> bool"
    and fresh :: "'s \<Rightarrow> ptr option \<Rightarrow> bool"
  assumes lookup_holds: "holds s m \<Longrightarrow> 0 \<le> sint k \<Longrightarrow> lookup s k = Some (lookup_default m k)"
    and update_holds: "holds s m \<Longrightarrow> 0 \<le> sint k \<Longrightarrow> fresh s a \<Longrightarrow>
      \<exists>s'. update s a k v = Some s' \<and> holds s' (if k \<in> dom m \<or> a \<noteq> None then m(k \<mapsto> v) else m)"

primrec kv_updates ::
    "('s \<Rightarrow> ptr option \<Rightarrow> long \<Rightarrow> long \<Rightarrow> 's option) \<Rightarrow> ('s \<Rightarrow> ptr) \<Rightarrow> (long \<times> long) list \<Rightarrow> 's \<Rightarrow> 's option" where
  "kv_updates update alloc [] s = Some s"
| "kv_updates update alloc (kv # kvs) s =
    Option.bind (update s (Some (alloc s)) (fst kv) (snd kv)) (kv_updates update alloc kvs)"

context kv_store
begin

lemma update_present:
  assumes "holds s m" "0 \<le> sint k" "fresh s a" "k \<in> dom m \<or> a \<noteq> None"
  obtains s' where "update s a k v = Some s'" "holds s' (m(k \<mapsto> v))"
  using update_holds [OF assms(1-3), of v] assms(4) by auto

lemma updates_hold:
  assumes "holds s m" "\<forall>k \<in> fst ` set kvs. 0 \<le> sint k" "\<And>s m. holds s m \<Longrightarrow> fresh s (Some (alloc s))"
  shows "\<exists>s'. kv_updates update alloc kvs s = Some s' \<and> holds s' (m ++ map_of (rev kvs))"
  using assms(1,2)
proof (induction kvs arbitrary: s m)
  case Nil
  then show ?case by simp
next
  case (Cons kv kvs)
  obtain k v where kv: "kv = (k, v)" by fastforce
  obtain s' where s': "update s (Some (alloc s)) k v = Some s'" "holds s' (m(k \<mapsto> v))"
    using Cons.prems kv assms(3) update_present [of s m k "Some (alloc s)" v] by auto
  have "m ++ map_of (rev (kv # kvs)) = m(k \<mapsto> v) ++ map_of (rev kvs)"
    by (simp add: kv)
  moreover have "\<exists>s''. kv_updates update alloc kvs s' = Some s'' \<and> holds s'' (m(k \<mapsto> v) ++ map_of (rev kvs))"
    using Cons.IH [where s = s' and m = "m(k \<mapsto> v)"] s'(2) Cons.prems(2) by (simp del: fun_upd_apply)
  ultimately show ?case using s'(1) kv by auto
qed

end

definition kv_get :: "HashTable option \<times> node_heap \<Rightarrow> long \<Rightarrow> long option" where
  "kv_get s k = getKeyValue (fst s) (snd s) k"

definition kv_set ::
    "HashTable option \<times> node_heap \<Rightarrow> ptr option \<Rightarrow> long \<Rightarrow> long \<Rightarrow> (HashTable option \<times> node_heap) option" where
  "kv_set s a k v = setKeyValue (fst s) (snd s) a k v"

definition kv_holds :: "node_heap \<Rightarrow> HashTable option \<times> node_heap \<Rightarrow> (long \<rightharpoonup> long) \<Rightarrow> bool" where
  "kv_holds h0 s m \<longleftrightarrow> (\<exists>t. fst s = Some t \<and> table_ok h0 t (snd s) m) \<and> finite (dom (snd s))"

text \<open>\<open>malloc\<close> returns a null pointer or the address of no live node.\<close>

definition kv_fresh :: "HashTable option \<times> node_heap \<Rightarrow> ptr option \<Rightarrow> bool" where
  "kv_fresh s new_node \<longleftrightarrow> (\<forall>a. new_node = Some a \<longrightarrow> a \<noteq> 0 \<and> snd s a = None)"

lemma set_loop_finite: "set_loop h p k v = Some (Some h') \<Longrightarrow> finite (dom h) \<Longrightarrow> finite (dom h')"
proof -
  have "\<forall>h'. r = Some h' \<longrightarrow> finite (dom h) \<longrightarrow> finite (dom h')" if "set_loop h p k v = Some r" for r
    using that by (rule set_loop.raw_induct [rotated]) (auto simp del: fun_upd_apply split: if_splits bind_splits)
  then show "set_loop h p k v = Some (Some h') \<Longrightarrow> finite (dom h) \<Longrightarrow> finite (dom h')" by simp
qed

lemma setKeyValue_finite:
  "setKeyValue t h a k v = Some (t', h') \<Longrightarrow> finite (dom h) \<Longrightarrow> finite (dom h')"
  by (auto simp: setKeyValue_def Let_def split: option.splits if_splits dest: set_loop_finite)

interpretation ht: kv_store kv_get kv_set "kv_holds h0" kv_fresh for h0
proof
  fix s m and k :: long
  assume "kv_holds h0 s m" "0 \<le> sint k"
  then show "kv_get s k = Some (lookup_default m k)"
    by (auto simp: kv_holds_def kv_get_def table_ok_get)
next
  fix s m a v and k :: long
  assume *: "kv_holds h0 s m" "0 \<le> sint k" "kv_fresh s a"
  then obtain t where t: "fst s = Some t" "table_ok h0 t (snd s) m" "finite (dom (snd s))"
    by (auto simp: kv_holds_def)
  obtain t' h' where "setKeyValue (Some t) (snd s) a k v = Some (Some t', h')"
    "table_ok h0 t' h' (if k \<in> dom m \<or> a \<noteq> None then m(k \<mapsto> v) else m)"
    using table_ok_set [OF t(2) *(2), of a v] *(3) unfolding kv_fresh_def by blast
  then show "\<exists>s'. kv_set s a k v = Some s' \<and> kv_holds h0 s' (if k \<in> dom m \<or> a \<noteq> None then m(k \<mapsto> v) else m)"
    using t setKeyValue_finite by (auto simp: kv_set_def kv_holds_def)
qed

lemma kv_holds_create: "createHashTable ok = Some t \<Longrightarrow> finite (dom h) \<Longrightarrow> kv_holds h (Some t, h) Map.empty"
  by (simp add: kv_holds_def table_ok_create createHashTable_def split: if_splits)

lemma filled_table:
  assumes "createHashTable True = Some t" "finite (dom h)"
    and "\<And>t h. finite (dom h) \<Longrightarrow> kv_fresh (t, h) (Some (alloc (t, h)))"
    and "\<forall>k \<in> fst ` set kvs. 0 \<le> sint k"
  shows "\<exists>s'. kv_updates kv_set alloc kvs (Some t, h) = Some s' \<and> kv_holds h s' (map_of (rev kvs))"
proof -
  have "kv_fresh s (Some (alloc s))" if "kv_holds h s m" for s m
    using that assms(3) [of "snd s" "fst s"] by (simp add: kv_holds_def)
  then show ?thesis
    using ht.updates_hold [of h "(Some t, h)" Map.empty kvs alloc] kv_holds_create [OF assms(1,2)] assms(4) by simp
qed

text \<open>An allocator that meets the requirement: the first free address.\<close>

definition first_free :: "HashTable option \<times> node_heap \<Rightarrow> ptr" where
  "first_free s = (LEAST a. a \<noteq> 0 \<and> snd s a = None)"

lemma first_free_fresh: "finite (dom h) \<Longrightarrow> kv_fresh (t, h) (Some (first_free (t, h)))"
proof -
  assume "finite (dom h)"
  then have "\<exists>a. a \<notin> insert 0 (dom h)" using ex_new_if_finite [of "insert 0 (dom h)"] by simp
  then have "\<exists>a. a \<noteq> 0 \<and> h a = None" by (auto simp: dom_def)
  from LeastI_ex [OF this] show ?thesis by (simp add: kv_fresh_def first_free_def)
qed

lemma hashFunction_negative:
  assumes "sint k < 0" "sint k mod 256 \<noteq> 0"
  shows "256 \<le> unat (hashFunction k)"
proof -
  define r where "r = sint k smod 256"
  have "0 < (- sint k) mod 256" using assms(2) by presburger
  then have r: "- 256 < r" "r < 0" using assms by (auto simp: r_def smod_int_alt_def sgn_if)
  then have "r mod 2 ^ 64 = r + 2 ^ 64"
    using mod_add_self2 [of r "2 ^ 64"] mod_pos_pos_trivial [of "r + 2 ^ 64" "2 ^ 64"] by simp
  then have "int (unat (hashFunction k)) = r + 2 ^ 64"
    by (simp add: hashFunction_def TABLE_SIZE_def r_def [symmetric] uint_word_of_int)
  moreover have "(256 :: int) \<le> r + 2 ^ 64" using r(1) by simp
  ultimately have "int 256 \<le> int (unat (hashFunction k))" by simp
  then show ?thesis by (simp only: of_nat_le_iff)
qed

section \<open>Properties\<close>

text \<open>
  C37: A table filled by any sequence of \<open>setKeyValue\<close> calls with non-negative keys, every \<open>malloc\<close>
  succeeding, answers every \<open>getKeyValue\<close> with the last value stored under the key, or with -1; no
  call fails to return or leaves the table.
\<close>

theorem hash_table_refines_map:
  assumes "createHashTable True = Some t" "finite (dom h)"
    and "\<And>t h. finite (dom h) \<Longrightarrow> kv_fresh (t, h) (Some (alloc (t, h)))"
    and "\<forall>k \<in> fst ` set kvs. 0 \<le> sint k" "0 \<le> sint k"
  shows "\<exists>t' h'. kv_updates kv_set alloc kvs (Some t, h) = Some (t', h') \<and>
     getKeyValue t' h' k = Some (lookup_default (map_of (rev kvs)) k)"
proof -
  obtain s' where s': "kv_updates kv_set alloc kvs (Some t, h) = Some s'" "kv_holds h s' (map_of (rev kvs))"
    using filled_table [OF assms(1-4)] by blast
  moreover have "getKeyValue (fst s') (snd s') k = Some (lookup_default (map_of (rev kvs)) k)"
    using ht.lookup_holds [OF s'(2) assms(5)] by (simp add: kv_get_def)
  ultimately show ?thesis by (cases s') auto
qed

theorem hash_table_refines_map_witness:
  "\<exists>t' h'. kv_updates kv_set first_free [(5, 1), (261, 2), (5, 3)] (Some \<lparr>list = replicate TABLE_SIZE 0\<rparr>, Map.empty) =
       Some (t', h') \<and> getKeyValue t' h' 5 = Some 3"
  using hash_table_refines_map [of "\<lparr>list = replicate TABLE_SIZE 0\<rparr>" Map.empty first_free "[(5, 1), (261, 2), (5, 3)]" 5]
  by (simp add: createHashTable_def first_free_fresh lookup_default_def)

text \<open>
  \<open>freeHashTable\<close> after any such sequence releases exactly the nodes that the table allocated: it
  never reads or frees a freed node, and the heap is what it was before the table was filled.
\<close>

theorem freeHashTable_restores_heap:
  assumes "createHashTable True = Some t" "finite (dom h)"
    and "\<And>t h. finite (dom h) \<Longrightarrow> kv_fresh (t, h) (Some (alloc (t, h)))"
    and "\<forall>k \<in> fst ` set kvs. 0 \<le> sint k"
  shows "\<exists>t' h'. kv_updates kv_set alloc kvs (Some t, h) = Some (t', h') \<and> freeHashTable t' h' = Some h"
proof -
  obtain s' where s': "kv_updates kv_set alloc kvs (Some t, h) = Some s'" "kv_holds h s' (map_of (rev kvs))"
    using filled_table [OF assms] by blast
  then show ?thesis by (cases s') (auto simp: kv_holds_def table_ok_free)
qed

theorem freeHashTable_restores_heap_witness:
  "\<exists>t' h'. kv_updates kv_set first_free [(5, 1), (261, 2)] (Some \<lparr>list = replicate TABLE_SIZE 0\<rparr>, Map.empty) =
       Some (t', h') \<and> freeHashTable t' h' = Some Map.empty"
  using freeHashTable_restores_heap [of "\<lparr>list = replicate TABLE_SIZE 0\<rparr>" Map.empty first_free "[(5, 1), (261, 2)]"]
  by (simp add: createHashTable_def first_free_fresh)

text \<open>
  A negative key that is not a multiple of 256 indexes outside the bucket array, in \<open>getKeyValue\<close>
  and in \<open>setKeyValue\<close>: \<open>hashFunction\<close> converts the negative remainder to a huge unsigned index.
\<close>

theorem negative_key_out_of_bounds:
  assumes "sint k < 0" "sint k mod 256 \<noteq> 0" "length (list t) = TABLE_SIZE"
  shows "getKeyValue (Some t) h k = None \<and> setKeyValue (Some t) h a k v = None"
  using hashFunction_negative [OF assms(1,2)] assms(3)
  by (simp add: getKeyValue_def setKeyValue_def Let_def TABLE_SIZE_def)

theorem negative_key_out_of_bounds_witness:
  "getKeyValue (Some \<lparr>list = replicate TABLE_SIZE 0\<rparr>) Map.empty (-1) = None"
  using negative_key_out_of_bounds [of "-1" "\<lparr>list = replicate TABLE_SIZE 0\<rparr>" Map.empty] by simp

end
