(* ===== verification/Lock_Service.thy ===== *)
theory Lock_Service
  imports Hash_KV
begin

unbundle bit_operations_syntax

text \<open>
  The lock service of \<^verbatim>\<open>cxl_memory_sharing/lock_service.c\<close> and its clients
  (\<^verbatim>\<open>cxl_memory_sharing/lock.c\<close>). The server handler is written over the two operations of a key-value
  store that it calls, and instantiated with the hash table of theory \<open>Hash_KV\<close>; it is proved
  to refine a reader/writer lock specification. Clients and server exchange 32-bit messages over
  FIFO connections; the step relation interleaves them, with the failures that their calls can have, and mutual exclusion is proved for every
  reachable state in which nothing has failed.
\<close>

section \<open>Model\<close>

datatype lock_type = RELEASE_LOCK | READ_LOCK | WRITE_LOCK | ERROR_LOCK

primrec lock_code :: "lock_type \<Rightarrow> u32" where
  "lock_code RELEASE_LOCK = 0"
| "lock_code READ_LOCK = 1"
| "lock_code WRITE_LOCK = 2"
| "lock_code ERROR_LOCK = 3"

subsection \<open>The clients\<close>

text \<open>\<open>uuid << 2 | type\<close>, the message of every client function.\<close>

definition lock_request :: "u32 \<Rightarrow> lock_type \<Rightarrow> u32" where
  "lock_request uuid t = push_bit 2 uuid OR lock_code t"

text \<open>
  The loops of \<open>writelock\<close> and \<open>readlock\<close> on the results of the successive \<open>read\<close>s: \<open>Some v\<close> stores
  \<open>v\<close> in \<open>lock\<close>, \<open>None\<close> is a failed read that leaves \<open>lock\<close> as it was sent. The value is the list of
  messages sent until the function returns, or \<open>None\<close> when it is still looping.
\<close>

primrec request_loop :: "u32 \<Rightarrow> u32 option list \<Rightarrow> u32 list option" where
  "request_loop msg [] = None"
| "request_loop msg (r # rs) =
    (let lock = (case r of None \<Rightarrow> msg | Some v \<Rightarrow> v) in
     if lock = 1 then Some [msg] else map_option ((#) msg) (request_loop msg rs))"

definition writelock :: "u32 \<Rightarrow> u32 option list \<Rightarrow> u32 list option" where
  "writelock uuid replies = request_loop (lock_request uuid WRITE_LOCK) replies"

definition readlock :: "u32 \<Rightarrow> u32 option list \<Rightarrow> u32 list option" where
  "readlock uuid replies = request_loop (lock_request uuid READ_LOCK) replies"

definition releaselock :: "u32 \<Rightarrow> u32 list" where
  "releaselock uuid = [lock_request uuid RELEASE_LOCK]"

definition senderror :: "u32 \<Rightarrow> u32 list" where
  "senderror uuid = [lock_request uuid ERROR_LOCK]"

subsection \<open>The server\<close>

definition msg_indicator :: "u32 \<Rightarrow> u32" where
  "msg_indicator x = x AND 3"

definition msg_block :: "u32 \<Rightarrow> long" where
  "msg_block x = ucast (drop_bit 2 (x AND 0xfffffffc))"

text \<open>
  \<open>handle_lock\<close>: the new store and the reply written to the socket, if any. The shift \<open>value >> 1\<close>
  is arithmetic on a signed \<open>long\<close>.
\<close>

definition handle_lock ::
    "('s \<Rightarrow> long \<Rightarrow> long option) \<Rightarrow> ('s \<Rightarrow> ptr option \<Rightarrow> long \<Rightarrow> long \<Rightarrow> 's option) \<Rightarrow>
     's \<Rightarrow> ptr option \<Rightarrow> u32 \<Rightarrow> ('s \<times> u32 option) outcome" where
  "handle_lock get put myHashTable new_node x =
    (let indicator = msg_indicator x; blockid = msg_block x in
     case get myHashTable blockid of
       None \<Rightarrow> Undefined
     | Some val \<Rightarrow>
        (let store = (\<lambda>val reply.
               case put myHashTable new_node blockid val of
                 None \<Rightarrow> Undefined
               | Some table' \<Rightarrow> Done (table', reply)) in
         if indicator = lock_code WRITE_LOCK then
           if val = -1 \<or> val = 0 then store 1 (Some 1) else Done (myHashTable, Some 0)
         else if indicator = lock_code READ_LOCK then
           if val = 1 \<or> val = -1 then Done (myHashTable, Some 0)
           else store (push_bit 1 (signed_drop_bit 1 val + 1)) (Some 1)
         else if indicator = lock_code RELEASE_LOCK then
           if val = 1 then store 0 None
           else if val \<noteq> 0 \<and> val \<noteq> -1 then store (push_bit 1 (signed_drop_bit 1 val - 1)) None
           else Done (myHashTable, None)
         else Aborted))"

text \<open>
  The body of the \<open>select\<close> loop of \<open>main\<close>. A ready descriptor delivers an \<open>accept\<close> result on the
  listening socket, or the result of \<open>recv\<close> with the contents of \<open>x\<close> after it. \<open>rfds\<close> is the set
  \<open>select\<close> returned; \<open>FD_SET\<close> on a descriptor not below \<open>FD_SETSIZE\<close> is undefined.
\<close>

definition FD_SETSIZE :: nat where
  "FD_SETSIZE = 1024"

record 's server =
  store :: 's
  rfds_storage :: "nat \<Rightarrow> bool"
  max_fd :: nat
  closed :: "nat list"
  sent :: "(nat \<times> u32) list"

definition serve_fd ::
    "('s \<Rightarrow> ptr option \<Rightarrow> u32 \<Rightarrow> ('s \<times> u32 option) outcome) \<Rightarrow> nat \<Rightarrow> nat \<Rightarrow> nat option \<Rightarrow> int \<times> u32 \<Rightarrow>
     ptr option \<Rightarrow> 's server \<Rightarrow> 's server outcome" where
  "serve_fd handle sock_fd fd accepted received new_node st =
    (if fd = sock_fd then
       (case accepted of
          None \<Rightarrow> Done st
        | Some new_fd \<Rightarrow>
            if new_fd < FD_SETSIZE
            then Done (st\<lparr>rfds_storage := (rfds_storage st)(new_fd := True),
                   max_fd := (if new_fd \<le> max_fd st then max_fd st else new_fd)\<rparr>)
            else Undefined)
     else
       (let ret = fst received; x = snd received in
        if ret \<le> 0
        then Done (st\<lparr>closed := closed st @ [fd], rfds_storage := (rfds_storage st)(fd := False)\<rparr>)
        else (case handle (store st) new_node x of
                Done (s', reply) \<Rightarrow>
                  Done (st\<lparr>store := s', sent := sent st @ (case reply of None \<Rightarrow> [] | Some v \<Rightarrow> [(fd, v)])\<rparr>)
              | Aborted \<Rightarrow> Aborted
              | Undefined \<Rightarrow> Undefined)))"

function serve_round ::
    "('s \<Rightarrow> ptr option \<Rightarrow> u32 \<Rightarrow> ('s \<times> u32 option) outcome) \<Rightarrow> nat \<Rightarrow> (nat \<Rightarrow> bool) \<Rightarrow> nat option \<Rightarrow>
     (nat \<Rightarrow> int \<times> u32) \<Rightarrow> (nat \<Rightarrow> ptr option) \<Rightarrow> nat \<Rightarrow> 's server \<Rightarrow> 's server outcome" where
  "serve_round handle sock_fd rfds accepted received new_node fd st =
    (if fd < max_fd st + 1 then
       if fd < FD_SETSIZE then
         if rfds fd then
           (case serve_fd handle sock_fd fd accepted (received fd) (new_node fd) st of
              Done st' \<Rightarrow> serve_round handle sock_fd rfds accepted received new_node (fd + 1) st'
            | Aborted \<Rightarrow> Aborted
            | Undefined \<Rightarrow> Undefined)
         else serve_round handle sock_fd rfds accepted received new_node (fd + 1) st
       else Undefined
     else Done st)"
  by pat_completeness auto

termination serve_round
  by (relation "measure (\<lambda>(_, _, _, _, _, _, fd, _). FD_SETSIZE - fd)") auto

declare serve_round.simps [simp del]

text \<open>
  The state of \<open>main\<close> before the loop, and the loop on the successive results of \<open>select\<close>: an error
  ends it (the flag of the result), a timeout is ignored, and a set of ready descriptors among those
  asked for is served. With no result left, \<open>main\<close> is still waiting.
\<close>

definition server_init :: "'s \<Rightarrow> nat \<Rightarrow> 's server" where
  "server_init table sock_fd =
    \<lparr>store = table, rfds_storage = (\<lambda>_. False)(sock_fd := True), max_fd = sock_fd, closed = [], sent = []\<rparr>"

datatype select_result =
  Select_error
| Timeout
| Ready "nat \<Rightarrow> bool" "nat option" "nat \<Rightarrow> int \<times> u32" "nat \<Rightarrow> ptr option"

primrec server_loop ::
    "('s \<Rightarrow> ptr option \<Rightarrow> u32 \<Rightarrow> ('s \<times> u32 option) outcome) \<Rightarrow> nat \<Rightarrow> select_result list \<Rightarrow> 's server \<Rightarrow>
     ('s server \<times> bool) outcome" where
  "server_loop handle sock_fd [] st = Done (st, False)"
| "server_loop handle sock_fd (r # rs) st =
    (case r of
       Select_error \<Rightarrow> Done (st, True)
     | Timeout \<Rightarrow> server_loop handle sock_fd rs st
     | Ready ready accepted received new_node \<Rightarrow>
        (case serve_round handle sock_fd (\<lambda>fd. rfds_storage st fd \<and> ready fd) accepted received new_node 0 st of
           Done st' \<Rightarrow> server_loop handle sock_fd rs st'
         | Aborted \<Rightarrow> Aborted
         | Undefined \<Rightarrow> Undefined))"

text \<open>
  The whole of \<open>main\<close>: \<open>table\<close> is the result of \<open>createHashTable\<close>, the integers those of \<open>socket\<close>, \<open>bind\<close> and \<open>listen\<close>. The value is the exit code and the
  descriptors closed; \<open>Aborted\<close> is a call of \<open>exit\<close> or a failed assertion, \<open>None\<close> a server that still runs. An error of \<open>select\<close>
  leaves the copy of the watched descriptors as it was, and these are closed.
\<close>

definition server_main ::
    "('s \<Rightarrow> ptr option \<Rightarrow> u32 \<Rightarrow> ('s \<times> u32 option) outcome) \<Rightarrow> 's option \<Rightarrow> int \<Rightarrow> int \<Rightarrow> int \<Rightarrow> select_result list \<Rightarrow>
     (int \<times> nat list) outcome option" where
  "server_main handle table sock_fd bind_ret listen_ret rs =
    (case table of
       None \<Rightarrow> Some Aborted
     | Some t \<Rightarrow>
         if sock_fd = -1 then Some (Done (-1, []))
         else if bind_ret = -1 \<or> listen_ret = -1 then Some (Done (-1, [nat sock_fd]))
         else
           (case server_loop handle (nat sock_fd) rs (server_init t (nat sock_fd)) of
              Done (st, True) \<Rightarrow> Some (Done (0, closed st @ filter (rfds_storage st) [0..<max_fd st + 1]))
            | Done (st, False) \<Rightarrow> None
            | Aborted \<Rightarrow> Some Aborted
            | Undefined \<Rightarrow> Some Undefined))"

text \<open>\<open>socket_connect\<close> on the results of \<open>socket\<close>, \<open>inet_pton\<close> and \<open>connect\<close>; every failure exits.\<close>

definition socket_connect :: "int \<Rightarrow> int \<Rightarrow> int \<Rightarrow> int outcome" where
  "socket_connect sock pton_ret connect_ret =
    (if sock < 0 then Aborted else if pton_ret \<le> 0 then Aborted else if connect_ret < 0 then Aborted else Done sock)"

section \<open>Specification: reader/writer locks\<close>

text \<open>
  The state of a block: never locked for writing (no reader is admitted before the first writer),
  free, held by a writer, or held by \<open>n\<close> readers.
\<close>

datatype lock_state = Unwritten | Free | Writer | Readers nat

definition readers_state :: "nat \<Rightarrow> lock_state" where
  "readers_state n = (if n = 0 then Free else Readers n)"

fun lock_spec :: "lock_type \<Rightarrow> lock_state \<Rightarrow> lock_state \<times> bool option" where
  "lock_spec WRITE_LOCK Unwritten = (Writer, Some True)"
| "lock_spec WRITE_LOCK Free = (Writer, Some True)"
| "lock_spec WRITE_LOCK st = (st, Some False)"
| "lock_spec READ_LOCK Free = (Readers 1, Some True)"
| "lock_spec READ_LOCK (Readers n) = (Readers (n + 1), Some True)"
| "lock_spec READ_LOCK st = (st, Some False)"
| "lock_spec RELEASE_LOCK Writer = (Free, None)"
| "lock_spec RELEASE_LOCK (Readers n) = (readers_state (n - 1), None)"
| "lock_spec RELEASE_LOCK st = (st, None)"
| "lock_spec ERROR_LOCK st = (st, None)"

text \<open>How the service stores a block's state in the table.\<close>

primrec lock_value :: "lock_state \<Rightarrow> long option" where
  "lock_value Unwritten = None"
| "lock_value Free = Some 0"
| "lock_value Writer = Some 1"
| "lock_value (Readers n) = Some (of_nat (2 * n))"

primrec lock_state_ok :: "lock_state \<Rightarrow> bool" where
  "lock_state_ok Unwritten \<longleftrightarrow> True"
| "lock_state_ok Free \<longleftrightarrow> True"
| "lock_state_ok Writer \<longleftrightarrow> True"
| "lock_state_ok (Readers n) \<longleftrightarrow> 0 < n \<and> n < 2 ^ 61"

definition lock_table :: "(long \<Rightarrow> lock_state) \<Rightarrow> (long \<rightharpoonup> long) \<Rightarrow> bool" where
  "lock_table L m \<longleftrightarrow> (\<forall>b. 0 \<le> sint b \<longrightarrow> m b = lock_value (L b) \<and> lock_state_ok (L b))"

definition reply_word :: "bool \<Rightarrow> u32" where
  "reply_word ok = (if ok then 1 else 0)"

lemma lock_code_inject [simp]: "lock_code t = lock_code t' \<longleftrightarrow> t = t'"
  by (cases t; cases t') simp_all

lemma msg_block_eq: "msg_block x = ucast (drop_bit 2 x)"
proof -
  have "(0xfffffffc :: u32) = - 4" by simp
  then have "x AND 0xfffffffc = x AND NOT (mask 2)" by (simp only:) (simp add: mask_eq_exp_minus_1)
  moreover have "drop_bit 2 (x AND NOT (mask 2)) = drop_bit 2 x"
    by (rule bit_word_eqI) (auto simp: bit_simps dest: bit_imp_le_length)
  ultimately show ?thesis by (simp add: msg_block_def)
qed

lemma sint_msg_block: "0 \<le> sint (msg_block x)"
proof -
  have "unat (msg_block x) = unat (drop_bit 2 x)" unfolding msg_block_eq by (simp add: unat_ucast_u32_u64)
  also have "\<dots> < 2 ^ 32" using unsigned_less [of "drop_bit 2 x"] by simp
  finally show ?thesis by (simp add: sint_small)
qed

lemma msg_block_request: "msg_block (lock_request u t) = ucast (take_bit 30 u)"
proof -
  have "drop_bit 2 (push_bit 2 u OR lock_code t) = take_bit 30 u"
    by (cases t; rule bit_word_eqI) (auto simp: bit_simps bit_1_iff)
  then show ?thesis by (simp add: msg_block_eq lock_request_def)
qed

lemma msg_indicator_request: "msg_indicator (lock_request u t) = lock_code t"
proof -
  have 3: "(3 :: u32) = mask 2" by (simp add: mask_eq_exp_minus_1)
  have "(push_bit 2 u OR lock_code t) AND mask 2 = lock_code t"
    by (cases t; rule bit_word_eqI) (auto simp: 3 bit_simps)
  then show ?thesis by (simp add: msg_indicator_def lock_request_def mask_eq_exp_minus_1)
qed

lemma reader_value_facts:
  assumes "lock_state_ok (Readers n)"
  shows "(of_nat (2 * n) :: long) \<noteq> 0" "(of_nat (2 * n) :: long) \<noteq> 1" "(of_nat (2 * n) :: long) \<noteq> -1"
    "signed_drop_bit 1 (of_nat (2 * n) :: long) = of_nat n"
proof -
  have u: "unat (of_nat (2 * n) :: long) = 2 * n"
    using assms by (simp del: of_nat_mult add: unsigned_of_nat take_bit_nat_eq_self_iff)
  show "(of_nat (2 * n) :: long) \<noteq> 0" "(of_nat (2 * n) :: long) \<noteq> 1"
    using u assms by (metis unat_0 lock_state_ok.simps(4) mult_eq_0_iff not_less0 zero_neq_numeral,
       metis unat_1 odd_one dvd_triv_left)
  have "unat (-1 :: long) = 2 ^ 64 - 1" by (simp add: unsigned_minus_1_eq_mask mask_eq_exp_minus_1)
  then show "(of_nat (2 * n) :: long) \<noteq> -1" using u assms by auto
  have "sint (of_nat (2 * n) :: long) = int (2 * n)"
    using u assms by (subst sint_small) simp_all
  then have "sint (signed_drop_bit 1 (of_nat (2 * n) :: long)) = int n"
    by (simp add: sint_signed_drop_bit_eq drop_bit_eq_div)
  moreover have "sint (of_nat n :: long) = int n"
    using assms le_less_trans [OF take_bit_nat_less_eq_self [of 64 n], of "2 ^ 63"]
    by (subst sint_small) (simp_all add: unsigned_of_nat take_bit_nat_eq_self_iff)
  ultimately show "signed_drop_bit 1 (of_nat (2 * n) :: long) = of_nat n"
    by (metis signed_word_eqI)
qed

lemma lock_table_upd:
  "lock_table L m \<Longrightarrow> lock_value st = Some v \<Longrightarrow> lock_state_ok st \<Longrightarrow> lock_table (L(b := st)) (m(b \<mapsto> v))"
  by (simp add: lock_table_def)

lemma lock_value_readers: "lock_value (readers_state n) = Some (of_nat (2 * n))"
  by (simp add: readers_state_def)

lemma lock_state_ok_readers: "n < 2 ^ 61 \<Longrightarrow> lock_state_ok (readers_state n)"
  by (simp add: readers_state_def)

context kv_store
begin

lemma store_lock:
  assumes "holds s m" "lock_table L m" "fresh s a" "a \<noteq> None" "0 \<le> sint b"
    and "lock_value st = Some v" "lock_state_ok st"
  obtains s' m' where "update s a b v = Some s'" "holds s' m'" "lock_table (L(b := st)) m'"
  using update_present [OF assms(1,5,3), of v] lock_table_upd [OF assms(2,6,7)] assms(4) by blast

lemma handle_lock_refines:
  assumes h: "holds s m" "lock_table L m" "fresh s a" "a \<noteq> None"
    and t: "msg_indicator x = lock_code t" "t \<noteq> ERROR_LOCK"
    and bound: "\<And>n. L (msg_block x) = Readers n \<Longrightarrow> n + 1 < 2 ^ 61"
  shows "\<exists>s' m'. handle_lock lookup update s a x =
      Done (s', map_option reply_word (snd (lock_spec t (L (msg_block x))))) \<and>
    holds s' m' \<and> lock_table (L(msg_block x := fst (lock_spec t (L (msg_block x))))) m'"
proof -
  let ?b = "msg_block x"
  note store = store_lock [OF h sint_msg_block [of x]]
  have L: "lock_state_ok (L ?b)" "m ?b = lock_value (L ?b)"
    using h(2) sint_msg_block [of x] by (auto simp: lock_table_def)
  have get: "lookup s ?b = Some (lookup_default m ?b)"
    using h(1) sint_msg_block by (rule lookup_holds)
  note d = handle_lock_def Let_def get t(1) lookup_default_def L(2) reply_word_def
  have same: ?thesis if "fst (lock_spec t (L ?b)) = L ?b"
    "handle_lock lookup update s a x = Done (s, map_option reply_word (snd (lock_spec t (L ?b))))"
    using that h by (metis fun_upd_triv)
  have new: ?thesis if "handle_lock lookup update s a x = Done (s', map_option reply_word (snd (lock_spec t (L ?b))))"
      "holds s' m'" "lock_table (L(?b := fst (lock_spec t (L ?b)))) m'" for s' m'
    using that by blast
  consider "t = WRITE_LOCK" | "t = READ_LOCK" | "t = RELEASE_LOCK" using t(2) by (cases t) auto
  then show ?thesis
  proof cases
    case 1
    obtain s' m' where "update s a ?b 1 = Some s'" "holds s' m'" "lock_table (L(?b := Writer)) m'"
      using store [of Writer 1] by auto
    then show ?thesis
      using 1 new same L(1) reader_value_facts by (cases "L ?b") (simp_all add: d)
  next
    case 2
    show ?thesis
    proof (cases "L ?b")
      case Free
      obtain s' m' where "update s a ?b 2 = Some s'" "holds s' m'" "lock_table (L(?b := Readers 1)) m'"
        using store [of "Readers 1" 2] by auto
      then show ?thesis using 2 Free by (intro new) (simp_all add: d)
    next
      case (Readers n)
      obtain s' m' where "update s a ?b (of_nat (2 * (n + 1))) = Some s'" "holds s' m'"
          "lock_table (L(?b := Readers (n + 1))) m'"
        using store [of "Readers (n + 1)"] bound [OF Readers] by auto
      then show ?thesis
        using 2 Readers reader_value_facts L(1) by (intro new) (simp_all add: d push_bit_eq_mult algebra_simps)
    qed (use 2 same in \<open>simp_all add: d\<close>)
  next
    case 3
    show ?thesis
    proof (cases "L ?b")
      case Writer
      obtain s' m' where "update s a ?b 0 = Some s'" "holds s' m'" "lock_table (L(?b := Free)) m'"
        using store [of Free 0] by auto
      then show ?thesis using 3 Writer by (intro new) (simp_all add: d)
    next
      case (Readers n)
      then have n: "0 < n" "n < 2 ^ 61" "n - 1 < 2 ^ 61" using L(1) by auto
      obtain s' m' where "update s a ?b (of_nat (2 * (n - 1))) = Some s'" "holds s' m'"
          "lock_table (L(?b := readers_state (n - 1))) m'"
        using store [OF lock_value_readers lock_state_ok_readers [OF n(3)]] by blast
      then show ?thesis
        using 3 Readers reader_value_facts L(1) n by (intro new) (simp_all add: d push_bit_eq_mult of_nat_diff algebra_simps)
    qed (use 3 same in \<open>simp_all add: d\<close>)
  qed
qed

end

section \<open>Clients and server together\<close>

text \<open>
  A client runs \<open>writelock\<close> or \<open>readlock\<close>, works while it holds the lock and calls \<open>releaselock\<close>.
  \<open>Waiting t u\<close> is a client inside the loop of \<open>writelock\<close> or \<open>readlock\<close> after a \<open>send\<close>, \<open>Gone\<close> one that has ended and
  lost its connection. The connections are FIFO queues of messages that hold at most \<open>qmax\<close> requests. Messages are not torn: every \<open>read\<close> and \<open>recv\<close>
  of four bytes that succeeds takes a whole one. \<open>faulty\<close> is not in the code: it records that a call has failed or a client has gone.
\<close>

datatype client = Idle | Waiting lock_type u32 | Holding lock_type u32 | Gone

record 's lock_sys =
  srv :: 's
  cl :: "nat \<Rightarrow> client"
  req :: "nat \<Rightarrow> u32 list"
  rsp :: "nat \<Rightarrow> u32 list"
  faulty :: bool

text \<open>
  In the last five rules something fails. \<open>malloc\<close> returns no node to \<open>setKeyValue\<close>; a \<open>read\<close> fails and leaves the request in \<open>lock\<close>, where the
  request to read block 0 is taken for the grant; a \<open>send\<close> fails, which only prints a message; a client ends, whereupon the
  server closes its connection and keeps its locks.
\<close>

inductive lock_sys_step ::
    "('s \<Rightarrow> long \<Rightarrow> long option) \<Rightarrow> ('s \<Rightarrow> ptr option \<Rightarrow> long \<Rightarrow> long \<Rightarrow> 's option) \<Rightarrow>
     ('s \<Rightarrow> ptr option \<Rightarrow> bool) \<Rightarrow> nat \<Rightarrow> nat \<Rightarrow> 's lock_sys \<Rightarrow> 's lock_sys \<Rightarrow> bool"
  for get put fresh n qmax where
  request: "i < n \<Longrightarrow> cl S i = Idle \<Longrightarrow> t = READ_LOCK \<or> t = WRITE_LOCK \<Longrightarrow> length (req S i) < qmax \<Longrightarrow>
    lock_sys_step get put fresh n qmax S
      (S\<lparr>cl := (cl S)(i := Waiting t u), req := (req S)(i := req S i @ [lock_request u t])\<rparr>)"
| granted: "i < n \<Longrightarrow> cl S i = Waiting t u \<Longrightarrow> rsp S i = v # r \<Longrightarrow> v = 1 \<Longrightarrow>
    lock_sys_step get put fresh n qmax S (S\<lparr>cl := (cl S)(i := Holding t u), rsp := (rsp S)(i := r)\<rparr>)"
| refused: "i < n \<Longrightarrow> cl S i = Waiting t u \<Longrightarrow> rsp S i = v # r \<Longrightarrow> v \<noteq> 1 \<Longrightarrow> length (req S i) < qmax \<Longrightarrow>
    lock_sys_step get put fresh n qmax S
      (S\<lparr>rsp := (rsp S)(i := r), req := (req S)(i := req S i @ [lock_request u t])\<rparr>)"
| release: "i < n \<Longrightarrow> cl S i = Holding t u \<Longrightarrow> length (req S i) < qmax \<Longrightarrow>
    lock_sys_step get put fresh n qmax S
      (S\<lparr>cl := (cl S)(i := Idle), req := (req S)(i := req S i @ releaselock u)\<rparr>)"
| serve: "i < n \<Longrightarrow> req S i = x # q \<Longrightarrow> fresh (srv S) a \<Longrightarrow> a \<noteq> None \<Longrightarrow>
    handle_lock get put (srv S) a x = Done (s', reply) \<Longrightarrow>
    lock_sys_step get put fresh n qmax S
      (S\<lparr>srv := s', req := (req S)(i := q), rsp := (rsp S)(i := rsp S i @ (case reply of None \<Rightarrow> [] | Some v \<Rightarrow> [v]))\<rparr>)"
| serve_no_memory: "i < n \<Longrightarrow> req S i = x # q \<Longrightarrow> handle_lock get put (srv S) None x = Done (s', reply) \<Longrightarrow>
    lock_sys_step get put fresh n qmax S
      (S\<lparr>srv := s', req := (req S)(i := q), rsp := (rsp S)(i := rsp S i @ (case reply of None \<Rightarrow> [] | Some v \<Rightarrow> [v])), faulty := True\<rparr>)"
| read_fails: "i < n \<Longrightarrow> cl S i = Waiting t u \<Longrightarrow> length (req S i) < qmax \<Longrightarrow>
    lock_sys_step get put fresh n qmax S
      (if lock_request u t = 1 then S\<lparr>cl := (cl S)(i := Holding t u), faulty := True\<rparr>
       else S\<lparr>req := (req S)(i := req S i @ [lock_request u t]), faulty := True\<rparr>)"
| request_lost: "i < n \<Longrightarrow> cl S i = Idle \<Longrightarrow> t = READ_LOCK \<or> t = WRITE_LOCK \<Longrightarrow>
    lock_sys_step get put fresh n qmax S (S\<lparr>cl := (cl S)(i := Waiting t u), faulty := True\<rparr>)"
| release_lost: "i < n \<Longrightarrow> cl S i = Holding t u \<Longrightarrow>
    lock_sys_step get put fresh n qmax S (S\<lparr>cl := (cl S)(i := Idle), faulty := True\<rparr>)"
| disconnect: "i < n \<Longrightarrow> lock_sys_step get put fresh n qmax S (S\<lparr>cl := (cl S)(i := Gone), rsp := (rsp S)(i := []), faulty := True\<rparr>)"

definition lock_sys_init :: "'s \<Rightarrow> 's lock_sys" where
  "lock_sys_init s = \<lparr>srv = s, cl = \<lambda>_. Idle, req = \<lambda>_. [], rsp = \<lambda>_. [], faulty = False\<rparr>"

text \<open>The block a client's \<open>uuid\<close> names, and who holds what.\<close>

definition block_of :: "u32 \<Rightarrow> long" where
  "block_of u = ucast (take_bit 30 u)"

definition holds_lock :: "'s lock_sys \<Rightarrow> nat \<Rightarrow> lock_type \<Rightarrow> long \<Rightarrow> bool" where
  "holds_lock S i t b \<longleftrightarrow> (\<exists>u. cl S i = Holding t u \<and> block_of u = b)"

definition owns_lock :: "'s lock_sys \<Rightarrow> nat \<Rightarrow> lock_type \<Rightarrow> long \<Rightarrow> bool" where
  "owns_lock S i t b \<longleftrightarrow> holds_lock S i t b \<or> (\<exists>u. cl S i = Waiting t u \<and> block_of u = b \<and> rsp S i = [1])"

definition releases :: "long \<Rightarrow> u32 list \<Rightarrow> nat" where
  "releases b q = length (filter (\<lambda>x. msg_block x = b \<and> msg_indicator x = 0) q)"

definition tokens :: "'s lock_sys \<Rightarrow> long \<Rightarrow> nat \<Rightarrow> nat" where
  "tokens S b i = releases b (req S i) + (if \<exists>t. owns_lock S i t b then 1 else 0)"

primrec client_inv :: "client \<Rightarrow> u32 list \<Rightarrow> u32 list \<Rightarrow> bool" where
  "client_inv Idle q r \<longleftrightarrow> (\<forall>x \<in> set q. msg_indicator x = 0) \<and> r = []"
| "client_inv (Waiting t u) q r \<longleftrightarrow> (t = READ_LOCK \<or> t = WRITE_LOCK) \<and>
     ((\<exists>q'. q = q' @ [lock_request u t] \<and> (\<forall>x \<in> set q'. msg_indicator x = 0) \<and> r = []) \<or>
      (\<exists>ok. q = [] \<and> r = [reply_word ok]))"
| "client_inv (Holding t u) q r \<longleftrightarrow> (t = READ_LOCK \<or> t = WRITE_LOCK) \<and>
     (\<forall>x \<in> set q. msg_indicator x = 0) \<and> r = []"
| "client_inv Gone q r \<longleftrightarrow> False"

definition client_ok :: "'s lock_sys \<Rightarrow> nat \<Rightarrow> nat \<Rightarrow> bool" where
  "client_ok S qmax i \<longleftrightarrow> length (req S i) \<le> qmax \<and> client_inv (cl S i) (req S i) (rsp S i)"

definition block_ok :: "'s lock_sys \<Rightarrow> nat \<Rightarrow> long \<Rightarrow> lock_state \<Rightarrow> bool" where
  "block_ok S n b st \<longleftrightarrow>
    (case st of
       Writer \<Rightarrow> (\<Sum>i<n. tokens S b i) = 1 \<and> (\<forall>i<n. \<not> owns_lock S i READ_LOCK b)
     | Readers m \<Rightarrow> (\<Sum>i<n. tokens S b i) = m \<and> (\<forall>i<n. \<not> owns_lock S i WRITE_LOCK b)
     | _ \<Rightarrow> (\<Sum>i<n. tokens S b i) = 0)"

lemma owns_tokens: "owns_lock S i t b \<Longrightarrow> 0 < tokens S b i"
  by (auto simp: tokens_def)

lemma tokens_zero: "(\<Sum>i<n. tokens S b i) = 0 \<Longrightarrow> i < n \<Longrightarrow> \<not> owns_lock S i t b"
  using owns_tokens by fastforce

lemma block_ok_cong:
  assumes "block_ok S n b st" "\<And>i. i < n \<Longrightarrow> tokens S' b i = tokens S b i"
    "\<And>i t. i < n \<Longrightarrow> owns_lock S' i t b \<Longrightarrow> owns_lock S i t b"
  shows "block_ok S' n b st"
proof -
  have "(\<Sum>i<n. tokens S' b i) = (\<Sum>i<n. tokens S b i)" using assms(2) by (intro sum.cong) auto
  then show ?thesis using assms(1,3) by (auto simp: block_ok_def split: lock_state.splits)
qed

lemma block_ok_release:
  assumes "block_ok S n b st" "i < n" "\<And>j. j < n \<Longrightarrow> j \<noteq> i \<Longrightarrow> tokens S' b j = tokens S b j"
    "tokens S b i = Suc (tokens S' b i)"
    "\<And>j t. j < n \<Longrightarrow> owns_lock S' j t b \<Longrightarrow> owns_lock S j t b"
  shows "block_ok S' n b (fst (lock_spec RELEASE_LOCK st))"
proof -
  have sum: "(\<Sum>j<n. tokens S b j) = Suc (\<Sum>j<n. tokens S' b j)"
    using sum_change_one [of i n "tokens S' b" "tokens S b"] assms(2-4) by simp
  show ?thesis
    using assms(1,5) sum by (cases st) (auto simp: block_ok_def readers_state_def)
qed

lemma block_ok_request:
  assumes "block_ok S n b st" "i < n" "\<And>j. j < n \<Longrightarrow> j \<noteq> i \<Longrightarrow> tokens S' b j = tokens S b j"
    "tokens S b i = 0" "tokens S' b i = (if ok then 1 else 0)"
    "\<And>j t'. j < n \<Longrightarrow> owns_lock S' j t' b \<Longrightarrow> owns_lock S j t' b \<or> (j = i \<and> ok \<and> t' = t)"
    "t = READ_LOCK \<or> t = WRITE_LOCK" "snd (lock_spec t st) = Some ok"
  shows "block_ok S' n b (fst (lock_spec t st))"
proof -
  have sum: "(\<Sum>j<n. tokens S' b j) = (\<Sum>j<n. tokens S b j) + (if ok then 1 else 0)"
    using sum_change_one [of i n "tokens S' b" "tokens S b"] assms(2-5) by simp
  have free: "\<not> owns_lock S' j t' b" if "(\<Sum>j<n. tokens S b j) = 0" "j < n" "t' \<noteq> t" for j t'
    using assms(6) [OF that(2)] tokens_zero [OF that(1,2)] that(3) by blast
  have own: "owns_lock S j t' b" if "owns_lock S' j t' b" "j < n" "\<not> ok \<or> t' \<noteq> t" for j t'
    using assms(6) [OF that(2,1)] that(3) by blast
  show ?thesis
    using assms(1,7,8) sum free by (cases st) (fastforce simp: block_ok_def dest: own)+
qed

lemma releases_simps [simp]:
  "releases b [] = 0"
  "releases b (x # q) = (if msg_block x = b \<and> msg_indicator x = 0 then 1 else 0) + releases b q"
  "releases b (q @ r) = releases b q + releases b r"
  by (simp_all add: releases_def)

lemma lock_code_zero [simp]: "lock_code t = 0 \<longleftrightarrow> t = RELEASE_LOCK"
  by (cases t) simp_all

lemmas message_simps = msg_block_request msg_indicator_request block_of_def releaselock_def

lemma reply_word_one [simp]: "reply_word ok = 1 \<longleftrightarrow> ok"
  by (simp add: reply_word_def)

lemmas ownership_defs = tokens_def owns_lock_def holds_lock_def

definition lock_sys_ok ::
    "('s \<Rightarrow> (long \<rightharpoonup> long) \<Rightarrow> bool) \<Rightarrow> nat \<Rightarrow> nat \<Rightarrow> (long \<Rightarrow> lock_state) \<Rightarrow> 's lock_sys \<Rightarrow> bool" where
  "lock_sys_ok holds n qmax L S \<longleftrightarrow> (\<forall>i < n. client_ok S qmax i) \<and> (\<forall>b. block_ok S n b (L b)) \<and>
     (\<exists>m. holds (srv S) m \<and> lock_table L m)"

definition same_client :: "'s lock_sys \<Rightarrow> 's lock_sys \<Rightarrow> nat \<Rightarrow> bool" where
  "same_client S S' j \<longleftrightarrow> cl S' j = cl S j \<and> req S' j = req S j \<and> rsp S' j = rsp S j"

lemma same_client_frame:
  assumes "same_client S S' j"
  shows "client_ok S' qmax j = client_ok S qmax j" "tokens S' b j = tokens S b j"
    "owns_lock S' j t b = owns_lock S j t b"
  using assms by (simp_all add: same_client_def client_ok_def ownership_defs)

text \<open>A step of client \<open>i\<close> that keeps its tokens and does not make it an owner.\<close>

lemma lock_sys_ok_client_step:
  assumes ok: "lock_sys_ok holds n qmax L S" and srv: "srv S' = srv S"
    and frame: "\<And>j. j \<noteq> i \<Longrightarrow> same_client S S' j"
    and i: "client_ok S' qmax i" "\<And>b. tokens S' b i = tokens S b i"
      "\<And>b t. owns_lock S' i t b \<Longrightarrow> owns_lock S i t b"
  shows "lock_sys_ok holds n qmax L S'"
proof -
  obtain m where L: "holds (srv S) m" "lock_table L m" "\<And>b. block_ok S n b (L b)"
    using ok by (auto simp: lock_sys_ok_def)
  have "tokens S' b j = tokens S b j" "owns_lock S' j t b \<Longrightarrow> owns_lock S j t b" for j b t
    using i frame [of j] by (cases "j = i"; simp add: same_client_frame)+
  then have "block_ok S' n b (L b)" for b
    using L(3) by (rule block_ok_cong [rotated])
  moreover have "client_ok S' qmax j" if "j < n" for j
    using i ok that frame [of j] by (cases "j = i") (auto simp: lock_sys_ok_def same_client_frame)
  ultimately show ?thesis using L(1,2) srv by (auto simp: lock_sys_ok_def)
qed

lemma step_request_ok:
  assumes ok: "lock_sys_ok holds n qmax L S"
    and i: "i < n" "cl S i = Idle" "t = READ_LOCK \<or> t = WRITE_LOCK" "length (req S i) < qmax"
  shows "lock_sys_ok holds n qmax L (S\<lparr>cl := (cl S)(i := Waiting t u), req := (req S)(i := req S i @ [lock_request u t])\<rparr>)"
  by (rule lock_sys_ok_client_step [OF ok, of _ i])
    (use ok i in \<open>auto simp: lock_sys_ok_def same_client_def client_ok_def ownership_defs message_simps\<close>)

lemma step_granted_ok:
  assumes ok: "lock_sys_ok holds n qmax L S" and i: "i < n" "cl S i = Waiting t u" "rsp S i = 1 # r"
  shows "lock_sys_ok holds n qmax L (S\<lparr>cl := (cl S)(i := Holding t u), rsp := (rsp S)(i := r)\<rparr>)"
  by (rule lock_sys_ok_client_step [OF ok, of _ i])
    (use ok i in \<open>auto simp: lock_sys_ok_def same_client_def client_ok_def ownership_defs message_simps\<close>)

lemma step_refused_ok:
  assumes ok: "lock_sys_ok holds n qmax L S"
    and i: "i < n" "cl S i = Waiting t u" "rsp S i = v # r" "v \<noteq> 1" "length (req S i) < qmax"
  shows "lock_sys_ok holds n qmax L (S\<lparr>rsp := (rsp S)(i := r), req := (req S)(i := req S i @ [lock_request u t])\<rparr>)"
  by (rule lock_sys_ok_client_step [OF ok, of _ i])
    (use ok i in \<open>auto simp: lock_sys_ok_def same_client_def client_ok_def ownership_defs message_simps\<close>)

lemma step_release_ok:
  assumes ok: "lock_sys_ok holds n qmax L S" and i: "i < n" "cl S i = Holding t u" "length (req S i) < qmax"
  shows "lock_sys_ok holds n qmax L (S\<lparr>cl := (cl S)(i := Idle), req := (req S)(i := req S i @ releaselock u)\<rparr>)"
  by (rule lock_sys_ok_client_step [OF ok, of _ i])
    (use ok i in \<open>auto simp: lock_sys_ok_def same_client_def client_ok_def ownership_defs message_simps\<close>)

lemma releases_le: "releases b q \<le> length q"
  by (simp add: releases_def)

lemma tokens_le: "client_ok S qmax i \<Longrightarrow> tokens S b i \<le> qmax + 1"
  using releases_le [of b "req S i"] by (auto simp: tokens_def client_ok_def)

lemma readers_bound:
  assumes "\<And>i. i < n \<Longrightarrow> client_ok S qmax i" "block_ok S n b (Readers k)"
  shows "k \<le> n * (qmax + 1)"
proof -
  have "(\<Sum>i<n. tokens S b i) \<le> (\<Sum>i<n. qmax + 1)"
    using assms(1) by (intro sum_mono tokens_le) simp
  then show ?thesis using assms(2) by (simp add: block_ok_def)
qed

text \<open>The message at the head of a client's queue is a release, or the one pending request.\<close>

lemma client_ok_head:
  assumes "client_ok S qmax i" "req S i = x # q"
  obtains "msg_indicator x = 0"
  | t u where "cl S i = Waiting t u" "t = READ_LOCK \<or> t = WRITE_LOCK" "x = lock_request u t" "q = []" "rsp S i = []"
  using assms by (cases "cl S i") (auto simp: client_ok_def Cons_eq_append_conv)

lemma serve_release_ok:
  assumes "client_ok S qmax i" "req S i = x # q" "msg_indicator x = 0"
    and "S' = S\<lparr>srv := s', req := (req S)(i := q)\<rparr>"
  shows "client_ok S' qmax i" "tokens S b i = (if b = msg_block x then 1 else 0) + tokens S' b i"
    "owns_lock S' j t b \<longleftrightarrow> owns_lock S j t b" "j \<noteq> i \<Longrightarrow> same_client S S' j"
proof -
  show "client_ok S' qmax i"
    using assms by (cases "cl S i") (auto simp: client_ok_def Cons_eq_append_conv message_simps)
qed (use assms in \<open>auto simp: ownership_defs same_client_def\<close>)

lemma serve_request_ok:
  assumes "client_ok S qmax i" "req S i = [lock_request u t]" "cl S i = Waiting t u" "rsp S i = []"
    and "S' = S\<lparr>srv := s', req := (req S)(i := []), rsp := (rsp S)(i := [reply_word ok])\<rparr>"
  shows "client_ok S' qmax i" "tokens S b i = 0"
    "tokens S' b i = (if ok \<and> b = block_of u then 1 else 0)"
    "owns_lock S' j t' b \<Longrightarrow> owns_lock S j t' b \<or> (j = i \<and> ok \<and> t' = t \<and> b = block_of u)"
    "j \<noteq> i \<Longrightarrow> same_client S S' j"
  using assms by (auto simp: ownership_defs same_client_def client_ok_def message_simps split: if_splits)

lemma lock_spec_reply: "t = READ_LOCK \<or> t = WRITE_LOCK \<Longrightarrow> \<exists>ok. snd (lock_spec t st) = Some ok"
  by (metis lock_spec.simps lock_state.exhaust snd_conv)

lemma lock_sys_ok_serve:
  assumes c: "\<And>j. j < n \<Longrightarrow> client_ok S qmax j" and L: "\<And>b. block_ok S n b (L b)"
    and s': "holds (srv S') m'" "lock_table (L(b0 := st)) m'"
    and frame: "\<And>j. j \<noteq> i \<Longrightarrow> same_client S S' j" and i: "client_ok S' qmax i"
    and b0: "block_ok S' n b0 st"
    and rest: "\<And>b. b \<noteq> b0 \<Longrightarrow> tokens S' b i = tokens S b i"
      "\<And>b t. b \<noteq> b0 \<Longrightarrow> owns_lock S' i t b \<Longrightarrow> owns_lock S i t b"
  shows "lock_sys_ok holds n qmax (L(b0 := st)) S'"
proof -
  have "block_ok S' n b ((L(b0 := st)) b)" for b
  proof (cases "b = b0")
    case False
    have "tokens S' b j = tokens S b j" "owns_lock S' j t b \<Longrightarrow> owns_lock S j t b" for j t
      using rest [OF False] frame [of j] by (cases "j = i"; simp add: same_client_frame)+
    then have "block_ok S' n b (L b)" using L by (rule block_ok_cong [rotated])
    then show ?thesis using False by simp
  qed (use b0 in simp)
  moreover have "client_ok S' qmax j" if "j < n" for j
    using i frame [of j] c [OF that] by (cases "j = i") (simp_all add: same_client_frame)
  ultimately show ?thesis using s' unfolding lock_sys_ok_def by blast
qed

text \<open>What a served message was: a release, or the pending request of the client, with the reply.\<close>

definition served :: "'s lock_sys \<Rightarrow> nat \<Rightarrow> u32 \<Rightarrow> lock_type \<Rightarrow> lock_state \<Rightarrow> u32 option \<Rightarrow> bool" where
  "served S i x t st reply \<longleftrightarrow> t = RELEASE_LOCK \<and> msg_indicator x = 0 \<and> reply = None \<or>
    (t = READ_LOCK \<or> t = WRITE_LOCK) \<and> (\<exists>u ok. cl S i = Waiting t u \<and> msg_block x = block_of u \<and> rsp S i = [] \<and>
      snd (lock_spec t st) = Some ok \<and> reply = Some (reply_word ok))"

text \<open>A block that has been written and that no writer owns.\<close>

definition at_rest :: "nat \<Rightarrow> (long \<Rightarrow> lock_state) \<Rightarrow> 's lock_sys \<Rightarrow> long \<Rightarrow> bool" where
  "at_rest n L S b \<longleftrightarrow> (case L b of Unwritten \<Rightarrow> False | Writer \<Rightarrow> \<forall>i<n. \<not> owns_lock S i WRITE_LOCK b | _ \<Rightarrow> True)"

lemma reader_at_rest: "lock_sys_ok holds n qmax L S \<Longrightarrow> i < n \<Longrightarrow> holds_lock S i READ_LOCK b \<Longrightarrow> at_rest n L S b"
  using tokens_zero [of S b n i READ_LOCK]
  by (auto simp: lock_sys_ok_def block_ok_def at_rest_def owns_lock_def split: lock_state.splits)

lemma at_rest_cong:
  assumes "L' b = L b" "\<And>j. j < n \<Longrightarrow> owns_lock S j WRITE_LOCK b \<Longrightarrow> owns_lock S' j WRITE_LOCK b"
  shows "at_rest n L' S' b \<Longrightarrow> at_rest n L S b"
  using assms by (auto simp: at_rest_def split: lock_state.splits)

lemma pending_release_rests:
  assumes "block_ok S n b Writer" "i < n" "0 < releases b (req S i)" "j < n"
  shows "\<not> owns_lock S j t b"
proof
  assume own: "owns_lock S j t b"
  have one: "(\<Sum>k<n. tokens S b k) = 1" using assms(1) by (simp add: block_ok_def)
  have "0 < tokens S b i" "0 < tokens S b j" using assms(3) own owns_tokens by (auto simp: tokens_def)
  moreover have "2 \<le> tokens S b i" if "i = j" using assms(3) own that by (auto simp: tokens_def)
  moreover have "(\<Sum>k\<in>{i, j}. tokens S b k) \<le> (\<Sum>k<n. tokens S b k)" using assms(2,4) by (intro sum_mono2) auto
  ultimately show False using one by (cases "i = j") auto
qed

lemma serve_at_rest:
  assumes ok: "block_ok S n (msg_block x) (L (msg_block x))" and i: "i < n" "req S i = x # q"
    and served: "served S i x t (L (msg_block x)) reply"
    and S': "S' = S\<lparr>srv := s', req := (req S)(i := q), rsp := (rsp S)(i := rsp S i @ (case reply of None \<Rightarrow> [] | Some v \<Rightarrow> [v]))\<rparr>"
    and rest: "at_rest n (L(msg_block x := fst (lock_spec t (L (msg_block x))))) S' b"
  shows "at_rest n L S b"
proof (cases "t = RELEASE_LOCK")
  case True
  then have own: "owns_lock S' j t' c \<longleftrightarrow> owns_lock S j t' c" for j t' c
    using served S' by (auto simp: served_def owns_lock_def holds_lock_def)
  show ?thesis
  proof (cases "b = msg_block x \<and> L b = Writer")
    case True
    then have "0 < releases b (req S i)" using i served \<open>t = RELEASE_LOCK\<close> by (auto simp: served_def)
    moreover have "L b = Writer" "block_ok S n b Writer" using True ok by auto
    ultimately show ?thesis using pending_release_rests [of S n b i] i(1) by (simp add: at_rest_def)
  next
    case False
    then show ?thesis using rest True own by (auto simp: at_rest_def split: lock_state.splits if_splits)
  qed
next
  case False
  then obtain u g where w: "cl S i = Waiting t u" "msg_block x = block_of u" "rsp S i = []" "t = READ_LOCK \<or> t = WRITE_LOCK"
    "snd (lock_spec t (L (msg_block x))) = Some g" "reply = Some (reply_word g)"
    using served by (auto simp: served_def)
  have own: "owns_lock S j t' c \<Longrightarrow> owns_lock S' j t' c" for j t' c
    using w S' by (auto simp: owns_lock_def holds_lock_def)
  have "owns_lock S' i t (block_of u)" if g using w S' that by (auto simp: owns_lock_def reply_word_def)
  then show ?thesis
    using rest own w(2,4,5) i(1) by (cases "L b"; cases "b = msg_block x") (auto simp: at_rest_def split: lock_state.splits)
qed

text \<open>A failure is not forgotten.\<close>

lemma lock_sys_step_faulty: "lock_sys_step get put fresh n qmax S S' \<Longrightarrow> faulty S \<Longrightarrow> faulty S'"
  by (induction rule: lock_sys_step.induct) auto

context kv_store
begin

lemma serve_step_ok:
  assumes ok: "lock_sys_ok holds n qmax L S" and bound: "n * (qmax + 1) + 1 < 2 ^ 61"
    and i: "i < n" "req S i = x # q" and a: "fresh (srv S) a" "a \<noteq> None"
  shows "\<exists>s' reply t. handle_lock lookup update (srv S) a x = Done (s', reply) \<and> served S i x t (L (msg_block x)) reply \<and>
    lock_sys_ok holds n qmax (L(msg_block x := fst (lock_spec t (L (msg_block x))))) (S\<lparr>srv := s', req := (req S)(i := q),
      rsp := (rsp S)(i := rsp S i @ (case reply of None \<Rightarrow> [] | Some v \<Rightarrow> [v]))\<rparr>)"
proof -
  obtain m where L: "holds (srv S) m" "lock_table L m" "\<And>b. block_ok S n b (L b)"
    and c: "\<And>j. j < n \<Longrightarrow> client_ok S qmax j"
    using ok by (auto simp: lock_sys_ok_def)
  let ?b = "msg_block x"
  have readers: "k + 1 < 2 ^ 61" if "L ?b = Readers k" for k
    using readers_bound [of n S qmax ?b k] c L(3) [of ?b] that bound by simp
  note refines = handle_lock_refines [OF L(1,2) a, of x]
  from c [OF i(1)] i(2) show ?thesis
  proof (cases rule: client_ok_head)
    case 1
    obtain s' m' where s': "handle_lock lookup update (srv S) a x = Done (s', None)" "holds s' m'"
      "lock_table (L(?b := fst (lock_spec RELEASE_LOCK (L ?b)))) m'"
      using refines [of RELEASE_LOCK] 1 readers by (cases "L ?b") auto
    define S' where "S' = S\<lparr>srv := s', req := (req S)(i := q)\<rparr>"
    note r = serve_release_ok [OF c [OF i(1)] i(2) 1 S'_def]
    have "block_ok S' n ?b (fst (lock_spec RELEASE_LOCK (L ?b)))"
      by (rule block_ok_release [OF L(3) i(1)]) (use r same_client_frame(2) [OF r(4)] in auto)
    then have "lock_sys_ok holds n qmax (L(?b := fst (lock_spec RELEASE_LOCK (L ?b)))) S'"
      using s'(2,3) r by (intro lock_sys_ok_serve [OF c L(3), of _ S' m' ?b _ i]) (simp_all add: S'_def)
    then show ?thesis using s'(1) 1 by (intro exI [of _ s'] exI [of _ None] exI [of _ RELEASE_LOCK]) (simp add: S'_def served_def)
  next
    case (2 t u)
    obtain ok where ok: "snd (lock_spec t (L ?b)) = Some ok" using lock_spec_reply [OF 2(2)] by blast
    have b: "?b = block_of u" using 2(3) by (simp add: message_simps)
    obtain s' m' where s': "handle_lock lookup update (srv S) a x = Done (s', Some (reply_word ok))" "holds s' m'"
      "lock_table (L(?b := fst (lock_spec t (L ?b)))) m'"
      using refines [of t] 2 ok readers by (auto simp: message_simps)
    define S' where "S' = S\<lparr>srv := s', req := (req S)(i := []), rsp := (rsp S)(i := [reply_word ok])\<rparr>"
    have req: "req S i = [lock_request u t]" using i(2) 2 by simp
    note r = serve_request_ok [OF c [OF i(1)] req 2(1,5) S'_def]
    have "block_ok S' n ?b (fst (lock_spec t (L ?b)))"
      by (rule block_ok_request [OF L(3) i(1) _ _ _ _ 2(2) ok]) (use r(2,3) same_client_frame(2) [OF r(5)] b in \<open>auto dest: r(4)\<close>)
    then have "lock_sys_ok holds n qmax (L(?b := fst (lock_spec t (L ?b)))) S'"
      using s'(2,3) r(1-3,5) b
      by (intro lock_sys_ok_serve [OF c L(3), of _ S' m' ?b _ i]) (auto simp: S'_def dest: r(4) [unfolded S'_def])
    then show ?thesis using s'(1) 2 ok b
      by (intro exI [of _ s'] exI [of _ "Some (reply_word ok)"] exI [of _ t]) (auto simp: S'_def served_def)
  qed
qed

text \<open>A block comes to rest only when its writer releases it.\<close>

lemma lock_sys_step_ok:
  assumes step: "lock_sys_step lookup update fresh n qmax S S'" and ok: "lock_sys_ok holds n qmax L S"
    and bound: "n * (qmax + 1) + 1 < 2 ^ 61" and good: "\<not> faulty S'"
  shows "\<exists>L'. lock_sys_ok holds n qmax L' S' \<and>
    (\<forall>b. at_rest n L' S' b \<longrightarrow> at_rest n L S b \<or> (\<exists>i<n. holds_lock S i WRITE_LOCK b \<and> \<not> holds_lock S' i WRITE_LOCK b))"
  using step
proof (cases rule: lock_sys_step.cases)
  case (serve i x q a s' reply)
  from serve_step_ok [OF ok bound serve(2-5)] serve(6) obtain t where t: "served S i x t (L (msg_block x)) reply"
    "lock_sys_ok holds n qmax (L(msg_block x := fst (lock_spec t (L (msg_block x))))) S'"
    unfolding serve(1) by auto
  have "block_ok S n (msg_block x) (L (msg_block x))" using ok by (simp add: lock_sys_ok_def)
  from serve_at_rest [where L = L, OF this serve(2,3) t(1) serve(1)] show ?thesis using t(2) by blast
next
  case (request i t u)
  have "owns_lock S j t' b \<Longrightarrow> owns_lock S' j t' b" for j t' b
    using request by (auto simp: owns_lock_def holds_lock_def)
  then show ?thesis
    using step_request_ok [OF ok request(2-5), of u] at_rest_cong [where L = L and L' = L and S = S and S' = S', OF refl] request(1) by blast
next
  case (granted i t u v r)
  have "r = []" using ok granted by (auto simp: lock_sys_ok_def client_ok_def)
  then have "owns_lock S j t' b \<Longrightarrow> owns_lock S' j t' b" for j t' b
    using granted by (auto simp: owns_lock_def holds_lock_def)
  then show ?thesis
    using step_granted_ok [OF ok granted(2,3), of r] at_rest_cong [where L = L and L' = L and S = S and S' = S', OF refl] granted by blast
next
  case (refused i t u v r)
  have "owns_lock S j t' b \<Longrightarrow> owns_lock S' j t' b" for j t' b
    using refused by (auto simp: owns_lock_def holds_lock_def)
  then show ?thesis
    using step_refused_ok [OF ok refused(2-6)] at_rest_cong [where L = L and L' = L and S = S and S' = S', OF refl] refused(1) by blast
next
  case (release i t u)
  have "owns_lock S j t' b \<Longrightarrow> owns_lock S' j t' b \<or> (j = i \<and> holds_lock S i t' b \<and> \<not> holds_lock S' i t' b)" for j t' b
    using release by (auto simp: owns_lock_def holds_lock_def)
  then have "at_rest n L S' b \<longrightarrow> at_rest n L S b \<or> (\<exists>i<n. holds_lock S i WRITE_LOCK b \<and> \<not> holds_lock S' i WRITE_LOCK b)" for b
    using at_rest_cong [where L = L and L' = L and S = S and S' = S' and b = b, OF refl] release(2) by blast
  then show ?thesis using step_release_ok [OF ok release(2-4)] release(1) by blast
qed (use good in \<open>auto split: if_splits\<close>)

lemma lock_sys_init_ok:
  assumes "holds s Map.empty"
  shows "lock_sys_ok holds n qmax (\<lambda>_. Unwritten) (lock_sys_init s)"
proof -
  have "lock_table (\<lambda>_. Unwritten) Map.empty" by (simp add: lock_table_def)
  moreover have "block_ok (lock_sys_init s) n b Unwritten" for b
    by (simp add: block_ok_def ownership_defs lock_sys_init_def)
  ultimately show ?thesis
    using assms unfolding lock_sys_ok_def
    by (intro conjI exI [of _ Map.empty]) (simp_all add: client_ok_def lock_sys_init_def)
qed

lemma lock_sys_reachable_ok:
  assumes "(lock_sys_step lookup update fresh n qmax)\<^sup>*\<^sup>* (lock_sys_init s) S" "holds s Map.empty"
    "n * (qmax + 1) + 1 < 2 ^ 61" "\<not> faulty S"
  shows "\<exists>L. lock_sys_ok holds n qmax L S"
  using assms(1,4)
proof induction
  case (step S1 S2)
  then show ?case using lock_sys_step_ok [OF step.hyps(2) _ assms(3)] lock_sys_step_faulty [OF step.hyps(2)] by blast
qed (use lock_sys_init_ok [OF assms(2)] in blast)

end

lemma lock_sys_ok_exclusion:
  assumes ok: "lock_sys_ok holds n qmax L S" and "i < n" "j < n" "i \<noteq> j"
    and "holds_lock S i WRITE_LOCK b" "holds_lock S j t b"
  shows False
proof -
  have L: "block_ok S n b (L b)" using ok by (auto simp: lock_sys_ok_def)
  have own: "owns_lock S i WRITE_LOCK b" "owns_lock S j t b" using assms by (auto simp: owns_lock_def)
  then have "tokens S b i \<ge> 1" "tokens S b j \<ge> 1" using owns_tokens [of S] by (auto simp: Suc_le_eq)
  moreover have "(\<Sum>k\<in>{i, j}. tokens S b k) \<le> (\<Sum>k<n. tokens S b k)"
    using assms(2,3) by (intro sum_mono2) auto
  ultimately have "2 \<le> (\<Sum>k<n. tokens S b k)" using assms(4) by simp
  then show False using L own assms(2) by (cases "L b") (auto simp: block_ok_def)
qed

section \<open>The client loops and the server loop\<close>

lemma request_loop_iff:
  "msg \<noteq> 1 \<Longrightarrow> request_loop msg replies = Some msgs \<longleftrightarrow>
     (\<exists>k. k < length replies \<and> replies ! k = Some 1 \<and> Some 1 \<notin> set (take k replies) \<and> msgs = replicate (k + 1) msg)"
proof (induction replies arbitrary: msgs)
  case (Cons r rs)
  have less: "(\<exists>k. k < Suc n \<and> P k) \<longleftrightarrow> P 0 \<or> (\<exists>k. k < n \<and> P (Suc k))" for n P
    by (metis less_Suc_eq_0_disj)
  show ?case
    using Cons by (cases "r = Some 1") (auto simp: less split: option.splits)
qed simp

lemma request_loop_returns:
  "request_loop msg replies \<noteq> None \<longleftrightarrow> Some 1 \<in> set replies \<or> (msg = 1 \<and> None \<in> set replies)"
  by (induction replies) (auto split: option.splits)

lemma write_request_not_one: "lock_request uuid WRITE_LOCK \<noteq> 1"
  using msg_indicator_request [of uuid WRITE_LOCK] by (auto simp: msg_indicator_def)

lemma read_request_one: "lock_request uuid READ_LOCK = 1 \<longleftrightarrow> take_bit 30 uuid = 0"
proof
  assume "lock_request uuid READ_LOCK = 1"
  then have "ucast (take_bit 30 uuid) = (0 :: long)"
    using msg_block_request [of uuid READ_LOCK] by (simp add: msg_block_def)
  then show "take_bit 30 uuid = 0" 
    by (metis unat_0 unat_eq_zero unat_ucast_u32_u64)
next
  assume *: "take_bit 30 uuid = 0"
  have "push_bit 2 uuid = push_bit 2 (take_bit 30 uuid)" by (rule bit_word_eqI) (auto simp: bit_simps)
  then have "push_bit 2 uuid = 0" using * by simp
  then show "lock_request uuid READ_LOCK = 1" by (simp add: lock_request_def)
qed

lemma serve_round_disconnects:
  assumes "\<And>fd. rfds fd \<Longrightarrow> fd \<noteq> sock_fd \<and> fst (received fd) \<le> 0" "max_fd st < FD_SETSIZE"
  shows "\<exists>st'. serve_round handle sock_fd rfds accepted received new_node fd st = Done st' \<and>
     store st' = store st \<and> (\<forall>fd'. fd \<le> fd' \<and> fd' \<le> max_fd st \<and> rfds fd' \<longrightarrow> \<not> rfds_storage st' fd') \<and>
     (\<forall>fd'. \<not> rfds_storage st fd' \<longrightarrow> \<not> rfds_storage st' fd')"
  using assms
proof (induction handle sock_fd rfds accepted received new_node fd st rule: serve_round.induct)
  case (1 handle sock_fd rfds accepted received new_node fd st)
  note step = serve_round.simps [of handle sock_fd rfds accepted received new_node fd st]
  consider "\<not> (fd < max_fd st + 1)" | "fd < max_fd st + 1" "\<not> rfds fd" | "fd < max_fd st + 1" "rfds fd" by blast
  then show ?case
  proof cases
    case 1
    then show ?thesis using step by auto
  next
    case 2
    then have "serve_round handle sock_fd rfds accepted received new_node fd st =
      serve_round handle sock_fd rfds accepted received new_node (fd + 1) st" using step "1.prems"(2) by simp
    with 2 "1.IH"(2) "1.prems" obtain st' where "serve_round handle sock_fd rfds accepted received new_node fd st = Done st'"
      "store st' = store st" "\<forall>fd'. fd + 1 \<le> fd' \<and> fd' \<le> max_fd st \<and> rfds fd' \<longrightarrow> \<not> rfds_storage st' fd'"
      "\<forall>fd'. \<not> rfds_storage st fd' \<longrightarrow> \<not> rfds_storage st' fd'" by auto
    then show ?thesis using 2 by (metis Suc_eq_plus1 le_eq_less_or_eq Suc_le_eq)
  next
    case 3
    let ?st = "st\<lparr>closed := closed st @ [fd], rfds_storage := (rfds_storage st)(fd := False)\<rparr>"
    have s: "serve_fd handle sock_fd fd accepted (received fd) (new_node fd) st = Done ?st"
      using "1.prems"(1) [OF 3(2)] by (simp add: serve_fd_def Let_def)
    then have "serve_round handle sock_fd rfds accepted received new_node fd st =
      serve_round handle sock_fd rfds accepted received new_node (fd + 1) ?st" using step 3 "1.prems"(2) by simp
    with 3 "1.IH"(1) [OF _ _ _ s] "1.prems" obtain st' where st': "serve_round handle sock_fd rfds accepted received new_node fd st = Done st'"
      "store st' = store st" "\<forall>fd'. fd + 1 \<le> fd' \<and> fd' \<le> max_fd st \<and> rfds fd' \<longrightarrow> \<not> rfds_storage st' fd'"
      "\<forall>fd'. \<not> rfds_storage ?st fd' \<longrightarrow> \<not> rfds_storage st' fd'" by auto
    then have "\<not> rfds_storage st' fd'" if "fd \<le> fd' \<and> fd' \<le> max_fd st \<and> rfds fd'" for fd'
      using that by (cases "fd' = fd") auto
    then show ?thesis using st' by auto
  qed
qed

text \<open>Every watched descriptor is below the bound that the loop and \<open>select\<close> use.\<close>

definition descriptors_ok :: "'s server \<Rightarrow> bool" where
  "descriptors_ok st \<longleftrightarrow> max_fd st < FD_SETSIZE \<and> (\<forall>fd. rfds_storage st fd \<longrightarrow> fd \<le> max_fd st)"

lemma serve_fd_descriptors:
  "serve_fd handle sock_fd fd accepted received new_node st = Done st' \<Longrightarrow> descriptors_ok st \<Longrightarrow> descriptors_ok st'"
  by (auto simp: serve_fd_def descriptors_ok_def Let_def split: option.splits if_splits outcome.splits prod.splits)

lemma serve_round_descriptors:
  "serve_round handle sock_fd rfds accepted received new_node fd st = Done st' \<Longrightarrow> descriptors_ok st \<Longrightarrow> descriptors_ok st'"
proof (induction handle sock_fd rfds accepted received new_node fd st rule: serve_round.induct)
  case (1 handle sock_fd rfds accepted received new_node fd st)
  then show ?case
    by (subst (asm) (3) serve_round.simps) (auto split: if_splits outcome.splits dest: serve_fd_descriptors)
qed

lemma server_loop_descriptors:
  "server_loop handle sock_fd rs st = Done (st', e) \<Longrightarrow> descriptors_ok st \<Longrightarrow> descriptors_ok st'"
  by (induction rs arbitrary: st)
    (auto split: select_result.splits outcome.splits dest: serve_round_descriptors)

text \<open>A server that ends has closed every connection it still watched.\<close>

lemma server_main_closes_all:
  assumes "server_main handle (Some t) sock_fd bind_ret listen_ret rs = Some (Done (0, cs))" "0 \<le> sock_fd" "nat sock_fd < FD_SETSIZE"
  shows "\<exists>st. server_loop handle (nat sock_fd) rs (server_init t (nat sock_fd)) = Done (st, True) \<and> (\<forall>fd. rfds_storage st fd \<longrightarrow> fd \<in> set cs)"
proof -
  obtain st where st: "server_loop handle (nat sock_fd) rs (server_init t (nat sock_fd)) = Done (st, True)"
    "cs = closed st @ filter (rfds_storage st) [0..<max_fd st + 1]"
    using assms(1) by (auto simp: server_main_def split: if_splits outcome.splits bool.splits)
  have "descriptors_ok (server_init t (nat sock_fd))" using assms(3) by (simp add: descriptors_ok_def server_init_def)
  from server_loop_descriptors [OF st(1) this] show ?thesis using st by (auto simp: descriptors_ok_def less_Suc_eq_le)
qed

section \<open>Properties\<close>

text \<open>The service on the hash table: the start state of \<open>main\<close>, and its interleaving with clients.\<close>

abbreviation table_step where
  "table_step \<equiv> lock_sys_step kv_get kv_set kv_fresh"

definition new_table :: "HashTable option \<times> node_heap" where
  "new_table = (createHashTable True, Map.empty)"

lemma new_table_holds: "kv_holds Map.empty new_table Map.empty"
proof -
  obtain t where "createHashTable True = Some t" by (simp add: createHashTable_def)
  then show ?thesis using kv_holds_create [of True t Map.empty] by (simp add: new_table_def)
qed

lemma first_request_reaches:
  "\<exists>S. (table_step 2 1)\<^sup>*\<^sup>* (lock_sys_init new_table) S \<and> \<not> faulty S \<and> holds_lock S 0 WRITE_LOCK 1"
proof -
  define x where "x = lock_request 1 WRITE_LOCK"
  define S1 where "S1 = (lock_sys_init new_table)\<lparr>cl := (\<lambda>_. Idle)(0 := Waiting WRITE_LOCK 1), req := (\<lambda>_. [])(0 := [x])\<rparr>"
  have "lock_table (\<lambda>_. Unwritten) Map.empty" by (simp add: lock_table_def)
  then obtain s' where s': "handle_lock kv_get kv_set new_table (Some 1) x = Done (s', Some 1)"
    using ht.handle_lock_refines [OF new_table_holds, of "\<lambda>_. Unwritten" "Some 1" x WRITE_LOCK]
    by (auto simp: kv_fresh_def new_table_def x_def message_simps reply_word_def)
  have 1: "table_step 2 1 (lock_sys_init new_table) S1"
    using lock_sys_step.request [of 0 2 "lock_sys_init new_table" WRITE_LOCK 1 kv_get kv_set kv_fresh 1]
    by (simp add: lock_sys_init_def S1_def x_def)
  define S2 where "S2 = S1\<lparr>srv := s', req := (\<lambda>_. []), rsp := (\<lambda>_. [])(0 := [1])\<rparr>"
  have 2: "table_step 2 1 S1 S2"
    using lock_sys_step.serve [of 0 2 S1 x "[]" kv_fresh "Some 1" kv_get kv_set s' "Some 1" 1] s'
    by (simp add: S1_def S2_def lock_sys_init_def kv_fresh_def new_table_def fun_upd_idem)
  define S3 where "S3 = S2\<lparr>cl := (cl S2)(0 := Holding WRITE_LOCK 1), rsp := (rsp S2)(0 := [])\<rparr>"
  have 3: "table_step 2 1 S2 S3"
    using lock_sys_step.granted [of 0 2 S2 WRITE_LOCK 1 1 "[]" kv_get kv_set kv_fresh 1]
    by (simp add: S1_def S2_def S3_def)
  have "\<not> faulty S3 \<and> holds_lock S3 0 WRITE_LOCK 1"
    by (simp add: S3_def S2_def S1_def lock_sys_init_def holds_lock_def block_of_def)
  then show ?thesis using 1 2 3 by (meson converse_rtranclp_into_rtranclp rtranclp.rtrancl_refl)
qed

text \<open>
  C24: Mutual exclusion, as long as nothing fails. In every state reachable by any interleaving of clients and server in which no \<open>malloc\<close> of the server, no \<open>send\<close> and
  no \<open>read\<close> of a client has failed and no client has lost its connection, while a client that returned from \<open>writelock\<close> has not released the block, no other client holds
  it for reading or writing. After such a failure the exclusion may be lost, in the ways that follow.
\<close>

theorem writer_excludes_others:
  assumes "(table_step n qmax)\<^sup>*\<^sup>* (lock_sys_init new_table) S" "\<not> faulty S" "n * (qmax + 1) + 1 < 2 ^ 61"
    and "i < n" "j < n" "i \<noteq> j" "holds_lock S i WRITE_LOCK b"
  shows "\<not> holds_lock S j t b"
  using ht.lock_sys_reachable_ok [OF assms(1) new_table_holds assms(3,2)]
    lock_sys_ok_exclusion [of "kv_holds Map.empty" n qmax _ S i j b t] assms(4-7) by blast

theorem writer_excludes_others_witness:
  "\<exists>S. (table_step 2 1)\<^sup>*\<^sup>* (lock_sys_init new_table) S \<and> holds_lock S 0 WRITE_LOCK 1 \<and> \<not> holds_lock S 1 READ_LOCK 1"
  using first_request_reaches writer_excludes_others [where n = 2 and qmax = 1 and i = 0 and j = 1 and b = 1 and t = READ_LOCK]
  by fastforce

text \<open>
  The server never stops on well-behaved clients: in every reachable state in which nothing has failed, serving the next
  message of any connection neither fails the assertion nor leaves the table.
\<close>

theorem server_never_aborts:
  assumes "(table_step n qmax)\<^sup>*\<^sup>* (lock_sys_init new_table) S" "\<not> faulty S" "n * (qmax + 1) + 1 < 2 ^ 61"
    and "i < n" "req S i = x # q" "kv_fresh (srv S) (Some a)"
  shows "\<exists>s' reply. handle_lock kv_get kv_set (srv S) (Some a) x = Done (s', reply)"
proof -
  obtain L where "lock_sys_ok (kv_holds Map.empty) n qmax L S"
    using ht.lock_sys_reachable_ok [OF assms(1) new_table_holds assms(3,2)] by blast
  from ht.serve_step_ok [OF this assms(3-6)] show ?thesis by blast
qed

theorem server_never_aborts_witness:
  "\<exists>S s' reply. (table_step 2 1)\<^sup>*\<^sup>* (lock_sys_init new_table) S \<and>
     handle_lock kv_get kv_set (srv S) (Some 1) (lock_request 1 READ_LOCK) = Done (s', reply)"
proof -
  define S where "S = (lock_sys_init new_table)\<lparr>cl := (\<lambda>_. Idle)(0 := Waiting READ_LOCK 1), req := (\<lambda>_. [])(0 := [lock_request 1 READ_LOCK])\<rparr>"
  have "table_step 2 1 (lock_sys_init new_table) S"
    using lock_sys_step.request [of 0 2 "lock_sys_init new_table" READ_LOCK 1 kv_get kv_set kv_fresh 1]
    by (simp add: lock_sys_init_def S_def)
  then have r: "(table_step 2 1)\<^sup>*\<^sup>* (lock_sys_init new_table) S" by simp
  show ?thesis
    using r server_never_aborts [OF r, of 0 "lock_request 1 READ_LOCK" "[]" 1]
    by (auto simp: S_def lock_sys_init_def kv_fresh_def new_table_def)
qed

text \<open>
  C25: \<open>handle_lock\<close> on the hash table implements the reader/writer lock specification: whenever the
  table stores the lock states \<open>L\<close> and memory is available, a read, write or release message changes
  the state of its block, and only that, as specified, and the reply is 1 exactly on a grant.
\<close>

theorem handle_lock_implements_spec:
  assumes "kv_holds h0 s m" "lock_table L m" "kv_fresh s a" "a \<noteq> None"
    and "msg_indicator x = lock_code t" "t \<noteq> ERROR_LOCK"
    and "\<And>k. L (msg_block x) = Readers k \<Longrightarrow> k + 1 < 2 ^ 61"
  shows "\<exists>s' m'. handle_lock kv_get kv_set s a x =
      Done (s', map_option reply_word (snd (lock_spec t (L (msg_block x))))) \<and>
    kv_holds h0 s' m' \<and> lock_table (L(msg_block x := fst (lock_spec t (L (msg_block x))))) m'"
  using assms by (rule ht.handle_lock_refines)

theorem handle_lock_implements_spec_witness:
  "\<exists>s' m'. handle_lock kv_get kv_set new_table (Some 1) (lock_request 1 WRITE_LOCK) = Done (s', Some 1) \<and>
    kv_holds Map.empty s' m' \<and> lock_table ((\<lambda>_. Unwritten)(1 := Writer)) m'"
  using handle_lock_implements_spec [OF new_table_holds, of "\<lambda>_. Unwritten" "Some 1" "lock_request 1 WRITE_LOCK" WRITE_LOCK]
  by (simp add: lock_table_def kv_fresh_def new_table_def message_simps reply_word_def)

text \<open>
  \<open>writelock\<close> returns exactly when the server has sent a grant, and it sends one request per
  answer it read.
\<close>

theorem writelock_returns_iff_granted:
  "writelock uuid replies = Some msgs \<longleftrightarrow>
     (\<exists>k. k < length replies \<and> replies ! k = Some 1 \<and> Some 1 \<notin> set (take k replies) \<and>
          msgs = replicate (k + 1) (lock_request uuid WRITE_LOCK))"
  unfolding writelock_def using request_loop_iff [OF write_request_not_one] .

text \<open>
  Without a grant from the server, \<open>readlock\<close> still returns exactly when the block is block 0
  and some \<open>read\<close> fails: the request for block 0 is the word 1, which is the grant.
\<close>

theorem readlock_without_grant:
  assumes "Some 1 \<notin> set replies"
  shows "readlock uuid replies \<noteq> None \<longleftrightarrow> take_bit 30 uuid = 0 \<and> None \<in> set replies"
  unfolding readlock_def request_loop_returns using assms read_request_one [of uuid] by auto

theorem readlock_without_grant_witness: "readlock 0 [Some 0, None] \<noteq> None"
  using readlock_without_grant [of "[Some 0, None]" 0] by simp

text \<open>
  When \<open>malloc\<close> fails on the first write lock of a block, the server grants the lock without
  recording it, so that the next writer is granted the same lock.
\<close>

theorem grant_lost_without_memory:
  assumes "kv_holds h0 s m" "m (msg_block x) = None" "msg_indicator x = lock_code WRITE_LOCK"
    and "msg_block y = msg_block x" "msg_indicator y = lock_code WRITE_LOCK"
  shows "\<exists>s' s''. handle_lock kv_get kv_set s None x = Done (s', Some 1) \<and>
     handle_lock kv_get kv_set s' None y = Done (s'', Some 1)"
proof -
  have fresh: "kv_fresh s None" for s by (simp add: kv_fresh_def)
  have step: "\<exists>s'. handle_lock kv_get kv_set s None z = Done (s', Some 1) \<and> kv_holds h0 s' m"
    if "kv_holds h0 s m" "msg_block z = msg_block x" "msg_indicator z = lock_code WRITE_LOCK" for s z
    using ht.update_holds [OF that(1) sint_msg_block fresh, of x 1] that assms(2)
      ht.lookup_holds [OF that(1) sint_msg_block, of x]
    by (auto simp: handle_lock_def lookup_default_def domIff)
  show ?thesis using step [OF assms(1) refl assms(3)] step [OF _ assms(4,5)] by blast
qed

theorem grant_lost_without_memory_witness:
  "\<exists>s' s''. handle_lock kv_get kv_set new_table None (lock_request 7 WRITE_LOCK) = Done (s', Some 1) \<and>
     handle_lock kv_get kv_set s' None (lock_request 7 WRITE_LOCK) = Done (s'', Some 1)"
  using grant_lost_without_memory [OF new_table_holds, of "lock_request 7 WRITE_LOCK" "lock_request 7 WRITE_LOCK"]
  by (simp add: message_simps)

text \<open>
  A failed \<open>read\<close> breaks the exclusion as well: a reader of block 0 whose \<open>read\<close> fails holds the block whoever has locked it.
\<close>

lemma failed_read_grants_block_0:
  assumes "cl S i = Waiting READ_LOCK 0" "i < n" "length (req S i) < qmax"
  shows "\<exists>S'. table_step n qmax S S' \<and> faulty S' \<and> holds_lock S' i READ_LOCK 0 \<and> (\<forall>j t b. j \<noteq> i \<longrightarrow> holds_lock S' j t b = holds_lock S j t b)"
proof -
  have "lock_request 0 READ_LOCK = 1" using read_request_one [of 0] by simp
  then show ?thesis
    using lock_sys_step.read_fails [OF assms(2,1,3), of kv_get kv_set kv_fresh]
    by (intro exI [of _ "S\<lparr>cl := (cl S)(i := Holding READ_LOCK 0), faulty := True\<rparr>"]) (simp add: holds_lock_def block_of_def)
qed

text \<open>
  Whatever \<open>select\<close>, \<open>accept\<close> and \<open>recv\<close> return, after any number of rounds every watched
  descriptor is at most \<open>max_fd\<close>, which stays below \<open>FD_SETSIZE\<close>: no connection escapes the loop.
\<close>

theorem server_loop_watches_all:
  assumes "server_loop handle sock_fd rs (server_init table sock_fd) = Done (st, e)" "sock_fd < FD_SETSIZE"
    and "rfds_storage st fd"
  shows "fd \<le> max_fd st \<and> max_fd st < FD_SETSIZE"
proof -
  have "descriptors_ok (server_init table sock_fd)"
    using assms(2) by (simp add: descriptors_ok_def server_init_def)
  from server_loop_descriptors [OF assms(1) this] show ?thesis
    using assms(3) by (simp add: descriptors_ok_def)
qed

theorem server_loop_watches_all_witness:
  "\<exists>st e. server_loop (handle_lock kv_get kv_set) 3 [Ready (\<lambda>_. True) (Some 7) (\<lambda>_. (0, 0)) (\<lambda>_. None)]
      (server_init new_table 3) = Done (st, e) \<and> rfds_storage st 7 \<and> 7 \<le> max_fd st"
proof -
  define st where "st = (server_init new_table 3)\<lparr>rfds_storage := (\<lambda>_. False)(3 := True, 7 := True), max_fd := 7\<rparr>"
  have "server_loop (handle_lock kv_get kv_set) 3 [Ready (\<lambda>_. True) (Some 7) (\<lambda>_. (0, 0)) (\<lambda>_. None)]
      (server_init new_table 3) = Done (st, False)"
    by (simp add: serve_round.simps server_init_def serve_fd_def FD_SETSIZE_def st_def)
  from server_loop_watches_all [OF this, of 7] this show ?thesis
    by (auto simp: FD_SETSIZE_def st_def)
qed

text \<open>
  A round of the \<open>select\<close> loop in which every ready connection reports an error or the end of
  the stream closes these connections and leaves the lock table as it is: a client that disconnects
  keeps its locks.
\<close>

theorem disconnect_keeps_locks:
  assumes "\<And>fd. rfds fd \<Longrightarrow> fd \<noteq> sock_fd \<and> fst (received fd) \<le> 0" "max_fd st < FD_SETSIZE"
  shows "\<exists>st'. serve_round handle sock_fd rfds accepted received new_node 0 st = Done st' \<and>
     store st' = store st \<and> (\<forall>fd \<le> max_fd st. rfds fd \<longrightarrow> \<not> rfds_storage st' fd)"
  using serve_round_disconnects [of rfds sock_fd received st handle accepted new_node 0] assms by auto

theorem disconnect_keeps_locks_witness:
  "\<exists>st'. serve_round (handle_lock kv_get kv_set) 3 (\<lambda>fd. fd = 5) None (\<lambda>_. (0, 0)) (\<lambda>_. None) 0
      \<lparr>store = new_table, rfds_storage = (\<lambda>fd. fd \<in> {3, 5}), max_fd = 5, closed = [], sent = []\<rparr> = Done st' \<and>
     store st' = new_table \<and> \<not> rfds_storage st' 5"
  using disconnect_keeps_locks [of "\<lambda>fd. fd = 5" 3 "\<lambda>_. (0, 0)"
      "\<lparr>store = new_table, rfds_storage = (\<lambda>fd. fd \<in> {3, 5}), max_fd = 5, closed = [], sent = []\<rparr>"
      "handle_lock kv_get kv_set" None "\<lambda>_. None"]
  by (fastforce simp: FD_SETSIZE_def)

end
