(* ===== verification/Nvm.thy ===== *)
theory Nvm
  imports Prelude
begin

unbundle bit_operations_syntax

text \<open>
  The byte-addressed persistent memory behind an NVM file, and the two primitives with which
  \<^verbatim>\<open>wal_accel/src/aofguard.c\<close> writes it: the 8-byte store \<open>nvm_set_64\<close> and the copy \<open>nvm_memcpy\<close>. The
  copy compiled by default is a call of the library function \<open>pmem_memcpy_persist\<close>; its contract is the locale
  \<open>nvm_copy\<close>, and the source's own non-temporal variant is shown to satisfy it.
\<close>

section \<open>Model\<close>

type_synonym mem = "nat \<Rightarrow> u8"

definition store_bytes :: "mem \<Rightarrow> nat \<Rightarrow> bytes \<Rightarrow> mem" where
  "store_bytes m off bs = (\<lambda>i. if off \<le> i \<and> i < off + length bs then bs ! (i - off) else m i)"

definition load_bytes :: "mem \<Rightarrow> nat \<Rightarrow> nat \<Rightarrow> bytes" where
  "load_bytes m off n = map (\<lambda>i. m (off + i)) [0..<n]"

text \<open>Little-endian 64-bit words.\<close>

primrec word_bytes :: "nat \<Rightarrow> u64 \<Rightarrow> bytes" where
  "word_bytes 0 w = []"
| "word_bytes (Suc n) w = ucast w # word_bytes n (drop_bit 8 w)"

primrec bytes_word :: "bytes \<Rightarrow> u64" where
  "bytes_word [] = 0"
| "bytes_word (b # bs) = ucast b OR push_bit 8 (bytes_word bs)"

definition store64 :: "mem \<Rightarrow> nat \<Rightarrow> u64 \<Rightarrow> mem" where
  "store64 m off w = store_bytes m off (word_bytes 8 w)"

definition load64 :: "mem \<Rightarrow> nat \<Rightarrow> u64" where
  "load64 m off = bytes_word (load_bytes m off 8)"

text \<open>
  The variant of \<open>nvm_memcpy\<close> made of 8-byte non-temporal stores: the word around an unaligned start is
  read, patched and stored, then whole words, then the patched last word. A failed assertion is \<open>None\<close>.
\<close>

definition patch64 :: "mem \<Rightarrow> nat \<Rightarrow> nat \<Rightarrow> bytes \<Rightarrow> mem" where
  "patch64 m off pos src = store64 m off (bytes_word (overwrite (word_bytes 8 (load64 m off)) pos src))"

function movnti_words :: "mem \<Rightarrow> nat \<Rightarrow> bytes \<Rightarrow> mem \<times> nat \<times> bytes" where
  "movnti_words m dst src =
    (if 8 \<le> length src then movnti_words (store64 m dst (bytes_word (take 8 src))) (dst + 8) (drop 8 src)
     else (m, dst, src))"
  by pat_completeness auto

termination movnti_words
  by (relation "measure (\<lambda>(_, _, src). length src)") auto

declare movnti_words.simps [simp del]

definition nvm_memcpy_body :: "mem \<Rightarrow> nat \<Rightarrow> bytes \<Rightarrow> mem option" where
  "nvm_memcpy_body m dst src =
    (if src = [] then None
     else if dst mod 8 \<noteq> 0 then None
     else (case movnti_words m dst src of
             (m, dst, src) \<Rightarrow> Some (if src = [] then m else patch64 m dst 0 src)))"

definition nvm_memcpy_movnti :: "mem \<Rightarrow> nat \<Rightarrow> bytes \<Rightarrow> mem option" where
  "nvm_memcpy_movnti m dst src =
    (if src = [] then Some m
     else
       (let align = dst - dst mod 8 in
        if align < dst then
          (let front_sz = dst - align; back_sz = 8 - front_sz in
           if \<not> front_sz < 8 then None
           else if length src \<le> back_sz then Some (patch64 m align front_sz src)
           else nvm_memcpy_body (patch64 m align front_sz (take back_sz src)) (dst + back_sz) (drop back_sz src))
        else nvm_memcpy_body m dst src))"

section \<open>Loads and stores\<close>

lemma length_word_bytes [simp]: "length (word_bytes n w) = n"
  by (induction n arbitrary: w) simp_all

lemma length_load_bytes [simp]: "length (load_bytes m off n) = n"
  by (simp add: load_bytes_def)

lemma bytes_word_bytes: "bytes_word (word_bytes n w) = take_bit (8 * n) w"
proof (induction n arbitrary: w)
  case (Suc n)
  have "ucast (ucast w :: u8) OR push_bit 8 (take_bit (8 * n) (drop_bit 8 w)) = take_bit (8 * Suc n) w"
    by (rule bit_word_eqI) (auto simp: bit_simps)
  then show ?case using Suc by simp
qed simp

lemma word_bytes_take: "8 * n \<le> k \<Longrightarrow> word_bytes n (take_bit k w) = word_bytes n w"
proof (induction n arbitrary: k w)
  case (Suc n)
  have "(ucast (take_bit k w) :: u8) = ucast w"
    using Suc.prems by (intro bit_word_eqI) (auto simp: bit_simps)
  moreover have "drop_bit 8 (take_bit k w) = take_bit (k - 8) (drop_bit 8 w)"
    by (rule bit_word_eqI) (auto simp: bit_simps)
  ultimately show ?case using Suc by simp
qed simp

lemma word_bytes_word: "length bs \<le> 8 \<Longrightarrow> word_bytes (length bs) (bytes_word bs) = bs"
proof (induction bs)
  case (Cons b bs)
  have "drop_bit 8 (ucast b OR push_bit 8 (bytes_word bs)) = take_bit 56 (bytes_word bs)"
    by (rule bit_word_eqI) (auto simp: bit_simps dest: bit_imp_le_length)
  moreover have "ucast (ucast b OR push_bit 8 (bytes_word bs) :: u64) = b"
    by (rule bit_word_eqI) (auto simp: bit_simps)
  ultimately show ?case using Cons word_bytes_take [of "length bs" 56] by simp
qed simp

lemma load_store_same [simp]: "load_bytes (store_bytes m off bs) off (length bs) = bs"
  by (rule nth_equalityI) (simp_all add: load_bytes_def store_bytes_def)

lemma load64_store64 [simp]: "load64 (store64 m off w) off = w"
  using load_store_same [of m off "word_bytes 8 w"] by (simp add: load64_def store64_def bytes_word_bytes take_bit_word_eq_self)

lemma load_bytes_cong: "(\<And>i. off \<le> i \<Longrightarrow> i < off + n \<Longrightarrow> m i = m' i) \<Longrightarrow> load_bytes m off n = load_bytes m' off n"
  by (simp add: load_bytes_def)

lemma load64_cong: "(\<And>i. off \<le> i \<Longrightarrow> i < off + 8 \<Longrightarrow> m i = m' i) \<Longrightarrow> load64 m off = load64 m' off"
  using load_bytes_cong [of off 8 m m'] by (simp add: load64_def)

lemma store_bytes_outside: "i < off \<or> off + length bs \<le> i \<Longrightarrow> store_bytes m off bs i = m i"
  by (auto simp: store_bytes_def)

lemma store64_outside: "i < off \<or> off + 8 \<le> i \<Longrightarrow> store64 m off w i = m i"
  by (simp add: store64_def store_bytes_outside)

lemma store_bytes_append: "store_bytes (store_bytes m off xs) (off + length xs) ys = store_bytes m off (xs @ ys)"
  by (auto simp: store_bytes_def fun_eq_iff nth_append)

lemma store_bytes_Nil [simp]: "store_bytes m off [] = m"
  by (rule ext) (auto simp: store_bytes_def)

lemma store64_bytes: "length bs = 8 \<Longrightarrow> store64 m off (bytes_word bs) = store_bytes m off bs"
  using word_bytes_word [of bs] by (simp add: store64_def)

lemma word_bytes_load64: "word_bytes 8 (load64 m off) = load_bytes m off 8"
  using word_bytes_word [of "load_bytes m off 8"] by (simp add: load64_def)

lemma patch64_store: "pos + length src \<le> 8 \<Longrightarrow> patch64 m off pos src = store_bytes m (off + pos) src"
proof -
  assume a: "pos + length src \<le> 8"
  let ?o = "overwrite (load_bytes m off 8) pos src"
  have "patch64 m off pos src = store_bytes m off ?o"
    using a by (simp add: patch64_def word_bytes_load64 store64_bytes)
  also have "\<dots> = store_bytes m (off + pos) src"
    using a by (auto simp: store_bytes_def fun_eq_iff overwrite_def load_bytes_def nth_append min_def)
  finally show ?thesis .
qed

lemma movnti_words_store:
  "movnti_words m dst src =
    (store_bytes m dst (take (length src - length src mod 8) src), dst + (length src - length src mod 8),
     drop (length src - length src mod 8) src)"
proof (induction m dst src rule: movnti_words.induct)
  case (1 m dst src)
  show ?case
  proof (cases "8 \<le> length src")
    case True
    define k where "k = length (drop 8 src) - length (drop 8 src) mod 8"
    have n: "length src - length src mod 8 = 8 + k" using True by (simp add: k_def le_mod_geq)
    have s: "store64 m dst (bytes_word (take 8 src)) = store_bytes m dst (take 8 src)"
      using True by (simp add: store64_bytes)
    have "movnti_words m dst src = movnti_words (store_bytes m dst (take 8 src)) (dst + 8) (drop 8 src)"
      using True s by (subst movnti_words.simps) simp
    also have "\<dots> = (store_bytes (store_bytes m dst (take 8 src)) (dst + 8) (take k (drop 8 src)), dst + 8 + k,
        drop k (drop 8 src))"
      using 1 [OF True] unfolding s k_def .
    also have "\<dots> = (store_bytes m dst (take (8 + k) src), dst + (8 + k), drop (8 + k) src)"
      using store_bytes_append [of m dst "take 8 src" "take k (drop 8 src)"] True
      by (simp add: take_add [of 8 k] min_absorb2 add.assoc) (simp add: add.commute)
    finally show ?thesis unfolding n .
  next
    case False
    then show ?thesis by (subst movnti_words.simps) simp
  qed
qed

lemma nvm_memcpy_body_store:
  assumes "src \<noteq> []" "dst mod 8 = 0"
  shows "nvm_memcpy_body m dst src = Some (store_bytes m dst src)"
proof -
  let ?n = "length src - length src mod 8"
  have l: "length (drop ?n src) < 8" by simp
  have "patch64 (store_bytes m dst (take ?n src)) (dst + ?n) 0 (drop ?n src) =
    store_bytes (store_bytes m dst (take ?n src)) (dst + ?n) (drop ?n src)"
    using patch64_store [of 0 "drop ?n src"] l by simp
  also have "\<dots> = store_bytes m dst src"
    using store_bytes_append [of m dst "take ?n src" "drop ?n src"] by simp
  finally show ?thesis
    using assms store_bytes_append [of m dst "take ?n src" "[]"]
    by (auto simp: nvm_memcpy_body_def movnti_words_store)
qed

lemma nvm_memcpy_movnti_store: "nvm_memcpy_movnti m dst src = Some (store_bytes m dst src)"
proof -
  let ?a = "dst - dst mod 8" and ?b = "8 - dst mod 8"
  have le: "dst mod 8 \<le> dst" "dst mod 8 < 8" by simp_all
  have sz: "dst - ?a = dst mod 8" "?a + dst mod 8 = dst" using le(1) by simp_all
  have al: "(dst + ?b) mod 8 = 0"
  proof -
    have "dst + ?b = 8 * (dst div 8 + 1)" by presburger
    then show ?thesis by simp
  qed
  consider "src = []" | "src \<noteq> []" "dst mod 8 = 0" | "src \<noteq> []" "dst mod 8 \<noteq> 0" "length src \<le> ?b"
    | "src \<noteq> []" "dst mod 8 \<noteq> 0" "\<not> length src \<le> ?b" by blast
  then show ?thesis
  proof cases
    case 1
    then show ?thesis by (simp add: nvm_memcpy_movnti_def)
  next
    case 2
    then show ?thesis by (simp add: nvm_memcpy_movnti_def nvm_memcpy_body_store)
  next
    case 3
    then show ?thesis using patch64_store [of "dst mod 8" src m ?a] le sz
      by (simp add: nvm_memcpy_movnti_def Let_def)
  next
    case 4
    then have "nvm_memcpy_movnti m dst src =
      nvm_memcpy_body (patch64 m ?a (dst mod 8) (take ?b src)) (dst + ?b) (drop ?b src)"
      using le sz by (simp add: nvm_memcpy_movnti_def Let_def)
    also have "\<dots> = Some (store_bytes (store_bytes m dst (take ?b src)) (dst + ?b) (drop ?b src))"
      using 4 patch64_store [of "dst mod 8" "take ?b src" m ?a] le sz al by (simp add: nvm_memcpy_body_store)
    also have "\<dots> = Some (store_bytes m dst src)"
      using 4 store_bytes_append [of m dst "take ?b src" "drop ?b src"] by (simp add: min_def)
    finally show ?thesis .
  qed
qed

section \<open>The contract of the copy\<close>

locale nvm_copy =
  fixes copy :: "mem \<Rightarrow> nat \<Rightarrow> bytes \<Rightarrow> mem"
  assumes copy_inside: "j < length bs \<Longrightarrow> copy m off bs (off + j) = bs ! j"
    and copy_outside: "i < off \<or> off + length bs \<le> i \<Longrightarrow> copy m off bs i = m i"
begin

lemma copy_eq: "copy m off bs = store_bytes m off bs"
proof
  fix i
  show "copy m off bs i = store_bytes m off bs i"
    using copy_inside [of "i - off" bs m off] copy_outside [of i off bs m]
    by (auto simp: store_bytes_def)
qed

lemma load_copy: "load_bytes (copy m off bs) off (length bs) = bs"
  by (simp add: copy_eq)

end

definition movnti_copy :: "mem \<Rightarrow> nat \<Rightarrow> bytes \<Rightarrow> mem" where
  "movnti_copy m off bs = (case nvm_memcpy_movnti m off bs of None \<Rightarrow> m | Some m' \<Rightarrow> m')"

interpretation movnti: nvm_copy movnti_copy
  by unfold_locales (auto simp: movnti_copy_def nvm_memcpy_movnti_store store_bytes_def)

section \<open>Properties\<close>

text \<open>
  C8: The non-temporal \<open>nvm_memcpy\<close> passes its assertions at every address and length, and copies
  the source bytes to the destination without changing any other byte, although it stores whole words.
\<close>

theorem nvm_memcpy_movnti_copies:
  "\<exists>m'. nvm_memcpy_movnti m dst src = Some m' \<and> load_bytes m' dst (length src) = src \<and>
     (\<forall>i. dst \<le> i \<and> i < dst + length src \<or> m' i = m i)"
  using nvm_memcpy_movnti_store [of m dst src] load_store_same [of m dst src]
  by (intro exI [of _ "store_bytes m dst src"]) (auto simp: store_bytes_def)

end
