(* ===== verification/Aofguard.thy ===== *)
theory Aofguard
  imports Nvm
begin

unbundle bit_operations_syntax

text \<open>
  The write-ahead guard of \<^verbatim>\<open>wal_accel/src/aofguard.c\<close>. Every append to the guarded file is copied into a
  ring buffer in persistent memory, a background thread flushes the file, and \<open>aofguard_init\<close> rebuilds
  the file from the ring after a crash. Each operation is a function from the \<open>struct aofguard\<close> and
  the results of its system calls to its outcome, the new struct and the list of effects on file and
  persistent memory in program order; \<open>apply_event\<close> gives the effects their meaning.
\<close>

section \<open>Sizes\<close>

text \<open>\<open>size_t\<close> arithmetic, with the wrap-around written out.\<close>

definition size_add :: "nat \<Rightarrow> nat \<Rightarrow> nat" where
  "size_add a b = (a + b) mod 2 ^ 64"

definition size_sub :: "nat \<Rightarrow> nat \<Rightarrow> nat" where
  "size_sub a b = (a + (2 ^ 64 - b)) mod 2 ^ 64"

definition size_mul :: "nat \<Rightarrow> nat \<Rightarrow> nat" where
  "size_mul a b = (a * b) mod 2 ^ 64"

definition BLOCK_SIZE :: nat where
  "BLOCK_SIZE = 2 ^ 20"

definition MAKE_MIXED_META :: "nat \<Rightarrow> nat \<Rightarrow> u64" where
  "MAKE_MIXED_META fsync_len buf_start =
    (of_nat fsync_len AND 0xffffffffffff) OR
    (push_bit 48 (of_nat (buf_start div BLOCK_SIZE)) AND 0xffff000000000000)"

definition GET_FSYNC_LEN :: "u64 \<Rightarrow> nat" where
  "GET_FSYNC_LEN mixed_meta = unat (mixed_meta AND 0xffffffffffff)"

definition GET_BUF_START :: "u64 \<Rightarrow> nat" where
  "GET_BUF_START mixed_meta = size_mul (unat (drop_bit 48 mixed_meta AND 0xffff)) BLOCK_SIZE"

text \<open>\<open>RING_BUF_FORWARD\<close> and \<open>RING_BUF_END\<close>; \<open>None\<close> is a failed assertion.\<close>

definition RING_BUF_FORWARD :: "nat \<Rightarrow> nat \<Rightarrow> nat \<Rightarrow> nat option" where
  "RING_BUF_FORWARD v addition cap =
    (let v = size_add v addition; v = (if cap \<le> v then size_sub v cap else v) in
     if v < cap then Some v else None)"

definition RING_BUF_END :: "nat \<Rightarrow> nat \<Rightarrow> nat \<Rightarrow> nat option" where
  "RING_BUF_END start n cap = RING_BUF_FORWARD start n cap"

section \<open>State and effects\<close>

text \<open>
  The fields of \<open>struct aofguard\<close>. The pointers into the mapping are the fixed offsets 0 (the mixed
  word), 64 (the end of the ring) and 128 (the ring).
\<close>

record aofguard =
  fsync_len :: nat
  capacity :: nat
  start :: nat
  len :: nat
  block_count :: nat

definition META_OFF :: nat where "META_OFF = 0"
definition BUF_END_OFF :: nat where "BUF_END_OFF = 64"
definition DATA_OFF :: nat where "DATA_OFF = 128"

text \<open>
  The guarded file: its contents, how much of it is on stable storage, the file offset and whether
  the descriptor was opened with \<open>O_APPEND\<close>. The NVM file: its size and bytes, or none.
\<close>

record log_file =
  content :: bytes
  durable :: nat
  offset :: nat
  append_mode :: bool

record world =
  log :: log_file
  nvm :: "(nat \<times> mem) option"

datatype event =
  Write bytes
| Truncate nat
| Fsync
| Create_nvm
| Resize_nvm nat
| Copy nat bytes
| Set64 nat u64

definition write_at :: "bytes \<Rightarrow> nat \<Rightarrow> bytes \<Rightarrow> bytes" where
  "write_at c pos data =
    (if data = [] then c
     else take pos (c @ replicate (pos - length c) 0) @ data @ drop (pos + length data) c)"

definition file_write :: "log_file \<Rightarrow> bytes \<Rightarrow> log_file" where
  "file_write f data =
    (let pos = (if append_mode f then length (content f) else offset f) in
     f\<lparr>content := write_at (content f) pos data, durable := min (durable f) pos, offset := pos + length data\<rparr>)"

text \<open>
  \<open>ftruncate\<close> keeps a prefix, and the part of it that was stable stays stable; \<open>fdatasync\<close> makes the
  whole contents stable; a write at a position makes the file stable only below that position.
\<close>

primrec apply_event :: "(mem \<Rightarrow> nat \<Rightarrow> bytes \<Rightarrow> mem) \<Rightarrow> event \<Rightarrow> world \<Rightarrow> world" where
  "apply_event memcpy (Write data) w = w\<lparr>log := file_write (log w) data\<rparr>"
| "apply_event memcpy (Truncate n) w =
    w\<lparr>log := (log w)\<lparr>content := take n (content (log w) @ replicate (n - length (content (log w))) 0),
       durable := min (durable (log w)) n\<rparr>\<rparr>"
| "apply_event memcpy Fsync w = w\<lparr>log := (log w)\<lparr>durable := length (content (log w))\<rparr>\<rparr>"
| "apply_event memcpy Create_nvm w = w\<lparr>nvm := Some (0, \<lambda>_. 0)\<rparr>"
| "apply_event memcpy (Resize_nvm n) w = w\<lparr>nvm := map_option (\<lambda>(_, m). (n, m)) (nvm w)\<rparr>"
| "apply_event memcpy (Copy off bs) w = w\<lparr>nvm := map_option (\<lambda>(n, m). (n, memcpy m off bs)) (nvm w)\<rparr>"
| "apply_event memcpy (Set64 off v) w = w\<lparr>nvm := map_option (\<lambda>(n, m). (n, store64 m off v)) (nvm w)\<rparr>"

definition apply_events :: "(mem \<Rightarrow> nat \<Rightarrow> bytes \<Rightarrow> mem) \<Rightarrow> event list \<Rightarrow> world \<Rightarrow> world" where
  "apply_events memcpy es w = fold (apply_event memcpy) es w"

text \<open>How a call ends: it returns 1, it reports an error and returns 0, an assertion fails, or it waits for ever.\<close>

datatype status = Ret1 | Ret0 | Assert_failed | Blocked

type_synonym 'a run = "status \<times> 'a \<times> event list"

definition and_then :: "'a run \<Rightarrow> ('a \<Rightarrow> 'a run) \<Rightarrow> 'a run" where
  "and_then r f =
    (case r of (st, ag, es) \<Rightarrow>
       if st = Ret1 then (case f ag of (st', ag', es') \<Rightarrow> (st', ag', es @ es')) else (st, ag, es))"

section \<open>Operations\<close>

definition nvm_set_64 :: "nat \<Rightarrow> u64 \<Rightarrow> aofguard \<Rightarrow> aofguard run" where
  "nvm_set_64 ptr v ag = (if ptr mod 8 = 0 then (Ret1, ag, [Set64 ptr v]) else (Assert_failed, ag, []))"

definition update_after_fsync :: "nat \<Rightarrow> aofguard \<Rightarrow> aofguard run" where
  "update_after_fsync blocks ag =
    (if blocks = 0 then (Ret1, ag, [])
     else
       (let fsync_size = size_mul blocks BLOCK_SIZE in
        case RING_BUF_FORWARD (start ag) fsync_size (capacity ag) of
          None \<Rightarrow> (Assert_failed, ag, [])
        | Some start' \<Rightarrow>
            if start' mod BLOCK_SIZE \<noteq> 0 \<or> \<not> fsync_size \<le> len ag then (Assert_failed, ag, [])
            else
              (let ag = ag\<lparr>start := start', len := size_sub (len ag) fsync_size,
                     fsync_len := size_add (fsync_len ag) fsync_size\<rparr> in
               nvm_set_64 META_OFF (MAKE_MIXED_META (fsync_len ag) (start ag)) ag)))"

text \<open>The results of \<open>sem_trywait\<close>.\<close>

datatype trywait = Acquired | Again | Trywait_failed

definition handle_afsync_if_finish :: "trywait \<Rightarrow> aofguard \<Rightarrow> aofguard run" where
  "handle_afsync_if_finish ret ag =
    (if block_count ag = 0 then (Ret1, ag, [])
     else case ret of
       Acquired \<Rightarrow> and_then (update_after_fsync (block_count ag) ag) (\<lambda>ag. (Ret1, ag\<lparr>block_count := 0\<rparr>, []))
     | Again \<Rightarrow> (Ret1, ag, [])
     | Trywait_failed \<Rightarrow> (Ret0, ag, []))"

definition do_fsync :: "bool \<Rightarrow> aofguard \<Rightarrow> aofguard run" where
  "do_fsync fsync_ok ag =
    (if \<not> fsync_ok then (Ret0, ag, [])
     else and_then (Ret1, ag, [Fsync]) (update_after_fsync (len ag div BLOCK_SIZE)))"

text \<open>\<open>wait_afsync_done\<close> on the result of \<open>sem_wait\<close>, where \<open>None\<close> means that no post ever comes.\<close>

definition wait_afsync_done :: "bool option \<Rightarrow> aofguard \<Rightarrow> aofguard run" where
  "wait_afsync_done ret ag =
    (if block_count ag = 0 then (Ret1, ag, [])
     else case ret of
       None \<Rightarrow> (Blocked, ag, [])
     | Some False \<Rightarrow> (Ret0, ag, [])
     | Some True \<Rightarrow> and_then (update_after_fsync (block_count ag) ag) (\<lambda>ag. (Ret1, ag\<lparr>block_count := 0\<rparr>, [])))"

text \<open>The results of the calls that a write makes.\<close>

record write_env =
  try_done :: trywait
  wait_done :: "bool option"
  fsync_ok :: bool
  write_ret :: int
  post_ok :: bool

text \<open>The part of \<open>aofguard_write\<close> that makes room in the ring.\<close>

definition make_room :: "write_env \<Rightarrow> nat \<Rightarrow> aofguard \<Rightarrow> aofguard run" where
  "make_room env n ag =
    (if capacity ag < size_add (len ag) n then
       if capacity ag < size_add (len ag mod BLOCK_SIZE) n then (Ret0, ag, [])
       else and_then (wait_afsync_done (wait_done env) ag)
         (\<lambda>ag. if capacity ag < size_add (len ag) n then do_fsync (fsync_ok env) ag else (Ret1, ag, []))
     else (Ret1, ag, []))"

text \<open>The part that appends to the file and to the ring and publishes the new end of the ring.\<close>

definition append_data :: "write_env \<Rightarrow> bytes \<Rightarrow> aofguard \<Rightarrow> aofguard run" where
  "append_data env data ag =
    (let n = length data in
     if capacity ag < size_add (len ag) n then (Assert_failed, ag, [])
     else if write_ret env \<noteq> int n then (Ret0, ag, [Write (take (nat (write_ret env)) data)])
     else case RING_BUF_END (start ag) (len ag) (capacity ag) of
       None \<Rightarrow> (Assert_failed, ag, [Write data])
     | Some write_pos \<Rightarrow>
        (let copies =
           (if size_add write_pos n \<le> capacity ag then [Copy (DATA_OFF + write_pos) data]
            else let front_sz = size_sub (capacity ag) write_pos in
                 [Copy (DATA_OFF + write_pos) (take front_sz data), Copy DATA_OFF (drop front_sz data)]);
           ag = ag\<lparr>len := size_add (len ag) n\<rparr> in
         if capacity ag < len ag then (Assert_failed, ag, Write data # copies)
         else case RING_BUF_END (start ag) (len ag) (capacity ag) of
           None \<Rightarrow> (Assert_failed, ag, Write data # copies)
         | Some buf_end \<Rightarrow> and_then (Ret1, ag, Write data # copies) (nvm_set_64 BUF_END_OFF (of_nat buf_end))))"

text \<open>The part that wakes the flushing thread when a whole block is waiting.\<close>

definition start_afsync :: "write_env \<Rightarrow> aofguard \<Rightarrow> aofguard run" where
  "start_afsync env ag =
    (if BLOCK_SIZE \<le> len ag \<and> block_count ag = 0
     then (if post_ok env then Ret1 else Ret0, ag\<lparr>block_count := len ag div BLOCK_SIZE\<rparr>, [])
     else (Ret1, ag, []))"

definition write_body :: "write_env \<Rightarrow> bytes \<Rightarrow> aofguard \<Rightarrow> aofguard run" where
  "write_body env data ag =
    and_then (and_then (make_room env (length data) ag) (append_data env data)) (start_afsync env)"

definition aofguard_write :: "write_env \<Rightarrow> bytes \<Rightarrow> aofguard \<Rightarrow> aofguard run" where
  "aofguard_write env data ag = and_then (handle_afsync_if_finish (try_done env) ag) (write_body env data)"

text \<open>
  The results of the calls that \<open>aofguard_init\<close> makes. The NVM file exists when \<open>faccessat\<close> finds
  it; the result of a \<open>write\<close> depends on the number of bytes asked for.
\<close>

record init_env =
  open_ok :: bool
  nvm_fstat_ok :: bool
  nvm_truncate_ok :: bool
  mmap_ok :: bool
  fstat_ok :: bool
  truncate_ok :: bool
  write1_ret :: "nat \<Rightarrow> int"
  write2_ret :: "nat \<Rightarrow> int"
  sem1_ok :: bool
  sem2_ok :: bool
  thread_ok :: bool

text \<open>Opening or creating the NVM file.\<close>

definition open_nvm :: "init_env \<Rightarrow> nat \<Rightarrow> world \<Rightarrow> aofguard \<Rightarrow> aofguard run" where
  "open_nvm env nvm_file_size w ag =
    (case nvm w of
       Some (st_size, _) \<Rightarrow>
         if \<not> open_ok env \<or> \<not> nvm_fstat_ok env \<or> st_size \<noteq> nvm_file_size then (Ret0, ag, []) else (Ret1, ag, [])
     | None \<Rightarrow>
         if \<not> open_ok env then (Ret0, ag, [])
         else if \<not> nvm_truncate_ok env then (Ret0, ag, [Create_nvm])
         else (Ret1, ag, [Create_nvm, Resize_nvm nvm_file_size]))"

text \<open>Writing the live part of the ring to the file, in one or two pieces.\<close>

definition replay_ring :: "init_env \<Rightarrow> mem \<Rightarrow> aofguard \<Rightarrow> aofguard run" where
  "replay_ring env m ag =
    (let buf_start = start ag; buf_len = len ag in
     if size_add buf_start buf_len \<le> capacity ag then
       (if write1_ret env buf_len = int buf_len then Ret1 else Ret0, ag,
        [Write (take (nat (write1_ret env buf_len)) (load_bytes m (DATA_OFF + buf_start) buf_len))])
     else
       (let front_sz = size_sub (capacity ag) buf_start; back_sz = size_sub buf_len front_sz in
        and_then
          (if write1_ret env front_sz = int front_sz then Ret1 else Ret0, ag,
           [Write (take (nat (write1_ret env front_sz)) (load_bytes m (DATA_OFF + buf_start) front_sz))])
          (\<lambda>ag. (if write2_ret env back_sz = int back_sz then Ret1 else Ret0, ag,
           [Write (take (nat (write2_ret env back_sz)) (load_bytes m DATA_OFF back_sz))]))))"

text \<open>The recovery from an existing NVM file with contents \<open>m\<close> of a file of \<open>st_size\<close> bytes.\<close>

definition recover :: "init_env \<Rightarrow> mem \<Rightarrow> nat \<Rightarrow> aofguard \<Rightarrow> aofguard run" where
  "recover env m st_size ag =
    (let mixed_meta = load64 m META_OFF;
         ag = ag\<lparr>fsync_len := GET_FSYNC_LEN mixed_meta, start := GET_BUF_START mixed_meta\<rparr> in
     if capacity ag \<le> start ag then (Ret0, ag, [])
     else
       (let buf_end = unat (load64 m BUF_END_OFF) in
        if capacity ag \<le> buf_end then (Ret0, ag, [])
        else
          (let ag = ag\<lparr>len := (if start ag \<le> buf_end then size_sub buf_end (start ag)
                               else size_sub (size_add (capacity ag) buf_end) (start ag))\<rparr> in
           if st_size < fsync_len ag then (Ret0, ag, [])
           else if fsync_len ag < st_size then
             (if truncate_ok env then and_then (Ret1, ag, [Truncate (fsync_len ag)]) (replay_ring env m)
              else (Ret0, ag, []))
           else replay_ring env m ag)))"

text \<open>The start of an empty ring.\<close>

definition reset_ring :: "nat \<Rightarrow> aofguard \<Rightarrow> aofguard run" where
  "reset_ring st_size ag =
    and_then (nvm_set_64 META_OFF (of_nat st_size) (ag\<lparr>fsync_len := st_size, start := 0, len := 0\<rparr>))
      (nvm_set_64 BUF_END_OFF 0)"

definition aofguard_init :: "init_env \<Rightarrow> int \<Rightarrow> nat \<Rightarrow> bool \<Rightarrow> world \<Rightarrow> aofguard \<Rightarrow> aofguard run" where
  "aofguard_init env fd nvm_size reset w ag =
    (if fd < 0 then (Ret0, ag, [])
     else
       (let blocks = nvm_size div BLOCK_SIZE in
        if blocks < 2 then (Ret0, ag, [])
        else if 65536 < blocks then (Ret0, ag, [])
        else
          (let nvm_file_size = size_add (2 * 64) (size_mul blocks BLOCK_SIZE) in
           and_then (open_nvm env nvm_file_size w ag) (\<lambda>ag.
             if \<not> mmap_ok env \<or> \<not> fstat_ok env then (Ret0, ag, [])
             else
               (let st_size = length (content (log w)); ag = ag\<lparr>capacity := size_mul blocks BLOCK_SIZE\<rparr> in
                and_then
                  (case nvm w of
                     Some (_, m) \<Rightarrow> if \<not> reset then recover env m st_size ag else reset_ring st_size ag
                   | None \<Rightarrow> reset_ring st_size ag)
                  (\<lambda>ag. (if sem1_ok env \<and> sem2_ok env \<and> thread_ok env then Ret1 else Ret0,
                         ag\<lparr>block_count := 0\<rparr>, [])))))))"

text \<open>
  \<open>aofguard_deinit\<close>: the results of \<open>pthread_cancel\<close>, \<open>pthread_join\<close> and \<open>munmap\<close>, and whether the joined
  thread was cancelled. It changes neither the file nor the persistent memory.
\<close>

definition aofguard_deinit :: "bool \<Rightarrow> bool \<Rightarrow> bool \<Rightarrow> bool \<Rightarrow> aofguard \<Rightarrow> aofguard run" where
  "aofguard_deinit cancel_ok join_ok was_cancelled munmap_ok ag =
    (if \<not> cancel_ok then (Ret0, ag, [])
     else if \<not> join_ok then (Ret0, ag, [])
     else if \<not> was_cancelled then (Assert_failed, ag, [])
     else if \<not> munmap_ok then (Ret0, ag, [])
     else (Ret1, ag, []))"

end
