(* ===== verification/Aofguard_Recovery.thy ===== *)
theory Aofguard_Recovery
  imports Aofguard
begin

unbundle bit_operations_syntax

text \<open>
  Crash safety of the write-ahead guard. \<open>persist\<close> says what a crash leaves behind, \<open>guard_holds\<close> is the
  invariant between calls, whatever their results were, \<open>guard_inv\<close> the same for a file that holds nothing but what the
  ring was given, and \<open>crash_during\<close> enumerates the crashes inside a call, including torn copies.
  One lemma per operation shows which contents a crash can leave (\<open>run_ok\<close>, \<open>write_ok\<close>), and \<open>init_recovers\<close> that
  \<open>aofguard_init\<close> rebuilds them.
\<close>

section \<open>Sizes and the packed word\<close>

lemma size_add_eq: "a + b < 2 ^ 64 \<Longrightarrow> size_add a b = a + b"
  by (simp add: size_add_def)

lemma size_sub_eq: "b \<le> a \<Longrightarrow> a < 2 ^ 64 \<Longrightarrow> size_sub a b = a - b"
proof -
  assume a: "b \<le> a" "a < 2 ^ 64"
  then have "a + (2 ^ 64 - b) = (a - b) + 2 ^ 64" by simp
  then have "size_sub a b = ((a - b) + 2 ^ 64) mod 2 ^ 64" by (simp only: size_sub_def)
  also have "\<dots> = a - b" using a by (subst mod_add_self2) simp
  finally show ?thesis .
qed

lemma size_mul_eq: "a * b < 2 ^ 64 \<Longrightarrow> size_mul a b = a * b"
  by (simp add: size_mul_def)

lemma mixed_masks: "(0xffffffffffff :: u64) = mask 48" "(0xffff000000000000 :: u64) = push_bit 48 (mask 16)" "(0xffff :: u64) = mask 16"
  by (simp_all add: mask_eq_exp_minus_1)

lemma GET_FSYNC_LEN_MAKE: "fl < 2 ^ 48 \<Longrightarrow> GET_FSYNC_LEN (MAKE_MIXED_META fl st) = fl"
proof -
  assume "fl < 2 ^ 48"
  have "(((a AND mask 48) OR (push_bit 48 b AND push_bit 48 (mask 16))) AND mask 48) = take_bit 48 a" for a b :: u64
    by (rule bit_word_eqI) (auto simp: bit_simps)
  then have "GET_FSYNC_LEN (MAKE_MIXED_META fl st) = unat (take_bit 48 (of_nat fl :: u64))"
    unfolding GET_FSYNC_LEN_def MAKE_MIXED_META_def mixed_masks by (simp only:)
  also have "\<dots> = fl" using \<open>fl < 2 ^ 48\<close>
    by (simp add: unsigned_take_bit_eq unsigned_of_nat take_bit_nat_eq_self_iff)
  finally show ?thesis .
qed

lemma GET_BUF_START_MAKE:
  assumes "k < 65536"
  shows "GET_BUF_START (MAKE_MIXED_META fl (k * BLOCK_SIZE)) = k * BLOCK_SIZE"
proof -
  have "drop_bit 48 ((a AND mask 48) OR (push_bit 48 b AND push_bit 48 (mask 16))) AND mask 16 = take_bit 16 b" for a b :: u64
    by (rule bit_word_eqI) (auto simp: bit_simps)
  moreover have "unat (take_bit 16 (of_nat k :: u64)) = k"
    using assms by (simp add: unsigned_take_bit_eq unsigned_of_nat take_bit_nat_eq_self_iff take_bit_nat_eq_self)
  moreover have "k * BLOCK_SIZE div BLOCK_SIZE = k" by (simp add: BLOCK_SIZE_def)
  moreover have "k * BLOCK_SIZE < 2 ^ 64" using assms by (simp add: BLOCK_SIZE_def)
  ultimately show ?thesis
    unfolding GET_BUF_START_def MAKE_MIXED_META_def mixed_masks by (simp add: size_mul_eq)
qed

lemma MAKE_MIXED_META_zero: "fl < 2 ^ 48 \<Longrightarrow> MAKE_MIXED_META fl 0 = of_nat fl"
proof -
  assume "fl < 2 ^ 48"
  then have "take_bit 48 (of_nat fl :: u64) = of_nat fl"
    by (simp add: take_bit_of_nat take_bit_nat_eq_self)
  then show ?thesis unfolding MAKE_MIXED_META_def mixed_masks by (simp add: take_bit_eq_mask)
qed

lemma RING_BUF_FORWARD_eq:
  assumes "v < cap" "n \<le> cap" "cap \<le> 2 ^ 36"
  shows "RING_BUF_FORWARD v n cap = Some ((v + n) mod cap)"
proof -
  have s: "size_add v n = v + n" using assms by (intro size_add_eq) simp
  have "(v + n) mod cap = v + n - cap" if "cap \<le> v + n"
    using that assms by (simp add: le_mod_geq)
  then show ?thesis using assms s by (auto simp: RING_BUF_FORWARD_def Let_def size_sub_eq)
qed

section \<open>The ring\<close>

definition ring_bytes :: "mem \<Rightarrow> nat \<Rightarrow> nat \<Rightarrow> nat \<Rightarrow> bytes" where
  "ring_bytes m cap st n = map (\<lambda>i. m (DATA_OFF + (st + i) mod cap)) [0..<n]"

lemma length_ring_bytes [simp]: "length (ring_bytes m cap st n) = n"
  by (simp add: ring_bytes_def)

lemma ring_bytes_drop: "ring_bytes m cap ((st + k) mod cap) (n - k) = drop k (ring_bytes m cap st n)"
  by (rule nth_equalityI) (auto simp: ring_bytes_def drop_map mod_add_left_eq add.assoc)

lemma ring_bytes_cong:
  "(\<And>i. i < n \<Longrightarrow> m (DATA_OFF + (st + i) mod cap) = m' (DATA_OFF + (st + i) mod cap)) \<Longrightarrow>
   ring_bytes m cap st n = ring_bytes m' cap st n"
  by (simp add: ring_bytes_def)

lemma ring_bytes_add: "ring_bytes m cap st (a + b) = ring_bytes m cap st a @ ring_bytes m cap ((st + a) mod cap) b"
  by (rule nth_equalityI) (auto simp: ring_bytes_def nth_append mod_add_left_eq)

lemma ring_bytes_straight: "st + n \<le> cap \<Longrightarrow> ring_bytes m cap st n = load_bytes m (DATA_OFF + st) n"
  by (rule nth_equalityI) (auto simp: ring_bytes_def load_bytes_def add.assoc)

lemma ring_bytes_wrap:
  assumes "st < cap" "cap < st + n" "n \<le> cap"
  shows "ring_bytes m cap st n = load_bytes m (DATA_OFF + st) (cap - st) @ load_bytes m DATA_OFF (n - (cap - st))"
proof -
  have n: "n = (cap - st) + (n - (cap - st))" using assms by simp
  have "ring_bytes m cap st n = ring_bytes m cap st (cap - st) @ ring_bytes m cap ((st + (cap - st)) mod cap) (n - (cap - st))"
    by (subst n) (rule ring_bytes_add)
  also have "(st + (cap - st)) mod cap = 0" using assms by simp
  finally show ?thesis using assms ring_bytes_straight [of 0 "n - (cap - st)" cap m] by (simp add: ring_bytes_straight)
qed

text \<open>The addresses that a recovery with the given ring reads.\<close>

definition live :: "nat \<Rightarrow> nat \<Rightarrow> nat \<Rightarrow> nat \<Rightarrow> bool" where
  "live cap st n i \<longleftrightarrow> i < DATA_OFF \<or> (\<exists>j<n. i = DATA_OFF + (st + j) mod cap)"

definition agree :: "nat \<Rightarrow> nat \<Rightarrow> nat \<Rightarrow> mem \<Rightarrow> mem \<Rightarrow> bool" where
  "agree cap st n m m' \<longleftrightarrow> (\<forall>i. live cap st n i \<longrightarrow> m' i = m i)"

lemma agree_ring: "agree cap st n m m' \<Longrightarrow> ring_bytes m' cap st n = ring_bytes m cap st n"
  by (rule ring_bytes_cong) (auto simp: agree_def live_def)

lemma agree_load64: "agree cap st n m m' \<Longrightarrow> off + 8 \<le> DATA_OFF \<Longrightarrow> load64 m' off = load64 m off"
  by (rule load64_cong) (auto simp: agree_def live_def)

lemma agree_refl [simp]: "agree cap st n m m"
  by (simp add: agree_def)

lemma agree_trans: "agree cap st n m m' \<Longrightarrow> agree cap st n m' m'' \<Longrightarrow> agree cap st n m m''"
  by (simp add: agree_def)

text \<open>The free part of the ring, into which a write of \<open>k\<close> bytes goes.\<close>

definition in_free :: "nat \<Rightarrow> nat \<Rightarrow> nat \<Rightarrow> nat \<Rightarrow> nat \<Rightarrow> bool" where
  "in_free cap st n k i \<longleftrightarrow> (\<exists>j<k. i = DATA_OFF + (st + n + j) mod cap)"

lemma free_not_live:
  assumes "in_free cap st n k i" "n + k \<le> cap"
  shows "\<not> live cap st n i"
proof -
  obtain j where j: "j < k" "i = DATA_OFF + (st + n + j) mod cap" using assms(1) by (auto simp: in_free_def)
  have "(st + l) mod cap \<noteq> (st + n + j) mod cap" if "l < n" for l
    using mod_neq_window [of "st + l" "st + n + j" cap] that j(1) assms(2) by simp
  then show ?thesis using j(2) by (metis add_left_cancel live_def not_add_less1)
qed

section \<open>Invariants\<close>

definition ring_ok :: "nat \<Rightarrow> nat \<Rightarrow> nat \<Rightarrow> nat \<Rightarrow> bool" where
  "ring_ok cap st n fl \<longleftrightarrow> (\<exists>k. cap = k * BLOCK_SIZE \<and> 2 \<le> k \<and> k \<le> 65536) \<and> st < cap \<and>
     st mod BLOCK_SIZE = 0 \<and> n \<le> cap \<and> fl + n < 2 ^ 48"

text \<open>The persistent words that describe a ring.\<close>

definition nvm_ring :: "nat \<Rightarrow> nat \<Rightarrow> nat \<Rightarrow> nat \<Rightarrow> mem \<Rightarrow> bool" where
  "nvm_ring cap st n fl m \<longleftrightarrow>
     load64 m META_OFF = MAKE_MIXED_META fl st \<and> load64 m BUF_END_OFF = of_nat ((st + n) mod cap)"

text \<open>
  \<open>persist cap st n fl w c\<close>: the first \<open>fl\<close> bytes of \<open>c\<close> are stable in the file and the ring with start
  \<open>st\<close> and length \<open>n\<close>, recorded in the persistent words, holds the rest.
\<close>

definition persist :: "nat \<Rightarrow> nat \<Rightarrow> nat \<Rightarrow> nat \<Rightarrow> world \<Rightarrow> bytes \<Rightarrow> bool" where
  "persist cap st n fl w c \<longleftrightarrow>
     ring_ok cap st n fl \<and> length c = fl + n \<and> fl \<le> durable (log w) \<and> durable (log w) \<le> length (content (log w)) \<and>
     take fl (content (log w)) = take fl c \<and>
     (\<exists>m. nvm w = Some (DATA_OFF + cap, m) \<and> nvm_ring cap st n fl m \<and> ring_bytes m cap st n = drop fl c)"

text \<open>\<open>guard_inv ag w c\<close>: between two calls, the file holds \<open>c\<close> and the guard protects it.\<close>

definition guard_inv :: "aofguard \<Rightarrow> world \<Rightarrow> bytes \<Rightarrow> bool" where
  "guard_inv ag w c \<longleftrightarrow> persist (capacity ag) (start ag) (len ag) (fsync_len ag) w c \<and>
     content (log w) = c \<and> (append_mode (log w) \<or> offset (log w) = length c)"

text \<open>\<open>recoverable cap w c\<close>: a world from which the bytes \<open>c\<close> can be rebuilt: the ring is not full.\<close>

definition recoverable :: "nat \<Rightarrow> world \<Rightarrow> bytes \<Rightarrow> bool" where
  "recoverable cap w c \<longleftrightarrow> (\<exists>st n fl. n < cap \<and> persist cap st n fl w c)"

text \<open>
  A crash keeps the persistent memory and the stable prefix of the file; what follows the prefix is
  arbitrary. The file is opened again, in append mode or at an offset.
\<close>

definition crashed :: "world \<Rightarrow> world \<Rightarrow> bool" where
  "crashed w w' \<longleftrightarrow> nvm w' = nvm w \<and> durable (log w) \<le> length (content (log w')) \<and>
     take (durable (log w)) (content (log w')) = take (durable (log w)) (content (log w)) \<and>
     durable (log w') = length (content (log w'))"

text \<open>A crash while the effects \<open>es\<close> are applied, possibly in the middle of a copy.\<close>

inductive crash_during :: "(mem \<Rightarrow> nat \<Rightarrow> bytes \<Rightarrow> mem) \<Rightarrow> event list \<Rightarrow> world \<Rightarrow> world \<Rightarrow> bool"
  for memcpy where
  here: "crashed w w' \<Longrightarrow> crash_during memcpy es w w'"
| torn: "nvm w = Some (n, m) \<Longrightarrow> (\<And>i. i < off \<or> off + length bs \<le> i \<Longrightarrow> m' i = m i) \<Longrightarrow>
    crashed (w\<lparr>nvm := Some (n, m')\<rparr>) w' \<Longrightarrow> crash_during memcpy (Copy off bs # es) w w'"
| later: "crash_during memcpy es (apply_event memcpy e w) w' \<Longrightarrow> crash_during memcpy (e # es) w w'"

inductive_cases crash_Nil: "crash_during memcpy [] w w'"
inductive_cases crash_Cons: "crash_during memcpy (e # es) w w'"

lemma crash_append:
  "crash_during memcpy (es @ es') w w' \<Longrightarrow>
   crash_during memcpy es w w' \<or> crash_during memcpy es' (apply_events memcpy es w) w'"
proof (induction es arbitrary: w)
  case Nil
  then show ?case by (simp add: apply_events_def)
next
  case (Cons e es)
  from Cons.prems have "crash_during memcpy (e # (es @ es')) w w'" by simp
  then show ?case
    by (cases rule: crash_Cons) (auto simp: apply_events_def intro: crash_during.intros dest: Cons.IH)
qed

lemma take_eq_mono: "take k xs = take k ys \<Longrightarrow> j \<le> k \<Longrightarrow> take j xs = take j ys"
  by (metis min.absorb1 take_take)

lemma persist_crashed: "persist cap st n fl w c \<Longrightarrow> crashed w w' \<Longrightarrow> persist cap st n fl w' c"
  using take_eq_mono [of "durable (log w)" "content (log w')" "content (log w)" fl]
  by (auto simp: persist_def crashed_def)

lemma persist_recoverable: "persist cap st n fl w c \<Longrightarrow> n < cap \<Longrightarrow> crashed w w' \<Longrightarrow> recoverable cap w' c"
  using persist_crashed unfolding recoverable_def by blast

text \<open>The effects on what a crash would leave.\<close>

lemma persist_agree:
  assumes "persist cap st n fl w c" "nvm w = Some (k, m)" "agree cap st n m m'"
  shows "persist cap st n fl (w\<lparr>nvm := Some (k, m')\<rparr>) c"
  using assms agree_load64 [OF assms(3), of META_OFF] agree_load64 [OF assms(3), of BUF_END_OFF]
  by (auto simp: persist_def nvm_ring_def agree_ring META_OFF_def BUF_END_OFF_def DATA_OFF_def)

lemma persist_log:
  assumes "persist cap st n fl w c" "fl \<le> durable f" "durable f \<le> length (content f)" "take fl (content f) = take fl c"
  shows "persist cap st n fl (w\<lparr>log := f\<rparr>) c"
  using assms by (auto simp: persist_def)

lemma write_at_end: "write_at c (length c) data = c @ data"
  by (simp add: write_at_def)

lemma file_write_end:
  assumes "append_mode f \<or> offset f = length (content f)" "durable f \<le> length (content f)"
  shows "file_write f data = f\<lparr>content := content f @ data, offset := length (content f) + length data\<rparr>"
  using assms by (auto simp: file_write_def Let_def write_at_end)

lemma persist_write:
  assumes "persist cap st n fl w c" "append_mode (log w) \<or> offset (log w) = length (content (log w))"
  shows "persist cap st n fl (apply_event memcpy (Write data) w) c"
  using assms by (auto simp: persist_def file_write_end)

lemma persist_set_meta:
  assumes p: "persist cap st n fl w c" and d: "d \<le> n" "fl + d \<le> durable (log w)"
    and r: "ring_ok cap ((st + d) mod cap) (n - d) (fl + d)"
  shows "persist cap ((st + d) mod cap) (n - d) (fl + d)
    (apply_event memcpy (Set64 META_OFF (MAKE_MIXED_META (fl + d) ((st + d) mod cap))) w)
    (take (fl + d) (content (log w)) @ drop (fl + d) c)"
proof -
  obtain m where m: "nvm w = Some (DATA_OFF + cap, m)" "nvm_ring cap st n fl m" "ring_bytes m cap st n = drop fl c"
    using p by (auto simp: persist_def)
  let ?st = "(st + d) mod cap"
  let ?m = "store64 m META_OFF (MAKE_MIXED_META (fl + d) ?st)"
  have "load64 ?m BUF_END_OFF = load64 m BUF_END_OFF"
    by (rule load64_cong) (simp add: store64_outside META_OFF_def BUF_END_OFF_def)
  moreover have "(?st + (n - d)) mod cap = (st + n) mod cap"
    using d(1) mod_add_left_eq [of "st + d" cap "n - d"] by simp
  ultimately have "nvm_ring cap ?st (n - d) (fl + d) ?m" using m(2) by (simp add: nvm_ring_def)
  moreover have "ring_bytes ?m cap ?st (n - d) = ring_bytes m cap ?st (n - d)"
    by (rule ring_bytes_cong) (simp add: store64_outside META_OFF_def DATA_OFF_def)
  moreover have "ring_bytes m cap ?st (n - d) = drop (fl + d) c"
    using m(3) ring_bytes_drop [of m cap st d n] by (simp add: add.commute)
  ultimately show ?thesis
    using p d r m(1) by (auto simp: persist_def)
qed

lemma persist_set_end:
  assumes p: "persist cap st n fl w c" and r: "ring_ok cap st (n + k) fl" and k: "k = length data"
    and m: "nvm w = Some (DATA_OFF + cap, m)" "ring_bytes m cap ((st + n) mod cap) k = data"
  shows "persist cap st (n + k) fl (apply_event memcpy (Set64 BUF_END_OFF (of_nat ((st + (n + k)) mod cap))) w) (c @ data)"
proof -
  let ?m = "store64 m BUF_END_OFF (of_nat ((st + (n + k)) mod cap))"
  have old: "nvm_ring cap st n fl m" "ring_bytes m cap st n = drop fl c" "fl \<le> length c"
    using p m(1) by (auto simp: persist_def)
  have "load64 ?m META_OFF = load64 m META_OFF"
    by (rule load64_cong) (simp add: store64_outside META_OFF_def BUF_END_OFF_def)
  then have "nvm_ring cap st (n + k) fl ?m" using old(1) by (simp add: nvm_ring_def)
  moreover have "ring_bytes ?m cap st (n + k) = ring_bytes m cap st (n + k)"
    by (rule ring_bytes_cong) (simp add: store64_outside BUF_END_OFF_def DATA_OFF_def)
  moreover have "ring_bytes m cap st (n + k) = drop fl (c @ data)"
    using old(2,3) m(2) by (simp add: ring_bytes_add)
  ultimately show ?thesis using p r m(1) k by (auto simp: persist_def)
qed

lemma ring_ok_advance:
  assumes "ring_ok cap st n fl" "d \<le> n" "d mod BLOCK_SIZE = 0"
  shows "ring_ok cap ((st + d) mod cap) (n - d) (fl + d)"
proof -
  obtain k where k: "cap = k * BLOCK_SIZE" "2 \<le> k" using assms(1) by (auto simp: ring_ok_def)
  then have "(st + d) mod cap mod BLOCK_SIZE = (st + d) mod BLOCK_SIZE"
    by (simp add: mod_mod_cancel)
  also have "\<dots> = 0" using assms by (auto simp: ring_ok_def mod_add_eq)
  finally show ?thesis using assms k by (auto simp: ring_ok_def BLOCK_SIZE_def)
qed

lemma ring_ok_bounds: "ring_ok cap st n fl \<Longrightarrow> cap \<le> 2 ^ 36 \<and> st < cap \<and> n \<le> cap \<and> 0 < cap"
  by (auto simp: ring_ok_def BLOCK_SIZE_def)

section \<open>What a crash leaves\<close>

text \<open>
  A ring that is exactly full is taken for empty, so only the stable prefix remains of its contents.
\<close>

definition remains :: "nat \<Rightarrow> nat \<Rightarrow> nat \<Rightarrow> bytes \<Rightarrow> bytes" where
  "remains cap n fl c = (if n = cap then take fl c else c)"

lemma persist_remains:
  assumes "persist cap st n fl w c" "crashed w w'"
  shows "recoverable cap w' (remains cap n fl c)"
proof (cases "n = cap")
  case True
  have p: "persist cap st cap fl w' c" using persist_crashed [OF assms] True by simp
  then have r: "ring_ok cap st cap fl" by (simp add: persist_def)
  have "persist cap st 0 fl w' (take fl c)" using p r by (auto simp: persist_def nvm_ring_def ring_ok_def ring_bytes_def)
  then show ?thesis using ring_ok_bounds [OF r] True unfolding recoverable_def remains_def by auto
next
  case False
  then have "n < cap" using assms(1) by (simp add: persist_def ring_ok_def)
  then show ?thesis using persist_recoverable [OF assms(1) _ assms(2)] False by (simp add: remains_def)
qed

text \<open>
  \<open>guard_holds ag w a\<close>: the ring holds the end of \<open>a\<close>, the bytes it was given, from the flushed length on, and its words describe it. The file is at least as
  long as \<open>a\<close>; it is longer when a write was cut short. \<open>kept\<close> is what a recovery puts together.
\<close>

definition kept :: "nat \<Rightarrow> bytes \<Rightarrow> bytes \<Rightarrow> bytes" where
  "kept fl k a = take fl k @ drop fl a"

definition guard_holds :: "aofguard \<Rightarrow> world \<Rightarrow> bytes \<Rightarrow> bool" where
  "guard_holds ag w a \<longleftrightarrow> length a = fsync_len ag + len ag \<and> length a \<le> length (content (log w)) \<and>
     persist (capacity ag) (start ag) (len ag) (fsync_len ag) w (kept (fsync_len ag) (content (log w)) a) \<and>
     (append_mode (log w) \<or> offset (log w) = length (content (log w)))"

definition survivors :: "aofguard \<Rightarrow> world \<Rightarrow> bytes \<Rightarrow> bytes" where
  "survivors ag w a = remains (capacity ag) (len ag) (fsync_len ag) (kept (fsync_len ag) (content (log w)) a)"

lemma kept_same [simp]: "kept fl a a = a"
  by (simp add: kept_def)

lemma kept_append [simp]: "fl \<le> length k \<Longrightarrow> kept fl (k @ x) a = kept fl k a"
  by (simp add: kept_def)

lemma kept_snoc: "fl \<le> length a \<Longrightarrow> kept fl k (a @ x) = kept fl k a @ x"
  by (simp add: kept_def)

lemma kept_kept: "fl \<le> length k \<Longrightarrow> kept (fl + d) k (kept fl k a) = kept (fl + d) k a"
  by (simp add: kept_def add.commute)

lemma take_kept: "fl \<le> length k \<Longrightarrow> take fl (kept fl k a) = take fl k"
  by (simp add: kept_def)

lemma guard_inv_holds: "guard_inv ag w c \<longleftrightarrow> guard_holds ag w c \<and> content (log w) = c"
  by (auto simp: guard_inv_def guard_holds_def persist_def)

lemma guard_holdsD:
  assumes "guard_holds ag w a"
  shows "length a = fsync_len ag + len ag" "length a \<le> length (content (log w))"
    "persist (capacity ag) (start ag) (len ag) (fsync_len ag) w (kept (fsync_len ag) (content (log w)) a)"
    "append_mode (log w) \<or> offset (log w) = length (content (log w))"
    "ring_ok (capacity ag) (start ag) (len ag) (fsync_len ag)" "durable (log w) \<le> length (content (log w))"
    "fsync_len ag \<le> durable (log w)" "fsync_len ag \<le> length (content (log w))" "len ag \<le> capacity ag" "capacity ag \<le> 2 ^ 36"
  using assms ring_ok_bounds [of "capacity ag" "start ag" "len ag" "fsync_len ag"] by (auto simp: guard_holds_def persist_def)

lemma survivors_crashed: "guard_holds ag w a \<Longrightarrow> crashed w w' \<Longrightarrow> recoverable (capacity ag) w' (survivors ag w a)"
  unfolding survivors_def by (rule persist_remains [OF guard_holdsD(3)])

lemma guard_holds_cong:
  "guard_holds ag w a \<Longrightarrow> capacity ag' = capacity ag \<Longrightarrow> start ag' = start ag \<Longrightarrow> len ag' = len ag \<Longrightarrow>
   fsync_len ag' = fsync_len ag \<Longrightarrow> guard_holds ag' w a"
  by (simp add: guard_holds_def)

lemma guard_holds_log:
  assumes "guard_holds ag w a" "content f = content (log w)" "durable (log w) \<le> durable f" "durable f \<le> length (content f)"
    and "append_mode f = append_mode (log w)" "offset f = offset (log w)"
  shows "guard_holds ag (w\<lparr>log := f\<rparr>) a"
  using assms by (auto simp: guard_holds_def persist_def)

lemma guard_holds_fsync: "guard_holds ag w a \<Longrightarrow> guard_holds ag (apply_event memcpy Fsync w) a"
  using guard_holds_log [of ag w a "(log w)\<lparr>durable := length (content (log w))\<rparr>"] guard_holdsD(6) [of ag w a] by simp

section \<open>Runs that a crash cannot damage\<close>

text \<open>A write becomes part of the ring when the end of the ring is set.\<close>

definition published :: "event list \<Rightarrow> bool" where
  "published es \<longleftrightarrow> list_ex (\<lambda>e. case e of Set64 off _ \<Rightarrow> off = BUF_END_OFF | _ \<Rightarrow> False) es"

lemma published_simps [simp]:
  "\<not> published []" "published (es @ es') \<longleftrightarrow> published es \<or> published es'"
  "published (Set64 off v # es) \<longleftrightarrow> off = BUF_END_OFF \<or> published es" "published (Write data # es) \<longleftrightarrow> published es"
  "published (Copy p data # es) \<longleftrightarrow> published es" "published (Fsync # es) \<longleftrightarrow> published es"
  by (simp_all add: published_def)

text \<open>
  A call that is given a file with contents \<open>k\<close> and a ring that was given \<open>a\<close>. \<open>X\<close> is the set of contents that a crash may leave: it has everything that
  can be put together from \<open>k\<close> and \<open>a\<close>, and the stable prefix when the ring is exactly full.
\<close>

definition allowed :: "bytes set \<Rightarrow> bytes \<Rightarrow> bytes \<Rightarrow> bool" where
  "allowed X k a \<longleftrightarrow> (\<forall>f \<le> length a. kept f k a \<in> X)"

definition ready :: "bytes set \<Rightarrow> nat \<Rightarrow> bytes \<Rightarrow> bytes \<Rightarrow> aofguard \<Rightarrow> world \<Rightarrow> bool" where
  "ready X cap k a ag w \<longleftrightarrow> guard_holds ag w a \<and> capacity ag = cap \<and> content (log w) = k \<and>
     (len ag = cap \<longrightarrow> take (fsync_len ag) k \<in> X)"

definition run_ok ::
    "(mem \<Rightarrow> nat \<Rightarrow> bytes \<Rightarrow> mem) \<Rightarrow> bytes set \<Rightarrow> nat \<Rightarrow> bytes \<Rightarrow> bytes \<Rightarrow> world \<Rightarrow> aofguard run \<Rightarrow>
     (status \<Rightarrow> aofguard \<Rightarrow> world \<Rightarrow> bool) \<Rightarrow> bool" where
  "run_ok memcpy X cap k a w r Q \<longleftrightarrow>
    (case r of (st, ag, es) \<Rightarrow> st \<noteq> Assert_failed \<and> \<not> published es \<and>
       (\<forall>w'. crash_during memcpy es w w' \<longrightarrow> (\<exists>x \<in> X. recoverable cap w' x)) \<and>
       ready X cap k a ag (apply_events memcpy es w) \<and> Q st ag (apply_events memcpy es w))"

lemma ready_crash:
  assumes "ready X cap k a ag w" "allowed X k a" "crashed w w'"
  shows "\<exists>x \<in> X. recoverable cap w' x"
proof -
  have h: "guard_holds ag w a" "capacity ag = cap" "content (log w) = k" "len ag = cap \<longrightarrow> take (fsync_len ag) k \<in> X"
    using assms(1) by (auto simp: ready_def)
  have "kept (fsync_len ag) k a \<in> X" using assms(2) guard_holdsD(1) [OF h(1)] by (simp add: allowed_def)
  then have "survivors ag w a \<in> X"
    using h guard_holdsD(8) [OF h(1)] by (simp add: survivors_def remains_def take_kept)
  then show ?thesis using survivors_crashed [OF h(1) assms(3)] h(2) by auto
qed

lemma run_ok_and_then:
  assumes r: "run_ok memcpy X cap k a w r Q"
    and f: "\<And>ag w. ready X cap k a ag w \<Longrightarrow> Q Ret1 ag w \<Longrightarrow> run_ok memcpy X cap k a w (f ag) Q'"
    and e: "\<And>st ag w. st \<noteq> Ret1 \<Longrightarrow> Q st ag w \<Longrightarrow> Q' st ag w"
  shows "run_ok memcpy X cap k a w (and_then r f) Q'"
proof -
  obtain st ag es where r': "r = (st, ag, es)" by (cases r) auto
  show ?thesis
  proof (cases "st = Ret1")
    case True
    obtain st' ag' es' where f': "f ag = (st', ag', es')" by (cases "f ag") auto
    have "run_ok memcpy X cap k a (apply_events memcpy es w) (f ag) Q'"
      using r f [of ag "apply_events memcpy es w"] r' True by (simp add: run_ok_def)
    then show ?thesis
      using r r' True f' crash_append [of memcpy es es' w]
      by (auto simp: run_ok_def and_then_def apply_events_def)
  next
    case False
    then show ?thesis using r r' e by (simp add: run_ok_def and_then_def)
  qed
qed

lemma run_ok_mono:
  "run_ok memcpy X cap k a w r Q \<Longrightarrow> (\<And>st ag w. Q st ag w \<Longrightarrow> Q' st ag w) \<Longrightarrow> run_ok memcpy X cap k a w r Q'"
  by (auto simp: run_ok_def)

lemma run_ok_skip:
  assumes "ready X cap k a ag w" "allowed X k a" "st \<noteq> Assert_failed" "Q st ag w"
  shows "run_ok memcpy X cap k a w (st, ag, []) Q"
  using assms ready_crash [OF assms(1,2)] by (auto simp: run_ok_def apply_events_def elim: crash_Nil)

lemma ready_cong:
  "ready X cap k a ag w \<Longrightarrow> capacity ag' = capacity ag \<Longrightarrow> start ag' = start ag \<Longrightarrow> len ag' = len ag \<Longrightarrow>
   fsync_len ag' = fsync_len ag \<Longrightarrow> ready X cap k a ag' w"
  by (auto simp: ready_def intro: guard_holds_cong)

text \<open>The ring gives up blocks that are stable.\<close>

lemma update_after_fsync_ok:
  assumes inv: "ready X cap k a ag w" and X: "allowed X k a"
    and b: "blocks * BLOCK_SIZE \<le> len ag" "fsync_len ag + blocks * BLOCK_SIZE \<le> durable (log w)"
  shows "run_ok memcpy X cap k a w (update_after_fsync blocks ag)
    (\<lambda>st ag' w'. st = Ret1 \<and> log w' = log w \<and> len ag' = len ag - blocks * BLOCK_SIZE \<and>
       fsync_len ag' = fsync_len ag + blocks * BLOCK_SIZE \<and> block_count ag' = block_count ag)"
proof (cases "blocks = 0")
  case True
  then show ?thesis using inv X by (auto simp: update_after_fsync_def intro: run_ok_skip)
next
  case False
  let ?d = "blocks * BLOCK_SIZE" and ?st = "(start ag + blocks * BLOCK_SIZE) mod cap" and ?fl = "fsync_len ag"
  have h: "guard_holds ag w a" "capacity ag = cap" "content (log w) = k" using inv by (auto simp: ready_def)
  note D = guard_holdsD [OF h(1), unfolded h(2,3)]
  note r = D(5)
  note bd = ring_ok_bounds [OF r]
  have r': "ring_ok cap ?st (len ag - ?d) (?fl + ?d)"
    using ring_ok_advance [OF r b(1)] by simp
  have fl: "?fl + len ag < 2 ^ 48" using r by (simp add: ring_ok_def)
  let ?ag = "ag\<lparr>start := ?st, len := len ag - ?d, fsync_len := ?fl + ?d\<rparr>"
  let ?e = "Set64 META_OFF (MAKE_MIXED_META (?fl + ?d) ?st)"
  have sizes: "size_mul blocks BLOCK_SIZE = ?d" "size_sub (len ag) ?d = len ag - ?d"
    "size_add ?fl ?d = ?fl + ?d"
    using b(1) bd fl by (simp_all add: size_mul_eq size_sub_eq size_add_eq)
  have fwd: "RING_BUF_FORWARD (start ag) ?d (capacity ag) = Some ?st"
    using RING_BUF_FORWARD_eq [of "start ag" cap ?d] bd b(1) h(2) by simp
  have run: "update_after_fsync blocks ag = (Ret1, ?ag, [?e])"
    using False fwd r' b(1) sizes by (simp add: update_after_fsync_def nvm_set_64_def Let_def META_OFF_def ring_ok_def)
  have "persist cap ?st (len ag - ?d) (?fl + ?d) (apply_event memcpy ?e w) (kept (?fl + ?d) k a)"
    using persist_set_meta [OF D(3) b r', of memcpy] kept_kept [OF D(8), of ?d a] h(3) by (simp add: kept_def)
  then have "guard_holds ?ag (apply_event memcpy ?e w) a"
    using D(1,2,4) b(1) h(2,3) by (simp add: guard_holds_def)
  moreover have "len ag - ?d < cap"
  proof -
    have "0 < ?d" using False by (simp add: BLOCK_SIZE_def)
    then show ?thesis using bd b(1) by linarith
  qed
  ultimately have new: "ready X cap k a ?ag (apply_event memcpy ?e w)"
    using h by (simp add: ready_def)
  have "\<exists>x \<in> X. recoverable cap w' x" if "crash_during memcpy [?e] w w'" for w'
    using that ready_crash [OF inv X] ready_crash [OF new X]
    by (cases rule: crash_Cons) (auto elim!: crash_Nil)
  then show ?thesis
    using new unfolding run by (auto simp: run_ok_def apply_events_def META_OFF_def BUF_END_OFF_def)
qed

definition pending_ok :: "aofguard \<Rightarrow> bool" where
  "pending_ok ag \<longleftrightarrow> block_count ag * BLOCK_SIZE \<le> len ag"

definition synced :: "aofguard \<Rightarrow> world \<Rightarrow> bool" where
  "synced ag w \<longleftrightarrow> fsync_len ag + block_count ag * BLOCK_SIZE \<le> durable (log w)"

text \<open>What the calls that precede the append establish.\<close>

definition settled :: "aofguard \<Rightarrow> aofguard \<Rightarrow> bool" where
  "settled ag ag' \<longleftrightarrow> block_count ag' = 0 \<and> len ag' = len ag - block_count ag * BLOCK_SIZE"

lemma finish_afsync_ok:
  assumes "ready X cap k a ag w" "allowed X k a" "pending_ok ag" "synced ag w"
  shows "run_ok memcpy X cap k a w
    (and_then (update_after_fsync (block_count ag) ag) (\<lambda>ag. (Ret1, ag\<lparr>block_count := 0\<rparr>, [])))
    (\<lambda>st ag' w'. st = Ret1 \<and> log w' = log w \<and> settled ag ag')"
proof (rule run_ok_and_then [OF update_after_fsync_ok [OF assms(1,2)]])
  fix ag' w'
  assume "ready X cap k a ag' w'"
    "Ret1 = Ret1 \<and> log w' = log w \<and> len ag' = len ag - block_count ag * BLOCK_SIZE \<and>
      fsync_len ag' = fsync_len ag + block_count ag * BLOCK_SIZE \<and> block_count ag' = block_count ag"
  then show "run_ok memcpy X cap k a w' (Ret1, ag'\<lparr>block_count := 0\<rparr>, []) (\<lambda>st ag' w'. st = Ret1 \<and> log w' = log w \<and> settled ag ag')"
    using assms(2) by (intro run_ok_skip) (auto simp: settled_def intro: ready_cong)
qed (use assms in \<open>auto simp: pending_ok_def synced_def\<close>)

lemma handle_afsync_ok:
  assumes "ready X cap k a ag w" "allowed X k a" "pending_ok ag" "ret = Acquired \<Longrightarrow> synced ag w"
  shows "run_ok memcpy X cap k a w (handle_afsync_if_finish ret ag)
    (\<lambda>st ag' w'. log w' = log w \<and>
       (if block_count ag \<noteq> 0 \<and> ret = Acquired then st = Ret1 \<and> settled ag ag' else ag' = ag \<and> w' = w))"
proof (cases "block_count ag \<noteq> 0 \<and> ret = Acquired")
  case True
  then show ?thesis
    using run_ok_mono [OF finish_afsync_ok [OF assms(1-3)]] assms(4) by (simp add: handle_afsync_if_finish_def)
next
  case False
  then have "handle_afsync_if_finish ret ag = (if block_count ag = 0 \<or> ret = Again then Ret1 else Ret0, ag, [])"
    by (cases ret) (auto simp: handle_afsync_if_finish_def)
  then show ?thesis using False assms by (auto intro: run_ok_skip)
qed

lemma wait_afsync_ok:
  assumes "ready X cap k a ag w" "allowed X k a" "pending_ok ag" "ret = Some True \<Longrightarrow> synced ag w"
  shows "run_ok memcpy X cap k a w (wait_afsync_done ret ag)
    (\<lambda>st ag' w'. log w' = log w \<and> (if block_count ag = 0 \<or> ret = Some True then st = Ret1 \<and> settled ag ag' else st \<noteq> Ret1 \<and> ag' = ag \<and> w' = w))"
proof (cases "block_count ag \<noteq> 0 \<and> ret = Some True")
  case True
  then show ?thesis
    using run_ok_mono [OF finish_afsync_ok [OF assms(1-3)]] assms(4) by (simp add: wait_afsync_done_def)
next
  case False
  then have "wait_afsync_done ret ag = (if block_count ag = 0 then Ret1 else if ret = None then Blocked else Ret0, ag, [])"
    by (cases ret) (auto simp: wait_afsync_done_def)
  then show ?thesis using False assms by (auto simp: settled_def intro: run_ok_skip)
qed

lemma do_fsync_ok:
  assumes inv: "ready X cap k a ag w" and X: "allowed X k a" and "block_count ag = 0"
  shows "run_ok memcpy X cap k a w (do_fsync ok ag)
    (\<lambda>st ag' w'. block_count ag' = 0 \<and> (st = Ret1 \<longrightarrow> len ag' = len ag mod BLOCK_SIZE))"
proof (cases ok)
  case False
  then show ?thesis using assms by (auto simp: do_fsync_def intro: run_ok_skip)
next
  case True
  have h: "guard_holds ag w a" "content (log w) = k" using inv by (auto simp: ready_def)
  have new: "ready X cap k a ag (apply_event memcpy Fsync w)" using inv guard_holds_fsync [of ag w a memcpy] by (simp add: ready_def)
  have "run_ok memcpy X cap k a w (Ret1, ag, [Fsync]) (\<lambda>st ag' w'. st = Ret1 \<and> ag' = ag \<and> durable (log w') = length k)"
    using new h ready_crash [OF inv X] ready_crash [OF new X]
    by (auto simp: run_ok_def apply_events_def elim!: crash_Cons crash_Nil)
  then have "run_ok memcpy X cap k a w (and_then (Ret1, ag, [Fsync]) (update_after_fsync (len ag div BLOCK_SIZE)))
    (\<lambda>st ag' w'. block_count ag' = 0 \<and> (st = Ret1 \<longrightarrow> len ag' = len ag mod BLOCK_SIZE))"
  proof (rule run_ok_and_then)
    fix ag' w'
    assume *: "ready X cap k a ag' w'" "Ret1 = Ret1 \<and> ag' = ag \<and> durable (log w') = length k"
    have "fsync_len ag + len ag \<le> length k" using guard_holdsD(1,2) [OF h(1)] h(2) by simp
    moreover have "len ag div BLOCK_SIZE * BLOCK_SIZE \<le> len ag" by simp
    ultimately have "fsync_len ag + len ag div BLOCK_SIZE * BLOCK_SIZE \<le> length k" by linarith
    then have "run_ok memcpy X cap k a w' (update_after_fsync (len ag div BLOCK_SIZE) ag')
     (\<lambda>st ag'' w''. st = Ret1 \<and> log w'' = log w' \<and> len ag'' = len ag' - len ag div BLOCK_SIZE * BLOCK_SIZE \<and>
       fsync_len ag'' = fsync_len ag' + len ag div BLOCK_SIZE * BLOCK_SIZE \<and> block_count ag'' = block_count ag')"
      using update_after_fsync_ok [OF *(1) X, of "len ag div BLOCK_SIZE"] * by simp
    then show "run_ok memcpy X cap k a w' (update_after_fsync (len ag div BLOCK_SIZE) ag')
        (\<lambda>st ag' w'. block_count ag' = 0 \<and> (st = Ret1 \<longrightarrow> len ag' = len ag mod BLOCK_SIZE))"
      using * assms(3) by (auto simp: minus_div_mult_eq_mod elim!: run_ok_mono)
  qed simp
  then show ?thesis using True by (simp add: do_fsync_def)
qed

text \<open>
  Whether a write of \<open>n\<close> bytes reaches the \<open>sem_wait\<close> of \<open>wait_afsync_done\<close>. When it does and the wait does not succeed, or when it makes no
  room, nothing changes.
\<close>

definition waits :: "nat \<Rightarrow> aofguard \<Rightarrow> bool" where
  "waits n ag \<longleftrightarrow> capacity ag < size_add (len ag) n \<and> \<not> capacity ag < size_add (len ag mod BLOCK_SIZE) n \<and> block_count ag \<noteq> 0"

definition unwaited :: "write_env \<Rightarrow> nat \<Rightarrow> aofguard \<Rightarrow> bool" where
  "unwaited env n ag \<longleftrightarrow> block_count ag \<noteq> 0 \<and> \<not> (waits n ag \<and> wait_done env = Some True)"

lemma make_room_unwaited: "unwaited env n ag \<Longrightarrow> \<exists>st. make_room env n ag = (st, ag, [])"
  by (auto simp: unwaited_def waits_def make_room_def wait_afsync_done_def and_then_def split: option.splits bool.splits)

lemma make_room_ok:
  assumes inv: "ready X cap k a ag w" "allowed X k a" "pending_ok ag" "wait_done env = Some True \<Longrightarrow> synced ag w"
    and n: "n < 2 ^ 63"
  shows "run_ok memcpy X cap k a w (make_room env n ag)
    (\<lambda>st ag' w'. pending_ok ag' \<and> (st = Ret1 \<longrightarrow> len ag' + n \<le> cap) \<and> (if unwaited env n ag then ag' = ag \<and> w' = w else block_count ag' = 0))"
proof -
  have h: "guard_holds ag w a" "capacity ag = cap" using inv(1) by (auto simp: ready_def)
  have cap: "cap \<le> 2 ^ 36" "len ag \<le> cap" using guard_holdsD(9,10) [OF h(1)] h(2) by simp_all
  have add: "size_add b n = b + n" if "b \<le> cap" for b
    using that cap n by (intro size_add_eq) simp
  have lm: "len ag mod BLOCK_SIZE \<le> cap" using cap(2) mod_less_eq_dividend [of "len ag" BLOCK_SIZE] by linarith
  show ?thesis
  proof (cases "unwaited env n ag")
    case True
    then obtain st where st: "make_room env n ag = (st, ag, [])" using make_room_unwaited by blast
    moreover have "st \<noteq> Assert_failed" "st = Ret1 \<longrightarrow> len ag + n \<le> cap"
      using st True add cap(2) h(2)
      by (auto simp: make_room_def unwaited_def waits_def wait_afsync_done_def and_then_def split: if_splits option.splits bool.splits)
    ultimately show ?thesis using inv True by (auto intro: run_ok_skip)
  next
    case False
    consider "len ag + n \<le> cap" | "cap < len ag + n" "cap < len ag mod BLOCK_SIZE + n"
      | "cap < len ag + n" "len ag mod BLOCK_SIZE + n \<le> cap" by linarith
    then show ?thesis
    proof cases
      case 1
      then have "make_room env n ag = (Ret1, ag, [])" "block_count ag = 0"
        using False h(2) add cap(2) by (auto simp: make_room_def unwaited_def waits_def)
      then show ?thesis using 1 inv False by (auto intro: run_ok_skip)
    next
      case 2
      then have "make_room env n ag = (Ret0, ag, [])" "block_count ag = 0"
        using False h(2) add cap(2) lm by (auto simp: make_room_def unwaited_def waits_def)
      then show ?thesis using inv False by (auto intro: run_ok_skip)
    next
      case 3
      have w: "block_count ag = 0 \<or> wait_done env = Some True" using False 3 h(2) add cap(2) lm by (auto simp: unwaited_def waits_def)
      have "run_ok memcpy X cap k a w (and_then (wait_afsync_done (wait_done env) ag)
          (\<lambda>ag. if capacity ag < size_add (len ag) n then do_fsync (fsync_ok env) ag else (Ret1, ag, [])))
        (\<lambda>st ag' w'. block_count ag' = 0 \<and> (st = Ret1 \<longrightarrow> len ag' + n \<le> cap))"
      proof (rule run_ok_and_then [OF wait_afsync_ok [OF inv]])
        fix ag' w'
        assume *: "ready X cap k a ag' w'" "log w' = log w \<and> (if block_count ag = 0 \<or> wait_done env = Some True
          then Ret1 = Ret1 \<and> settled ag ag' else Ret1 \<noteq> Ret1 \<and> ag' = ag \<and> w' = w)"
        then have l: "block_count ag' = 0" "len ag' mod BLOCK_SIZE = len ag mod BLOCK_SIZE"
          using inv(3) w mod_mult_self1 [of "len ag - block_count ag * BLOCK_SIZE" "block_count ag" BLOCK_SIZE]
          by (simp_all add: settled_def pending_ok_def)
        have c: "capacity ag' = cap" "len ag' \<le> cap" using *(1) guard_holdsD(9) [of ag' w' a] by (auto simp: ready_def)
        have "run_ok memcpy X cap k a w' (do_fsync (fsync_ok env) ag') (\<lambda>st ag' w'. block_count ag' = 0 \<and> (st = Ret1 \<longrightarrow> len ag' + n \<le> cap))"
          by (rule run_ok_mono [OF do_fsync_ok [OF *(1) inv(2) l(1)]]) (use l 3 in auto)
        then show "run_ok memcpy X cap k a w'
            (if capacity ag' < size_add (len ag') n then do_fsync (fsync_ok env) ag' else (Ret1, ag', []))
            (\<lambda>st ag' w'. block_count ag' = 0 \<and> (st = Ret1 \<longrightarrow> len ag' + n \<le> cap))"
          using * add [of "len ag'"] l c inv(2) by (auto intro!: run_ok_skip)
      qed (use w in auto)
      moreover have "make_room env n ag = and_then (wait_afsync_done (wait_done env) ag)
          (\<lambda>ag. if capacity ag < size_add (len ag) n then do_fsync (fsync_ok env) ag else (Ret1, ag, []))"
        using 3 h(2) add cap(2) lm by (simp add: make_room_def)
      ultimately show ?thesis using False by (auto simp: pending_ok_def elim!: run_ok_mono)
    qed
  qed
qed

section \<open>Appending to the ring\<close>

definition ring_copies :: "nat \<Rightarrow> nat \<Rightarrow> bytes \<Rightarrow> event list" where
  "ring_copies cap pos data =
    (if pos + length data \<le> cap then [Copy (DATA_OFF + pos) data]
     else [Copy (DATA_OFF + pos) (take (cap - pos) data), Copy DATA_OFF (drop (cap - pos) data)])"

lemma ring_pos:
  assumes "n + j < cap" "pos = (st + n) mod cap"
  shows "(st + n + j) mod cap = (pos + j) mod (cap :: nat)"
  using assms by (simp add: mod_add_left_eq)

lemma copy_free_front:
  assumes "pos = (st + n) mod cap" "pos + l \<le> cap" "l \<le> k" "DATA_OFF + pos \<le> i" "i < DATA_OFF + pos + l"
  shows "in_free cap st n k i"
proof -
  let ?j = "i - (DATA_OFF + pos)"
  have "(st + n + ?j) mod cap = (pos + ?j) mod cap" using assms(1) by (simp add: mod_add_left_eq)
  also have "\<dots> = pos + ?j" using assms by simp
  finally have "i = DATA_OFF + (st + n + ?j) mod cap" using assms(4) by simp
  moreover have "?j < k" using assms by simp
  ultimately show ?thesis unfolding in_free_def by blast
qed

lemma copy_free_back:
  assumes "pos = (st + n) mod cap" "0 < cap" "cap < pos + k" "k \<le> cap" "DATA_OFF \<le> i" "i < DATA_OFF + (k - (cap - pos))"
  shows "in_free cap st n k i"
proof -
  let ?i = "i - DATA_OFF"
  have pos: "pos < cap" using assms(1,2) by simp
  have "(st + n + (cap - pos + ?i)) mod cap = (pos + (cap - pos + ?i)) mod cap" using assms(1) by (simp add: mod_add_left_eq)
  also have "pos + (cap - pos + ?i) = ?i + cap" using pos by simp
  also have "(?i + cap) mod cap = ?i"
  proof -
    have "?i < cap" using assms pos by simp
    then show ?thesis by (simp only: mod_add_self2 mod_less)
  qed
  finally have "i = DATA_OFF + (st + n + (cap - pos + ?i)) mod cap" using assms(5) by simp
  moreover have "cap - pos + ?i < k" using assms pos by simp
  ultimately show ?thesis unfolding in_free_def by blast
qed

lemma ring_copies_free:
  assumes "Copy off bs \<in> set (ring_copies cap ((st + n) mod cap) data)" "0 < cap" "length data \<le> cap"
    "off \<le> i" "i < off + length bs"
  shows "in_free cap st n (length data) i"
  using assms copy_free_front [of "(st + n) mod cap" st n cap "length bs" "length data" i]
    copy_free_back [of "(st + n) mod cap" st n cap "length data" i]
  by (auto simp: ring_copies_def split: if_splits)

text \<open>A copy into the free part, whole or torn, keeps what a crash would recover.\<close>

lemma persist_free_write:
  assumes p: "persist cap st n fl w c" and "n + k \<le> cap" and m: "nvm w = Some (z, m)"
    and out: "\<And>i. \<not> in_free cap st n k i \<Longrightarrow> m' i = m i"
  shows "persist cap st n fl (w\<lparr>nvm := Some (z, m')\<rparr>) c"
proof (rule persist_agree [OF p m])
  show "agree cap st n m m'"
    using out free_not_live [OF _ assms(2)] by (auto simp: agree_def)
qed

lemma copies_crash:
  assumes "nvm_copy memcpy" "persist cap st n fl w c" "n + k \<le> cap"
    and "\<And>off bs i. Copy off bs \<in> set es \<Longrightarrow> off \<le> i \<Longrightarrow> i < off + length bs \<Longrightarrow> in_free cap st n k i"
    and "\<And>e. e \<in> set es \<Longrightarrow> \<exists>off bs. e = Copy off bs"
  shows "persist cap st n fl (apply_events memcpy es w) c \<and> log (apply_events memcpy es w) = log w \<and>
    (\<forall>w'. crash_during memcpy es w w' \<longrightarrow> recoverable cap w' (remains cap n fl c))"
  using assms(2,4,5)
proof (induction es arbitrary: w)
  case Nil
  then show ?case using persist_remains [OF Nil.prems(1)] by (auto simp: apply_events_def elim: crash_Nil)
next
  case (Cons e es)
  obtain off bs where e: "e = Copy off bs" using Cons.prems(3) [of e] by auto
  obtain z m where m: "nvm w = Some (z, m)" using Cons.prems(1) by (auto simp: persist_def)
  have torn: "persist cap st n fl (w\<lparr>nvm := Some (z, m')\<rparr>) c"
    if "\<And>i. i < off \<or> off + length bs \<le> i \<Longrightarrow> m' i = m i" for m'
    using that Cons.prems(2) [of off bs] e
    by (intro persist_free_write [OF Cons.prems(1) assms(3) m]) (metis list.set_intros(1) not_le)
  have step: "apply_event memcpy e w = w\<lparr>nvm := Some (z, memcpy m off bs)\<rparr>" using e m by simp
  have p: "persist cap st n fl (apply_event memcpy e w) c"
    unfolding step by (rule torn) (simp add: nvm_copy.copy_outside [OF assms(1)])
  note IH = Cons.IH [OF p]
  have "recoverable cap w' (remains cap n fl c)" if "crash_during memcpy (e # es) w w'" for w'
    using that
  proof (rule crash_Cons)
    assume "crashed w w'"
    then show ?thesis by (rule persist_remains [OF Cons.prems(1)])
  next
    fix z' m0 off' bs' m'
    assume "e = Copy off' bs'" "nvm w = Some (z', m0)" "\<And>i. i < off' \<or> off' + length bs' \<le> i \<Longrightarrow> m' i = m0 i"
      "crashed (w\<lparr>nvm := Some (z', m')\<rparr>) w'"
    then show ?thesis using persist_remains [OF torn, of m' w'] e m by auto
  next
    assume "crash_during memcpy es (apply_event memcpy e w) w'"
    then show ?thesis using IH Cons.prems(2,3) by auto
  qed
  moreover have "log (apply_event memcpy e w) = log w" using step by simp
  ultimately show ?case using IH Cons.prems(2,3) by (auto simp: apply_events_def)
qed

lemma ring_copies_content:
  assumes "nvm_copy memcpy" "nvm w = Some (z, m)" "pos < cap" "length data \<le> cap"
  shows "\<exists>m'. nvm (apply_events memcpy (ring_copies cap pos data) w) = Some (z, m') \<and>
     ring_bytes m' cap pos (length data) = data"
proof (cases "pos + length data \<le> cap")
  case True
  then show ?thesis
    using assms by (simp add: ring_copies_def apply_events_def ring_bytes_straight nvm_copy.copy_eq)
next
  case False
  let ?f = "cap - pos"
  let ?m1 = "store_bytes m (DATA_OFF + pos) (take ?f data)"
  let ?m = "store_bytes ?m1 DATA_OFF (drop ?f data)"
  have f: "length (take ?f data) = ?f" "length (drop ?f data) = length data - ?f" using False assms by simp_all
  have "load_bytes ?m (DATA_OFF + pos) ?f = load_bytes ?m1 (DATA_OFF + pos) ?f"
    using assms(3,4) by (intro load_bytes_cong store_bytes_outside) simp
  also have "\<dots> = take ?f data" using load_store_same [of m "DATA_OFF + pos" "take ?f data"] f(1) by simp
  finally have "ring_bytes ?m cap pos (length data) = take ?f data @ drop ?f data"
    using ring_bytes_wrap [of pos cap "length data" ?m] assms False
      load_store_same [of ?m1 DATA_OFF "drop ?f data"] f(2) by simp
  then show ?thesis
    using assms False by (simp add: ring_copies_def apply_events_def nvm_copy.copy_eq)
qed

lemma crash_snoc:
  "crash_during memcpy (es @ [e]) w w' \<Longrightarrow> (\<And>off bs. e \<noteq> Copy off bs) \<Longrightarrow>
   crash_during memcpy es w w' \<or> crashed (apply_events memcpy es w) w' \<or> crashed (apply_event memcpy e (apply_events memcpy es w)) w'"
  using crash_append [of memcpy es "[e]" w w'] by (auto elim!: crash_Cons crash_Nil)

lemma append_run:
  assumes inv: "guard_holds ag w a" "capacity ag = cap" and n: "len ag + length data \<le> cap"
    and ret: "write_ret env = int (length data)"
  shows "append_data env data ag = (Ret1, ag\<lparr>len := len ag + length data\<rparr>,
    (Write data # ring_copies cap ((start ag + len ag) mod cap) data) @
      [Set64 BUF_END_OFF (of_nat ((start ag + (len ag + length data)) mod cap))])"
proof -
  have r: "ring_ok cap (start ag) (len ag) (fsync_len ag)" using guard_holdsD(5) [OF inv(1)] inv(2) by simp
  note b = ring_ok_bounds [OF r]
  let ?p = "(start ag + len ag) mod cap"
  have p: "?p < cap" using b by simp
  have add: "size_add (len ag) (length data) = len ag + length data" "size_add ?p (length data) = ?p + length data"
  proof -
    have 2: "cap + cap < 2 ^ 64" using b by simp
    have "len ag + length data \<le> cap + cap" "?p + length data \<le> cap + cap" using p n by linarith+
    from this [THEN le_less_trans, OF 2]
    show "size_add (len ag) (length data) = len ag + length data" "size_add ?p (length data) = ?p + length data"
      by (simp_all only: size_add_eq)
  qed
  have sub: "size_sub cap ?p = cap - ?p" using p b by (intro size_sub_eq) simp_all
  have ends: "RING_BUF_END (start ag) (len ag) cap = Some ?p"
    "RING_BUF_END (start ag) (len ag + length data) cap = Some ((start ag + (len ag + length data)) mod cap)"
    using b n by (simp_all add: RING_BUF_END_def RING_BUF_FORWARD_eq)
  show ?thesis
    using n ret inv(2) add sub ends
    by (simp add: append_data_def Let_def ring_copies_def nvm_set_64_def BUF_END_OFF_def and_then_def)
qed

text \<open>
  The append. A crash leaves what the guard had, or, when the end of the ring was set, what it has then;
  a short write leaves its bytes in the file and nothing in the ring.
\<close>

lemma append_whole_ok:
  assumes copy: "nvm_copy memcpy" and inv: "guard_holds ag w a" "capacity ag = cap" "content (log w) = k"
    and n: "len ag + length data \<le> cap" "length a + length data < 2 ^ 48" and ret: "write_ret env = int (length data)"
    and run: "append_data env data ag = (st, ag', es)"
  shows "st = Ret1 \<and> ag' = ag\<lparr>len := len ag + length data\<rparr> \<and> published es \<and>
    guard_holds ag' (apply_events memcpy es w) (a @ data) \<and>
    content (log (apply_events memcpy es w)) = k @ data \<and> durable (log (apply_events memcpy es w)) = durable (log w) \<and>
    (\<forall>w'. crash_during memcpy es w w' \<longrightarrow> recoverable cap w' (survivors ag w a) \<or>
       recoverable cap w' (remains cap (len ag') (fsync_len ag) (kept (fsync_len ag) k a @ data)))"
proof -
  let ?pos = "(start ag + len ag) mod cap" and ?n = "length data" and ?c = "kept (fsync_len ag) k a"
  let ?copies = "ring_copies cap ?pos data" and ?e = "Set64 BUF_END_OFF (of_nat ((start ag + (len ag + ?n)) mod cap))"
  have es: "st = Ret1" "ag' = ag\<lparr>len := len ag + ?n\<rparr>" "es = (Write data # ?copies) @ [?e]"
    using append_run [OF inv(1,2) n(1) ret] run by auto
  note D = guard_holdsD [OF inv(1), unfolded inv(2,3)]
  note b = ring_ok_bounds [OF D(5)]
  let ?w1 = "apply_event memcpy (Write data) w" and ?w2 = "apply_events memcpy ?copies (apply_event memcpy (Write data) w)"
  have p1: "persist cap (start ag) (len ag) (fsync_len ag) ?w1 ?c" using D(3,4) inv(3) by (intro persist_write) auto
  have log1: "log ?w1 = (log w)\<lparr>content := k @ data, offset := length k + ?n\<rparr>"
    using D(4,6) inv(3) by (simp add: file_write_end)
  have c2: "persist cap (start ag) (len ag) (fsync_len ag) ?w2 ?c \<and> log ?w2 = log ?w1 \<and>
      (\<forall>w'. crash_during memcpy ?copies ?w1 w' \<longrightarrow> recoverable cap w' (remains cap (len ag) (fsync_len ag) ?c))"
    by (rule copies_crash [OF copy p1 n(1)])
      (use b n in \<open>auto intro: ring_copies_free simp: ring_copies_def split: if_splits\<close>)
  obtain z m1 where "nvm ?w1 = Some (z, m1)" using p1 by (auto simp: persist_def)
  then obtain m2 where m2: "nvm ?w2 = Some (z, m2)" "ring_bytes m2 cap ?pos ?n = data"
    using ring_copies_content [OF copy, of ?w1 z m1 ?pos cap data] b n(1) by auto
  have r': "ring_ok cap (start ag) (len ag + ?n) (fsync_len ag)" using D(1,5) n by (auto simp: ring_ok_def)
  have z: "z = DATA_OFF + cap" using c2 m2(1) by (auto simp: persist_def)
  have p3: "persist cap (start ag) (len ag + ?n) (fsync_len ag) (apply_event memcpy ?e ?w2) (?c @ data)"
    using c2 r' m2 z by (intro persist_set_end) auto
  have crash: "recoverable cap w' (survivors ag w a) \<or>
      recoverable cap w' (remains cap (len ag + ?n) (fsync_len ag) (?c @ data))" if "crash_during memcpy es w w'" for w'
  proof -
    have "crash_during memcpy (Write data # ?copies) w w' \<or> crashed ?w2 w' \<or> crashed (apply_event memcpy ?e ?w2) w'"
      using crash_snoc [of memcpy "Write data # ?copies" ?e w w'] that es(3) by (simp add: apply_events_def)
    then show ?thesis
      using c2 persist_remains [OF D(3)] persist_remains [of cap _ _ _ ?w2] persist_remains [OF p3] inv(2,3)
      by (auto simp: survivors_def elim!: crash_Cons)
  qed
  have w: "apply_events memcpy es w = apply_event memcpy ?e ?w2"
    by (simp add: es(3) apply_events_def)
  have log3: "log (apply_event memcpy ?e ?w2) = log ?w1" using c2 by simp
  have "kept (fsync_len ag) (k @ data) (a @ data) = ?c @ data" using D(1,8) by (simp add: kept_snoc)
  then have "guard_holds ag' (apply_events memcpy es w) (a @ data)"
    using p3 log1 log3 D(1,2,4) inv(2) es(2) unfolding w by (auto simp: guard_holds_def)
  then show ?thesis
    using es log1 log3 crash w by (auto simp: BUF_END_OFF_def)
qed

lemma append_short_ok:
  assumes inv: "guard_holds ag w a" "capacity ag = cap" "content (log w) = k"
    and n: "len ag + length data \<le> cap" and ret: "write_ret env \<noteq> int (length data)"
    and run: "append_data env data ag = (st, ag', es)"
  shows "st = Ret0 \<and> ag' = ag \<and> \<not> published es \<and> guard_holds ag (apply_events memcpy es w) a \<and>
    content (log (apply_events memcpy es w)) = k @ take (nat (write_ret env)) data \<and>
    durable (log (apply_events memcpy es w)) = durable (log w) \<and>
    (\<forall>w'. crash_during memcpy es w w' \<longrightarrow> recoverable cap w' (survivors ag w a))"
proof -
  note D = guard_holdsD [OF inv(1), unfolded inv(2,3)]
  let ?d = "take (nat (write_ret env)) data"
  have "cap < 2 ^ 37" using D(10) by simp
  then have "size_add (len ag) (length data) = len ag + length data" using n by (intro size_add_eq) simp
  then have es: "st = Ret0" "ag' = ag" "es = [Write ?d]"
    using ret n inv(2) run by (simp_all add: append_data_def Let_def)
  let ?w = "apply_event memcpy (Write ?d) w"
  have log: "log ?w = (log w)\<lparr>content := k @ ?d, offset := length k + length ?d\<rparr>"
    using D(4,6) inv(3) by (simp add: file_write_end)
  have p: "persist cap (start ag) (len ag) (fsync_len ag) ?w (kept (fsync_len ag) k a)"
    using D(3,4) inv(3) by (intro persist_write) auto
  then have h: "guard_holds ag ?w a" "survivors ag ?w a = survivors ag w a"
    using log D(1,2,4,8) inv(2,3) by (auto simp: guard_holds_def survivors_def)
  then show ?thesis
    using es log survivors_crashed [OF inv(1)] survivors_crashed [OF h(1)] inv(2)
    by (auto simp: apply_events_def elim!: crash_Cons crash_Nil)
qed

section \<open>Recovery\<close>

definition writes_whole :: "init_env \<Rightarrow> bool" where
  "writes_whole env \<longleftrightarrow> (\<forall>n. write1_ret env n = int n \<and> write2_ret env n = int n)"

text \<open>Results of the calls of an \<open>aofguard_init\<close> in which nothing fails.\<close>

definition init_succeeds :: "init_env \<Rightarrow> bool" where
  "init_succeeds env \<longleftrightarrow> open_ok env \<and> nvm_fstat_ok env \<and> nvm_truncate_ok env \<and> mmap_ok env \<and> fstat_ok env \<and>
     truncate_ok env \<and> sem1_ok env \<and> sem2_ok env \<and> thread_ok env \<and> writes_whole env"

definition ring_pieces :: "mem \<Rightarrow> nat \<Rightarrow> nat \<Rightarrow> nat \<Rightarrow> bytes list" where
  "ring_pieces m cap st n =
    (if st + n \<le> cap then [load_bytes m (DATA_OFF + st) n]
     else [load_bytes m (DATA_OFF + st) (cap - st), load_bytes m DATA_OFF (n - (cap - st))])"

lemma concat_ring_pieces: "st < cap \<Longrightarrow> n \<le> cap \<Longrightarrow> concat (ring_pieces m cap st n) = ring_bytes m cap st n"
  by (simp add: ring_pieces_def ring_bytes_straight ring_bytes_wrap)

lemma replay_ring_run:
  assumes r: "ring_ok cap (start ag) (len ag) fl" and "capacity ag = cap" "writes_whole env"
  shows "replay_ring env m ag = (Ret1, ag, map Write (ring_pieces m cap (start ag) (len ag)))"
proof -
  note b = ring_ok_bounds [OF r]
  have add: "size_add (start ag) (len ag) = start ag + len ag" using b by (intro size_add_eq) simp
  have sub: "size_sub cap (start ag) = cap - start ag" using b by (intro size_sub_eq) auto
  have sub2: "size_sub (len ag) (cap - start ag) = len ag - (cap - start ag)" if "\<not> start ag + len ag \<le> cap"
    using b that by (intro size_sub_eq) auto
  show ?thesis
    using assms add sub sub2 by (simp add: replay_ring_def Let_def writes_whole_def ring_pieces_def and_then_def)
qed

lemma apply_writes:
  assumes "append_mode (log w) \<or> offset (log w) = length (content (log w))" "durable (log w) \<le> length (content (log w))"
  shows "let w' = apply_events memcpy (map Write pieces) w in
    nvm w' = nvm w \<and> content (log w') = content (log w) @ concat pieces \<and> durable (log w') = durable (log w) \<and>
    append_mode (log w') = append_mode (log w) \<and>
    (append_mode (log w') \<or> offset (log w') = length (content (log w')))"
  using assms
proof (induction pieces arbitrary: w)
  case (Cons x xs)
  then show ?case
    using Cons.IH [of "apply_event memcpy (Write x) w"] by (simp add: apply_events_def Let_def file_write_end)
qed (simp add: apply_events_def)

lemma ring_length_from_end:
  assumes "st < cap" "n < cap" "cap \<le> 2 ^ 36"
  shows "(if st \<le> (st + n) mod cap then size_sub ((st + n) mod cap) st
          else size_sub (size_add cap ((st + n) mod cap)) st) = n"
proof (cases "st + n < cap")
  case True
  then show ?thesis using assms by (simp add: size_sub_eq)
next
  case False
  then have "(st + n) mod cap = st + n - cap" using assms by (simp add: le_mod_geq)
  then show ?thesis using False assms by (simp add: size_sub_eq size_add_eq)
qed

lemma writes_crash:
  assumes "persist cap st n fl w c" "n < cap" "append_mode (log w) \<or> offset (log w) = length (content (log w))"
    and "crash_during memcpy (map Write pieces) w w'"
  shows "recoverable cap w' c"
  using assms
proof (induction pieces arbitrary: w)
  case Nil
  then show ?case using persist_recoverable by (auto elim: crash_Nil)
next
  case (Cons x xs)
  have "persist cap st n fl (apply_event memcpy (Write x) w) c" using Cons.prems(1,3) by (rule persist_write)
  moreover have "durable (log w) \<le> length (content (log w))" using Cons.prems(1) by (simp add: persist_def)
  ultimately show ?case
    using Cons.prems Cons.IH [of "apply_event memcpy (Write x) w"] persist_recoverable [OF Cons.prems(1,2)]
    by (auto simp: file_write_end elim!: crash_Cons)
qed

lemma persist_truncate:
  assumes "persist cap st n fl w c"
  shows "persist cap st n fl (apply_event memcpy (Truncate fl) w) c"
    "content (log (apply_event memcpy (Truncate fl) w)) = take fl c"
  using assms by (auto simp: persist_def)

definition recovery_events :: "world \<Rightarrow> nat \<Rightarrow> bytes list \<Rightarrow> event list" where
  "recovery_events w fl pieces = (if fl < length (content (log w)) then [Truncate fl] else []) @ map Write pieces"

lemma recover_run:
  assumes p: "persist cap st n fl w c" "n < cap" and m: "nvm w = Some (z, m)" and ag: "capacity ag = cap"
    and env: "truncate_ok env" "writes_whole env"
  shows "recover env m (length (content (log w))) ag =
      (Ret1, ag\<lparr>fsync_len := fl, start := st, len := n\<rparr>, recovery_events w fl (ring_pieces m cap st n))"
proof -
  have r: "ring_ok cap st n fl" and nr: "nvm_ring cap st n fl m"
    and fl: "fl \<le> length (content (log w))"
    using p(1) m by (auto simp: persist_def)
  note b = ring_ok_bounds [OF r]
  obtain k where k: "st = k * BLOCK_SIZE" "k < 65536"
  proof
    show "st = st div BLOCK_SIZE * BLOCK_SIZE" using r div_mult_mod_eq [of st BLOCK_SIZE] by (simp add: ring_ok_def)
    show "st div BLOCK_SIZE < 65536" using b by (simp add: BLOCK_SIZE_def less_mult_imp_div_less)
  qed
  have meta: "GET_FSYNC_LEN (load64 m META_OFF) = fl" "GET_BUF_START (load64 m META_OFF) = st"
    using nr r k GET_BUF_START_MAKE [of k fl] by (auto simp: nvm_ring_def GET_FSYNC_LEN_MAKE ring_ok_def)
  define e where "e = (st + n) mod cap"
  have e: "e < cap" using b by (simp add: e_def)
  have "cap \<le> 2 ^ 64" using b by simp
  with e have "e < 2 ^ 64" by (rule less_le_trans)
  then have buf_end: "unat (load64 m BUF_END_OFF) = e"
    using nr by (simp add: nvm_ring_def unsigned_of_nat take_bit_nat_eq_self e_def [symmetric])
  have ln: "(if st \<le> e then size_sub e st else size_sub (size_add cap e) st) = n"
    using ring_length_from_end [of st cap n] b p(2) by (simp only: e_def)
  let ?ag = "ag\<lparr>fsync_len := fl, start := st, len := n\<rparr>"
  have pieces: "replay_ring env m ?ag = (Ret1, ?ag, map Write (ring_pieces m cap st n))"
    using replay_ring_run [of cap ?ag fl env m] r env(2) ag by simp
    have c: "\<not> cap \<le> st" "\<not> cap \<le> e" using b e by simp_all
    have ln': "st \<le> e \<Longrightarrow> size_sub e st = n" "\<not> st \<le> e \<Longrightarrow> size_sub (size_add cap e) st = n" using ln by simp_all
    note d = recover_def Let_def recovery_events_def and_then_def meta buf_end ag env(1) pieces
    show ?thesis
    proof (cases "fl < length (content (log w))")
      case True
      then show ?thesis using c ln' by (simp add: d)
    next
      case False
      then have eq: "length (content (log w)) = fl" using fl by simp
      show ?thesis unfolding recovery_events_def eq using c ln' by (simp add: d)
    qed
qed

lemma recovery_events_ok:
  assumes p: "persist cap st n fl w c" "n < cap" and mode: "append_mode (log w) \<or> offset (log w) = fl"
    and pieces: "concat pieces = drop fl c"
  shows "persist cap st n fl (apply_events memcpy (recovery_events w fl pieces) w) c"
    "content (log (apply_events memcpy (recovery_events w fl pieces) w)) = c"
    "append_mode (log (apply_events memcpy (recovery_events w fl pieces) w)) \<or>
     offset (log (apply_events memcpy (recovery_events w fl pieces) w)) = length c"
    "crash_during memcpy (recovery_events w fl pieces) w w' \<Longrightarrow> recoverable cap w' c"
proof -
  let ?t = "if fl < length (content (log w)) then [Truncate fl] else []"
  define v where "v = apply_events memcpy ?t w"
  have v: "persist cap st n fl v c" "content (log v) = take fl c" "append_mode (log v) \<or> offset (log v) = length (content (log v))"
    "nvm v = nvm w" "fl \<le> length c"
    using p(1) mode persist_truncate [OF p(1)] by (auto simp: v_def apply_events_def persist_def)
  have u: "apply_events memcpy (recovery_events w fl pieces) w = apply_events memcpy (map Write pieces) v"
    by (simp add: recovery_events_def v_def apply_events_def)
  have a: "nvm (apply_events memcpy (map Write pieces) v) = nvm v"
    "content (log (apply_events memcpy (map Write pieces) v)) = c"
    "durable (log (apply_events memcpy (map Write pieces) v)) = durable (log v)"
    "append_mode (log (apply_events memcpy (map Write pieces) v)) \<or>
     offset (log (apply_events memcpy (map Write pieces) v)) = length c"
    using apply_writes [of v memcpy pieces] v pieces by (auto simp: Let_def persist_def)
  show "persist cap st n fl (apply_events memcpy (recovery_events w fl pieces) w) c"
  proof -
    have "durable (log v) \<le> length c" using v(1,2,5) by (simp add: persist_def)
    then show ?thesis unfolding u using v(1) a by (auto simp: persist_def)
  qed
  show "content (log (apply_events memcpy (recovery_events w fl pieces) w)) = c"
    "append_mode (log (apply_events memcpy (recovery_events w fl pieces) w)) \<or>
     offset (log (apply_events memcpy (recovery_events w fl pieces) w)) = length c"
    unfolding u using a by auto
  show "recoverable cap w' c" if "crash_during memcpy (recovery_events w fl pieces) w w'"
    using crash_append [OF that [unfolded recovery_events_def]] writes_crash [OF v(1) p(2) v(3)]
      persist_recoverable [OF p] persist_recoverable [OF persist_truncate(1) [OF p(1)] p(2)]
    by (auto simp: v_def elim!: crash_Cons crash_Nil split: if_splits)
qed

text \<open>The whole of \<open>aofguard_init\<close> after a crash.\<close>

lemma init_run:
  assumes p: "persist cap st n fl w c" "n < cap" and m: "nvm w = Some (z, m)"
    and cfg: "0 \<le> fd" "nvm_size div BLOCK_SIZE * BLOCK_SIZE = cap" and env: "init_succeeds env"
  shows "aofguard_init env fd nvm_size False w ag =
      (Ret1, \<lparr>fsync_len = fl, capacity = cap, start = st, len = n, block_count = 0, \<dots> = aofguard.more ag\<rparr>,
       recovery_events w fl (ring_pieces m cap st n))"
proof -
  have z: "z = DATA_OFF + cap" and r: "ring_ok cap st n fl" using p(1) m by (auto simp: persist_def)
  let ?k = "nvm_size div BLOCK_SIZE"
  obtain k where k: "cap = k * BLOCK_SIZE" "2 \<le> k" "k \<le> 65536" using r by (auto simp: ring_ok_def)
  then have kk: "?k = k" using cfg(2) by (simp add: BLOCK_SIZE_def)
  have sizes: "size_mul ?k BLOCK_SIZE = cap" "size_add 128 cap = 128 + cap"
    using k kk by (simp_all add: size_mul_eq size_add_eq BLOCK_SIZE_def)
  have rec: "recover env m (length (content (log w))) (ag\<lparr>capacity := cap\<rparr>) =
      (Ret1, (ag\<lparr>capacity := cap\<rparr>)\<lparr>fsync_len := fl, start := st, len := n\<rparr>, recovery_events w fl (ring_pieces m cap st n))"
    using recover_run [OF p m, of "ag\<lparr>capacity := cap\<rparr>" env] env by (simp add: init_succeeds_def)
  show ?thesis
    using cfg(1) kk k env m z rec sizes
    by (simp add: aofguard_init_def Let_def open_nvm_def and_then_def init_succeeds_def DATA_OFF_def)
qed

lemma init_recovers:
  assumes p: "persist cap st n fl w c" "n < cap" and mode: "append_mode (log w) \<or> offset (log w) = fl"
    and cfg: "0 \<le> fd" "nvm_size div BLOCK_SIZE * BLOCK_SIZE = cap" and env: "init_succeeds env"
  shows "\<exists>es. aofguard_init env fd nvm_size False w ag =
      (Ret1, \<lparr>fsync_len = fl, capacity = cap, start = st, len = n, block_count = 0, \<dots> = aofguard.more ag\<rparr>, es) \<and>
    persist cap st n fl (apply_events memcpy es w) c \<and> content (log (apply_events memcpy es w)) = c \<and>
    (append_mode (log (apply_events memcpy es w)) \<or> offset (log (apply_events memcpy es w)) = length c) \<and>
    (\<forall>w'. crash_during memcpy es w w' \<longrightarrow> recoverable cap w' c)"
proof -
  obtain m where m: "nvm w = Some (DATA_OFF + cap, m)" "ring_bytes m cap st n = drop fl c" and r: "ring_ok cap st n fl"
    using p(1) by (auto simp: persist_def)
  have "concat (ring_pieces m cap st n) = drop fl c"
    using m(2) ring_ok_bounds [OF r] by (simp add: concat_ring_pieces)
  from recovery_events_ok [OF p mode this] init_run [OF p m(1) cfg env, of ag] show ?thesis by auto
qed

section \<open>A whole write\<close>

text \<open>
  What a write of \<open>data\<close> guarantees for a file holding \<open>k\<close> and a ring that was given \<open>a\<close>, whatever its calls return:
  no assertion fails; a crash at any moment leaves one of the contents in \<open>X\<close>, or the stable prefix when the write has
  filled the ring exactly; and the write is either published, in file and ring, or it failed and left a part
  of its data in the file and nothing in the ring.
\<close>

definition write_ok ::
    "(mem \<Rightarrow> nat \<Rightarrow> bytes \<Rightarrow> mem) \<Rightarrow> bytes set \<Rightarrow> nat \<Rightarrow> bytes \<Rightarrow> bytes \<Rightarrow> bytes \<Rightarrow> world \<Rightarrow> aofguard run \<Rightarrow> bool" where
  "write_ok memcpy X cap k a data w r \<longleftrightarrow>
    (case r of (st, ag, es) \<Rightarrow> st \<noteq> Assert_failed \<and> capacity ag = cap \<and> pending_ok ag \<and>
       (\<forall>w'. crash_during memcpy es w w' \<longrightarrow>
          (\<exists>x \<in> X. recoverable cap w' x) \<or> len ag = cap \<and> recoverable cap w' (take (fsync_len ag) k)) \<and>
       (let w1 = apply_events memcpy es w in
        if published es then guard_holds ag w1 (a @ data) \<and> content (log w1) = k @ data
        else st \<noteq> Ret1 \<and> guard_holds ag w1 a \<and> (\<exists>j. content (log w1) = k @ take j data)))"

lemma write_ok_and_then:
  assumes r: "run_ok memcpy X cap k a w r Q"
    and f: "\<And>ag w. ready X cap k a ag w \<Longrightarrow> Q Ret1 ag w \<Longrightarrow> write_ok memcpy X cap k a data w (f ag)"
    and e: "\<And>st ag w. st \<noteq> Ret1 \<Longrightarrow> Q st ag w \<Longrightarrow> pending_ok ag"
  shows "write_ok memcpy X cap k a data w (and_then r f)"
proof -
  obtain st ag es where r': "r = (st, ag, es)" by (cases r) auto
  show ?thesis
  proof (cases "st = Ret1")
    case True
    obtain st' ag' es' where f': "f ag = (st', ag', es')" by (cases "f ag") auto
    have "write_ok memcpy X cap k a data (apply_events memcpy es w) (f ag)"
      using r f [of ag "apply_events memcpy es w"] r' True by (simp add: run_ok_def)
    then show ?thesis
      using r r' True f' crash_append [of memcpy es es' w]
      unfolding write_ok_def run_ok_def and_then_def by (auto simp: apply_events_def Let_def)
  next
    case False
    then have "content (log (apply_events memcpy es w)) = k @ take 0 data" "guard_holds ag (apply_events memcpy es w) a"
      using r r' by (simp_all add: run_ok_def ready_def)
    then show ?thesis using r r' False e unfolding run_ok_def write_ok_def and_then_def
      by (auto simp: Let_def ready_def simp del: take0 intro: exI [of _ "0 :: nat"])
  qed
qed

lemma and_then_assoc: "and_then (and_then r f) g = and_then r (\<lambda>ag. and_then (f ag) g)"
  by (auto simp: and_then_def split: prod.splits)

lemma start_afsync_same:
  assumes "start_afsync env ag = (st, ag', es)"
  shows "es = []" "st \<noteq> Assert_failed" "capacity ag' = capacity ag" "start ag' = start ag" "len ag' = len ag"
    "fsync_len ag' = fsync_len ag" "pending_ok ag \<Longrightarrow> pending_ok ag'" "block_count ag \<noteq> 0 \<Longrightarrow> ag' = ag"
  using assms by (auto simp: start_afsync_def pending_ok_def split: if_splits)

lemma append_start_ok:
  assumes copy: "nvm_copy memcpy" and inv: "ready X cap k a ag w" "allowed X k a" "pending_ok ag"
    and new: "\<And>f. f \<le> length a \<Longrightarrow> kept f k a @ data \<in> X"
    and n: "len ag + length data \<le> cap" "length k + length data < 2 ^ 48"
  shows "write_ok memcpy X cap k a data w (and_then (append_data env data ag) (start_afsync env))"
proof -
  have h: "guard_holds ag w a" "capacity ag = cap" "content (log w) = k" using inv(1) by (auto simp: ready_def)
  note D = guard_holdsD [OF h(1), unfolded h(2,3)]
  have old: "survivors ag w a \<in> X"
    using inv(1,2) h D(1,8) by (auto simp: survivors_def remains_def ready_def allowed_def take_kept)
  obtain st ag' es where run: "append_data env data ag = (st, ag', es)" by (cases "append_data env data ag") auto
  show ?thesis
  proof (cases "write_ret env = int (length data)")
    case True
    note a = append_whole_ok [OF copy h n(1) _ True run]
    obtain st' ag'' es' where s: "start_afsync env ag' = (st', ag'', es')" by (cases "start_afsync env ag'") auto
    note same = start_afsync_same [OF s]
    have l: "length a + length data < 2 ^ 48" using n(2) D(2) by simp
    have "pending_ok ag'" using a [OF l] inv(3) by (simp add: pending_ok_def)
    moreover have "guard_holds ag'' (apply_events memcpy es w) (a @ data)"
      using a [OF l] same by (auto intro: guard_holds_cong)
    moreover have "(\<exists>x \<in> X. recoverable cap w' x) \<or> len ag' = cap \<and> recoverable cap w' (take (fsync_len ag) k)"
      if "crash_during memcpy es w w'" for w'
    proof -
      have "take (fsync_len ag) (kept (fsync_len ag) k a @ data) = take (fsync_len ag) k" using D(8) by (simp add: kept_def)
      then have "remains cap (len ag') (fsync_len ag) (kept (fsync_len ag) k a @ data) =
          (if len ag' = cap then take (fsync_len ag) k else kept (fsync_len ag) k a @ data)"
        by (simp only: remains_def)
      moreover have "kept (fsync_len ag) k a @ data \<in> X" using new [of "fsync_len ag"] D(1) by simp
      moreover have "recoverable cap w' (survivors ag w a) \<or>
          recoverable cap w' (remains cap (len ag') (fsync_len ag) (kept (fsync_len ag) k a @ data))"
        using a [OF l] that by blast
      ultimately show ?thesis using old by (metis (full_types))
    qed
    ultimately show ?thesis
      using a [OF l] s same run h(2) unfolding write_ok_def and_then_def by (simp add: Let_def)
  next
    case False
    note b = append_short_ok [OF h n(1) False run, where memcpy = memcpy]
    then have "\<exists>x \<in> X. recoverable cap w' x" if "crash_during memcpy es w w'" for w'
      using old that h(2) by blast
    then show ?thesis using b inv(3) h(2) unfolding run write_ok_def and_then_def by (auto simp: Let_def)
  qed
qed

lemma write_body_ok:
  assumes copy: "nvm_copy memcpy" and inv: "ready X cap k a ag w" "allowed X k a" "pending_ok ag"
    and new: "\<And>f. f \<le> length a \<Longrightarrow> kept f k a @ data \<in> X"
    and wait: "wait_done env = Some True \<Longrightarrow> synced ag w" and n: "length k + length data < 2 ^ 48"
  shows "write_ok memcpy X cap k a data w (write_body env data ag)"
  unfolding write_body_def and_then_assoc
proof (rule write_ok_and_then [OF make_room_ok [OF inv wait]])
  fix ag' w'
  assume "ready X cap k a ag' w'" "pending_ok ag' \<and> (Ret1 = Ret1 \<longrightarrow> len ag' + length data \<le> cap) \<and>
    (if unwaited env (length data) ag then ag' = ag \<and> w' = w else block_count ag' = 0)"
  then show "write_ok memcpy X cap k a data w' (and_then (append_data env data ag') (start_afsync env))"
    using n by (intro append_start_ok [OF copy _ inv(2) _ new]) auto
qed (use n in simp_all)

text \<open>A write that neither settles a flush nor could start one leaves the flush under way alone.\<close>

lemma write_body_unwaited:
  assumes copy: "nvm_copy memcpy" and inv: "ready X cap k a ag w" "pending_ok ag"
    and n: "length k + length data < 2 ^ 48"
    and run: "write_body env data ag = (st, ag', es)" and u: "unwaited env (length data) ag"
  shows "block_count ag' = block_count ag \<and> fsync_len ag' = fsync_len ag \<and>
    durable (log (apply_events memcpy es w)) = durable (log w)"
proof -
  have h: "guard_holds ag w a" "capacity ag = cap" "content (log w) = k" using inv(1) by (auto simp: ready_def)
  note D = guard_holdsD [OF h(1), unfolded h(2,3)]
  obtain st1 where room: "make_room env (length data) ag = (st1, ag, [])" using make_room_unwaited [OF u] by blast
  show ?thesis
  proof (cases "st1 = Ret1")
    case True
    have l: "len ag + length data \<le> cap"
    proof -
      have "cap < 2 ^ 37" using D(10) by simp
      then have "size_add (len ag) (length data) = len ag + length data" using D(9) n by (intro size_add_eq) simp
      then show ?thesis using room True u h(2)
        by (auto simp: make_room_def unwaited_def waits_def wait_afsync_done_def and_then_def split: if_splits option.splits bool.splits)
    qed
    obtain st2 ag2 es2 where ap: "append_data env data ag = (st2, ag2, es2)" by (cases "append_data env data ag") auto
    have a: "block_count ag2 = block_count ag \<and> fsync_len ag2 = fsync_len ag \<and>
        durable (log (apply_events memcpy es2 w)) = durable (log w)"
    proof (cases "write_ret env = int (length data)")
      case True
      have "length a + length data < 2 ^ 48" using n D(2) by simp
      from append_whole_ok [OF copy h l this True ap] show ?thesis by simp
    next
      case False
      from append_short_ok [OF h l False ap, where memcpy = memcpy] show ?thesis by simp
    qed
    obtain st3 ag3 es3 where s: "start_afsync env ag2 = (st3, ag3, es3)" by (cases "start_afsync env ag2") auto
    have "ag3 = ag2" "es3 = []" using start_afsync_same(1,8) [OF s] a u by (auto simp: unwaited_def)
    then show ?thesis
      using run room True ap s a by (auto simp: write_body_def and_then_def split: if_splits)
  next
    case False
    then show ?thesis using run room by (auto simp: write_body_def and_then_def apply_events_def)
  qed
qed

lemma aofguard_write_ok:
  assumes copy: "nvm_copy memcpy" and inv: "ready X cap k a ag w" "allowed X k a" "pending_ok ag"
    and new: "\<And>f. f \<le> length a \<Longrightarrow> kept f k a @ data \<in> X"
    and sync: "try_done env = Acquired \<or> wait_done env = Some True \<Longrightarrow> synced ag w" and n: "length k + length data < 2 ^ 48"
  shows "write_ok memcpy X cap k a data w (aofguard_write env data ag)"
  unfolding aofguard_write_def
proof (rule write_ok_and_then [OF handle_afsync_ok [OF inv]])
  fix ag' w'
  assume *: "ready X cap k a ag' w'"
    "log w' = log w \<and> (if block_count ag \<noteq> 0 \<and> try_done env = Acquired then Ret1 = Ret1 \<and> settled ag ag' else ag' = ag \<and> w' = w)"
  have "pending_ok ag'" using * inv(3) by (auto simp: settled_def pending_ok_def split: if_splits)
  moreover have "synced ag' w'" if "wait_done env = Some True"
    using * sync that guard_holdsD(7) [of ag' w' a] by (auto simp: ready_def settled_def synced_def split: if_splits)
  ultimately show "write_ok memcpy X cap k a data w' (write_body env data ag')"
    using * n new by (intro write_body_ok [OF copy _ inv(2)]) auto
qed (use sync inv in \<open>auto split: if_splits\<close>)

end
