(* ===== verification/Aofguard_System.thy ===== *)
theory Aofguard_System
  imports Aofguard_Recovery
begin

text \<open>
  The guard at run time: the writer of \<^verbatim>\<open>aofguard.c\<close> and its \<open>afsync_thread\<close>, communicating through the two
  semaphores, and the restarts after a crash. The step relation interleaves them with every result that their calls
  can have; a write is split where the thread can be observed, at \<open>handle_afsync_if_finish\<close>. One writer is assumed, as in
  the source, which has no lock. The properties state crash safety of every state and of every
  moment of a write, and the cases in which the guard loses data or blocks.
\<close>

section \<open>Writer and flushing thread\<close>

text \<open>
  Where \<open>afsync_thread\<close> is: in \<open>sem_wait\<close>, in \<open>FSYNC\<close> (which covers at least the contents the file had
  when it began), before \<open>sem_post\<close>, or ended after an error. \<open>writing\<close> are the data of the write under way and
  \<open>result\<close> is how the last call of the writer ended. \<open>taken\<close> is not in the code: the bytes that the ring was given,
  which are those of the file unless a write was cut short.
\<close>

datatype afsync_thread = At_wait | In_fsync nat | At_post | Exited

record guard_sys =
  guard :: aofguard
  world_of :: world
  sem_start :: nat
  sem_done :: nat
  thread :: afsync_thread
  writing :: "bytes option"
  result :: status
  taken :: bytes

text \<open>
  One call of the loop of \<open>afsync_thread\<close>, which succeeds or fails; \<open>None\<close> when it cannot go on. The first error ends the thread.
\<close>

definition afsync_step :: "bool \<Rightarrow> guard_sys \<Rightarrow> guard_sys option" where
  "afsync_step ok S =
    (case thread S of
       At_wait \<Rightarrow>
         if \<not> ok then Some (S\<lparr>thread := Exited\<rparr>)
         else if sem_start S = 0 then None
         else Some (S\<lparr>sem_start := sem_start S - 1, thread := In_fsync (length (content (log (world_of S))))\<rparr>)
     | In_fsync n \<Rightarrow>
         if \<not> ok then Some (S\<lparr>thread := Exited\<rparr>)
         else (let f = log (world_of S) in
           Some (S\<lparr>thread := At_post, world_of := (world_of S)\<lparr>log := f\<lparr>durable := max (durable f) n\<rparr>\<rparr>\<rparr>))
     | At_post \<Rightarrow>
         if \<not> ok then Some (S\<lparr>thread := Exited\<rparr>)
         else Some (S\<lparr>thread := At_wait, sem_done := sem_done S + 1\<rparr>)
     | Exited \<Rightarrow> None)"

text \<open>
  The steps with their effects on file and persistent memory. A \<open>sem_trywait\<close> or \<open>sem_wait\<close> succeeds only when the
  semaphore is positive, and may fail at any time; every other call may have any result. A write that waits for ever has no end. The file
  stays below \<open>2 ^ 48\<close> bytes, the range of \<open>fsync_len\<close> in the NVM file.
\<close>

inductive write_begins :: "(mem \<Rightarrow> nat \<Rightarrow> bytes \<Rightarrow> mem) \<Rightarrow> bytes \<Rightarrow> guard_sys \<Rightarrow> event list \<Rightarrow> guard_sys \<Rightarrow> bool"
  for memcpy data where
  begins: "writing S = None \<Longrightarrow> (ret = Acquired \<Longrightarrow> 0 < sem_done S) \<Longrightarrow> (ret = Again \<Longrightarrow> sem_done S = 0) \<Longrightarrow>
    handle_afsync_if_finish ret (guard S) = (st, ag, es) \<Longrightarrow>
    write_begins memcpy data S es (S\<lparr>guard := ag, world_of := apply_events memcpy es (world_of S),
      sem_done := (if block_count (guard S) \<noteq> 0 \<and> ret = Acquired then sem_done S - 1 else sem_done S),
      writing := (if st = Ret1 then Some data else None), result := st\<rparr>)"

inductive write_ends :: "(mem \<Rightarrow> nat \<Rightarrow> bytes \<Rightarrow> mem) \<Rightarrow> guard_sys \<Rightarrow> event list \<Rightarrow> guard_sys \<Rightarrow> bool" for memcpy where
  ends: "writing S = Some data \<Longrightarrow> (wait_done env = Some True \<Longrightarrow> 0 < sem_done S) \<Longrightarrow>
    write_body env data (guard S) = (st, ag, es) \<Longrightarrow> st \<noteq> Blocked \<Longrightarrow>
    w = (waits (length data) (guard S) \<and> wait_done env = Some True) \<Longrightarrow>
    length (content (log (world_of S))) + length data < 2 ^ 48 \<Longrightarrow>
    write_ends memcpy S es (S\<lparr>guard := ag, world_of := apply_events memcpy es (world_of S),
      sem_done := (if w then sem_done S - 1 else sem_done S),
      sem_start := (if block_count ag \<noteq> 0 \<and> (w \<or> block_count (guard S) = 0) \<and> post_ok env then sem_start S + 1 else sem_start S),
      writing := None, result := st, taken := (if published es then taken S @ data else taken S)\<rparr>)"

inductive guard_step :: "(mem \<Rightarrow> nat \<Rightarrow> bytes \<Rightarrow> mem) \<Rightarrow> guard_sys \<Rightarrow> event list \<Rightarrow> guard_sys \<Rightarrow> bool" for memcpy where
  flusher: "afsync_step ok S = Some S' \<Longrightarrow> guard_step memcpy S [] S'"
| write_begin: "write_begins memcpy data S es S' \<Longrightarrow> guard_step memcpy S es S'"
| write_end: "write_ends memcpy S es S' \<Longrightarrow> guard_step memcpy S es S'"

definition guard_sys_init :: "aofguard \<Rightarrow> world \<Rightarrow> guard_sys" where
  "guard_sys_init ag w = \<lparr>guard = ag, world_of = w, sem_start = 0, sem_done = 0, thread = At_wait, writing = None,
     result = Ret1, taken = content (log w)\<rparr>"

text \<open>At most one flush is under way, and it covers the blocks in \<open>block_count\<close>.\<close>

definition async_ok :: "guard_sys \<Rightarrow> bool" where
  "async_ok S \<longleftrightarrow>
    (sem_done S \<noteq> 0 \<longrightarrow> block_count (guard S) \<noteq> 0 \<and> sem_done S = 1 \<and> sem_start S = 0 \<and> synced (guard S) (world_of S) \<and>
       (thread S = At_wait \<or> thread S = Exited)) \<and>
    (sem_start S \<noteq> 0 \<longrightarrow> block_count (guard S) \<noteq> 0 \<and> sem_start S = 1 \<and> (thread S = At_wait \<or> thread S = Exited)) \<and>
    (case thread S of
       In_fsync n \<Rightarrow> block_count (guard S) \<noteq> 0 \<and> n \<le> length (content (log (world_of S))) \<and>
         fsync_len (guard S) + block_count (guard S) * BLOCK_SIZE \<le> n
     | At_post \<Rightarrow> block_count (guard S) \<noteq> 0 \<and> synced (guard S) (world_of S)
     | _ \<Rightarrow> True)"

definition guard_sys_ok :: "nat \<Rightarrow> guard_sys \<Rightarrow> bool" where
  "guard_sys_ok cap S \<longleftrightarrow> guard_holds (guard S) (world_of S) (taken S) \<and> capacity (guard S) = cap \<and> pending_ok (guard S) \<and>
     async_ok S \<and> result S \<noteq> Assert_failed"

section \<open>The system invariant\<close>

text \<open>
  \<open>leaves X S\<close>: the set \<open>X\<close> has everything that can be put together from the file and the ring of \<open>S\<close>, with and without
  the data of the write under way, and the stable prefix when the ring is exactly full.
\<close>

definition leaves :: "bytes set \<Rightarrow> guard_sys \<Rightarrow> bool" where
  "leaves X S \<longleftrightarrow>
     (let k = content (log (world_of S)) in
      (\<forall>f \<le> length (taken S). kept f k (taken S) \<in> X \<and> (\<forall>data. writing S = Some data \<longrightarrow> kept f k (taken S) @ data \<in> X)) \<and>
      (len (guard S) = capacity (guard S) \<longrightarrow> take (fsync_len (guard S)) k \<in> X))"

lemma leaves_UNIV: "leaves UNIV S"
  by (simp add: leaves_def)

lemma leaves_ready:
  assumes "leaves X S" "guard_sys_ok cap S"
  shows "ready X cap (content (log (world_of S))) (taken S) (guard S) (world_of S)" "allowed X (content (log (world_of S))) (taken S)"
  using assms by (auto simp: leaves_def guard_sys_ok_def ready_def allowed_def Let_def)

text \<open>What one step does.\<close>

definition step_ok :: "(mem \<Rightarrow> nat \<Rightarrow> bytes \<Rightarrow> mem) \<Rightarrow> bytes set \<Rightarrow> nat \<Rightarrow> guard_sys \<Rightarrow> event list \<Rightarrow> guard_sys \<Rightarrow> bool" where
  "step_ok memcpy X cap S es S' \<longleftrightarrow>
    (let k = content (log (world_of S)); k' = content (log (world_of S')) in
     guard_sys_ok cap S' \<and>
     (\<forall>w. crash_during memcpy es (world_of S) w \<longrightarrow>
        (\<exists>x \<in> X. recoverable cap w x) \<or> len (guard S') = cap \<and> recoverable cap w (take (fsync_len (guard S')) k)) \<and>
     (case writing S of
        Some data \<Rightarrow> if writing S' = None
          then (if result S' = Ret1 then k' = k @ data \<and> taken S' = taken S @ data
                else \<exists>j. k' = k @ take j data \<and> (taken S' = taken S \<or> k' = k @ data \<and> taken S' = taken S @ data))
          else writing S' = Some data \<and> k' = k \<and> taken S' = taken S
      | None \<Rightarrow> k' = k \<and> taken S' = taken S))"

lemma flusher_ok:
  assumes ok: "guard_sys_ok cap S" and X: "leaves X S" and step: "afsync_step b S = Some S'"
  shows "step_ok memcpy X cap S [] S'"
proof -
  note h = ok [unfolded guard_sys_ok_def]
  have "\<exists>x \<in> X. recoverable cap w x" if "crash_during memcpy [] (world_of S) w" for w
    using that ready_crash [OF leaves_ready [OF X ok]] by (auto elim: crash_Nil)
  moreover have "guard_sys_ok cap S' \<and> content (log (world_of S')) = content (log (world_of S)) \<and> taken S' = taken S \<and> writing S' = writing S"
  proof (cases "thread S")
    case (In_fsync n)
    let ?f = "(log (world_of S))\<lparr>durable := max (durable (log (world_of S))) n\<rparr>"
    have n: "n \<le> length (content (log (world_of S)))" using h In_fsync by (simp add: async_ok_def)
    have "guard_holds (guard S) ((world_of S)\<lparr>log := ?f\<rparr>) (taken S)"
      using h n guard_holdsD(6) [of "guard S" "world_of S" "taken S"] by (intro guard_holds_log) auto
    then show ?thesis
      using h In_fsync step by (auto simp: guard_sys_ok_def afsync_step_def async_ok_def synced_def Let_def split: if_splits)
  next
    case At_wait
    then show ?thesis
      using h step guard_holdsD(1,2) [of "guard S" "world_of S" "taken S"]
      by (auto simp: guard_sys_ok_def afsync_step_def async_ok_def pending_ok_def split: if_splits)
  qed (use h step in \<open>auto simp: guard_sys_ok_def afsync_step_def async_ok_def split: if_splits\<close>)
  ultimately show ?thesis by (auto simp: step_ok_def Let_def split: option.splits)
qed

lemma write_begin_ok:
  assumes ok: "guard_sys_ok cap S" and X: "leaves X S" and w: "writing S = None"
    and ret: "ret = Acquired \<Longrightarrow> 0 < sem_done S" and run: "handle_afsync_if_finish ret (guard S) = (st, ag, es)"
    and S': "S' = S\<lparr>guard := ag, world_of := apply_events memcpy es (world_of S),
      sem_done := (if block_count (guard S) \<noteq> 0 \<and> ret = Acquired then sem_done S - 1 else sem_done S),
      writing := (if st = Ret1 then Some data else None), result := st\<rparr>"
  shows "step_ok memcpy X cap S es S'"
proof -
  note h = ok [unfolded guard_sys_ok_def]
  let ?k = "content (log (world_of S))" and ?w = "apply_events memcpy es (world_of S)"
  have sync: "synced (guard S) (world_of S)" if "ret = Acquired" using h ret [OF that] by (auto simp: async_ok_def)
  have r: "run_ok memcpy X cap ?k (taken S) (world_of S) (st, ag, es)
      (\<lambda>st ag' w'. log w' = log (world_of S) \<and>
         (if block_count (guard S) \<noteq> 0 \<and> ret = Acquired then st = Ret1 \<and> settled (guard S) ag'
          else ag' = guard S \<and> w' = world_of S))"
    unfolding run [symmetric] by (rule handle_afsync_ok [OF leaves_ready [OF X ok]]) (use h sync in auto)
  then have new: "guard_holds ag ?w (taken S)" "capacity ag = cap" "st \<noteq> Assert_failed" "log ?w = log (world_of S)"
    "if block_count (guard S) \<noteq> 0 \<and> ret = Acquired then settled (guard S) ag else ag = guard S \<and> ?w = world_of S"
    by (auto simp: run_ok_def ready_def split: if_splits)
  have "pending_ok ag" using new(5) h by (auto simp: settled_def pending_ok_def split: if_splits)
  moreover have "async_ok S'"
    using new(4,5) h ret by (auto simp: S' async_ok_def settled_def split: if_splits afsync_thread.splits)
  ultimately have "guard_sys_ok cap S'" using new by (simp add: guard_sys_ok_def S')
  then show ?thesis using r w new(4) by (auto simp: step_ok_def run_ok_def S' Let_def)
qed

lemma write_end_ok:
  assumes copy: "nvm_copy memcpy" and ok: "guard_sys_ok cap S" and X: "leaves X S" and w: "writing S = Some data"
    and ret: "wait_done env = Some True \<Longrightarrow> 0 < sem_done S" and run: "write_body env data (guard S) = (st, ag, es)"
    and wt: "wt = (waits (length data) (guard S) \<and> wait_done env = Some True)"
    and n: "length (content (log (world_of S))) + length data < 2 ^ 48"
    and S': "S' = S\<lparr>guard := ag, world_of := apply_events memcpy es (world_of S),
      sem_done := (if wt then sem_done S - 1 else sem_done S),
      sem_start := (if block_count ag \<noteq> 0 \<and> (wt \<or> block_count (guard S) = 0) \<and> post_ok env then sem_start S + 1 else sem_start S),
      writing := None, result := st, taken := (if published es then taken S @ data else taken S)\<rparr>"
  shows "step_ok memcpy X cap S es S'"
proof -
  note h = ok [unfolded guard_sys_ok_def]
  let ?k = "content (log (world_of S))" and ?w = "apply_events memcpy es (world_of S)"
  note R = leaves_ready [OF X ok]
  have sync: "synced (guard S) (world_of S)" if "wait_done env = Some True" using h ret [OF that] by (auto simp: async_ok_def)
  have r: "write_ok memcpy X cap ?k (taken S) data (world_of S) (st, ag, es)"
    unfolding run [symmetric] by (rule write_body_ok [OF copy R]) (use h X w n sync in \<open>auto simp: leaves_def Let_def\<close>)
  then have new: "guard_holds ag ?w (taken S')" "capacity ag = cap" "st \<noteq> Assert_failed" "pending_ok ag"
    "\<exists>j. content (log ?w) = ?k @ take j data"
    by (auto simp: write_ok_def Let_def S' split: if_splits intro: exI [of _ "length data"])
  have "async_ok S'"
  proof (cases "unwaited env (length data) (guard S)")
    case True
    then have "block_count ag = block_count (guard S) \<and> fsync_len ag = fsync_len (guard S) \<and>
        durable (log ?w) = durable (log (world_of S))"
      using write_body_unwaited [OF copy R(1) _ n run] h by simp
    moreover have "\<not> wt" "block_count (guard S) \<noteq> 0" using True wt by (auto simp: unwaited_def)
    ultimately show ?thesis
      using h new(5) by (auto simp: S' async_ok_def synced_def split: afsync_thread.splits)
  next
    case False
    then have "block_count (guard S) = 0 \<or> wt" using wt by (auto simp: unwaited_def)
    then have "sem_start S = 0" "sem_done S = (if wt then 1 else 0)" "thread S = At_wait \<or> thread S = Exited"
      using h ret wt by (auto simp: async_ok_def waits_def split: afsync_thread.splits)
    then show ?thesis by (auto simp: S' async_ok_def split: afsync_thread.splits)
  qed
  then have "guard_sys_ok cap S'" using new by (simp add: guard_sys_ok_def S')
  then show ?thesis using r w new(5)
    by (auto simp: step_ok_def write_ok_def S' Let_def split: if_splits)
qed

lemma guard_step_ok:
  assumes step: "guard_step memcpy S es S'" and copy: "nvm_copy memcpy" and ok: "guard_sys_ok cap S" and X: "leaves X S"
  shows "step_ok memcpy X cap S es S'"
  using step
proof cases
  case (flusher b)
  then show ?thesis using flusher_ok [OF ok X] by simp
next
  case (write_begin data)
  then show ?thesis by cases (intro write_begin_ok [OF ok X], auto)
next
  case write_end
  then show ?thesis by cases (intro write_end_ok [OF copy ok X], auto)
qed

lemma guard_sys_step_ok:
  "guard_step memcpy S es S' \<Longrightarrow> nvm_copy memcpy \<Longrightarrow> guard_sys_ok cap S \<Longrightarrow> guard_sys_ok cap S'"
  using guard_step_ok [OF _ _ _ leaves_UNIV, of memcpy S es S' cap] by (simp add: step_ok_def Let_def)

abbreviation guard_run :: "(mem \<Rightarrow> nat \<Rightarrow> bytes \<Rightarrow> mem) \<Rightarrow> guard_sys \<Rightarrow> guard_sys \<Rightarrow> bool" where
  "guard_run memcpy \<equiv> (\<lambda>S S'. \<exists>es. guard_step memcpy S es S')\<^sup>*\<^sup>*"

section \<open>Starting the guard\<close>

text \<open>A valid size of the NVM buffer, and the ring it gives.\<close>

definition nvm_size_ok :: "nat \<Rightarrow> nat \<Rightarrow> bool" where
  "nvm_size_ok nvm_size cap \<longleftrightarrow> cap = nvm_size div BLOCK_SIZE * BLOCK_SIZE \<and> 2 \<le> nvm_size div BLOCK_SIZE \<and>
     nvm_size div BLOCK_SIZE \<le> 65536"

definition fresh_guard :: "nat \<Rightarrow> nat \<Rightarrow> aofguard \<Rightarrow> aofguard" where
  "fresh_guard cap n ag = \<lparr>fsync_len = n, capacity = cap, start = 0, len = 0, block_count = 0, \<dots> = aofguard.more ag\<rparr>"

definition fresh_events :: "nat \<Rightarrow> nat \<Rightarrow> event list" where
  "fresh_events cap n = [Create_nvm, Resize_nvm (DATA_OFF + cap), Set64 META_OFF (of_nat n), Set64 BUF_END_OFF 0]"

lemma init_fresh_run:
  assumes "nvm w = None" "0 \<le> fd" "nvm_size_ok nvm_size cap" "init_succeeds env"
  shows "aofguard_init env fd nvm_size reset w ag =
    (Ret1, fresh_guard cap (length (content (log w))) ag, fresh_events cap (length (content (log w))))"
proof -
  have sizes: "size_mul (nvm_size div BLOCK_SIZE) BLOCK_SIZE = cap" "size_add 128 cap = 128 + cap"
    using assms(3) by (simp_all add: nvm_size_ok_def size_mul_eq size_add_eq BLOCK_SIZE_def)
  show ?thesis
    using assms sizes
    by (simp add: aofguard_init_def Let_def open_nvm_def and_then_def init_succeeds_def DATA_OFF_def nvm_size_ok_def
        reset_ring_def nvm_set_64_def META_OFF_def BUF_END_OFF_def fresh_guard_def fresh_events_def)
qed

lemma fresh_guard_inv:
  assumes "nvm_size_ok nvm_size cap" "durable (log w) = length (content (log w))" "length (content (log w)) < 2 ^ 48"
    and "append_mode (log w) \<or> offset (log w) = length (content (log w))"
  shows "guard_inv (fresh_guard cap (length (content (log w))) ag)
    (apply_events memcpy (fresh_events cap (length (content (log w)))) w) (content (log w))"
proof -
  let ?n = "length (content (log w))"
  let ?m = "store64 (store64 (\<lambda>_. 0) META_OFF (of_nat ?n)) BUF_END_OFF 0"
  have "load64 ?m META_OFF = of_nat ?n"
    using load64_cong [of META_OFF ?m "store64 (\<lambda>_. 0) META_OFF (of_nat ?n)"]
    by (simp add: store64_outside META_OFF_def BUF_END_OFF_def)
  then have "nvm_ring cap 0 0 ?n ?m" using assms(3) by (simp add: nvm_ring_def MAKE_MIXED_META_zero)
  moreover have "ring_ok cap 0 0 ?n" using assms(1,3) by (auto simp: ring_ok_def nvm_size_ok_def BLOCK_SIZE_def)
  moreover have "ring_bytes ?m cap 0 0 = []" by (simp add: ring_bytes_def)
  ultimately show ?thesis
    using assms(2,4) by (simp add: guard_inv_def persist_def fresh_guard_def fresh_events_def apply_events_def)
qed

lemma guard_sys_init_ok:
  "guard_inv ag w (content (log w)) \<Longrightarrow> capacity ag = cap \<Longrightarrow> block_count ag = 0 \<Longrightarrow>
   guard_sys_ok cap (guard_sys_init ag w)"
  by (simp add: guard_sys_ok_def guard_sys_init_def pending_ok_def async_ok_def guard_inv_holds)

text \<open>The states of a guard that was started on a new NVM file.\<close>

definition started :: "(mem \<Rightarrow> nat \<Rightarrow> bytes \<Rightarrow> mem) \<Rightarrow> nat \<Rightarrow> guard_sys \<Rightarrow> bool" where
  "started memcpy nvm_size S0 \<longleftrightarrow>
    (\<exists>env fd w ag0 ag es. init_succeeds env \<and> 0 \<le> fd \<and> nvm w = None \<and> durable (log w) = length (content (log w)) \<and>
       length (content (log w)) < 2 ^ 48 \<and> append_mode (log w) \<and>
       aofguard_init env fd nvm_size False w ag0 = (Ret1, ag, es) \<and> S0 = guard_sys_init ag (apply_events memcpy es w))"

lemma started_ok:
  assumes "started memcpy nvm_size S0"
  shows "nvm_size_ok nvm_size (nvm_size div BLOCK_SIZE * BLOCK_SIZE) \<and> guard_sys_ok (nvm_size div BLOCK_SIZE * BLOCK_SIZE) S0"
proof -
  obtain env fd w ag0 ag es where s: "init_succeeds env" "0 \<le> fd" "nvm w = None" "durable (log w) = length (content (log w))"
    "length (content (log w)) < 2 ^ 48" "append_mode (log w)"
    "aofguard_init env fd nvm_size False w ag0 = (Ret1, ag, es)" "S0 = guard_sys_init ag (apply_events memcpy es w)"
    using assms by (auto simp: started_def)
  have ok: "nvm_size_ok nvm_size (nvm_size div BLOCK_SIZE * BLOCK_SIZE)" (is "nvm_size_ok _ ?cap")
    using s(2,7) by (auto simp: aofguard_init_def Let_def nvm_size_ok_def split: if_splits)
  have ag: "ag = fresh_guard ?cap (length (content (log w))) ag0" "es = fresh_events ?cap (length (content (log w)))"
    using init_fresh_run [OF s(3,2) ok s(1), of False ag0] s(7) by auto
  have inv: "guard_inv ag (apply_events memcpy es w) (content (log w))"
    using fresh_guard_inv [OF ok s(4,5), of ag0 memcpy] s(6) ag by simp
  then have "content (log (apply_events memcpy es w)) = content (log w)" by (simp add: guard_inv_def)
  then have "guard_sys_ok ?cap S0"
    using inv ag(1) unfolding s(8) by (intro guard_sys_init_ok) (simp_all add: fresh_guard_def)
  then show ?thesis using ok by simp
qed

lemma recoverable_init:
  assumes "recoverable cap w c" "append_mode (log w)" "0 \<le> fd" "nvm_size div BLOCK_SIZE * BLOCK_SIZE = cap" "init_succeeds env"
  shows "\<exists>ag' es. aofguard_init env fd nvm_size False w ag = (Ret1, ag', es) \<and>
    content (log (apply_events memcpy es w)) = c \<and> guard_inv ag' (apply_events memcpy es w) c \<and>
    capacity ag' = cap \<and> len ag' < cap \<and> block_count ag' = 0 \<and>
    (\<forall>w'. crash_during memcpy es w w' \<longrightarrow> recoverable cap w' c)"
proof -
  obtain st n fl where p: "n < cap" "persist cap st n fl w c" using assms(1) by (auto simp: recoverable_def)
  from init_recovers [OF p(2,1) _ assms(3,4,5), of ag memcpy] assms(2) p(1) show ?thesis
    by (auto simp: guard_inv_def)
qed

text \<open>
  The life of a guard: it is started on a new NVM file, it takes steps, and after a crash at any moment of a step it is
  started again on what the crash has left, with the file opened in append mode.
\<close>

inductive guard_life :: "(mem \<Rightarrow> nat \<Rightarrow> bytes \<Rightarrow> mem) \<Rightarrow> nat \<Rightarrow> guard_sys \<Rightarrow> bool" for memcpy nvm_size where
  start: "started memcpy nvm_size S \<Longrightarrow> guard_life memcpy nvm_size S"
| step: "guard_life memcpy nvm_size S \<Longrightarrow> guard_step memcpy S es S' \<Longrightarrow> guard_life memcpy nvm_size S'"
| restart: "guard_life memcpy nvm_size S \<Longrightarrow> guard_step memcpy S es S' \<Longrightarrow> crash_during memcpy es (world_of S) w \<Longrightarrow>
    append_mode (log w) \<Longrightarrow> 0 \<le> fd \<Longrightarrow> init_succeeds env \<Longrightarrow>
    aofguard_init env fd nvm_size False w ag0 = (Ret1, ag, es') \<Longrightarrow>
    guard_life memcpy nvm_size (guard_sys_init ag (apply_events memcpy es' w))"

lemma guard_life_ok:
  assumes "guard_life memcpy nvm_size S" "nvm_copy memcpy"
  shows "guard_sys_ok (nvm_size div BLOCK_SIZE * BLOCK_SIZE) S"
  using assms(1)
proof induction
  case (start S)
  then show ?case using started_ok by blast
next
  case (step S es S')
  then show ?case using guard_sys_step_ok assms(2) by blast
next
  case (restart S es S' w fd env ag0 ag es')
  let ?cap = "nvm_size div BLOCK_SIZE * BLOCK_SIZE"
  obtain x where "recoverable ?cap w x"
    using guard_step_ok [OF restart.hyps(2) assms(2) restart.IH leaves_UNIV] restart.hyps(3) by (auto simp: step_ok_def Let_def)
  from recoverable_init [OF this restart.hyps(4,5) refl restart.hyps(6), of ag0 memcpy] restart.hyps(7)
  show ?case by (intro guard_sys_init_ok) auto
qed

lemma guard_life_run: "guard_run memcpy S S' \<Longrightarrow> guard_life memcpy nvm_size S \<Longrightarrow> guard_life memcpy nvm_size S'"
  by (induction rule: rtranclp_induct) (auto intro: guard_life.step)

text \<open>The two steps of a write in which nothing fails and no flush is under way or begins.\<close>

lemma quiet_write:
  assumes "writing S = None" "block_count (guard S) = 0" "write_body env data (guard S) = (Ret1, ag, es)"
    and "wait_done env = None" "length (content (log (world_of S))) + length data < 2 ^ 48" "block_count ag = 0" "published es"
    and S1: "S1 = S\<lparr>writing := Some data, result := Ret1\<rparr>"
    and S2: "S2 = S\<lparr>guard := ag, world_of := apply_events memcpy es (world_of S), writing := None, result := Ret1, taken := taken S @ data\<rparr>"
  shows "write_begins memcpy data S [] S1" "write_ends memcpy S1 es S2"
proof -
  define ret where "ret = (if 0 < sem_done S then Acquired else Again)"
  have run: "handle_afsync_if_finish ret (guard S) = (Ret1, guard S, [])" using assms(2) by (simp add: handle_afsync_if_finish_def)
  have ret: "ret = Acquired \<Longrightarrow> 0 < sem_done S" "ret = Again \<Longrightarrow> sem_done S = 0" by (auto simp: ret_def split: if_splits)
  have "S1 = S\<lparr>guard := guard S, world_of := apply_events memcpy [] (world_of S),
      sem_done := (if block_count (guard S) \<noteq> 0 \<and> ret = Acquired then sem_done S - 1 else sem_done S),
      writing := (if Ret1 = Ret1 then Some data else None), result := Ret1\<rparr>"
    unfolding S1 by (rule guard_sys.equality) (simp_all add: apply_events_def assms(2))
  then show "write_begins memcpy data S [] S1" using begins [OF assms(1) ret run, of memcpy data] by (simp only:)
  show "write_ends memcpy S1 es S2"
    using ends [of S1 data env Ret1 ag es False memcpy] assms(2-7) by (simp add: S1 S2)
qed

lemma load64_zero: "load64 (\<lambda>_. 0) off = 0"
  by (simp add: load64_def load_bytes_def upt_rec)

text \<open>A small run for concrete instances: an empty file, a ring of two blocks, one write of three bytes.\<close>

definition small_env :: init_env where
  "small_env = \<lparr>open_ok = True, nvm_fstat_ok = True, nvm_truncate_ok = True, mmap_ok = True, fstat_ok = True,
     truncate_ok = True, write1_ret = int, write2_ret = int, sem1_ok = True, sem2_ok = True, thread_ok = True\<rparr>"

definition small_world :: world where
  "small_world = \<lparr>log = \<lparr>content = [], durable = 0, offset = 0, append_mode = True\<rparr>, nvm = None\<rparr>"

definition small_guard :: aofguard where
  "small_guard = \<lparr>fsync_len = 0, capacity = 2 * BLOCK_SIZE, start = 0, len = 0, block_count = 0\<rparr>"

definition small_write :: write_env where
  "small_write = \<lparr>try_done = Again, wait_done = None, fsync_ok = True, write_ret = 3, post_ok = True\<rparr>"

abbreviation small_sys :: guard_sys where
  "small_sys \<equiv> guard_sys_init small_guard (apply_events movnti_copy (fresh_events (2 * BLOCK_SIZE) 0) small_world)"

lemma small_env_ok: "init_succeeds small_env"
  by (simp add: small_env_def init_succeeds_def writes_whole_def)

lemma small_size_ok: "nvm_size_ok (2 * BLOCK_SIZE) (2 * BLOCK_SIZE)"
  by (simp add: nvm_size_ok_def BLOCK_SIZE_def)

lemma small_started: "started movnti_copy (2 * BLOCK_SIZE) small_sys"
proof -
  have "aofguard_init small_env 3 (2 * BLOCK_SIZE) False small_world small_guard =
      (Ret1, small_guard, fresh_events (2 * BLOCK_SIZE) 0)"
    using init_fresh_run [OF _ _ small_size_ok small_env_ok, of small_world 3 False small_guard]
    by (simp add: small_world_def fresh_guard_def small_guard_def)
  then show ?thesis
    unfolding started_def using small_env_ok
    by (intro exI [of _ small_env] exI [of _ 3] exI [of _ small_world] exI [of _ small_guard]
        exI [of _ "fresh_events (2 * BLOCK_SIZE) 0"]) (simp add: small_world_def)
qed

definition small_events :: "event list" where
  "small_events = [Write [1, 2, 3], Copy DATA_OFF [1, 2, 3], Set64 BUF_END_OFF 3]"

lemma small_write_run:
  "write_body small_write [1, 2, 3] small_guard = (Ret1, small_guard\<lparr>len := 3\<rparr>, small_events)"
  by (simp add: write_body_def make_room_def append_data_def start_afsync_def and_then_def small_write_def small_guard_def
      size_add_def RING_BUF_END_def RING_BUF_FORWARD_def BLOCK_SIZE_def nvm_set_64_def BUF_END_OFF_def Let_def small_events_def)

definition small_sys_written :: guard_sys where
  "small_sys_written = small_sys\<lparr>guard := small_guard\<lparr>len := 3\<rparr>, world_of := apply_events movnti_copy small_events (world_of small_sys),
     writing := None, result := Ret1, taken := [1, 2, 3]\<rparr>"

lemma small_sys_fields:
  "guard small_sys = small_guard" "content (log (world_of small_sys)) = []" "sem_done small_sys = 0" "writing small_sys = None"
  "sem_start small_sys = 0" "taken small_sys = []"
  by (simp_all add: guard_sys_init_def fresh_events_def apply_events_def small_world_def)

lemma small_published: "published small_events"
  by (simp add: small_events_def)

text \<open>Both steps of the write.\<close>

abbreviation small_sys_writing :: guard_sys where
  "small_sys_writing \<equiv> small_sys\<lparr>writing := Some [1, 2, 3], result := Ret1\<rparr>"

lemma small_steps:
  "guard_step movnti_copy small_sys [] small_sys_writing"
  "guard_step movnti_copy small_sys_writing small_events small_sys_written"
proof -
  note q = quiet_write [where S = small_sys and env = small_write and data = "[1, 2, 3]" and ag = "small_guard\<lparr>len := 3\<rparr>"
    and es = small_events and memcpy = movnti_copy and ?S1.0 = small_sys_writing and ?S2.0 = small_sys_written]
  have g: "block_count (guard small_sys) = 0" "wait_done small_write = None" "block_count (small_guard\<lparr>len := 3\<rparr>) = 0"
    "length (content (log (world_of small_sys))) + length [1, 2, 3 :: u8] < 2 ^ 48"
    "write_body small_write [1, 2, 3] (guard small_sys) = (Ret1, small_guard\<lparr>len := 3\<rparr>, small_events)"
    unfolding small_sys_fields(1,2) by (rule small_write_run | simp add: small_guard_def small_write_def)+
  have w: "small_sys_written = small_sys\<lparr>guard := small_guard\<lparr>len := 3\<rparr>, world_of := apply_events movnti_copy small_events (world_of small_sys),
     writing := None, result := Ret1, taken := taken small_sys @ [1, 2, 3]\<rparr>"
    by (simp only: small_sys_written_def small_sys_fields append_Nil)
  note q = q [OF small_sys_fields(4) g(1,5,2,4,3) small_published refl w]
  show "guard_step movnti_copy small_sys [] small_sys_writing" by (rule guard_step.write_begin [OF q(1)])
  show "guard_step movnti_copy small_sys_writing small_events small_sys_written" by (rule guard_step.write_end [OF q(2)])
qed

lemmas small_life = guard_life.start [OF small_started]

lemma small_life_writing: "guard_life movnti_copy (2 * BLOCK_SIZE) small_sys_writing"
  using guard_life.step [OF small_life small_steps(1)] .

lemma small_life_written: "guard_life movnti_copy (2 * BLOCK_SIZE) small_sys_written"
  using guard_life.step [OF small_life_writing small_steps(2)] .

lemma small_written_log:
  "content (log (world_of small_sys_written)) = [1, 2, 3]" "durable (log (world_of small_sys_written)) = 0"
  by (simp_all add: small_sys_written_def small_events_def apply_events_def guard_sys_init_def fresh_events_def
      small_world_def file_write_def write_at_def)

text \<open>A ring that is exactly full, and a file reopened without \<open>O_APPEND\<close>.\<close>

definition full_guard :: aofguard where
  "full_guard = \<lparr>fsync_len = 0, capacity = 2 * BLOCK_SIZE, start = 0, len = 2 * BLOCK_SIZE, block_count = 0\<rparr>"

definition full_world :: world where
  "full_world = \<lparr>log = \<lparr>content = replicate (2 * BLOCK_SIZE) 0, durable = 2 * BLOCK_SIZE, offset = 0, append_mode = True\<rparr>,
     nvm = Some (DATA_OFF + 2 * BLOCK_SIZE, \<lambda>_. 0)\<rparr>"

lemma full_inv: "guard_inv full_guard full_world (replicate (2 * BLOCK_SIZE) 0)"
  by (simp add: guard_inv_def persist_def full_guard_def full_world_def ring_ok_def nvm_ring_def load64_zero
      MAKE_MIXED_META_zero ring_bytes_def map_replicate_const BLOCK_SIZE_def)

definition reopened_mem :: mem where
  "reopened_mem = store_bytes (store64 (store64 (\<lambda>_. 0) META_OFF 3) BUF_END_OFF 2) DATA_OFF [4, 5]"

definition reopened_world :: world where
  "reopened_world = \<lparr>log = \<lparr>content = [1, 2, 3], durable = 3, offset = 0, append_mode = False\<rparr>,
     nvm = Some (DATA_OFF + 2 * BLOCK_SIZE, reopened_mem)\<rparr>"

lemma reopened_persist: "persist (2 * BLOCK_SIZE) 0 2 3 reopened_world [1, 2, 3, 4, 5]"
proof -
  have "load64 reopened_mem META_OFF = load64 (store64 (\<lambda>_. 0) META_OFF 3) META_OFF"
    "load64 reopened_mem BUF_END_OFF = load64 (store64 (store64 (\<lambda>_. 0) META_OFF 3) BUF_END_OFF 2) BUF_END_OFF"
    unfolding reopened_mem_def META_OFF_def BUF_END_OFF_def DATA_OFF_def
    by (rule load64_cong; simp add: store64_outside store_bytes_outside)+
  then have "nvm_ring (2 * BLOCK_SIZE) 0 2 3 reopened_mem"
    by (simp add: nvm_ring_def MAKE_MIXED_META_zero BLOCK_SIZE_def)
  moreover have "ring_bytes reopened_mem (2 * BLOCK_SIZE) 0 2 = [4, 5]"
  proof -
    have two: "(2 :: nat) = length [4 :: u8, 5]" by simp
    have "ring_bytes reopened_mem (2 * BLOCK_SIZE) 0 2 = load_bytes reopened_mem DATA_OFF 2"
      using ring_bytes_straight [of 0 2 "2 * BLOCK_SIZE" reopened_mem] by (simp add: BLOCK_SIZE_def)
    also have "\<dots> = [4, 5]" unfolding reopened_mem_def by (subst two) (rule load_store_same)
    finally show ?thesis .
  qed
  ultimately show ?thesis
    by (simp add: persist_def reopened_world_def ring_ok_def BLOCK_SIZE_def)
qed

section \<open>Properties\<close>

lemma survivors_cases:
  assumes "guard_holds ag w a"
  shows "survivors ag w a = (if len ag = capacity ag then take (fsync_len ag) (content (log w))
    else take (fsync_len ag) (content (log w)) @ drop (fsync_len ag) a)"
  using guard_holdsD(8) [OF assms] by (auto simp: survivors_def remains_def take_kept) (auto simp: kept_def)






text \<open>
  C3: In every state of the life of a guard no call of the writer fails an assertion, neither in \<open>handle_afsync_if_finish\<close>
  nor in the rest of the write, whatever the system calls return. A write that returns 1 has appended exactly its data to the file and
  given them to the ring; one that returns 0 has appended a prefix of them, all or nothing of which is in the ring; and no other step changes the contents.
\<close>

theorem write_appends:
  assumes "nvm_copy memcpy" "guard_life memcpy nvm_size S" "guard_step memcpy S es S'"
  shows "result S' \<noteq> Assert_failed \<and>
    (case writing S of
       Some data \<Rightarrow>
         if writing S' = None then
           (if result S' = Ret1
            then content (log (world_of S')) = content (log (world_of S)) @ data \<and> taken S' = taken S @ data
            else \<exists>j. content (log (world_of S')) = content (log (world_of S)) @ take j data \<and>
              (taken S' = taken S \<or> content (log (world_of S')) = content (log (world_of S)) @ data \<and> taken S' = taken S @ data))
         else writing S' = Some data \<and> content (log (world_of S')) = content (log (world_of S)) \<and> taken S' = taken S
     | None \<Rightarrow> content (log (world_of S')) = content (log (world_of S)) \<and> taken S' = taken S)"
  using guard_step_ok [OF assms(3,1) guard_life_ok [OF assms(2,1)] leaves_UNIV]
  by (simp add: step_ok_def Let_def guard_sys_ok_def split: option.splits)

theorem write_appends_witness:
  "content (log (world_of small_sys_written)) = [1, 2, 3] \<and> taken small_sys_written = [1, 2, 3]"
  using write_appends [OF movnti.nvm_copy_axioms small_life_writing small_steps(2)] small_sys_fields(2,6)
  by (simp add: small_sys_written_def)

text \<open>
  C4: Recovery can itself be interrupted: after a crash at any moment of an \<open>aofguard_init\<close> that is
  rebuilding \<open>c\<close>, the next \<open>aofguard_init\<close> rebuilds \<open>c\<close> as well.
\<close>

theorem recovery_is_restartable:
  assumes "recoverable cap w c" "append_mode (log w)" "0 \<le> fd" "nvm_size div BLOCK_SIZE * BLOCK_SIZE = cap" "init_succeeds env"
    and "aofguard_init env fd nvm_size False w ag = (st, ag1, es)" "crash_during memcpy es w w'" "append_mode (log w')"
  shows "\<exists>ag' es'. aofguard_init env fd nvm_size False w' ag = (Ret1, ag', es') \<and> content (log (apply_events memcpy es' w')) = c"
proof -
  have "recoverable cap w' c"
    using recoverable_init [OF assms(1-5), of ag memcpy] assms(6,7) by auto
  from recoverable_init [OF this assms(8,3,4,5)] show ?thesis by blast
qed

theorem recovery_is_restartable_witness:
  "\<exists>ag' es'. aofguard_init small_env 3 (2 * BLOCK_SIZE) False
       ((world_of small_sys_written)\<lparr>log := log small_world\<rparr>) small_guard = (Ret1, ag', es') \<and>
     content (log (apply_events movnti_copy es' ((world_of small_sys_written)\<lparr>log := log small_world\<rparr>))) = [1, 2, 3]"
proof -
  let ?w = "(world_of small_sys_written)\<lparr>log := log small_world\<rparr>"
  have c: "crashed (world_of small_sys_written) ?w" "crashed ?w ?w" "append_mode (log ?w)"
    using small_written_log by (simp_all add: crashed_def small_world_def)
  have "guard_sys_ok (2 * BLOCK_SIZE) small_sys_written"
    using guard_life_ok [OF small_life_written movnti.nvm_copy_axioms] by (simp add: BLOCK_SIZE_def)
  then have h: "guard_holds (guard small_sys_written) (world_of small_sys_written) [1, 2, 3]"
    by (simp add: guard_sys_ok_def small_sys_written_def)
  have "survivors (guard small_sys_written) (world_of small_sys_written) [1, 2, 3] = [1, 2, 3]"
    "capacity (guard small_sys_written) = 2 * BLOCK_SIZE"
    using survivors_cases [OF h] small_written_log by (simp_all add: small_sys_written_def small_guard_def BLOCK_SIZE_def)
  then have rec: "recoverable (2 * BLOCK_SIZE) ?w [1, 2, 3]" using survivors_crashed [OF h c(1)] by simp
  obtain st ag es where run: "aofguard_init small_env 3 (2 * BLOCK_SIZE) False ?w small_guard = (st, ag, es)"
    by (cases "aofguard_init small_env 3 (2 * BLOCK_SIZE) False ?w small_guard") auto
  show ?thesis
    by (rule recovery_is_restartable [OF rec c(3) _ _ small_env_ok run crash_during.here [OF c(2)] c(3)])
      (simp_all add: BLOCK_SIZE_def)
qed

text \<open>
  C5: A full ring is lost. When the ring is exactly full its end equals its start, and after a crash or
  a restart \<open>aofguard_init\<close> succeeds, takes the ring for empty and cuts the file back to its stable length.
\<close>

theorem full_ring_is_lost:
  assumes "guard_inv ag w c" "len ag = capacity ag" "crashed w w'" "append_mode (log w')"
    and "0 \<le> fd" "nvm_size div BLOCK_SIZE * BLOCK_SIZE = capacity ag" "init_succeeds env"
  shows "\<exists>ag' es. aofguard_init env fd nvm_size False w' ag0 = (Ret1, ag', es) \<and>
    content (log (apply_events memcpy es w')) = take (fsync_len ag) c"
proof -
  let ?cap = "capacity ag" and ?fl = "fsync_len ag"
  have p: "persist ?cap (start ag) ?cap ?fl w' c"
    using assms(1-3) persist_crashed by (auto simp: guard_inv_def)
  have r: "ring_ok ?cap (start ag) ?cap ?fl" using p by (simp add: persist_def)
  note b = ring_ok_bounds [OF r]
  have "persist ?cap (start ag) 0 ?fl w' (take ?fl c)"
    using p r by (auto simp: persist_def nvm_ring_def ring_ok_def ring_bytes_def)
  moreover have "0 < ?cap" using b by simp
  ultimately have "recoverable ?cap w' (take ?fl c)" unfolding recoverable_def by blast
  from recoverable_init [OF this assms(4-7)] show ?thesis by blast
qed

theorem full_ring_is_lost_witness:
  "\<exists>ag' es. aofguard_init small_env 3 (2 * BLOCK_SIZE) False full_world small_guard = (Ret1, ag', es) \<and>
    content (log (apply_events movnti_copy es full_world)) = []"
  using full_ring_is_lost [OF full_inv, of full_world 3 "2 * BLOCK_SIZE" small_env small_guard movnti_copy] small_env_ok
  by (simp add: full_guard_def crashed_def full_world_def BLOCK_SIZE_def)

text \<open>
  Recovery needs append mode. On a descriptor opened without \<open>O_APPEND\<close>, at offset 0, the ring is
  written over the beginning of the file: the file keeps its stable length and its first bytes are
  replaced by the ring. The offset is then behind the ring.
\<close>

theorem recovery_without_append_overwrites:
  assumes "persist cap st n fl w c" "0 < n" "n < cap" "n \<le> fl" "st + n \<le> cap"
    and "\<not> append_mode (log w)" "offset (log w) = 0"
    and "0 \<le> fd" "nvm_size div BLOCK_SIZE * BLOCK_SIZE = cap" "init_succeeds env"
  shows "\<exists>ag' es. aofguard_init env fd nvm_size False w ag = (Ret1, ag', es) \<and>
    content (log (apply_events memcpy es w)) = drop fl c @ drop n (take fl c) \<and> offset (log (apply_events memcpy es w)) = n"
proof -
  obtain m where m: "nvm w = Some (DATA_OFF + cap, m)" "ring_bytes m cap st n = drop fl c"
    and r: "ring_ok cap st n fl" and c: "fl \<le> length (content (log w))" "take fl (content (log w)) = take fl c" "length c = fl + n"
    using assms(1) by (auto simp: persist_def)
  define es where "es = recovery_events w fl (ring_pieces m cap st n)"
  have init: "aofguard_init env fd nvm_size False w ag =
      (Ret1, \<lparr>fsync_len = fl, capacity = cap, start = st, len = n, block_count = 0, \<dots> = aofguard.more ag\<rparr>, es)"
    unfolding es_def by (rule init_run [OF assms(1,3) m(1) assms(8-10)])
  have es: "es = (if fl < length (content (log w)) then [Truncate fl] else []) @ [Write (drop fl c)]"
    using m(2) assms(5) by (simp add: es_def recovery_events_def ring_pieces_def ring_bytes_straight)
  have "write_at (take fl c) 0 (drop fl c) = drop fl c @ drop n (take fl c)"
    using assms(2,4) c(3) by (auto simp: write_at_def)
  then have "content (log (apply_events memcpy es w)) = drop fl c @ drop n (take fl c) \<and> offset (log (apply_events memcpy es w)) = n"
    using assms(6,7) c by (cases "fl < length (content (log w))") (auto simp: es apply_events_def file_write_def Let_def)
  then show ?thesis using init by blast
qed

theorem recovery_without_append_overwrites_witness:
  "\<exists>ag' es. aofguard_init small_env 3 (2 * BLOCK_SIZE) False reopened_world small_guard = (Ret1, ag', es) \<and>
    content (log (apply_events movnti_copy es reopened_world)) = [4, 5, 3] \<and> offset (log (apply_events movnti_copy es reopened_world)) = 2"
  using recovery_without_append_overwrites [OF reopened_persist, of 3 "2 * BLOCK_SIZE" small_env small_guard movnti_copy] small_env_ok
  by (simp add: BLOCK_SIZE_def reopened_world_def)

text \<open>
  C6: Starting the guard on a file that has data but no NVM file yet is not crash safe: a crash after
  the NVM file was created and before its first word was set makes the next \<open>aofguard_init\<close> succeed and
  cut the file to nothing.
\<close>

theorem crash_while_starting_empties_file:
  assumes "nvm w = None" "0 \<le> fd" "init_succeeds env" "nvm_size_ok nvm_size cap"
    and "durable (log w) = length (content (log w))" "append_mode (log w)"
    and "aofguard_init env fd nvm_size False w ag = (st, ag1, es)"
  shows "\<exists>w'. crash_during memcpy es w w' \<and> content (log w') = content (log w) \<and>
    (\<exists>ag' es'. aofguard_init env fd nvm_size False w' ag = (Ret1, ag', es') \<and>
       content (log (apply_events memcpy es' w')) = [])"
proof -
  let ?w = "w\<lparr>nvm := Some (DATA_OFF + cap, \<lambda>_. 0)\<rparr>"
  have es: "es = fresh_events cap (length (content (log w)))"
    using init_fresh_run [OF assms(1,2,4,3), of False ag] assms(7) by simp
  have "crashed ?w ?w" using assms(5) by (simp add: crashed_def)
  then have "crash_during memcpy es w ?w"
    unfolding es fresh_events_def
    by (intro crash_during.later [of memcpy _ Create_nvm] crash_during.later [of memcpy _ "Resize_nvm _"] crash_during.here)
      (simp add: crashed_def)
  moreover have "persist cap 0 0 0 ?w []"
    using assms(4,5) by (auto simp: persist_def ring_ok_def nvm_size_ok_def BLOCK_SIZE_def nvm_ring_def ring_bytes_def
        MAKE_MIXED_META_zero load64_zero)
  then have "recoverable cap ?w []"
    using assms(4) unfolding recoverable_def by (intro exI [of _ 0]) (auto simp: nvm_size_ok_def BLOCK_SIZE_def)
  from recoverable_init [OF this _ assms(2) _ assms(3), of nvm_size ag memcpy] assms(4,6)
  have "\<exists>ag' es'. aofguard_init env fd nvm_size False ?w ag = (Ret1, ag', es') \<and> content (log (apply_events memcpy es' ?w)) = []"
    by (auto simp: nvm_size_ok_def)
  ultimately show ?thesis by (intro exI [of _ ?w]) simp
qed

theorem crash_while_starting_empties_file_witness:
  "\<exists>w'. crash_during movnti_copy (fresh_events (2 * BLOCK_SIZE) 1)
       \<lparr>log = \<lparr>content = [7], durable = 1, offset = 0, append_mode = True\<rparr>, nvm = None\<rparr> w' \<and>
     content (log w') = [7] \<and>
     (\<exists>ag' es'. aofguard_init small_env 3 (2 * BLOCK_SIZE) False w' small_guard = (Ret1, ag', es') \<and>
        content (log (apply_events movnti_copy es' w')) = [])"
  using crash_while_starting_empties_file [OF _ _ small_env_ok small_size_ok,
      of "\<lparr>log = \<lparr>content = [7], durable = 1, offset = 0, append_mode = True\<rparr>, nvm = None\<rparr>" 3 small_guard Ret1
        "fresh_guard (2 * BLOCK_SIZE) 1 small_guard" "fresh_events (2 * BLOCK_SIZE) 1" movnti_copy]
    init_fresh_run [OF _ _ small_size_ok small_env_ok,
      of "\<lparr>log = \<lparr>content = [7], durable = 1, offset = 0, append_mode = True\<rparr>, nvm = None\<rparr>" 3 False small_guard]
  by simp

text \<open>What holds from the moment at which the flushing thread has ended with blocks to flush.\<close>

lemma dead_step:
  assumes step: "guard_step memcpy S es S'" and copy: "nvm_copy memcpy" and ok: "guard_sys_ok cap S"
    and dead: "thread S = Exited" "sem_done S = 0" "block_count (guard S) \<noteq> 0"
  shows "thread S' = Exited \<and> sem_done S' = 0 \<and> block_count (guard S') = block_count (guard S) \<and>
    fsync_len (guard S') = fsync_len (guard S) \<and> durable (log (world_of S')) = durable (log (world_of S))"
  using step
proof cases
  case (flusher b)
  then show ?thesis using dead by (simp add: afsync_step_def)
next
  case (write_begin data)
  then show ?thesis
  proof cases
    case (begins ret st ag)
    then have "ret \<noteq> Acquired" using dead(2) by auto
    then have "ag = guard S" "es = []" using begins(5) dead(3) by (cases ret; simp add: handle_afsync_if_finish_def)+
    then show ?thesis using begins(1) dead by (simp add: apply_events_def)
  qed
next
  case write_end
  then show ?thesis
  proof cases
    case (ends data env st ag w)
    have w: "wait_done env \<noteq> Some True" using ends(3) dead(2) by auto
    then have u: "unwaited env (length data) (guard S)" using dead(3) by (simp add: unwaited_def)
    from write_body_unwaited [OF copy leaves_ready(1) [OF leaves_UNIV ok] _ ends(7) ends(4) u] ok
    show ?thesis using ends(1,6) w dead by (simp add: guard_sys_ok_def)
  qed
qed

text \<open>
  C7: A failed flush is never made good. When the \<open>FSYNC\<close> of the flushing thread fails, the thread ends, and in every state that the guard reaches from there,
  whatever is written, its blocks stay in the ring, nothing more of the file becomes stable, and a write that has to wait for the flush never returns 1: it waits for ever, unless its
  \<open>sem_wait\<close> fails.
\<close>

theorem failed_flush_blocks_writer:
  assumes "nvm_copy memcpy" "guard_life memcpy nvm_size S" "thread S = In_fsync n"
    and "afsync_step False S = Some S1" "guard_run memcpy S1 S2"
  shows "thread S2 = Exited \<and> sem_done S2 = 0 \<and> block_count (guard S2) = block_count (guard S) \<and> 0 < block_count (guard S) \<and>
    durable (log (world_of S2)) = durable (log (world_of S)) \<and>
    (\<forall>env data. (wait_done env = Some True \<longrightarrow> 0 < sem_done S2) \<longrightarrow> waits (length data) (guard S2) \<longrightarrow>
       fst (write_body env data (guard S2)) = (if wait_done env = None then Blocked else Ret0))"
proof -
  let ?cap = "nvm_size div BLOCK_SIZE * BLOCK_SIZE"
  have ok: "guard_sys_ok ?cap S" using guard_life_ok [OF assms(2,1)] .
  have "guard_step memcpy S [] S1" using assms(4) by (rule guard_step.flusher)
  then have ok1: "guard_sys_ok ?cap S1" using guard_sys_step_ok assms(1) ok by blast
  have S1: "thread S1 = Exited" "sem_done S1 = 0" "block_count (guard S1) \<noteq> 0" "block_count (guard S1) = block_count (guard S)"
    "durable (log (world_of S1)) = durable (log (world_of S))"
    using assms(3,4) ok by (auto simp: afsync_step_def guard_sys_ok_def async_ok_def)
  have "guard_sys_ok ?cap S2 \<and> thread S2 = Exited \<and> sem_done S2 = 0 \<and> block_count (guard S2) = block_count (guard S1) \<and>
      durable (log (world_of S2)) = durable (log (world_of S1))"
    using assms(5)
  proof (induction rule: rtranclp_induct)
    case base
    then show ?case using ok1 S1 by simp
  next
    case (step S' S'')
    then show ?case using dead_step [of memcpy S' _ S'' ?cap] guard_sys_step_ok assms(1) S1(3) by metis
  qed
  then show ?thesis
    using S1 by (auto simp: write_body_def make_room_def waits_def wait_afsync_done_def and_then_def split: option.splits bool.splits)
qed

text \<open>A flush of one block that is under way, for a concrete instance.\<close>

definition block_events :: "event list" where
  "block_events = [Write (replicate BLOCK_SIZE 0), Copy DATA_OFF (replicate BLOCK_SIZE 0), Set64 BUF_END_OFF (of_nat BLOCK_SIZE)]"

definition block_written :: guard_sys where
  "block_written = small_sys\<lparr>guard := small_guard\<lparr>len := BLOCK_SIZE, block_count := 1\<rparr>,
     world_of := apply_events movnti_copy block_events (world_of small_sys), sem_done := 0, sem_start := 1, writing := None, result := Ret1,
     taken := replicate BLOCK_SIZE 0\<rparr>"

definition flushing_sys :: guard_sys where
  "flushing_sys = block_written\<lparr>sem_start := 0, thread := In_fsync (length (content (log (world_of block_written))))\<rparr>"

lemma block_write_run:
  assumes "length d = BLOCK_SIZE"
  shows "write_body (small_write\<lparr>write_ret := int BLOCK_SIZE\<rparr>) d small_guard =
    (Ret1, small_guard\<lparr>len := BLOCK_SIZE, block_count := 1\<rparr>, [Write d, Copy DATA_OFF d, Set64 BUF_END_OFF (of_nat BLOCK_SIZE)])"
  using assms
  by (simp add: write_body_def make_room_def append_data_def start_afsync_def and_then_def small_write_def small_guard_def
      size_add_def RING_BUF_END_def RING_BUF_FORWARD_def BLOCK_SIZE_def nvm_set_64_def BUF_END_OFF_def Let_def)

lemma flushing_life: "guard_life movnti_copy (2 * BLOCK_SIZE) flushing_sys"
proof -
  let ?d = "replicate BLOCK_SIZE (0 :: u8)" and ?env = "small_write\<lparr>write_ret := int BLOCK_SIZE\<rparr>" and ?ag = "small_guard\<lparr>len := BLOCK_SIZE, block_count := 1\<rparr>"
  let ?S = "small_sys\<lparr>writing := Some ?d, result := Ret1\<rparr>"
  have b: "write_begins movnti_copy ?d small_sys [] ?S"
  proof -
    have "?S = small_sys\<lparr>guard := small_guard, world_of := apply_events movnti_copy [] (world_of small_sys),
        sem_done := (if block_count (guard small_sys) \<noteq> 0 \<and> Again = Acquired then sem_done small_sys - 1 else sem_done small_sys),
        writing := (if Ret1 = Ret1 then Some ?d else None), result := Ret1\<rparr>"
      by (rule guard_sys.equality) (simp_all add: apply_events_def guard_sys_init_def)
    moreover have "handle_afsync_if_finish Again (guard small_sys) = (Ret1, small_guard, [])"
      unfolding small_sys_fields by (simp add: handle_afsync_if_finish_def)
    ultimately show ?thesis using begins [of small_sys Again Ret1 small_guard "[]" movnti_copy ?d] small_sys_fields(3,4) by simp
  qed
  have run: "write_body ?env ?d (guard ?S) = (Ret1, ?ag, block_events)"
    using block_write_run [of ?d] small_sys_fields(1) by (simp add: block_events_def)
  have e: "write_ends movnti_copy ?S block_events block_written"
  proof -
    have "block_written = ?S\<lparr>guard := ?ag, world_of := apply_events movnti_copy block_events (world_of ?S),
        sem_done := (if False then sem_done ?S - 1 else sem_done ?S),
        sem_start := (if block_count ?ag \<noteq> 0 \<and> (False \<or> block_count (guard ?S) = 0) \<and> post_ok ?env then sem_start ?S + 1 else sem_start ?S),
        writing := None, result := Ret1, taken := (if published block_events then taken ?S @ ?d else taken ?S)\<rparr>"
      unfolding block_written_def
      by (rule guard_sys.equality)
        (use small_sys_fields in \<open>simp_all add: block_events_def small_write_def small_guard_def\<close>)
    moreover have "False = (waits (length ?d) (guard ?S) \<and> wait_done ?env = Some True)" "wait_done ?env = Some True \<Longrightarrow> 0 < sem_done ?S"
      by (simp_all add: small_write_def)
    moreover have "length (content (log (world_of ?S))) + length ?d < 2 ^ 48" "writing ?S = Some ?d"
      using small_sys_fields(2) by (simp_all add: BLOCK_SIZE_def)
    ultimately show ?thesis using ends [OF _ _ run, where memcpy = movnti_copy and w = False] by (simp only:) blast
  qed
  have "afsync_step True block_written = Some flushing_sys"
    by (simp add: afsync_step_def flushing_sys_def block_written_def guard_sys_init_def)
  then show ?thesis
    using guard_life.step [OF guard_life.step [OF guard_life.step [OF small_life guard_step.write_begin [OF b]] guard_step.write_end [OF e]] guard_step.flusher]
    by blast
qed

theorem failed_flush_blocks_writer_witness:
  "fst (write_body small_write (replicate (2 * BLOCK_SIZE) 0) (small_guard\<lparr>len := BLOCK_SIZE, block_count := 1\<rparr>)) = Blocked"
proof -
  let ?S = "flushing_sys\<lparr>thread := Exited\<rparr>"
  have g: "guard ?S = small_guard\<lparr>len := BLOCK_SIZE, block_count := 1\<rparr>" by (simp add: flushing_sys_def block_written_def)
  have f: "thread flushing_sys = In_fsync (length (content (log (world_of block_written))))" by (simp add: flushing_sys_def)
  then have "afsync_step False flushing_sys = Some ?S" by (simp add: afsync_step_def)
  from failed_flush_blocks_writer [OF movnti.nvm_copy_axioms flushing_life f this rtranclp.rtrancl_refl]
  have "(wait_done env = Some True \<longrightarrow> 0 < sem_done ?S) \<longrightarrow> waits (length data) (guard ?S) \<longrightarrow>
       fst (write_body env data (guard ?S)) = (if wait_done env = None then Blocked else Ret0)" for env data by blast
  from this [of small_write "replicate (2 * BLOCK_SIZE) 0"] show ?thesis
    unfolding g by (simp add: waits_def small_guard_def small_write_def size_add_def BLOCK_SIZE_def)
qed

text \<open>
  The mixed word stores both of its parts: for every length below \<open>2^48\<close> and every block-aligned start
  in a buffer of at most 65536 blocks, the two accessors return what was packed.
\<close>

theorem mixed_meta_roundtrip:
  assumes "n < 2 ^ 48" "buf_start mod BLOCK_SIZE = 0" "buf_start < 65536 * BLOCK_SIZE"
  shows "GET_FSYNC_LEN (MAKE_MIXED_META n buf_start) = n \<and>
    GET_BUF_START (MAKE_MIXED_META n buf_start) = buf_start"
proof -
  have "buf_start = buf_start div BLOCK_SIZE * BLOCK_SIZE"
    using div_mult_mod_eq [of buf_start BLOCK_SIZE] assms(2) by simp
  moreover have "buf_start div BLOCK_SIZE < 65536" using assms(3) by (simp add: less_mult_imp_div_less)
  ultimately show ?thesis
    using GET_FSYNC_LEN_MAKE [OF assms(1)] GET_BUF_START_MAKE [of "buf_start div BLOCK_SIZE" n] by metis
qed

theorem mixed_meta_roundtrip_witness:
  "GET_FSYNC_LEN (MAKE_MIXED_META 5 (3 * BLOCK_SIZE)) = 5 \<and> GET_BUF_START (MAKE_MIXED_META 5 (3 * BLOCK_SIZE)) = 3 * BLOCK_SIZE"
  using mixed_meta_roundtrip [of 5 "3 * BLOCK_SIZE"] by (simp add: BLOCK_SIZE_def)

end
