(* ===== verification/Sha1.thy ===== *)
theory Sha1
  imports Prelude
begin

unbundle bit_operations_syntax

text \<open>
  SHA-1 as \<^verbatim>\<open>wal_accel/src/sha1.c\<close> implements it, used to derive the name of the
  persistent-memory file that guards a log. The block transform keeps a circular schedule of
  16 words and rotates the roles of five variables instead of moving values; the context is
  fed incrementally. The lemmas relate it to the message schedule, the round function and the
  padding of FIPS 180-4 and show that a digest is the SHA-1 of the bytes fed to the context.
\<close>

section \<open>Model\<close>

record sha1_context =
  state :: "u32 list"
  count :: "u32 list"
  buffer :: bytes

definition rol :: "u32 \<Rightarrow> nat \<Rightarrow> u32" where
  "rol v bits = push_bit bits v OR drop_bit (32 - bits) v"

text \<open>
  \<open>blk0\<close> (little-endian host) and \<open>blk\<close> are assignment expressions: they store a word in the
  block and have its value, so the model returns the value with the new block.
\<close>

definition blk0 :: "nat \<Rightarrow> u32 list \<Rightarrow> u32 \<times> u32 list" where
  "blk0 i block =
    (let m = (rol (block ! i) 24 AND 0xFF00FF00) OR (rol (block ! i) 8 AND 0x00FF00FF)
     in (m, block[i := m]))"

definition blk :: "nat \<Rightarrow> u32 list \<Rightarrow> u32 \<times> u32 list" where
  "blk i block =
    (let m = rol (block ! ((i + 13) AND 15) XOR block ! ((i + 8) AND 15)
                  XOR block ! ((i + 2) AND 15) XOR block ! (i AND 15)) 1
     in (m, block[i AND 15 := m]))"

text \<open>The five local variables \<open>a\<close> to \<open>e\<close>, and the round macros over them.\<close>

datatype reg = ra | rb | rc | rd | re

type_synonym sha1_vars = "(reg \<Rightarrow> u32) \<times> u32 list"

definition R0 :: "reg \<Rightarrow> reg \<Rightarrow> reg \<Rightarrow> reg \<Rightarrow> reg \<Rightarrow> nat \<Rightarrow> sha1_vars \<Rightarrow> sha1_vars" where
  "R0 v w x y z i = (\<lambda>(r, block).
    let (m, block) = blk0 i block;
        r = r(z := r z + (((r w AND (r x XOR r y)) XOR r y) + m + 0x5A827999 + rol (r v) 5))
    in (r(w := rol (r w) 30), block))"

definition R1 :: "reg \<Rightarrow> reg \<Rightarrow> reg \<Rightarrow> reg \<Rightarrow> reg \<Rightarrow> nat \<Rightarrow> sha1_vars \<Rightarrow> sha1_vars" where
  "R1 v w x y z i = (\<lambda>(r, block).
    let (m, block) = blk i block;
        r = r(z := r z + (((r w AND (r x XOR r y)) XOR r y) + m + 0x5A827999 + rol (r v) 5))
    in (r(w := rol (r w) 30), block))"

definition R2 :: "reg \<Rightarrow> reg \<Rightarrow> reg \<Rightarrow> reg \<Rightarrow> reg \<Rightarrow> nat \<Rightarrow> sha1_vars \<Rightarrow> sha1_vars" where
  "R2 v w x y z i = (\<lambda>(r, block).
    let (m, block) = blk i block;
        r = r(z := r z + ((r w XOR r x XOR r y) + m + 0x6ED9EBA1 + rol (r v) 5))
    in (r(w := rol (r w) 30), block))"

definition R3 :: "reg \<Rightarrow> reg \<Rightarrow> reg \<Rightarrow> reg \<Rightarrow> reg \<Rightarrow> nat \<Rightarrow> sha1_vars \<Rightarrow> sha1_vars" where
  "R3 v w x y z i = (\<lambda>(r, block).
    let (m, block) = blk i block;
        r = r(z := r z + ((((r w OR r x) AND r y) OR (r w AND r x)) + m + 0x8F1BBCDC + rol (r v) 5))
    in (r(w := rol (r w) 30), block))"

definition R4 :: "reg \<Rightarrow> reg \<Rightarrow> reg \<Rightarrow> reg \<Rightarrow> reg \<Rightarrow> nat \<Rightarrow> sha1_vars \<Rightarrow> sha1_vars" where
  "R4 v w x y z i = (\<lambda>(r, block).
    let (m, block) = blk i block;
        r = r(z := r z + ((r w XOR r x XOR r y) + m + 0xCA62C1D6 + rol (r v) 5))
    in (r(w := rol (r w) 30), block))"

text \<open>The eighty macro calls of \<open>sha1_transform\<close>, in the order of the source.\<close>

definition sha1_rounds :: "(sha1_vars \<Rightarrow> sha1_vars) list" where
  "sha1_rounds = [
    R0 ra rb rc rd re 0, R0 re ra rb rc rd 1, R0 rd re ra rb rc 2, R0 rc rd re ra rb 3,
    R0 rb rc rd re ra 4, R0 ra rb rc rd re 5, R0 re ra rb rc rd 6, R0 rd re ra rb rc 7,
    R0 rc rd re ra rb 8, R0 rb rc rd re ra 9, R0 ra rb rc rd re 10, R0 re ra rb rc rd 11,
    R0 rd re ra rb rc 12, R0 rc rd re ra rb 13, R0 rb rc rd re ra 14, R0 ra rb rc rd re 15,
    R1 re ra rb rc rd 16, R1 rd re ra rb rc 17, R1 rc rd re ra rb 18, R1 rb rc rd re ra 19,
    R2 ra rb rc rd re 20, R2 re ra rb rc rd 21, R2 rd re ra rb rc 22, R2 rc rd re ra rb 23,
    R2 rb rc rd re ra 24, R2 ra rb rc rd re 25, R2 re ra rb rc rd 26, R2 rd re ra rb rc 27,
    R2 rc rd re ra rb 28, R2 rb rc rd re ra 29, R2 ra rb rc rd re 30, R2 re ra rb rc rd 31,
    R2 rd re ra rb rc 32, R2 rc rd re ra rb 33, R2 rb rc rd re ra 34, R2 ra rb rc rd re 35,
    R2 re ra rb rc rd 36, R2 rd re ra rb rc 37, R2 rc rd re ra rb 38, R2 rb rc rd re ra 39,
    R3 ra rb rc rd re 40, R3 re ra rb rc rd 41, R3 rd re ra rb rc 42, R3 rc rd re ra rb 43,
    R3 rb rc rd re ra 44, R3 ra rb rc rd re 45, R3 re ra rb rc rd 46, R3 rd re ra rb rc 47,
    R3 rc rd re ra rb 48, R3 rb rc rd re ra 49, R3 ra rb rc rd re 50, R3 re ra rb rc rd 51,
    R3 rd re ra rb rc 52, R3 rc rd re ra rb 53, R3 rb rc rd re ra 54, R3 ra rb rc rd re 55,
    R3 re ra rb rc rd 56, R3 rd re ra rb rc 57, R3 rc rd re ra rb 58, R3 rb rc rd re ra 59,
    R4 ra rb rc rd re 60, R4 re ra rb rc rd 61, R4 rd re ra rb rc 62, R4 rc rd re ra rb 63,
    R4 rb rc rd re ra 64, R4 ra rb rc rd re 65, R4 re ra rb rc rd 66, R4 rd re ra rb rc 67,
    R4 rc rd re ra rb 68, R4 rb rc rd re ra 69, R4 ra rb rc rd re 70, R4 re ra rb rc rd 71,
    R4 rd re ra rb rc 72, R4 rc rd re ra rb 73, R4 rb rc rd re ra 74, R4 ra rb rc rd re 75,
    R4 re ra rb rc rd 76, R4 rd re ra rb rc 77, R4 rc rd re ra rb 78, R4 rb rc rd re ra 79]"

text \<open>\<open>memcpy (block, buffer, 64)\<close> on a little-endian host: word \<open>i\<close> from bytes \<open>4i .. 4i + 3\<close>.\<close>

definition le_word :: "bytes \<Rightarrow> nat \<Rightarrow> u32" where
  "le_word buf i = ucast (buf ! (4 * i)) OR push_bit 8 (ucast (buf ! (4 * i + 1)))
     OR push_bit 16 (ucast (buf ! (4 * i + 2))) OR push_bit 24 (ucast (buf ! (4 * i + 3)))"

definition sha1_transform :: "u32 list \<Rightarrow> bytes \<Rightarrow> u32 list" where
  "sha1_transform st buf =
    (let block = map (le_word buf) [0..<16];
         r = (\<lambda>x. case x of ra \<Rightarrow> st ! 0 | rb \<Rightarrow> st ! 1 | rc \<Rightarrow> st ! 2 | rd \<Rightarrow> st ! 3 | re \<Rightarrow> st ! 4);
         (r, _) = fold (\<lambda>f s. f s) sha1_rounds (r, block)
     in [st ! 0 + r ra, st ! 1 + r rb, st ! 2 + r rc, st ! 3 + r rd, st ! 4 + r re])"

definition sha1_init :: "sha1_context \<Rightarrow> sha1_context" where
  "sha1_init context = context\<lparr>
     state := [0x67452301, 0xEFCDAB89, 0x98BADCFE, 0x10325476, 0xC3D2E1F0],
     count := [0, 0]\<rparr>"

text \<open>
  The loop \<open>for (; i + 63 < len; i += 64) sha1_transform (state, data + i)\<close> with its 32-bit
  counter: \<open>i + 63\<close> is computed modulo \<open>2 ^ 32\<close> before it is compared with the 64-bit \<open>len\<close>,
  so the loop need not end; not ending is \<open>None\<close>.
\<close>

partial_function (option) transform_loop :: "u32 list \<Rightarrow> bytes \<Rightarrow> u32 \<Rightarrow> (u32 list \<times> u32) option" where
  "transform_loop st data i =
    (if ucast (i + 63) < (of_nat (length data) :: u64)
     then transform_loop (sha1_transform st (take 64 (drop (unat i) data))) data (i + 64)
     else Some (st, i))"

declare transform_loop.simps [code]

definition sha1_update :: "sha1_context \<Rightarrow> bytes \<Rightarrow> sha1_context option" where
  "sha1_update context data =
    (let len = of_nat (length data) :: u64;
         j = count context ! 0;
         c0 = j + ucast (push_bit 3 len);
         c1 = (if c0 < j then count context ! 1 + 1 else count context ! 1);
         c1 = c1 + ucast (drop_bit 29 len);
         context = context\<lparr>count := [c0, c1]\<rparr>;
         j = drop_bit 3 j AND 63
     in if ucast j + len > 63 then
          (let i = 64 - j;
               buf = overwrite (buffer context) (unat j) (take (unat i) data);
               st = sha1_transform (state context) buf
           in case transform_loop st data i of
                None \<Rightarrow> None
              | Some (st, i) \<Rightarrow>
                  Some (context\<lparr>state := st, buffer := overwrite buf 0 (drop (unat i) data)\<rparr>))
        else Some (context\<lparr>buffer := overwrite (buffer context) (unat j) data\<rparr>))"

text \<open>The padding loop of \<open>sha1_final\<close>.\<close>

partial_function (option) sha1_pad :: "sha1_context \<Rightarrow> sha1_context option" where
  "sha1_pad context =
    (if count context ! 0 AND 504 \<noteq> 448
     then Option.bind (sha1_update context [0]) sha1_pad
     else Some context)"

declare sha1_pad.simps [code]

definition sha1_final :: "sha1_context \<Rightarrow> (sha1_context \<times> bytes) option" where
  "sha1_final context =
    (let finalcount = map (\<lambda>i. ucast (drop_bit ((3 - (i AND 3)) * 8)
           (count context ! (if i \<ge> 4 then 0 else 1)) AND 255) :: u8) [0..<8]
     in Option.bind (sha1_update context [0x80]) (\<lambda>context.
        Option.bind (sha1_pad context) (\<lambda>context.
        Option.bind (sha1_update context finalcount) (\<lambda>context.
          Some (context, map (\<lambda>i. ucast (drop_bit ((3 - (i AND 3)) * 8)
             (state context ! drop_bit 2 i) AND 255)) [0..<20])))))"

section \<open>Specification: FIPS 180-4\<close>

text \<open>
  Message schedule, round functions and constants, compression of a 512-bit block, padding and
  digest, stated on values rather than on rotating variables and a circular buffer.
\<close>

type_synonym chain = "u32 \<times> u32 \<times> u32 \<times> u32 \<times> u32"

fun fips_schedule :: "u32 list \<Rightarrow> nat \<Rightarrow> u32" where
  "fips_schedule M t =
    (if t < 16 then M ! t
     else word_rotl 1 (fips_schedule M (t - 3) XOR fips_schedule M (t - 8)
            XOR fips_schedule M (t - 14) XOR fips_schedule M (t - 16)))"

declare fips_schedule.simps [simp del]

definition fips_f :: "nat \<Rightarrow> u32 \<Rightarrow> u32 \<Rightarrow> u32 \<Rightarrow> u32" where
  "fips_f t x y z =
    (if t < 20 then (x AND y) XOR (NOT x AND z)
     else if t < 40 then x XOR y XOR z
     else if t < 60 then (x AND y) XOR (x AND z) XOR (y AND z)
     else x XOR y XOR z)"

definition fips_K :: "nat \<Rightarrow> u32" where
  "fips_K t = (if t < 20 then 0x5A827999 else if t < 40 then 0x6ED9EBA1
     else if t < 60 then 0x8F1BBCDC else 0xCA62C1D6)"

fun fips_round :: "u32 list \<Rightarrow> nat \<Rightarrow> chain \<Rightarrow> chain" where
  "fips_round M t (a, b, c, d, e) =
    (word_rotl 5 a + fips_f t b c d + e + fips_K t + fips_schedule M t, a, word_rotl 30 b, c, d)"

definition be_word :: "bytes \<Rightarrow> nat \<Rightarrow> u32" where
  "be_word buf i = push_bit 24 (ucast (buf ! (4 * i))) OR push_bit 16 (ucast (buf ! (4 * i + 1)))
     OR push_bit 8 (ucast (buf ! (4 * i + 2))) OR ucast (buf ! (4 * i + 3))"

definition fips_block :: "chain \<Rightarrow> bytes \<Rightarrow> chain" where
  "fips_block h buf =
    (let (a, b, c, d, e) = fold (fips_round (map (be_word buf) [0..<16])) [0..<80] h;
         (h0, h1, h2, h3, h4) = h
     in (h0 + a, h1 + b, h2 + c, h3 + d, h4 + e))"

fun blocks64 :: "bytes \<Rightarrow> bytes list" where
  "blocks64 xs = (if length xs < 64 then [] else take 64 xs # blocks64 (drop 64 xs))"

declare blocks64.simps [simp del]

definition fips_H0 :: chain where
  "fips_H0 = (0x67452301, 0xEFCDAB89, 0x98BADCFE, 0x10325476, 0xC3D2E1F0)"

definition fips_process :: "chain \<Rightarrow> bytes \<Rightarrow> chain" where
  "fips_process h xs = foldl fips_block h (blocks64 xs)"

definition be64 :: "nat \<Rightarrow> bytes" where
  "be64 n = map (\<lambda>i. of_nat (n div 256 ^ (7 - i))) [0..<8]"

definition fips_pad :: "bytes \<Rightarrow> bytes" where
  "fips_pad m = m @ [0x80] @ replicate ((119 - length m mod 64) mod 64) 0 @ be64 (8 * length m)"

definition be32 :: "u32 \<Rightarrow> bytes" where
  "be32 w = [ucast (drop_bit 24 w), ucast (drop_bit 16 w), ucast (drop_bit 8 w), ucast w]"

fun list_of_chain :: "chain \<Rightarrow> u32 list" where
  "list_of_chain (a, b, c, d, e) = [a, b, c, d, e]"

definition chain_of :: "u32 list \<Rightarrow> chain" where
  "chain_of st = (st ! 0, st ! 1, st ! 2, st ! 3, st ! 4)"

definition fips_sha1 :: "bytes \<Rightarrow> bytes" where
  "fips_sha1 m = concat (map be32 (list_of_chain (fips_process fips_H0 (fips_pad m))))"

section \<open>The rounds: rotating roles\<close>

lemma rol_word_rotl: "0 < n \<Longrightarrow> n < 32 \<Longrightarrow> rol v n = word_rotl n v"
proof (rule bit_word_eqI)
  fix i assume n: "0 < n" "n < 32" and "i < LENGTH(32)"
  then have i: "i < 32" by simp
  show "bit (rol v n) i \<longleftrightarrow> bit (word_rotl n v) i"
  proof (cases "i < n")
    case True
    with n have "(i + (32 - n)) mod 32 = i + (32 - n)" by simp
    with True n i show ?thesis by (simp add: rol_def bit_simps) (metis add.commute)
  next
    case False
    then have "i + (32 - n) = (i - n) + 32" using n by simp
    moreover have "(i - n + 32) mod 32 = i - n" using i by simp
    ultimately have "(i + (32 - n)) mod 32 = i - n" by (simp only:)
    moreover have "\<not> bit v (32 - n + i)"
      using False n bit_imp_le_length [of v "32 - n + i"] by auto
    ultimately show ?thesis using False n i by (simp add: rol_def bit_simps)
  qed
qed

definition role :: "nat \<Rightarrow> nat \<Rightarrow> reg" where
  "role k t = [ra, rb, rc, rd, re] ! ((k + 4 * t) mod 5)"

definition round_at :: "nat \<Rightarrow> sha1_vars \<Rightarrow> sha1_vars" where
  "round_at t =
    (if t < 16 then R0 else if t < 20 then R1 else if t < 40 then R2 else if t < 60 then R3 else R4)
       (role 0 t) (role 1 t) (role 2 t) (role 3 t) (role 4 t) t"

lemma upt_80: "[0..<80] = [0, 1, 2, 3, 4, 5, 6, 7, 8, 9,
    10, 11, 12, 13, 14, 15, 16, 17, 18, 19,
    20, 21, 22, 23, 24, 25, 26, 27, 28, 29,
    30, 31, 32, 33, 34, 35, 36, 37, 38, 39,
    40, 41, 42, 43, 44, 45, 46, 47, 48, 49,
    50, 51, 52, 53, 54, 55, 56, 57, 58, 59,
    60, 61, 62, 63, 64, 65, 66, 67, 68, 69,
    70, 71, 72, 73, 74, 75, 76, 77, 78, 79]"
  by code_simp

lemma sha1_rounds_eq: "sha1_rounds = map round_at [0..<80]"
  by (simp add: sha1_rounds_def round_at_def role_def upt_80)

lemma role_Suc [simp]: "role 0 (Suc t) = role 4 t" "role (Suc k) (Suc t) = role k t"
  by (simp_all add: role_def mod_simps)

lemma role_eq_iff: "i < 5 \<Longrightarrow> j < 5 \<Longrightarrow> role i t = role j t \<longleftrightarrow> i = j"
proof -
  assume ij: "i < 5" "j < 5"
  have "distinct [ra, rb, rc, rd, re]" by simp
  then have "role i t = role j t \<longleftrightarrow> (i + 4 * t) mod 5 = (j + 4 * t) mod 5"
    unfolding role_def by (subst nth_eq_iff_index_eq) simp_all
  also have "\<dots> \<longleftrightarrow> i = j"
  proof
    assume "(i + 4 * t) mod 5 = (j + 4 * t) mod 5"
    then have "(i + 4 * t + t) mod 5 = (j + 4 * t + t) mod 5" by (rule mod_add_cong) simp
    then have "(i + 5 * t) mod 5 = (j + 5 * t) mod 5" by (simp add: add.assoc)
    with ij show "i = j" by simp
  qed simp
  finally show ?thesis .
qed

definition round_regs :: "(u32 \<Rightarrow> u32 \<Rightarrow> u32 \<Rightarrow> u32) \<Rightarrow> u32 \<Rightarrow> u32 \<Rightarrow> nat \<Rightarrow> (reg \<Rightarrow> u32) \<Rightarrow> reg \<Rightarrow> u32" where
  "round_regs f k m t r =
    (let r = r(role 4 t := r (role 4 t) + (f (r (role 1 t)) (r (role 2 t)) (r (role 3 t)) + m + k + rol (r (role 0 t)) 5))
     in r(role 1 t := rol (r (role 1 t)) 30))"

definition view :: "nat \<Rightarrow> (reg \<Rightarrow> u32) \<Rightarrow> chain" where
  "view t r = (r (role 0 t), r (role 1 t), r (role 2 t), r (role 3 t), r (role 4 t))"

lemma role_shift: "role 1 (Suc t) = role 0 t" "role 2 (Suc t) = role 1 t"
    "role 3 (Suc t) = role 2 t" "role 4 (Suc t) = role 3 t"
  using role_Suc(2) [of 0 t] role_Suc(2) [of 1 t] role_Suc(2) [of 2 t] role_Suc(2) [of 3 t]
  by (simp_all add: eval_nat_numeral)

lemma view_round_regs:
  "view (Suc t) (round_regs f k m t r) =
    (case view t r of (a, b, c, d, e) \<Rightarrow> (word_rotl 5 a + f b c d + e + k + m, a, word_rotl 30 b, c, d))"
  by (simp add: view_def round_regs_def role_shift role_eq_iff rol_word_rotl Let_def ac_simps)

lemma fips_f_forms:
  "(x AND (y XOR z)) XOR z = (x AND y) XOR (NOT x AND z)"
  "((x OR y) AND z) OR (x AND y) = (x AND y) XOR (x AND z) XOR (y AND z)" for x :: u32
  by (rule bit_word_eqI; auto simp: bit_simps)+

lemma round_at_regs:
  "round_at t (r, block) =
    (let (m, block) = (if t < 16 then blk0 t block else blk t block)
     in (round_regs (fips_f t) (fips_K t) m t r, block))"
proof -
  consider "t < 16" | "16 \<le> t" "t < 20" | "20 \<le> t" "t < 40" | "40 \<le> t" "t < 60" | "60 \<le> t" by linarith
  then show ?thesis
    by cases (simp_all add: round_at_def R0_def R1_def R2_def R3_def R4_def round_regs_def fips_f_def fips_K_def
      fips_f_forms split_def Let_def)
qed

section \<open>The circular message schedule\<close>

definition sched_inv :: "u32 list \<Rightarrow> u32 list \<Rightarrow> nat \<Rightarrow> u32 list \<Rightarrow> bool" where
  "sched_inv raw M t block \<longleftrightarrow> length block = 16 \<and>
     (\<forall>s < t. t \<le> s + 16 \<longrightarrow> block ! (s mod 16) = fips_schedule M s) \<and>
     (\<forall>s < 16. t \<le> s \<longrightarrow> block ! s = raw ! s)"

lemma sched_inv_low:
  assumes inv: "sched_inv raw M t block" and t: "t < 16"
    and swap: "M ! t = (rol (raw ! t) 24 AND 0xFF00FF00) OR (rol (raw ! t) 8 AND 0x00FF00FF)"
  shows "fst (blk0 t block) = fips_schedule M t \<and> sched_inv raw M (Suc t) (snd (blk0 t block))"
proof -
  have m: "fst (blk0 t block) = fips_schedule M t"
    using inv t swap by (simp add: blk0_def Let_def sched_inv_def fips_schedule.simps [of M t])
  moreover have "snd (blk0 t block) = block[t := fips_schedule M t]"
    using m by (simp add: blk0_def Let_def)
  moreover have "sched_inv raw M (Suc t) (block[t := fips_schedule M t])"
    using inv t by (auto simp: sched_inv_def nth_list_update less_Suc_eq)
  ultimately show ?thesis by simp
qed

lemma sched_inv_high:
  assumes inv: "sched_inv raw M t block" and t: "16 \<le> t"
  shows "fst (blk t block) = fips_schedule M t \<and> sched_inv raw M (Suc t) (snd (blk t block))"
proof -
  have at: "block ! ((t + k) mod 16) = fips_schedule M (t + k - 16)" if "k < 16" for k
  proof -
    have "(t + k - 16) mod 16 = (t + k) mod 16" using t by (metis le_add_diff_inverse2 mod_add_self2 trans_le_add1)
    moreover have "t + k - 16 < t" "t \<le> t + k - 16 + 16" using t that by auto
    ultimately show ?thesis using inv by (auto simp: sched_inv_def)
  qed
  have m: "fst (blk t block) = fips_schedule M t"
    using t at [of 13] at [of 8] at [of 2] at [of 0]
    by (simp add: blk_def Let_def and_15_mod fips_schedule.simps [of M t] rol_word_rotl)
  moreover have "snd (blk t block) = block[t mod 16 := fips_schedule M t]"
    using m by (simp add: blk_def Let_def and_15_mod)
  moreover have "sched_inv raw M (Suc t) (block[t mod 16 := fips_schedule M t])"
    unfolding sched_inv_def
  proof (intro conjI allI impI)
    show "length (block[t mod 16 := fips_schedule M t]) = 16" using inv by (simp add: sched_inv_def)
    show "block[t mod 16 := fips_schedule M t] ! (s mod 16) = fips_schedule M s"
      if "s < Suc t" "Suc t \<le> s + 16" for s
    proof (cases "s = t")
      case True then show ?thesis using inv by (simp add: sched_inv_def)
    next
      case False
      then have "s < t" "t < s + 16" using that by auto
      then have "s mod 16 \<noteq> t mod 16"
        by (rule mod_neq_window)
      then show ?thesis using inv \<open>s < t\<close> \<open>t < s + 16\<close> by (simp add: sched_inv_def)
    qed
  qed (use t in simp)
  ultimately show ?thesis by simp
qed

section \<open>The block transform\<close>

lemma be_word_swap:
  "be_word buf i = (rol (le_word buf i) 24 AND 0xFF00FF00) OR (rol (le_word buf i) 8 AND 0x00FF00FF)"
proof (rule bit_word_eqI)
  fix n assume "n < LENGTH(32)"
  then have "n < 32" by simp
  then show "bit (be_word buf i) n \<longleftrightarrow>
      bit ((rol (le_word buf i) 24 AND 0xFF00FF00) OR (rol (le_word buf i) 8 AND 0x00FF00FF)) n"
    by (drule_tac less_32_cases)
       (elim insertE emptyE; simp add: be_word_def le_word_def rol_def bit_simps bit_u8_ge)
qed

lemma fold_rounds:
  assumes M: "\<And>t. t < 16 \<Longrightarrow> M ! t = (rol (raw ! t) 24 AND 0xFF00FF00) OR (rol (raw ! t) 8 AND 0x00FF00FF)"
    and "length raw = 16"
  shows "\<exists>r' block'. fold (\<lambda>f s. f s) (map round_at [0..<n]) (r, raw) = (r', block') \<and>
     view n r' = fold (fips_round M) [0..<n] (view 0 r) \<and> sched_inv raw M n block'"
proof (induction n)
  case 0
  then show ?case using assms(2) by (simp add: sched_inv_def)
next
  case (Suc n)
  then obtain r' block' where IH: "fold (\<lambda>f s. f s) (map round_at [0..<n]) (r, raw) = (r', block')"
     "view n r' = fold (fips_round M) [0..<n] (view 0 r)" "sched_inv raw M n block'" by blast
  let ?b = "if n < 16 then blk0 n block' else blk n block'"
  have b: "fst ?b = fips_schedule M n \<and> sched_inv raw M (Suc n) (snd ?b)"
    using sched_inv_low [OF IH(3) _ M] sched_inv_high [OF IH(3)] by simp
  have "fold (\<lambda>f s. f s) (map round_at [0..<Suc n]) (r, raw) = round_at n (r', block')"
    using IH(1) by simp
  also have "\<dots> = (round_regs (fips_f n) (fips_K n) (fips_schedule M n) n r', snd ?b)"
    using b by (simp add: round_at_regs split_def)
  finally show ?case
    using IH(2) b by (auto simp: view_round_regs split: prod.split)
qed

lemma sha1_transform_fips: "sha1_transform st buf = list_of_chain (fips_block (chain_of st) buf)"
proof -
  let ?r = "\<lambda>x. case x of ra \<Rightarrow> st ! 0 | rb \<Rightarrow> st ! 1 | rc \<Rightarrow> st ! 2 | rd \<Rightarrow> st ! 3 | re \<Rightarrow> st ! 4"
  let ?M = "map (be_word buf) [0..<16]" and ?raw = "map (le_word buf) [0..<16]"
  obtain r' block' where fr: "fold (\<lambda>f s. f s) sha1_rounds (?r, ?raw) = (r', block')"
     "view 80 r' = fold (fips_round ?M) [0..<80] (view 0 ?r)"
    using fold_rounds [of ?M ?raw 80 ?r] unfolding sha1_rounds_eq be_word_swap [symmetric]
    by (simp only: length_map length_upt nth_map_upt be_word_swap [symmetric]) fastforce
  have "view 0 ?r = chain_of st" by (simp add: view_def role_def chain_of_def)
  moreover have "view 80 r' = (r' ra, r' rb, r' rc, r' rd, r' re)" by (simp add: view_def role_def)
  ultimately have "fold (fips_round ?M) [0..<80] (chain_of st) = (r' ra, r' rb, r' rc, r' rd, r' re)"
    using fr(2) by simp
  then show ?thesis
    unfolding sha1_transform_def fips_block_def Let_def fr(1)
    by (simp add: chain_of_def)
qed

section \<open>The context as a message prefix\<close>

text \<open>
  A context represents the bytes fed so far: the state is the compression of the complete
  blocks, the buffer starts with the bytes after them and the counter is the length in bits.
\<close>

definition count_lo :: "nat \<Rightarrow> u32" where
  "count_lo n = of_nat (8 * n)"

definition count_hi :: "nat \<Rightarrow> u32" where
  "count_hi n = of_nat (8 * n div 2 ^ 32)"

definition sha1_repr :: "sha1_context \<Rightarrow> bytes \<Rightarrow> bool" where
  "sha1_repr ctx m \<longleftrightarrow>
     length (buffer ctx) = 64 \<and>
     count ctx = [count_lo (length m), count_hi (length m)] \<and>
     state ctx = list_of_chain (fips_process fips_H0 m) \<and>
     take (length m mod 64) (buffer ctx) = drop (64 * (length m div 64)) m"

section \<open>Blocks of a message\<close>

lemma blocks64_append: "64 dvd length xs \<Longrightarrow> blocks64 (xs @ ys) = blocks64 xs @ blocks64 ys"
proof (induction xs rule: blocks64.induct)
  case (1 xs)
  show ?case
  proof (cases "length xs < 64")
    case True
    with 1 have "xs = []" using nat_dvd_not_less by blast
    then show ?thesis by (simp add: blocks64.simps [of "[]"])
  next
    case False
    then have "64 dvd length (drop 64 xs)" using 1(2) by (simp add: dvd_diff_nat)
    with 1(1) False show ?thesis
      by (simp add: blocks64.simps [of "xs @ ys"] blocks64.simps [of xs])
  qed
qed

lemma blocks64_short: "length xs < 64 \<Longrightarrow> blocks64 xs = []"
  by (simp add: blocks64.simps)

lemma blocks64_one: "length xs = 64 \<Longrightarrow> blocks64 xs = [xs]"
  by (simp add: blocks64.simps [of xs] blocks64_short)

lemma fips_process_append: "64 dvd length xs \<Longrightarrow> fips_process h (xs @ ys) = fips_process (fips_process h xs) ys"
  by (simp add: fips_process_def blocks64_append)

lemma fips_process_short: "length xs < 64 \<Longrightarrow> fips_process h xs = h"
  by (simp add: fips_process_def blocks64_short)

lemma fips_process_one: "length xs = 64 \<Longrightarrow> fips_process h xs = fips_block h xs"
  by (simp add: fips_process_def blocks64_one)

lemma fips_process_tail:
  assumes "64 dvd n" "n \<le> length xs" "length xs < n + 64"
  shows "fips_process h xs = fips_process h (take n xs)"
proof -
  have "fips_process h (take n xs @ drop n xs) = fips_process (fips_process h (take n xs)) (drop n xs)"
    using assms by (intro fips_process_append) simp
  then show ?thesis using assms by (simp add: fips_process_short)
qed

lemma chain_of_list [simp]: "chain_of (list_of_chain h) = h"
  by (cases h) (simp add: chain_of_def)

section \<open>The transform loop\<close>

lemma transform_loop_fips:
  assumes "length data < 2 ^ 32 - 64" "unat i \<le> length data"
  shows "\<exists>i'. transform_loop (list_of_chain h) data i = Some (list_of_chain (fips_process h (drop (unat i) data)), i')
     \<and> unat i' = unat i + 64 * ((length data - unat i) div 64)"
  using assms(2)
proof (induction "length data - unat i" arbitrary: i h rule: less_induct)
  case less
  have i63: "unat (i + 63) = unat i + 63"
    using assms(1) less.prems by (simp add: unat_word_ariths)
  have cond: "ucast (i + 63) < (of_nat (length data) :: u64) \<longleftrightarrow> unat i + 63 < length data"
    using assms(1) i63 by (simp add: word_less_nat_alt unat_ucast_u32_u64 unsigned_of_nat take_bit_nat_eq_self)
  show ?case
  proof (cases "unat i + 63 < length data")
    case False
    then show ?thesis using cond less.prems
      by (subst transform_loop.simps) (simp add: fips_process_short)
  next
    case True
    have i64: "unat (i + 64) = unat i + 64"
      using assms(1) True by (simp add: unat_word_ariths)
    let ?b = "take 64 (drop (unat i) data)"
    have "transform_loop (list_of_chain h) data i = transform_loop (list_of_chain (fips_block h ?b)) data (i + 64)"
      using True cond by (subst transform_loop.simps) (simp add: sha1_transform_fips)
    moreover obtain i' where "transform_loop (list_of_chain (fips_block h ?b)) data (i + 64) =
        Some (list_of_chain (fips_process (fips_block h ?b) (drop (unat i + 64) data)), i')"
        "unat i' = unat i + 64 + 64 * ((length data - (unat i + 64)) div 64)"
    proof -
      have "length data - unat (i + 64) < length data - unat i" "unat (i + 64) \<le> length data"
        using True i64 by auto
      from less.hyps [OF this, of "fips_block h ?b"] show thesis using that by (auto simp: i64)
    qed
    moreover have "fips_process (fips_block h ?b) (drop (unat i + 64) data) = fips_process h (drop (unat i) data)"
    proof -
      have "drop (unat i) data = ?b @ drop (unat i + 64) data"
        by (metis append_take_drop_id drop_drop add.commute)
      moreover have "length ?b = 64" using True by simp
      ultimately show ?thesis
        using fips_process_append [of ?b h "drop (unat i + 64) data"] by (simp add: fips_process_one)
    qed
    moreover have "64 + 64 * ((length data - (unat i + 64)) div 64) = 64 * ((length data - unat i) div 64)"
    proof -
      define k where "k = length data - (unat i + 64)"
      have "length data - unat i = k + 64" using True by (simp add: k_def)
      then show ?thesis unfolding k_def [symmetric] using div_add_self2 [of 64 k] by simp
    qed
    ultimately show ?thesis by auto
  qed
qed

section \<open>The bit counter\<close>

lemma count_low: "ucast (push_bit 3 (of_nat n :: u64)) = (of_nat (8 * n) :: u32)"
proof -
  have "push_bit 3 (of_nat n :: u64) = of_nat (8 * n)" by (simp add: push_bit_eq_mult)
  then show ?thesis by (simp only: ucast_of_nat_u64)
qed

lemma count_carry:
  "((of_nat a + of_nat b :: u32) < of_nat a) \<longleftrightarrow> 2 ^ 32 \<le> a mod 2 ^ 32 + b mod 2 ^ 32"
proof -
  have l: "unat (of_nat a :: u32) = a mod 2 ^ 32" "unat (of_nat b :: u32) = b mod 2 ^ 32"
    by (simp_all add: unat_of_nat)
  have "a mod 2 ^ 32 < 2 ^ 32" "b mod 2 ^ 32 < 2 ^ 32" by simp_all
  then show ?thesis
    unfolding word_less_nat_alt unat_plus_if_size l by (auto simp: word_size)
qed

lemma count_high:
  assumes "n < 2 ^ 32"
  shows "ucast (drop_bit 29 (of_nat n :: u64)) = (of_nat (8 * n div 2 ^ 32) :: u32)"
proof -
  have n: "unat (of_nat n :: u64) = n" using assms by (simp add: unat_of_nat)
  have "unat (drop_bit 29 (of_nat n :: u64)) = n div 2 ^ 29"
    unfolding unat_drop_bit_eq n by (simp add: drop_bit_eq_div)
  moreover have "unat (of_nat (n div 2 ^ 29) :: u64) = n div 2 ^ 29"
    using assms by (simp add: unat_of_nat)
  ultimately have "drop_bit 29 (of_nat n :: u64) = of_nat (n div 2 ^ 29)"
    by (simp only: word_unat_eq_iff)
  moreover have "8 * n div 2 ^ 32 = n div 2 ^ 29" by simp
  ultimately show ?thesis by (simp only: ucast_of_nat_u64)
qed

lemma count_lo_update: "count_lo m + ucast (push_bit 3 (of_nat n :: u64)) = count_lo (m + n)"
  by (simp only: count_low count_lo_def distrib_left of_nat_add)

lemma count_hi_update:
  assumes "n < 2 ^ 32"
  shows "(if count_lo (m + n) < count_lo m then count_hi m + 1 else count_hi m) +
         ucast (drop_bit 29 (of_nat n :: u64)) = count_hi (m + n)"
proof -
  have "count_lo (m + n) < count_lo m \<longleftrightarrow> 2 ^ 32 \<le> 8 * m mod 2 ^ 32 + 8 * n mod 2 ^ 32"
    using count_carry [of "8 * m" "8 * n"] by (simp only: count_lo_def distrib_left of_nat_add)
  then show ?thesis
    by (simp only: count_high [OF assms] count_hi_def distrib_left
         div_add_carry [of "2 ^ 32" "8 * m" "8 * n"] zero_less_power zero_less_numeral) simp
qed

lemma index_of_count: "unat (drop_bit 3 (count_lo n) AND 63) = n mod 64"
proof -
  have "drop_bit 3 (of_nat (8 * n) :: u32) AND 63 = take_bit 6 (drop_bit 3 (of_nat (8 * n)))"
    by (simp add: take_bit_eq_mask mask_eq_exp_minus_1)
  then have "unat (drop_bit 3 (of_nat (8 * n) :: u32) AND 63) = unat (of_nat (8 * n) :: u32) div 8 mod 64"
    by (simp only: unsigned_take_bit_eq unat_drop_bit_eq) (simp add: take_bit_eq_mod drop_bit_eq_div)
  also have "unat (of_nat (8 * n) :: u32) = 8 * (n mod 2 ^ 29)"
    using mult_mod_right [of 8 n "2 ^ 29"] by (simp only: unat_of_nat) simp
  also have "8 * (n mod 2 ^ 29) div 8 mod 64 = n mod 64"
    by (simp add: mod_mod_cancel)
  finally show ?thesis by (simp only: count_lo_def)
qed

section \<open>Feeding the context\<close>

lemma sha1_repr_small:
  assumes buf: "length buf = 64" "take (length m mod 64) buf = drop (64 * (length m div 64)) m"
    and small: "length m mod 64 + length d < 64"
  shows "fips_process h (m @ d) = fips_process h m"
    and "take (length (m @ d) mod 64) (overwrite buf (length m mod 64) d) = drop (64 * (length (m @ d) div 64)) (m @ d)"
proof -
  define q j where "q = length m div 64" and "j = length m mod 64"
  have m: "length m = 64 * q + j" by (simp add: q_def j_def)
  have lmd: "length (m @ d) = 64 * q + (j + length d)" by (simp add: m)
  have md: "length (m @ d) div 64 = q" "length (m @ d) mod 64 = j + length d"
    using small unfolding j_def [symmetric] lmd by simp_all
  have "fips_process h (m @ d) = fips_process h (take (64 * q) (m @ d))"
    using small unfolding j_def [symmetric] by (intro fips_process_tail) (simp_all add: m)
  also have "take (64 * q) (m @ d) = take (64 * q) m" by (simp add: m)
  also have "fips_process h (take (64 * q) m) = fips_process h m"
    using small unfolding j_def [symmetric] by (intro fips_process_tail [symmetric]) (simp_all add: m)
  finally show "fips_process h (m @ d) = fips_process h m" .
  show "take (length (m @ d) mod 64) (overwrite buf (length m mod 64) d) = drop (64 * (length (m @ d) div 64)) (m @ d)"
    using buf small unfolding md j_def [symmetric] q_def [symmetric]
    by (subst take_overwrite) (simp_all add: m)
qed

lemma sha1_update_unfold:
  assumes r: "sha1_repr ctx m" and d: "length d < 2 ^ 32"
  shows "sha1_update ctx d =
    (let context = ctx\<lparr>count := [count_lo (length (m @ d)), count_hi (length (m @ d))]\<rparr>;
         j = drop_bit 3 (count_lo (length m)) AND 63
     in if length m mod 64 + length d > 63 then
          (let i = 64 - j;
               buf = overwrite (buffer ctx) (unat j) (take (unat i) d)
           in case transform_loop (sha1_transform (state ctx) buf) d i of
                None \<Rightarrow> None
              | Some (st, i) \<Rightarrow>
                  Some (context\<lparr>state := st, buffer := overwrite buf 0 (drop (unat i) d)\<rparr>))
        else Some (context\<lparr>buffer := overwrite (buffer ctx) (unat j) d\<rparr>))"
proof -
  let ?j = "drop_bit 3 (count_lo (length m)) AND 63"
  have "unat (ucast ?j + (of_nat (length d) :: u64)) = length m mod 64 + length d"
    unfolding unat_word_ariths unat_ucast_u32_u64 index_of_count using d by (simp add: unat_of_nat)
  then have c: "(ucast ?j + (of_nat (length d) :: u64) > 63) \<longleftrightarrow> length m mod 64 + length d > 63"
    by (simp add: word_less_nat_alt)
  have n: "count ctx = [count_lo (length m), count_hi (length m)]" using r by (simp add: sha1_repr_def)
  show ?thesis
    unfolding sha1_update_def Let_def n nth_Cons_0 nth_Cons_Suc One_nat_def c count_lo_update count_hi_update [OF d]
    by (simp split: option.split)
qed

lemma sha1_update_small:
  assumes r: "sha1_repr ctx m" and small: "length m mod 64 + length d < 64"
  shows "\<exists>ctx'. sha1_update ctx d = Some ctx' \<and> sha1_repr ctx' (m @ d)"
proof -
  have d: "length d < 2 ^ 32" using small by simp
  show ?thesis
    using r small sha1_repr_small [of "buffer ctx" m d]
    by (simp add: sha1_update_unfold [OF r d] index_of_count Let_def) (simp add: sha1_repr_def)
qed

lemma sha1_repr_large:
  assumes buf: "length buf = 64" "take (length m mod 64) buf = drop (64 * (length m div 64)) m"
    and i: "i = 64 - length m mod 64" "i \<le> length d"
    and buf': "buf' = overwrite buf (length m mod 64) (take i d)"
    and i': "i' = i + 64 * ((length d - i) div 64)"
  shows "length buf' = 64"
    and "fips_process (fips_block (fips_process h m) buf') (drop i d) = fips_process h (m @ d)"
    and "length (drop i' d) = length (m @ d) mod 64"
    and "drop i' d = drop (64 * (length (m @ d) div 64)) (m @ d)"
proof -
  define q j k where "q = length m div 64" and "j = length m mod 64" and "k = length d - i"
  have m: "length m = 64 * q + j" and j: "j < 64" by (simp_all add: q_def j_def)
  have ij: "i + j = 64" "length d = i + k" using i j unfolding j_def k_def by simp_all
  have lmd: "length (m @ d) = 64 * (q + 1) + k" using ij by (simp add: m)
  have full: "buf' = drop (64 * q) m @ take i d"
    using buf ij unfolding buf' j_def [symmetric] q_def [symmetric] by (simp add: overwrite_full)
  then show len: "length buf' = 64" using ij m by simp
  have "fips_process h (m @ take i d) = fips_process h (take (64 * q) m @ buf')"
    by (simp add: full append_assoc [symmetric] del: append_assoc)
  also have "\<dots> = fips_process (fips_process h (take (64 * q) m)) buf'"
    by (rule fips_process_append) (simp add: m)
  also have "fips_process h (take (64 * q) m) = fips_process h m"
    using j by (intro fips_process_tail [symmetric]) (simp_all add: m)
  finally have p: "fips_process h (m @ take i d) = fips_process (fips_process h m) buf'" .
  have "64 dvd length (m @ take i d)"
  proof -
    have "length (m @ take i d) = 64 * (q + 1)" using ij m by simp
    then show ?thesis by simp
  qed
  then have "fips_process h ((m @ take i d) @ drop i d) = fips_process (fips_process h (m @ take i d)) (drop i d)"
    by (rule fips_process_append)
  then show "fips_process (fips_block (fips_process h m) buf') (drop i d) = fips_process h (m @ d)"
    using p len by (simp add: fips_process_one)
  have dm: "length (m @ d) mod 64 = k mod 64" "length (m @ d) div 64 = q + 1 + k div 64"
    unfolding lmd by (rule mod_mult_self4, rule div_mult_self4, simp)
  have i'': "i' = i + 64 * (k div 64)" using i' by (simp add: k_def)
  have "k = 64 * (k div 64) + k mod 64" by simp
  then show "length (drop i' d) = length (m @ d) mod 64"
    unfolding dm i'' using ij(2) by (simp add: minus_mult_div_eq_mod)
  have "64 * (length (m @ d) div 64) = length m + i'"
    unfolding dm i'' m using ij(1) by simp
  then show "drop i' d = drop (64 * (length (m @ d) div 64)) (m @ d)" by simp
qed

lemma sha1_update_large:
  assumes r: "sha1_repr ctx m" and d: "length d < 2 ^ 32 - 64" and large: "64 \<le> length m mod 64 + length d"
  shows "\<exists>ctx'. sha1_update ctx d = Some ctx' \<and> sha1_repr ctx' (m @ d)"
proof -
  let ?i = "64 - (drop_bit 3 (count_lo (length m)) AND 63)"
  have ui: "unat ?i = 64 - length m mod 64"
    using index_of_count [of "length m"] by (simp add: unat_sub_if_size)
  let ?buf = "overwrite (buffer ctx) (length m mod 64) (take (unat ?i) d)"
  have ule: "unat ?i \<le> length d" using large ui by simp
  have st: "state ctx = list_of_chain (fips_process fips_H0 m)" using r by (simp add: sha1_repr_def)
  obtain i' where tl: "transform_loop (list_of_chain (fips_block (fips_process fips_H0 m) ?buf)) d ?i =
      Some (list_of_chain (fips_process (fips_block (fips_process fips_H0 m) ?buf) (drop (unat ?i) d)), i')"
      and i': "unat i' = unat ?i + 64 * ((length d - unat ?i) div 64)"
    using transform_loop_fips [OF d ule] by blast
  have buf: "length (buffer ctx) = 64" "take (length m mod 64) (buffer ctx) = drop (64 * (length m div 64)) m"
    using r by (simp_all add: sha1_repr_def)
  note large = sha1_repr_large [OF buf ui ule refl i']
  have d': "length d < 2 ^ 32" using d by simp
  have "sha1_update ctx d = Some (ctx\<lparr>count := [count_lo (length (m @ d)), count_hi (length (m @ d))],
      state := list_of_chain (fips_process fips_H0 (m @ d)), buffer := overwrite ?buf 0 (drop (unat i') d)\<rparr>)"
    using assms(3) by (simp add: sha1_update_unfold [OF r d'] Let_def index_of_count sha1_transform_fips st tl large(2))
  moreover have lo: "length (drop (unat i') d) \<le> length ?buf"
    unfolding large(1) large(3) by simp
  then have "length (overwrite ?buf 0 (drop (unat i') d)) = length ?buf"
    by (intro length_overwrite) simp
  moreover have "take (length (drop (unat i') d)) (overwrite ?buf 0 (drop (unat i') d)) = drop (unat i') d"
    using lo by (rule take_overwrite_0)
  then have "take (length (m @ d) mod 64) (overwrite ?buf 0 (drop (unat i') d)) =
      drop (64 * (length (m @ d) div 64)) (m @ d)"
    using large(3,4) by argo
  ultimately show ?thesis using large(1) by (simp add: sha1_repr_def)
qed

lemma sha1_update_repr:
  assumes "sha1_repr ctx m" and "length d < 2 ^ 32 - 64"
  shows "\<exists>ctx'. sha1_update ctx d = Some ctx' \<and> sha1_repr ctx' (m @ d)"
  using sha1_update_small [OF assms(1)] sha1_update_large [OF assms] by (meson not_less)

section \<open>Padding and digest\<close>

lemma sha1_init_repr: "length (buffer ctx) = 64 \<Longrightarrow> sha1_repr (sha1_init ctx) []"
  by (simp add: sha1_repr_def sha1_init_def count_lo_def count_hi_def fips_process_short fips_H0_def)

lemma and_504: "(x :: u32) AND 504 = push_bit 3 (drop_bit 3 x AND 63)"
proof -
  have "(504 :: u32) = push_bit 3 (mask 6)" "(63 :: u32) = mask 6" by (simp_all add: mask_eq_exp_minus_1)
  then show ?thesis by (intro bit_word_eqI) (auto simp only: bit_simps o_apply le_add_diff_inverse)
qed

lemma pad_condition: "count_lo n AND 504 = 448 \<longleftrightarrow> n mod 64 = 56"
proof -
  let ?w = "drop_bit 3 (count_lo n) AND 63"
  have "unat (push_bit 3 ?w) = 8 * (n mod 64)"
    using index_of_count [of n] by (simp add: push_bit_eq_mult unat_word_ariths)
  then show ?thesis unfolding and_504 by (simp add: word_unat_eq_iff)
qed

definition pad_len :: "nat \<Rightarrow> nat" where
  "pad_len n = (120 - n mod 64) mod 64"

lemma pad_len_alt: "pad_len n = (if n mod 64 \<le> 56 then 56 - n mod 64 else 120 - n mod 64)"
proof (cases "n mod 64 \<le> 56")
  case True
  then have "120 - n mod 64 = 64 + (56 - n mod 64)" by simp
  then show ?thesis using True unfolding pad_len_def by (simp only: mod_add_self1) simp
next
  case False
  then show ?thesis unfolding pad_len_def by simp
qed

lemma pad_len_0: "pad_len n = 0 \<longleftrightarrow> n mod 64 = 56"
proof -
  have "n mod 64 < 64" by simp
  then show ?thesis by (auto simp: pad_len_alt)
qed

lemma pad_len_Suc: "n mod 64 \<noteq> 56 \<Longrightarrow> pad_len n = Suc (pad_len (Suc n))"
proof -
  assume ne: "n mod 64 \<noteq> 56"
  have "Suc n mod 64 = (if n mod 64 = 63 then 0 else Suc (n mod 64))" by (simp add: mod_Suc)
  moreover have "n mod 64 < 64" by simp
  ultimately show ?thesis using ne by (auto simp: pad_len_alt split: if_splits)
qed

lemma sha1_pad_repr:
  "sha1_repr ctx m \<Longrightarrow> \<exists>ctx'. sha1_pad ctx = Some ctx' \<and> sha1_repr ctx' (m @ replicate (pad_len (length m)) 0)"
proof (induction "pad_len (length m)" arbitrary: ctx m)
  case 0
  then have z: "pad_len (length m) = 0" by simp
  then have "count ctx ! 0 AND 504 = 448"
    using 0(2) by (simp add: sha1_repr_def pad_condition pad_len_0)
  then show ?case using 0(2) z by (subst sha1_pad.simps) simp
next
  case (Suc k)
  then have ne: "length m mod 64 \<noteq> 56" by (metis nat.simps(3) pad_len_0)
  then have k: "pad_len (length m) = Suc k" "k = pad_len (length (m @ [0]))"
    using Suc(2) pad_len_Suc [OF ne] by simp_all
  obtain ctx1 where u: "sha1_update ctx [0] = Some ctx1" "sha1_repr ctx1 (m @ [0])"
    using sha1_update_repr [OF Suc(3), of "[0]"] by auto
  obtain ctx2 where p: "sha1_pad ctx1 = Some ctx2"
      "sha1_repr ctx2 ((m @ [0]) @ replicate (pad_len (length (m @ [0]))) 0)"
    using Suc(1) [OF k(2) u(2)] by blast
  have "count ctx ! 0 AND 504 \<noteq> 448" using Suc(3) ne by (simp add: sha1_repr_def pad_condition)
  then have "sha1_pad ctx = Some ctx2" using u p(1) by (subst sha1_pad.simps) simp
  moreover have "(m @ [0]) @ replicate (pad_len (length (m @ [0]))) 0 = m @ replicate (pad_len (length m)) 0"
    using k by simp
  ultimately show ?case using p(2) by metis
qed

lemma be64_words:
  "map (\<lambda>i. ucast (drop_bit ((3 - (i AND 3)) * 8)
     ([of_nat n, of_nat (n div 2 ^ 32)] ! (if i \<ge> 4 then 0 else 1)) AND (255 :: u32)) :: u8) [0..<8] = be64 n"
proof -
  have u8: "[0..<8] = [0, 1, 2, 3, 4, 5, 6, 7]" by (simp add: upt_rec)
  have b0: "ucast ((of_nat n :: u32) AND 255) = (of_nat n :: u8)" for n
    using byte_of_nat_u32 [of 0 n] by simp
  show ?thesis
    unfolding be64_def u8 by (simp add: byte_of_nat_u32 b0 div_mult2_eq [symmetric])
qed

lemma finalcount_be64:
  "map (\<lambda>i. ucast (drop_bit ((3 - (i AND 3)) * 8)
     ([count_lo n, count_hi n] ! (if i \<ge> 4 then 0 else 1)) AND 255) :: u8) [0..<8] = be64 (8 * n)"
  unfolding count_lo_def count_hi_def by (rule be64_words)

lemma digest_be32:
  "map (\<lambda>i. ucast (drop_bit ((3 - (i AND 3)) * 8) (list_of_chain h ! drop_bit 2 i) AND 255)) [0..<20] =
     concat (map be32 (list_of_chain h))"
proof -
  have u20: "[0..<20] = [0, 1, 2, 3, 4, 5, 6, 7, 8, 9, 10, 11, 12, 13, 14, 15, 16, 17, 18, 19]"
    by (simp add: upt_rec)
  have b: "ucast (w AND 255) = (ucast w :: u8)" for w :: u32
  proof -
    have m: "(255 :: u32) = mask 8" by (simp add: mask_eq_exp_minus_1)
    show ?thesis unfolding m by (intro bit_word_eqI) (simp add: bit_simps)
  qed
  show ?thesis
    by (cases h) (simp add: u20 b be32_def)
qed

lemma fips_pad_alt: "fips_pad m = ((m @ [0x80]) @ replicate (pad_len (length (m @ [0x80]))) 0) @ be64 (8 * length m)"
proof -
  have "Suc n mod 64 = (if n mod 64 = 63 then 0 else Suc (n mod 64))" for n :: nat by (simp add: mod_Suc)
  moreover have "n mod 64 < 64" for n :: nat by simp
  ultimately have "(119 - n mod 64) mod 64 = pad_len (Suc n)" for n
    unfolding pad_len_def by (cases "n mod 64 = 63") auto
  then show ?thesis by (simp add: fips_pad_def)
qed

lemma sha1_final_repr:
  assumes r: "sha1_repr ctx m"
  shows "\<exists>ctx'. sha1_final ctx = Some (ctx', fips_sha1 m)"
proof -
  obtain c1 where c1: "sha1_update ctx [0x80] = Some c1" "sha1_repr c1 (m @ [0x80])"
    using sha1_update_repr [OF r, of "[0x80]"] by auto
  obtain c2 where c2: "sha1_pad c1 = Some c2" "sha1_repr c2 ((m @ [0x80]) @ replicate (pad_len (length (m @ [0x80]))) 0)"
    using sha1_pad_repr [OF c1(2)] by blast
  have "length (be64 (8 * length m)) < 2 ^ 32 - 64" by (simp add: be64_def)
  from sha1_update_repr [OF c2(2) this] obtain c3 where c3: "sha1_update c2 (be64 (8 * length m)) = Some c3"
      "sha1_repr c3 (fips_pad m)"
    unfolding fips_pad_alt by blast
  have n: "count ctx = [count_lo (length m), count_hi (length m)]" using r by (simp add: sha1_repr_def)
  have st: "state c3 = list_of_chain (fips_process fips_H0 (fips_pad m))" using c3(2) by (simp add: sha1_repr_def)
  show ?thesis
    unfolding sha1_final_def n finalcount_be64 Let_def
    by (simp add: c1 c2 c3 st digest_be32 fips_sha1_def)
qed

section \<open>Properties\<close>

text \<open>
  the block transform with its circular schedule and rotating variables computes the
  compression function of FIPS 180-4 on the block read as sixteen big-endian words.
\<close>

theorem sha1_transform_compresses:
  "sha1_transform st buf = list_of_chain (fips_block (chain_of st) buf)"
  by (rule sha1_transform_fips)

text \<open>
  C40: hashing a whole message. Initialising a context, feeding it one message of fewer than
  \<open>2 ^ 32 - 64\<close> bytes and finishing it terminates and yields the SHA-1 digest of FIPS 180-4,
  as the file-name derivation of the injected library relies on.
\<close>

theorem sha1_digest_correct:
  assumes "length (buffer ctx) = 64" and "length msg < 2 ^ 32 - 64"
  shows "\<exists>ctx'. Option.bind (sha1_update (sha1_init ctx) msg) sha1_final = Some (ctx', fips_sha1 msg)"
proof -
  obtain c where "sha1_update (sha1_init ctx) msg = Some c" "sha1_repr c ([] @ msg)"
    using sha1_update_repr [OF sha1_init_repr [OF assms(1)] assms(2)] by blast
  then show ?thesis using sha1_final_repr [of c msg] by simp
qed

theorem sha1_digest_correct_witness:
  "\<exists>ctx'. Option.bind (sha1_update (sha1_init \<lparr>state = [], count = [], buffer = replicate 64 0\<rparr>)
     [0x61, 0x62, 0x63]) sha1_final = Some (ctx', fips_sha1 [0x61, 0x62, 0x63])"
  using sha1_digest_correct [of "\<lparr>state = [], count = [], buffer = replicate 64 0\<rparr>" "[0x61, 0x62, 0x63]"]
  by simp

text \<open>
  streaming. However a message is cut into pieces (each of fewer than \<open>2 ^ 32 - 64\<close>
  bytes), feeding the pieces one after the other gives the digest of their concatenation.
\<close>

theorem sha1_streaming:
  assumes "length (buffer ctx) = 64" and "\<forall>d \<in> set ds. length d < 2 ^ 32 - 64"
  shows "\<exists>ctx'. Option.bind (foldl (\<lambda>c d. Option.bind c (\<lambda>c. sha1_update c d)) (Some (sha1_init ctx)) ds)
     sha1_final = Some (ctx', fips_sha1 (concat ds))"
proof -
  have "\<exists>c. foldl (\<lambda>c d. Option.bind c (\<lambda>c. sha1_update c d)) (Some (sha1_init ctx)) ds = Some c \<and>
     sha1_repr c (concat ds)"
    using assms(2)
  proof (induction ds rule: rev_induct)
    case Nil
    then show ?case using sha1_init_repr [OF assms(1)] by simp
  next
    case (snoc d ds)
    then obtain c where "foldl (\<lambda>c d. Option.bind c (\<lambda>c. sha1_update c d)) (Some (sha1_init ctx)) ds = Some c"
        "sha1_repr c (concat ds)" by auto
    then show ?case using sha1_update_repr [of c "concat ds" d] snoc.prems by auto
  qed
  then show ?thesis using sha1_final_repr by fastforce
qed

theorem sha1_streaming_witness:
  "\<exists>ctx'. Option.bind (Option.bind (sha1_update (sha1_init \<lparr>state = [], count = [], buffer = replicate 64 0\<rparr>) [0x61])
     (\<lambda>c. sha1_update c [0x62, 0x63])) sha1_final = Some (ctx', fips_sha1 [0x61, 0x62, 0x63])"
  using sha1_streaming [of "\<lparr>state = [], count = [], buffer = replicate 64 0\<rparr>" "[[0x61], [0x62, 0x63]]"]
  by simp

end
