(* ===== verification/Inject.thy ===== *)
theory Inject
  imports Aofguard_System Sha1
begin

text \<open>
  The interposed file operations of \<^verbatim>\<open>wal_accel/src/inject.c\<close>: the table of guarded descriptors, which grows
  on demand, and the replacements of \<open>open\<close>, \<open>write\<close>, \<open>read\<close>, \<open>fsync\<close>, \<open>fdatasync\<close>, \<open>close\<close>, \<open>unlink\<close> and
  \<open>rename\<close>. They call the guard of theory \<open>Aofguard\<close> and SHA-1; the results of system and library calls
  are arguments, and the calls that change something outside the process are returned in order.
\<close>

section \<open>State\<close>

record filedes =
  name :: "string option"
  aofguard_of :: "aofguard option"

record inject =
  fd_table :: "filedes list"
  fd_table_capacity :: nat
  nvm_size :: nat
  disable_sync :: bool
  init_done :: bool

definition FD_TABLE_INIT_CAPACITY :: nat where
  "FD_TABLE_INIT_CAPACITY = 16"

definition NVM_SIZE_DEFAULT :: nat where
  "NVM_SIZE_DEFAULT = 64 * 2 ^ 20"

definition no_filedes :: filedes where
  "no_filedes = \<lparr>name = None, aofguard_of = None\<rparr>"

text \<open>Effects of the guard of a descriptor, and system calls on files.\<close>

datatype action =
  Guard nat "event list"
| Deinit nat
| Sys_write int bytes
| Sys_fsync int
| Sys_fdatasync int
| Sys_close int
| Unlink_nvm string
| Rename_nvm string string

text \<open>
  What a replaced function returns, the new state and its actions; \<open>None\<close> is a failed assertion or an
  access outside the table.
\<close>

type_synonym result = "(int \<times> inject \<times> action list) option"

text \<open>
  \<open>init\<close>: \<open>dis_sync\<close> and \<open>nvm_size_mb\<close> are the values of \<open>AOFGUARD_DISABLE_SYNC\<close> and \<open>AOFGUARD_NVM_SIZE_MB\<close>,
  where \<open>Some None\<close> is a value that \<open>sscanf\<close> does not read as a number.
\<close>

definition init :: "bool \<Rightarrow> string option \<Rightarrow> nat option option \<Rightarrow> bool \<Rightarrow> bool \<Rightarrow> inject \<Rightarrow> bool \<times> inject" where
  "init dir_ok dis_sync nvm_size_mb regcomp_ok calloc_ok st =
    (let st = st\<lparr>disable_sync := (dis_sync = Some ''yes'')\<rparr> in
     if \<not> dir_ok then (False, st)
     else case nvm_size_mb of
       Some None \<Rightarrow> (False, st)
     | _ \<Rightarrow>
        (let st = st\<lparr>nvm_size := (case nvm_size_mb of Some (Some mb) \<Rightarrow> size_mul mb (2 ^ 20) | _ \<Rightarrow> NVM_SIZE_DEFAULT)\<rparr> in
         if \<not> regcomp_ok then (False, st)
         else
           (let st = st\<lparr>fd_table_capacity := FD_TABLE_INIT_CAPACITY\<rparr> in
            if \<not> calloc_ok then (False, st\<lparr>fd_table := []\<rparr>)
            else (True, st\<lparr>fd_table := replicate FD_TABLE_INIT_CAPACITY no_filedes\<rparr>))))"

text \<open>\<open>constructor\<close>: \<open>None\<close> is \<open>exit (1)\<close>.\<close>

definition constructor :: "bool \<Rightarrow> string option \<Rightarrow> nat option option \<Rightarrow> bool \<Rightarrow> bool \<Rightarrow> inject \<Rightarrow> inject option" where
  "constructor dir_ok dis_sync nvm_size_mb regcomp_ok calloc_ok st =
    (case init dir_ok dis_sync nvm_size_mb regcomp_ok calloc_ok st of
       (ok, st) \<Rightarrow> if ok then Some (st\<lparr>init_done := True\<rparr>) else None)"

section \<open>Names of NVM files\<close>

definition hex_digit :: "nat \<Rightarrow> char" where
  "hex_digit n = ''0123456789abcdef'' ! n"

text \<open>\<open>sprintf ("%02x")\<close> of a byte.\<close>

definition hex_byte :: "u8 \<Rightarrow> string" where
  "hex_byte b = [hex_digit (unat b div 16), hex_digit (unat b mod 16)]"

definition string_bytes :: "string \<Rightarrow> bytes" where
  "string_bytes s = map of_char s"

definition get_nvm_file_name :: "sha1_context \<Rightarrow> string \<Rightarrow> string option" where
  "get_nvm_file_name sha1 file =
    Option.bind (sha1_update (sha1_init sha1) (string_bytes file)) (\<lambda>sha1.
    map_option (\<lambda>(_, digest). concat (map hex_byte digest) @ ''.ag'') (sha1_final sha1))"

section \<open>Opening\<close>

partial_function (option) grow_capacity :: "nat \<Rightarrow> nat \<Rightarrow> nat option" where
  "grow_capacity new_capacity fd =
    (if new_capacity \<le> fd then grow_capacity (size_mul new_capacity 2) fd else Some new_capacity)"

declare grow_capacity.simps [code]

text \<open>
  The results of the calls of \<open>handle_open\<close>: \<open>seen\<close> gives the guarded file with the NVM file of a name,
  \<open>sha1_garbage\<close> and \<open>garbage\<close> are the contents of uninitialised memory.
\<close>

record open_env =
  stat_ok :: bool
  is_regular :: bool
  matches :: "string \<Rightarrow> bool"
  malloc_ok :: bool
  init_results :: init_env
  sha1_garbage :: sha1_context
  seen :: "string \<Rightarrow> world"
  garbage :: aofguard
  realloc_ok :: bool
  strdup_ok :: bool
  deinit_results :: "bool \<times> bool \<times> bool \<times> bool"

definition run_deinit :: "bool \<times> bool \<times> bool \<times> bool \<Rightarrow> aofguard \<Rightarrow> status" where
  "run_deinit res ag = (case res of (a, b, c, d) \<Rightarrow> fst (aofguard_deinit a b c d ag))"

text \<open>The first part of \<open>handle_open\<close>: the guard of the new descriptor.\<close>

definition open_guard :: "open_env \<Rightarrow> string \<Rightarrow> int \<Rightarrow> inject \<Rightarrow> (status \<times> aofguard option \<times> action list) option" where
  "open_guard env file fd st =
    (if matches env file then
       if \<not> malloc_ok env then Some (Ret0, None, [])
       else map_option (\<lambda>nvm_file.
         (case aofguard_init (init_results env) fd (nvm_size st) False (seen env nvm_file) (garbage env) of
            (r, ag, es) \<Rightarrow> (r, Some ag, [Guard (nat fd) es]))) (get_nvm_file_name (sha1_garbage env) file)
     else Some (Ret1, None, []))"

text \<open>
  The second part: room in the table. A failed \<open>realloc\<close> leaves \<open>fd_table\<close> null and the capacity as it
  was; growing the table again after that would leave uninitialised entries, and is \<open>None\<close>.
\<close>

definition open_table :: "bool \<Rightarrow> nat \<Rightarrow> inject \<Rightarrow> (bool \<times> inject) option" where
  "open_table ok fd st =
    (if fd_table_capacity st \<le> fd then
       if length (fd_table st) \<noteq> fd_table_capacity st then None
       else Option.bind (grow_capacity (fd_table_capacity st) fd) (\<lambda>new_capacity.
         if \<not> ok then Some (False, st\<lparr>fd_table := []\<rparr>)
         else Some (True, st\<lparr>fd_table := fd_table st @ replicate (new_capacity - fd_table_capacity st) no_filedes,
                             fd_table_capacity := new_capacity\<rparr>))
     else Some (True, st))"

text \<open>The third part: the entry of the descriptor.\<close>

definition open_entry :: "open_env \<Rightarrow> string \<Rightarrow> nat \<Rightarrow> aofguard option \<Rightarrow> inject \<Rightarrow> result" where
  "open_entry env file fd ag st =
    (if \<not> fd < fd_table_capacity st \<or> \<not> fd < length (fd_table st) then None
     else if \<not> strdup_ok env then
       Some (0, st\<lparr>fd_table := (fd_table st)[fd := (fd_table st ! fd)\<lparr>name := None\<rparr>]\<rparr>, [])
     else
       (let st = st\<lparr>fd_table := (fd_table st)[fd := (fd_table st ! fd)\<lparr>name := Some file\<rparr>]\<rparr> in
        case aofguard_of (fd_table st ! fd) of
          None \<Rightarrow> Some (1, st\<lparr>fd_table := (fd_table st)[fd := (fd_table st ! fd)\<lparr>aofguard_of := ag\<rparr>]\<rparr>, [])
        | Some old \<Rightarrow>
           (case run_deinit (deinit_results env) old of
              Ret1 \<Rightarrow> Some (1, st\<lparr>fd_table := (fd_table st)[fd := (fd_table st ! fd)\<lparr>aofguard_of := ag\<rparr>]\<rparr>, [Deinit fd])
            | Ret0 \<Rightarrow> Some (0, st, [Deinit fd])
            | _ \<Rightarrow> None)))"

definition handle_open :: "open_env \<Rightarrow> string \<Rightarrow> int \<Rightarrow> inject \<Rightarrow> result" where
  "handle_open env file fd st =
    (if fd < 0 \<or> \<not> init_done st then Some (1, st, [])
     else if \<not> stat_ok env then Some (0, st, [])
     else if \<not> is_regular env then Some (1, st, [])
     else Option.bind (open_guard env file fd st) (\<lambda>(r, ag, acts).
       (case r of
          Ret1 \<Rightarrow>
            Option.bind (open_table (realloc_ok env) (nat fd) st) (\<lambda>(ok, st).
              if \<not> ok then Some (0, st, acts)
              else map_option (\<lambda>(ret, st, acts'). (ret, st, acts @ acts')) (open_entry env file (nat fd) ag st))
        | Ret0 \<Rightarrow> Some (0, st, acts)
        | _ \<Rightarrow> None)))"

text \<open>The common end of \<open>open\<close>, \<open>open64\<close>, \<open>openat\<close> and \<open>openat64\<close>; \<open>fd\<close> is the result of the system call.\<close>

definition open_result :: "open_env \<Rightarrow> string \<Rightarrow> int \<Rightarrow> inject \<Rightarrow> result" where
  "open_result env file fd st =
    map_option (\<lambda>(ok, st, acts).
      if ok \<noteq> 0 then (fd, st, acts) else (-1, st, acts @ (if 0 \<le> fd then [Sys_close fd] else [])))
     (handle_open env file fd st)"

definition inject_open :: "(string \<Rightarrow> int \<Rightarrow> int) \<Rightarrow> open_env \<Rightarrow> string \<Rightarrow> int \<Rightarrow> inject \<Rightarrow> result" where
  "inject_open syscall_open env file flags st = open_result env file (syscall_open file flags) st"

definition inject_open64 :: "(string \<Rightarrow> int \<Rightarrow> int) \<Rightarrow> open_env \<Rightarrow> string \<Rightarrow> int \<Rightarrow> inject \<Rightarrow> result" where
  "inject_open64 syscall_open env file flags st = open_result env file (syscall_open file flags) st"

definition inject_openat :: "(int \<Rightarrow> string \<Rightarrow> int \<Rightarrow> int) \<Rightarrow> open_env \<Rightarrow> int \<Rightarrow> string \<Rightarrow> int \<Rightarrow> inject \<Rightarrow> result" where
  "inject_openat syscall_openat env dirfd file flags st = open_result env file (syscall_openat dirfd file flags) st"

definition inject_openat64 :: "(int \<Rightarrow> string \<Rightarrow> int \<Rightarrow> int) \<Rightarrow> open_env \<Rightarrow> int \<Rightarrow> string \<Rightarrow> int \<Rightarrow> inject \<Rightarrow> result" where
  "inject_openat64 syscall_openat env dirfd file flags st = open_result env file (syscall_openat dirfd file flags) st"

section \<open>Reading, writing and closing\<close>

text \<open>\<open>fd_table[fd].aofguard\<close> behind the range check; the outer \<open>None\<close> is an access outside the table.\<close>

definition guard_at :: "inject \<Rightarrow> int \<Rightarrow> aofguard option option" where
  "guard_at st fd =
    (if 0 \<le> fd \<and> nat fd < fd_table_capacity st then
       if nat fd < length (fd_table st) then Some (aofguard_of (fd_table st ! nat fd)) else None
     else Some None)"

definition set_guard :: "inject \<Rightarrow> nat \<Rightarrow> aofguard option \<Rightarrow> inject" where
  "set_guard st fd ag = st\<lparr>fd_table := (fd_table st)[fd := (fd_table st ! fd)\<lparr>aofguard_of := ag\<rparr>]\<rparr>"

text \<open>\<open>write\<close>: a null pointer is \<open>None\<close>, \<open>sys_ret\<close> the result of the system call.\<close>

definition inject_write :: "write_env \<Rightarrow> int \<Rightarrow> int \<Rightarrow> bytes option \<Rightarrow> inject \<Rightarrow> result" where
  "inject_write env sys_ret fd data st =
    (case data of
       None \<Rightarrow> Some (0, st, [])
     | Some d \<Rightarrow>
        if d = [] then Some (0, st, [])
        else Option.bind (guard_at st fd) (\<lambda>g.
          case g of
            None \<Rightarrow> Some (sys_ret, st, [Sys_write fd d])
          | Some ag \<Rightarrow>
             (case aofguard_write env d ag of (r, ag', es) \<Rightarrow>
                (case r of
                   Ret1 \<Rightarrow> Some (int (length d), set_guard st (nat fd) (Some ag'), [Guard (nat fd) es])
                 | Ret0 \<Rightarrow> Some (-1, set_guard st (nat fd) (Some ag'), [Guard (nat fd) es])
                 | _ \<Rightarrow> None))))"

text \<open>\<open>read\<close> returns 0 for the error result of the system call.\<close>

definition inject_read :: "int \<Rightarrow> int" where
  "inject_read x = (if x = -1 then 0 else x)"

definition inject_fsync :: "int \<Rightarrow> int \<Rightarrow> inject \<Rightarrow> result" where
  "inject_fsync sys_ret fd st =
    (if disable_sync st then
       Option.bind (guard_at st fd) (\<lambda>g. if g \<noteq> None then Some (0, st, []) else Some (sys_ret, st, [Sys_fsync fd]))
     else Some (sys_ret, st, [Sys_fsync fd]))"

definition inject_fdatasync :: "int \<Rightarrow> int \<Rightarrow> inject \<Rightarrow> result" where
  "inject_fdatasync sys_ret fd st =
    (if disable_sync st then
       Option.bind (guard_at st fd) (\<lambda>g. if g \<noteq> None then Some (0, st, []) else Some (sys_ret, st, [Sys_fdatasync fd]))
     else Some (sys_ret, st, [Sys_fdatasync fd]))"

definition inject_close :: "bool \<times> bool \<times> bool \<times> bool \<Rightarrow> int \<Rightarrow> int \<Rightarrow> inject \<Rightarrow> result" where
  "inject_close deinit sys_ret fd st =
    (if 0 \<le> fd \<and> nat fd < fd_table_capacity st then
       if nat fd < length (fd_table st) then
         (let st = st\<lparr>fd_table := (fd_table st)[nat fd := (fd_table st ! nat fd)\<lparr>name := None\<rparr>]\<rparr> in
          case aofguard_of (fd_table st ! nat fd) of
            None \<Rightarrow> Some (sys_ret, st, [Sys_close fd])
          | Some ag \<Rightarrow>
             (case run_deinit deinit ag of
                Ret1 \<Rightarrow> Some (sys_ret, set_guard st (nat fd) None, [Deinit (nat fd), Sys_close fd])
              | Ret0 \<Rightarrow> Some (-1, st, [Deinit (nat fd)])
              | _ \<Rightarrow> None))
       else None
     else Some (sys_ret, st, [Sys_close fd]))"

section \<open>Unlinking and renaming\<close>

definition inject_unlink ::
    "(string \<Rightarrow> bool) \<Rightarrow> sha1_context \<Rightarrow> bool \<Rightarrow> (string \<Rightarrow> bool) \<Rightarrow> bool \<Rightarrow> string \<Rightarrow> inject \<Rightarrow> result" where
  "inject_unlink match sha1 unlink_ok access_ok unlinkat_ok file st =
    (if unlink_ok then
       if match file then
         Option.bind (get_nvm_file_name sha1 file) (\<lambda>nvm_file.
           if access_ok nvm_file then
             if unlinkat_ok then Some (0, st, [Unlink_nvm nvm_file]) else Some (-1, st, [])
           else Some (0, st, []))
       else Some (0, st, [])
     else Some (-1, st, []))"

text \<open>A loop over the table whose body may return from the function (\<open>Some ret\<close>) or continue (\<open>None\<close>).\<close>

primrec table_loop ::
    "(nat \<Rightarrow> inject \<Rightarrow> (int option \<times> inject \<times> action list) option) \<Rightarrow> nat list \<Rightarrow> inject \<Rightarrow>
     (int option \<times> inject \<times> action list) option" where
  "table_loop body [] st = Some (None, st, [])"
| "table_loop body (i # is) st =
    Option.bind (body i st) (\<lambda>(ret, st, acts).
      case ret of
        Some r \<Rightarrow> Some (Some r, st, acts)
      | None \<Rightarrow> map_option (\<lambda>(ret, st, acts'). (ret, st, acts @ acts')) (table_loop body is st))"

text \<open>The results of the calls \<open>rename\<close> makes; those made per descriptor depend on it.\<close>

record rename_env =
  sys_rename_ok :: bool
  pattern :: "string \<Rightarrow> bool"
  rename_sha1 :: sha1_context
  nvm_exists :: "string \<Rightarrow> bool"
  renameat_ok :: bool
  unlinkat_ok :: bool
  guard_malloc_ok :: "nat \<Rightarrow> bool"
  guard_init :: "nat \<Rightarrow> init_env"
  guard_world :: "nat \<Rightarrow> string \<Rightarrow> world"
  guard_garbage :: "nat \<Rightarrow> aofguard"
  guard_deinit :: "nat \<Rightarrow> bool \<times> bool \<times> bool \<times> bool"
  name_strdup_ok :: "nat \<Rightarrow> bool"

definition is_named :: "string \<Rightarrow> nat \<Rightarrow> inject \<Rightarrow> bool" where
  "is_named path i st \<longleftrightarrow> name (fd_table st ! i) = Some path"

definition rename_start :: "rename_env \<Rightarrow> string \<Rightarrow> string \<Rightarrow> nat \<Rightarrow> inject \<Rightarrow> (int option \<times> inject \<times> action list) option" where
  "rename_start env oldpath nvm_file_new i st =
    (if \<not> i < length (fd_table st) then None
     else if is_named oldpath i st then
       if aofguard_of (fd_table st ! i) \<noteq> None then None
       else if \<not> guard_malloc_ok env i then Some (Some 0, set_guard st i None, [])
       else (case aofguard_init (guard_init env i) (int i) (nvm_size st) True (guard_world env i nvm_file_new) (guard_garbage env i) of
               (r, ag, es) \<Rightarrow>
                 (case r of
                    Ret1 \<Rightarrow> Some (None, set_guard st i (Some ag), [Guard i es])
                  | Ret0 \<Rightarrow> Some (Some 0, set_guard st i (Some ag), [Guard i es])
                  | _ \<Rightarrow> None))
     else Some (None, st, []))"

definition rename_stop :: "rename_env \<Rightarrow> string \<Rightarrow> nat \<Rightarrow> inject \<Rightarrow> (int option \<times> inject \<times> action list) option" where
  "rename_stop env oldpath i st =
    (if \<not> i < length (fd_table st) then None
     else if is_named oldpath i st then
       (case aofguard_of (fd_table st ! i) of
          None \<Rightarrow> None
        | Some ag \<Rightarrow>
           (case run_deinit (guard_deinit env i) ag of
              Ret1 \<Rightarrow> Some (None, set_guard st i None, [Deinit i])
            | Ret0 \<Rightarrow> Some (Some (-1), st, [Deinit i])
            | _ \<Rightarrow> None))
     else Some (None, st, []))"

definition rename_entry :: "rename_env \<Rightarrow> string \<Rightarrow> string \<Rightarrow> nat \<Rightarrow> inject \<Rightarrow> (int option \<times> inject \<times> action list) option" where
  "rename_entry env oldpath newpath i st =
    (if \<not> i < length (fd_table st) then None
     else if is_named oldpath i st then
       if name_strdup_ok env i
       then Some (None, st\<lparr>fd_table := (fd_table st)[i := (fd_table st ! i)\<lparr>name := Some newpath\<rparr>]\<rparr>, [])
       else Some (Some (-1), st\<lparr>fd_table := (fd_table st)[i := (fd_table st ! i)\<lparr>name := None\<rparr>]\<rparr>, [])
     else Some (None, st, []))"

text \<open>The part of \<open>rename\<close> that moves, starts or drops the NVM file.\<close>

definition rename_nvm :: "rename_env \<Rightarrow> string \<Rightarrow> string \<Rightarrow> inject \<Rightarrow> (int option \<times> inject \<times> action list) option" where
  "rename_nvm env oldpath newpath st =
    (let all = [0..<fd_table_capacity st] in
     Option.bind (if pattern env oldpath then get_nvm_file_name (rename_sha1 env) oldpath else Some []) (\<lambda>nvm_file_old.
     Option.bind (if pattern env newpath then get_nvm_file_name (rename_sha1 env) newpath else Some []) (\<lambda>nvm_file_new.
     if pattern env newpath then
       if pattern env oldpath then
         if nvm_exists env nvm_file_old then
           if renameat_ok env then Some (None, st, [Rename_nvm nvm_file_old nvm_file_new]) else Some (Some (-1), st, [])
         else if nvm_exists env nvm_file_new then
           if unlinkat_ok env then Some (None, st, [Unlink_nvm nvm_file_new]) else Some (Some (-1), st, [])
         else Some (None, st, [])
       else table_loop (rename_start env oldpath nvm_file_new) all st
     else if pattern env oldpath then
       if nvm_exists env nvm_file_old then
         if unlinkat_ok env then
           map_option (\<lambda>(ret, st, acts). (ret, st, Unlink_nvm nvm_file_old # acts)) (table_loop (rename_stop env oldpath) all st)
         else Some (Some (-1), st, [])
       else Some (None, st, [])
     else Some (None, st, []))))"

definition inject_rename :: "rename_env \<Rightarrow> string \<Rightarrow> string \<Rightarrow> inject \<Rightarrow> result" where
  "inject_rename env oldpath newpath st =
    (if sys_rename_ok env then
       Option.bind (rename_nvm env oldpath newpath st) (\<lambda>(ret, st, acts).
         case ret of
           Some r \<Rightarrow> Some (r, st, acts)
         | None \<Rightarrow>
            map_option (\<lambda>(ret, st, acts'). (case ret of None \<Rightarrow> 0 | Some r \<Rightarrow> r, st, acts @ acts'))
              (table_loop (rename_entry env oldpath newpath) [0..<fd_table_capacity st] st))
     else Some (-1, st, []))"

end
