(* ===== verification/Inject_Table.thy ===== *)
theory Inject_Table
  imports Inject
begin

text \<open>
  Correctness of the interposed file operations: the names of NVM files, the descriptor table and its
  growth, opening and closing, and what renaming does to names and guards.
\<close>

section \<open>Names\<close>

lemma get_nvm_file_name_sha1:
  assumes "length (buffer sha1) = 64" "length file < 2 ^ 32 - 64"
  shows "get_nvm_file_name sha1 file = Some (concat (map hex_byte (fips_sha1 (string_bytes file))) @ ''.ag'')"
proof -
  have l: "length (string_bytes file) < 2 ^ 32 - 64" using assms(2) by (simp add: string_bytes_def)
  obtain c where c: "sha1_update (sha1_init sha1) (string_bytes file) = Some c" "sha1_repr c ([] @ string_bytes file)"
    using sha1_update_repr [OF sha1_init_repr [OF assms(1)] l] by blast
  then show ?thesis using sha1_final_repr [of c "string_bytes file"] by (auto simp: get_nvm_file_name_def)
qed

lemma length_fips_sha1: "length (fips_sha1 m) = 20"
proof -
  obtain a b c d e where "fips_process fips_H0 (fips_pad m) = (a, b, c, d, e)" by (cases "fips_process fips_H0 (fips_pad m)") auto
  then show ?thesis by (simp add: fips_sha1_def be32_def)
qed

lemma hex_digit_inject: "i < 16 \<Longrightarrow> j < 16 \<Longrightarrow> hex_digit i = hex_digit j \<longleftrightarrow> i = j"
proof -
  have "distinct ''0123456789abcdef''" by simp
  moreover assume "i < 16" "j < 16"
  ultimately show ?thesis unfolding hex_digit_def by (subst nth_eq_iff_index_eq) simp_all
qed

lemma hex_byte_inject: "hex_byte a = hex_byte b \<longleftrightarrow> a = b"
proof
  assume "hex_byte a = hex_byte b"
  moreover have "unat x div 16 < 16" "unat x mod 16 < 16" for x :: u8
  proof -
    have "unat x < 256" using unsigned_less [of x] by simp
    then show "unat x div 16 < 16" "unat x mod 16 < 16" by (simp_all add: less_mult_imp_div_less)
  qed
  ultimately have "unat a div 16 = unat b div 16" "unat a mod 16 = unat b mod 16"
    by (simp_all add: hex_byte_def hex_digit_inject)
  then show "a = b" by (metis div_mult_mod_eq word_unat_eq_iff)
qed simp

lemma concat_hex_inject: "length xs = length ys \<Longrightarrow> concat (map hex_byte xs) = concat (map hex_byte ys) \<longleftrightarrow> xs = ys"
proof (induction xs ys rule: list_induct2)
  case (Cons x xs y ys)
  have "length (hex_byte z) = 2" for z by (simp add: hex_byte_def)
  then show ?case using Cons by (simp add: append_eq_append_conv hex_byte_inject)
qed simp

section \<open>The descriptor table\<close>

definition inject_ok :: "inject \<Rightarrow> bool" where
  "inject_ok st \<longleftrightarrow> length (fd_table st) = fd_table_capacity st \<and> 0 < fd_table_capacity st \<and> fd_table_capacity st \<le> 2 ^ 32"

lemma grow_capacity_returns:
  assumes "0 < cap" "cap \<le> 2 ^ 32" "fd < 2 ^ 31"
  shows "\<exists>k. grow_capacity cap fd = Some (cap * 2 ^ k) \<and> fd < cap * 2 ^ k \<and> (k = 0 \<or> cap * 2 ^ k \<le> 2 * fd)"
  using assms
proof (induction "fd - cap" arbitrary: cap rule: less_induct)
  case less
  show ?case
  proof (cases "cap \<le> fd")
    case True
    have "size_mul cap 2 = cap * 2" using True less.prems by (intro size_mul_eq) simp
    then have step: "grow_capacity cap fd = grow_capacity (cap * 2) fd" using True by (subst grow_capacity.simps) simp
    show ?thesis
    proof (cases "cap * 2 \<le> fd")
      case True
      then obtain k where "grow_capacity (cap * 2) fd = Some (cap * 2 * 2 ^ k)" "fd < cap * 2 * 2 ^ k" "k = 0 \<or> cap * 2 * 2 ^ k \<le> 2 * fd"
      proof -
        have "fd - cap * 2 < fd - cap" using True less.prems(1) by linarith
        then show ?thesis using less.hyps [of "cap * 2"] less.prems True that by auto
      qed
      then show ?thesis using step True by (intro exI [of _ "Suc k"]) (auto simp: ac_simps)
    next
      case False
      then have "grow_capacity (cap * 2) fd = Some (cap * 2)" by (subst grow_capacity.simps) simp
      then show ?thesis using step False True by (intro exI [of _ 1]) simp
    qed
  next
    case False
    then show ?thesis by (subst grow_capacity.simps) (intro exI [of _ 0], simp)
  qed
qed

lemma grow_capacity_zero: "grow_capacity 0 fd = None"
proof -
  have "cap \<noteq> 0" if "grow_capacity cap fd = Some y" for cap y
  proof (rule grow_capacity.raw_induct [of "\<lambda>cap _ _. cap \<noteq> 0", OF _ that])
    fix f :: "nat \<Rightarrow> nat \<Rightarrow> nat option" and c fd y
    assume IH: "\<And>a b y. f a b = Some y \<Longrightarrow> a \<noteq> 0"
      and step: "(if c \<le> fd then f (size_mul c 2) fd else Some c) = Some y"
    show "c \<noteq> 0" using IH [of 0 fd y] step by (cases "c = 0") (simp_all add: size_mul_def)
  qed
  then show ?thesis by (metis not_Some_eq)
qed

lemma open_table_ok:
  assumes "inject_ok st" "fd < 2 ^ 31"
  shows "\<exists>st'. open_table True fd st = Some (True, st') \<and> inject_ok st' \<and> fd < fd_table_capacity st' \<and>
    fd_table st' = fd_table st @ replicate (fd_table_capacity st' - fd_table_capacity st) no_filedes \<and>
    nvm_size st' = nvm_size st"
proof (cases "fd_table_capacity st \<le> fd")
  case True
  have c: "0 < fd_table_capacity st" "fd_table_capacity st \<le> 2 ^ 32" using assms by (auto simp: inject_ok_def)
  obtain k where k: "grow_capacity (fd_table_capacity st) fd = Some (fd_table_capacity st * 2 ^ k)"
    "fd < fd_table_capacity st * 2 ^ k" "k = 0 \<or> fd_table_capacity st * 2 ^ k \<le> 2 * fd"
    using grow_capacity_returns [OF c assms(2)] by blast
  have "fd_table_capacity st * 2 ^ k \<le> 2 ^ 32" "fd_table_capacity st \<le> fd_table_capacity st * 2 ^ k"
    using k c(2) assms(2) True by auto
  then show ?thesis using True k assms by (auto simp: open_table_def inject_ok_def)
next
  case False
  then show ?thesis using assms by (simp add: open_table_def inject_ok_def)
qed

text \<open>Opening: what a successful \<open>handle_open\<close> does to the table.\<close>

lemma filedes_updates [simp]:
  "(d :: filedes)\<lparr>name := a, aofguard_of := b\<rparr> = \<lparr>name = a, aofguard_of = b\<rparr>"
  "aofguard_of (d :: filedes) = None \<Longrightarrow> d\<lparr>name := a\<rparr> = \<lparr>name = a, aofguard_of = None\<rparr>"
  by (cases d; simp)+

lemma open_entry_ok:
  assumes "inject_ok st" "fd < fd_table_capacity st" "open_entry env file fd ag st = Some (1, st', acts)"
  shows "fd_table st' = (fd_table st)[fd := \<lparr>name = Some file, aofguard_of = ag\<rparr>] \<and>
    fd_table_capacity st' = fd_table_capacity st \<and> nvm_size st' = nvm_size st \<and> inject_ok st'"
  using assms by (auto simp: open_entry_def inject_ok_def Let_def split: if_splits option.splits status.splits)

lemma open_guard_some:
  "open_guard env file fd st = Some (Ret1, ag, acts) \<Longrightarrow> ag \<noteq> None \<longleftrightarrow> matches env file"
  by (auto simp: open_guard_def case_prod_unfold split: if_splits)

lemma handle_open_ok:
  assumes ok: "inject_ok st" and fd: "0 \<le> fd" "nat fd < 2 ^ 31" and "init_done st" "is_regular env" "realloc_ok env"
    and run: "handle_open env file fd st = Some (1, st', acts)"
  shows "inject_ok st' \<and> nat fd < fd_table_capacity st' \<and>
    (\<exists>ag. (ag \<noteq> None \<longleftrightarrow> matches env file) \<and>
      fd_table st' = (fd_table st @ replicate (fd_table_capacity st' - fd_table_capacity st) no_filedes)
        [nat fd := \<lparr>name = Some file, aofguard_of = ag\<rparr>])"
proof -
  obtain st1 where st1: "open_table True (nat fd) st = Some (True, st1)" "inject_ok st1" "nat fd < fd_table_capacity st1"
    "fd_table st1 = fd_table st @ replicate (fd_table_capacity st1 - fd_table_capacity st) no_filedes"
    using open_table_ok [OF ok fd(2)] by blast
  obtain ag acts1 acts2 where g: "open_guard env file fd st = Some (Ret1, ag, acts1)"
    and e: "open_entry env file (nat fd) ag st1 = Some (1, st', acts2)"
    using run fd(1) assms(4-6) st1(1)
    by (auto simp: handle_open_def split: if_splits status.splits bind_splits)
  show ?thesis
    using open_entry_ok [OF st1(2,3) e] open_guard_some [OF g] st1 by auto
qed

lemma inject_close_ok:
  assumes "inject_ok st" "0 \<le> fd" "nat fd < fd_table_capacity st" "inject_close (True, True, True, True) ret fd st = Some (r, st', acts)"
  shows "r = ret \<and> fd_table st' = (fd_table st)[nat fd := no_filedes] \<and> Sys_close fd \<in> set acts \<and>
    fd_table_capacity st' = fd_table_capacity st"
  using assms
  by (auto simp: inject_close_def inject_ok_def no_filedes_def run_deinit_def aofguard_deinit_def set_guard_def Let_def
      split: if_splits option.splits)

section \<open>Renaming\<close>

definition guards_match :: "(string \<Rightarrow> bool) \<Rightarrow> inject \<Rightarrow> bool" where
  "guards_match pat st \<longleftrightarrow>
    (\<forall>i < length (fd_table st). \<forall>p. name (fd_table st ! i) = Some p \<longrightarrow> (aofguard_of (fd_table st ! i) \<noteq> None \<longleftrightarrow> pat p))"

text \<open>A loop whose body changes only its own entry, by \<open>f\<close>.\<close>

lemma table_loop_map:
  assumes body: "\<And>i st. i < length (fd_table st) \<Longrightarrow> P (fd_table st ! i) \<Longrightarrow> nvm_size st = sz \<Longrightarrow>
      \<exists>st' acts. body i st = Some (None, st', acts) \<and> fd_table st' = (fd_table st)[i := f i (fd_table st ! i)] \<and>
        nvm_size st' = sz \<and> fd_table_capacity st' = fd_table_capacity st"
    and "distinct is" "\<And>i. i \<in> set is \<Longrightarrow> i < length (fd_table st) \<and> P (fd_table st ! i)" "nvm_size st = sz"
  shows "\<exists>st' acts. table_loop body is st = Some (None, st', acts) \<and> length (fd_table st') = length (fd_table st) \<and>
    (\<forall>i < length (fd_table st). fd_table st' ! i = (if i \<in> set is then f i (fd_table st ! i) else fd_table st ! i)) \<and>
    nvm_size st' = sz \<and> fd_table_capacity st' = fd_table_capacity st"
  using assms(2-4)
proof (induction "is" arbitrary: st)
  case (Cons i "is")
  obtain st1 acts1 where 1: "body i st = Some (None, st1, acts1)" "fd_table st1 = (fd_table st)[i := f i (fd_table st ! i)]"
    "nvm_size st1 = sz" "fd_table_capacity st1 = fd_table_capacity st"
    using body [of i st] Cons.prems by auto
  have "\<And>j. j \<in> set is \<Longrightarrow> j < length (fd_table st1) \<and> P (fd_table st1 ! j)"
    using Cons.prems 1(2) by (auto simp: nth_list_update)
  from Cons.IH [OF _ this 1(3)] Cons.prems(1) obtain st' acts where
    "table_loop body is st1 = Some (None, st', acts)" "length (fd_table st') = length (fd_table st1)"
    "\<forall>j < length (fd_table st1). fd_table st' ! j = (if j \<in> set is then f j (fd_table st1 ! j) else fd_table st1 ! j)"
    "nvm_size st' = sz" "fd_table_capacity st' = fd_table_capacity st1" by auto
  then show ?case using 1 Cons.prems by (auto simp: nth_list_update)
qed simp

text \<open>The calls of a \<open>rename\<close> in which nothing fails.\<close>

definition rename_succeeds :: "rename_env \<Rightarrow> nat \<Rightarrow> bool" where
  "rename_succeeds env sz \<longleftrightarrow> sys_rename_ok env \<and> renameat_ok env \<and> unlinkat_ok env \<and> length (buffer (rename_sha1 env)) = 64 \<and>
     (\<forall>i. guard_malloc_ok env i \<and> name_strdup_ok env i \<and> guard_deinit env i = (True, True, True, True) \<and>
        (\<forall>nvm_file. fst (aofguard_init (guard_init env i) (int i) sz True (guard_world env i nvm_file) (guard_garbage env i)) = Ret1))"

definition named_map :: "string \<Rightarrow> (filedes \<Rightarrow> filedes) \<Rightarrow> filedes \<Rightarrow> filedes" where
  "named_map path g d = (if name d = Some path then g d else d)"

lemma loop_result:
  assumes "inject_ok st" "\<And>i. i < length (fd_table st) \<Longrightarrow> P (fd_table st ! i)"
    and "\<And>i st'. i < length (fd_table st') \<Longrightarrow> P (fd_table st' ! i) \<Longrightarrow> nvm_size st' = nvm_size st \<Longrightarrow>
      \<exists>st'' acts. body i st' = Some (None, st'', acts) \<and> fd_table st'' = (fd_table st')[i := f i (fd_table st' ! i)] \<and>
        nvm_size st'' = nvm_size st \<and> fd_table_capacity st'' = fd_table_capacity st'"
  shows "\<exists>st' acts. table_loop body [0..<fd_table_capacity st] st = Some (None, st', acts) \<and> inject_ok st' \<and>
    length (fd_table st') = length (fd_table st) \<and> nvm_size st' = nvm_size st \<and> fd_table_capacity st' = fd_table_capacity st \<and>
    (\<forall>i < length (fd_table st). fd_table st' ! i = f i (fd_table st ! i))"
  using table_loop_map [of P "nvm_size st" body f "[0..<fd_table_capacity st]" st] assms by (auto simp: inject_ok_def)

lemma rename_entry_loop:
  assumes "inject_ok st" "rename_succeeds env sz"
  shows "\<exists>st' acts. table_loop (rename_entry env old new) [0..<fd_table_capacity st] st = Some (None, st', acts) \<and> inject_ok st' \<and>
    length (fd_table st') = length (fd_table st) \<and>
    (\<forall>i < length (fd_table st). fd_table st' ! i = named_map old (\<lambda>d. d\<lparr>name := Some new\<rparr>) (fd_table st ! i))"
  using loop_result [of st "\<lambda>_. True" "rename_entry env old new" "\<lambda>_. named_map old (\<lambda>d. d\<lparr>name := Some new\<rparr>)"] assms
  by (force simp: rename_entry_def is_named_def named_map_def rename_succeeds_def)

lemma rename_stop_loop:
  assumes "inject_ok st" "rename_succeeds env sz" "guards_match pat st" "pat old"
  shows "\<exists>st' acts. table_loop (rename_stop env old) [0..<fd_table_capacity st] st = Some (None, st', acts) \<and> inject_ok st' \<and>
    length (fd_table st') = length (fd_table st) \<and>
    (\<forall>i < length (fd_table st). fd_table st' ! i = named_map old (\<lambda>d. d\<lparr>aofguard_of := None\<rparr>) (fd_table st ! i))"
proof -
  have "\<exists>st'' acts. rename_stop env old i st' = Some (None, st'', acts) \<and>
      fd_table st'' = (fd_table st')[i := named_map old (\<lambda>d. d\<lparr>aofguard_of := None\<rparr>) (fd_table st' ! i)] \<and>
      nvm_size st'' = nvm_size st \<and> fd_table_capacity st'' = fd_table_capacity st'"
    if "i < length (fd_table st')" "name (fd_table st' ! i) = Some old \<longrightarrow> aofguard_of (fd_table st' ! i) \<noteq> None"
      "nvm_size st' = nvm_size st" for i st'
    using that assms(2)
    by (auto simp: rename_stop_def is_named_def named_map_def rename_succeeds_def run_deinit_def aofguard_deinit_def set_guard_def)
  moreover have "name (fd_table st ! i) = Some old \<longrightarrow> aofguard_of (fd_table st ! i) \<noteq> None" if "i < length (fd_table st)" for i
    using assms(3,4) that by (auto simp: guards_match_def)
  ultimately show ?thesis
    using loop_result [OF assms(1), of "\<lambda>d. name d = Some old \<longrightarrow> aofguard_of d \<noteq> None" "rename_stop env old"
      "\<lambda>_. named_map old (\<lambda>d. d\<lparr>aofguard_of := None\<rparr>)"] by blast
qed

lemma rename_start_loop:
  assumes "inject_ok st" "rename_succeeds env (nvm_size st)" "guards_match pat st" "\<not> pat old"
  shows "\<exists>st' acts g. table_loop (rename_start env old nvm_file) [0..<fd_table_capacity st] st = Some (None, st', acts) \<and> inject_ok st' \<and>
    length (fd_table st') = length (fd_table st) \<and>
    (\<forall>i < length (fd_table st). fd_table st' ! i = named_map old (\<lambda>d. d\<lparr>aofguard_of := Some (g i)\<rparr>) (fd_table st ! i))"
proof -
  define g where "g i = fst (snd (aofguard_init (guard_init env i) (int i) (nvm_size st) True (guard_world env i nvm_file) (guard_garbage env i)))" for i
  have "\<exists>st'' acts. rename_start env old nvm_file i st' = Some (None, st'', acts) \<and>
      fd_table st'' = (fd_table st')[i := named_map old (\<lambda>d. d\<lparr>aofguard_of := Some (g i)\<rparr>) (fd_table st' ! i)] \<and>
      nvm_size st'' = nvm_size st \<and> fd_table_capacity st'' = fd_table_capacity st'"
    if "i < length (fd_table st')" "name (fd_table st' ! i) = Some old \<longrightarrow> aofguard_of (fd_table st' ! i) = None"
      "nvm_size st' = nvm_size st" for i st'
    using that assms(2)
    by (auto simp: rename_start_def is_named_def named_map_def rename_succeeds_def set_guard_def g_def case_prod_unfold)
  moreover have "name (fd_table st ! i) = Some old \<longrightarrow> aofguard_of (fd_table st ! i) = None" if "i < length (fd_table st)" for i
    using assms(3,4) that by (auto simp: guards_match_def)
  ultimately show ?thesis
    using loop_result [OF assms(1), of "\<lambda>d. name d = Some old \<longrightarrow> aofguard_of d = None" "rename_start env old nvm_file"
      "\<lambda>i. named_map old (\<lambda>d. d\<lparr>aofguard_of := Some (g i)\<rparr>)"] by blast
qed


text \<open>The moving branches leave the table alone.\<close>

definition nvm_name_of :: "string \<Rightarrow> string" where
  "nvm_name_of path = concat (map hex_byte (fips_sha1 (string_bytes path))) @ ''.ag''"

text \<open>The effect of the first part of \<open>rename\<close> on an entry.\<close>

definition reguard :: "(string \<Rightarrow> bool) \<Rightarrow> string \<Rightarrow> string \<Rightarrow> filedes \<Rightarrow> filedes \<Rightarrow> bool" where
  "reguard pat old new d d' \<longleftrightarrow> name d' = name d \<and>
     (if name d = Some old then aofguard_of d' \<noteq> None \<longleftrightarrow> pat new else aofguard_of d' = aofguard_of d)"

lemma rename_nvm_ok:
  assumes ok: "inject_ok st" "rename_succeeds env (nvm_size st)" "guards_match (pattern env) st"
    and len: "length old < 2 ^ 32 - 64" "length new < 2 ^ 32 - 64"
    and ex: "pattern env old \<Longrightarrow> \<not> pattern env new \<Longrightarrow> nvm_exists env (nvm_name_of old)"
  shows "\<exists>st' acts. rename_nvm env old new st = Some (None, st', acts) \<and> inject_ok st' \<and>
    length (fd_table st') = length (fd_table st) \<and>
    (\<forall>i < length (fd_table st). reguard (pattern env) old new (fd_table st ! i) (fd_table st' ! i))"
proof -
  have names: "get_nvm_file_name (rename_sha1 env) old = Some (nvm_name_of old)"
    "get_nvm_file_name (rename_sha1 env) new = Some (nvm_name_of new)"
    using get_nvm_file_name_sha1 ok(2) len by (auto simp: rename_succeeds_def nvm_name_of_def)
  have keep: "reguard (pattern env) old new (fd_table st ! i) (fd_table st ! i)"
    if "pattern env old = pattern env new" "i < length (fd_table st)" for i
    using that ok(3) by (auto simp: reguard_def guards_match_def)
  consider "pattern env old = pattern env new" | "pattern env old" "\<not> pattern env new" | "\<not> pattern env old" "pattern env new" by blast
  then show ?thesis
  proof cases
    case 1
    then show ?thesis using keep ok(1,2) names by (auto simp: rename_nvm_def rename_succeeds_def Let_def)
  next
    case 2
    from rename_stop_loop [OF ok 2(1)] show ?thesis
      using 2 ex [OF 2] names ok(2)
      by (auto simp: rename_nvm_def rename_succeeds_def Let_def reguard_def named_map_def)
  next
    case 3
    from rename_start_loop [OF ok 3(1), of "nvm_name_of new"] show ?thesis
      using 3 names by (auto simp: rename_nvm_def reguard_def named_map_def)
  qed
qed

lemma table_loop_skip:
  assumes "\<And>i. i \<in> set xs \<Longrightarrow> body i st = Some (None, st, [])"
  shows "table_loop body (xs @ ys) st = table_loop body ys st"
  using assms by (induction xs) (auto simp: map_option_case split: option.splits)

text \<open>A table with one open file and the results of a renaming in which nothing fails, for concrete instances.\<close>

definition sample_guard :: aofguard where
  "sample_guard = \<lparr>fsync_len = 0, capacity = 2 * BLOCK_SIZE, start = 0, len = 0, block_count = 0\<rparr>"

definition sample_table :: "string option \<Rightarrow> aofguard option \<Rightarrow> inject" where
  "sample_table file g =
    \<lparr>fd_table = (replicate 16 no_filedes)[3 := \<lparr>name = file, aofguard_of = g\<rparr>], fd_table_capacity = 16,
     nvm_size = 2 * BLOCK_SIZE, disable_sync = True, init_done = True\<rparr>"

definition sample_sha1 :: sha1_context where
  "sample_sha1 = \<lparr>state = replicate 5 0, count = replicate 2 0, buffer = replicate 64 0\<rparr>"

definition sample_rename :: rename_env where
  "sample_rename = \<lparr>sys_rename_ok = True, pattern = (\<lambda>p. p = ''wal''), rename_sha1 = sample_sha1, nvm_exists = (\<lambda>_. False),
     renameat_ok = True, unlinkat_ok = True, guard_malloc_ok = (\<lambda>_. True), guard_init = (\<lambda>_. small_env),
     guard_world = (\<lambda>_ _. small_world), guard_garbage = (\<lambda>_. sample_guard), guard_deinit = (\<lambda>_. (True, True, True, True)),
     name_strdup_ok = (\<lambda>_. True)\<rparr>"

lemma sample_table_ok: "inject_ok (sample_table file g)"
  by (simp add: inject_ok_def sample_table_def)

lemma sample_table_nth: "i < 16 \<Longrightarrow> fd_table (sample_table file g) ! i = (if i = 3 then \<lparr>name = file, aofguard_of = g\<rparr> else no_filedes)"
  by (simp add: sample_table_def nth_list_update)

lemma sample_init: "fst (aofguard_init small_env (int i) (2 * BLOCK_SIZE) reset small_world ag) = Ret1"
  using init_fresh_run [OF _ _ small_size_ok small_env_ok, of small_world "int i"] by (simp add: small_world_def)

lemma sample_rename_succeeds: "rename_succeeds sample_rename (2 * BLOCK_SIZE)"
  by (simp add: rename_succeeds_def sample_rename_def sample_sha1_def sample_init)

definition sample_open :: open_env where
  "sample_open = \<lparr>stat_ok = True, is_regular = True, matches = (\<lambda>p. p = ''wal''), malloc_ok = True, init_results = small_env,
     sha1_garbage = sample_sha1, seen = (\<lambda>_. small_world), garbage = sample_guard, realloc_ok = True, strdup_ok = True,
     deinit_results = (True, True, True, True)\<rparr>"

lemma sample_open_run:
  "\<exists>st1 acts. handle_open sample_open ''wal'' 20 (sample_table None None) = Some (1, st1, acts) \<and> fd_table_capacity st1 = 32 \<and>
     length (fd_table st1) = 32 \<and> aofguard_of (fd_table st1 ! 20) \<noteq> None"
proof -
  let ?st = "sample_table None None"
  have "grow_capacity 16 20 = Some 32" by (simp add: grow_capacity.simps size_mul_def)
  moreover have "get_nvm_file_name sample_sha1 ''wal'' = Some (nvm_name_of ''wal'')"
    by (simp add: nvm_name_of_def get_nvm_file_name_sha1 sample_sha1_def)
  moreover obtain ag es where "aofguard_init small_env 20 (2 * BLOCK_SIZE) False small_world sample_guard = (Ret1, ag, es)"
    using init_fresh_run [OF _ _ small_size_ok small_env_ok, of small_world 20] by (simp add: small_world_def)
  ultimately show ?thesis
    by (simp add: handle_open_def sample_open_def open_guard_def open_table_def open_entry_def sample_table_def no_filedes_def
        nth_append Let_def)
qed

section \<open>Properties\<close>

text \<open>
  C14: The loop that doubles the capacity of the descriptor table ends: from a capacity between 1 and
  \<open>2^32\<close> it reaches, for every descriptor below \<open>2^31\<close>, a capacity \<open>cap * 2^k\<close> that has room for the descriptor
  and, when it had to grow, is at most twice the descriptor. From capacity 0 it would never end.
\<close>

theorem table_growth_ends:
  assumes "fd < 2 ^ 31" "cap \<le> 2 ^ 32"
  shows "(0 < cap \<longrightarrow> (\<exists>k. grow_capacity cap fd = Some (cap * 2 ^ k) \<and> fd < cap * 2 ^ k \<and> (k = 0 \<or> cap * 2 ^ k \<le> 2 * fd))) \<and>
    (cap = 0 \<longrightarrow> grow_capacity cap fd = None)"
  using grow_capacity_returns [of cap fd] grow_capacity_zero [of fd] assms by auto

theorem table_growth_ends_witness: "grow_capacity 16 100 = Some 128"
proof -
  obtain k :: nat where k: "grow_capacity 16 100 = Some (16 * 2 ^ k)" "(100 :: nat) < 16 * 2 ^ k" "k = 0 \<or> 16 * 2 ^ k \<le> (200 :: nat)"
    using table_growth_ends [of 100 16] by auto
  have "k = 3"
  proof (rule ccontr)
    assume "k \<noteq> 3"
    then consider "k \<le> 2" | "4 \<le> k" by linarith
    then show False
    proof cases
      case 1
      then have "(2 :: nat) ^ k \<le> 2 ^ 2" by (intro power_increasing) auto
      then show False using k(2) by simp
    next
      case 2
      then have "(2 :: nat) ^ 4 \<le> 2 ^ k" by (intro power_increasing) auto
      then show False using k(3) 2 by simp
    qed
  qed
  then show ?thesis using k(1) by simp
qed

text \<open>
  Opening and closing. When \<open>open\<close> registers a regular file under a descriptor whose entry is free,
  the entry holds the name, a guard exactly when the name matches the pattern, and no other entry
  changes; closing the descriptor again gives back every entry of the old table, frees the entries
  that growing added, and closes the file.
\<close>

theorem open_close_roundtrip:
  assumes "inject_ok st" "0 \<le> fd" "nat fd < 2 ^ 31" "init_done st" "is_regular env" "realloc_ok env"
    and "nat fd < fd_table_capacity st \<Longrightarrow> fd_table st ! nat fd = no_filedes"
    and "handle_open env file fd st = Some (1, st1, acts1)"
    and "inject_close (True, True, True, True) sys_ret fd st1 = Some (r, st2, acts2)"
  shows "name (fd_table st1 ! nat fd) = Some file \<and> (aofguard_of (fd_table st1 ! nat fd) \<noteq> None \<longleftrightarrow> matches env file) \<and>
    (\<forall>i < length (fd_table st). i \<noteq> nat fd \<longrightarrow> fd_table st1 ! i = fd_table st ! i) \<and>
    r = sys_ret \<and> Sys_close fd \<in> set acts2 \<and>
    fd_table st2 = fd_table st @ replicate (fd_table_capacity st2 - fd_table_capacity st) no_filedes"
proof -
  obtain ag where st1: "inject_ok st1" "nat fd < fd_table_capacity st1" "ag \<noteq> None \<longleftrightarrow> matches env file"
    "fd_table st1 = (fd_table st @ replicate (fd_table_capacity st1 - fd_table_capacity st) no_filedes)
       [nat fd := \<lparr>name = Some file, aofguard_of = ag\<rparr>]"
    using handle_open_ok [OF assms(1-6,8)] by blast
  note st2 = inject_close_ok [OF st1(1) assms(2) st1(2) assms(9)]
  have room: "nat fd < length (fd_table st1)" using st1(1,2) by (simp add: inject_ok_def)
  have free: "(fd_table st @ replicate (fd_table_capacity st1 - fd_table_capacity st) no_filedes) ! nat fd = no_filedes"
    using assms(1,7) room st1(4) by (auto simp: nth_append inject_ok_def)
  then have "fd_table st2 = fd_table st @ replicate (fd_table_capacity st2 - fd_table_capacity st) no_filedes"
    using st2 st1(4) by (metis list_update_id list_update_overwrite)
  moreover have "fd_table st1 ! i = fd_table st ! i" if "i < length (fd_table st)" "i \<noteq> nat fd" for i
    using that st1(4) by (simp add: nth_append)
  ultimately show ?thesis using st1(3,4) room st2 by simp
qed

theorem open_close_roundtrip_witness:
  "\<exists>st1 acts st2. handle_open sample_open ''wal'' 20 (sample_table None None) = Some (1, st1, acts) \<and>
     name (fd_table st1 ! 20) = Some ''wal'' \<and> aofguard_of (fd_table st1 ! 20) \<noteq> None \<and>
     inject_close (True, True, True, True) 0 20 st1 = Some (0, st2, [Deinit 20, Sys_close 20]) \<and>
     fd_table st2 = fd_table (sample_table None None) @ replicate 16 no_filedes"
proof -
  let ?st = "sample_table None None"
  obtain st1 acts where 1: "handle_open sample_open ''wal'' 20 ?st = Some (1, st1, acts)" "fd_table_capacity st1 = 32"
    "length (fd_table st1) = 32" "aofguard_of (fd_table st1 ! 20) \<noteq> None"
    using sample_open_run by blast
  obtain st2 where 2: "inject_close (True, True, True, True) 0 20 st1 = Some (0, st2, [Deinit 20, Sys_close 20])" "fd_table_capacity st2 = 32"
    using 1(2-4) by (auto simp: inject_close_def run_deinit_def aofguard_deinit_def set_guard_def Let_def)
  note r = open_close_roundtrip [OF sample_table_ok, of 20 None None sample_open "''wal''" st1 acts 0 0 st2 "[Deinit 20, Sys_close 20]"]
  have "fd_table_capacity ?st = 16" "init_done ?st" by (simp_all add: sample_table_def)
  then show ?thesis using r 1 2 by (simp add: sample_open_def)
qed

text \<open>
  C13: Renaming keeps names and guards in step. When no call fails and, for a file that leaves the
  pattern, its NVM file exists, \<open>rename\<close> returns 0, every entry that had the old name has the new one, no
  other name changes, and in the new table an open file is guarded exactly when its name matches.
\<close>

theorem rename_keeps_guards:
  assumes "inject_ok st" "rename_succeeds env (nvm_size st)" "guards_match (pattern env) st"
    and "length old < 2 ^ 32 - 64" "length new < 2 ^ 32 - 64"
    and "pattern env old \<Longrightarrow> \<not> pattern env new \<Longrightarrow> nvm_exists env (nvm_name_of old)"
  shows "\<exists>st' acts. inject_rename env old new st = Some (0, st', acts) \<and> inject_ok st' \<and> guards_match (pattern env) st' \<and>
    length (fd_table st') = length (fd_table st) \<and>
    (\<forall>i < length (fd_table st). name (fd_table st' ! i) =
       (if name (fd_table st ! i) = Some old then Some new else name (fd_table st ! i)))"
proof -
  obtain st1 acts1 where 1: "rename_nvm env old new st = Some (None, st1, acts1)" "inject_ok st1"
    "length (fd_table st1) = length (fd_table st)"
    "\<forall>i < length (fd_table st). reguard (pattern env) old new (fd_table st ! i) (fd_table st1 ! i)"
    using rename_nvm_ok [OF assms] by blast
  obtain st2 acts2 where 2: "table_loop (rename_entry env old new) [0..<fd_table_capacity st1] st1 = Some (None, st2, acts2)"
    "inject_ok st2" "length (fd_table st2) = length (fd_table st1)"
    "\<forall>i < length (fd_table st1). fd_table st2 ! i = named_map old (\<lambda>d. d\<lparr>name := Some new\<rparr>) (fd_table st1 ! i)"
    using rename_entry_loop [OF 1(2) assms(2)] by blast
  have "inject_rename env old new st = Some (0, st2, acts1 @ acts2)"
    using assms(2) 1(1) 2(1) by (simp add: inject_rename_def rename_succeeds_def)
  moreover have "aofguard_of (fd_table st2 ! i) \<noteq> None \<longleftrightarrow> pattern env p"
    if i: "i < length (fd_table st)" and p: "name (fd_table st2 ! i) = Some p" for i p
  proof -
    have "reguard (pattern env) old new (fd_table st ! i) (fd_table st1 ! i)"
      "fd_table st2 ! i = named_map old (\<lambda>d. d\<lparr>name := Some new\<rparr>) (fd_table st1 ! i)" using 1(3,4) 2(4) i by auto
    moreover have "\<And>p. name (fd_table st ! i) = Some p \<Longrightarrow> aofguard_of (fd_table st ! i) \<noteq> None \<longleftrightarrow> pattern env p"
      using assms(3) i unfolding guards_match_def by blast
    ultimately show ?thesis using p by (auto simp: reguard_def named_map_def split: if_splits)
  qed
  then have "guards_match (pattern env) st2" using 1(3) 2(3) by (simp add: guards_match_def)
  moreover have "\<forall>i < length (fd_table st). name (fd_table st2 ! i) =
       (if name (fd_table st ! i) = Some old then Some new else name (fd_table st ! i))"
    using 1(3,4) 2(4) by (auto simp: reguard_def named_map_def)
  ultimately show ?thesis using 1(3) 2(2,3) by metis
qed

theorem rename_keeps_guards_witness:
  "\<exists>st' acts. inject_rename sample_rename ''tmp'' ''wal'' (sample_table (Some ''tmp'') None) = Some (0, st', acts) \<and>
     name (fd_table st' ! 3) = Some ''wal'' \<and> aofguard_of (fd_table st' ! 3) \<noteq> None"
proof -
  let ?st = "sample_table (Some ''tmp'') None"
  have "guards_match (pattern sample_rename) ?st"
  proof -
    have "length (fd_table ?st) = 16" by (simp add: sample_table_def)
    then show ?thesis by (simp add: guards_match_def sample_table_nth sample_rename_def no_filedes_def)
  qed
  then obtain st' acts where "inject_rename sample_rename ''tmp'' ''wal'' ?st = Some (0, st', acts)"
    "guards_match (pattern sample_rename) st'" "length (fd_table st') = length (fd_table ?st)"
    "\<forall>i < length (fd_table ?st). name (fd_table st' ! i) =
       (if name (fd_table ?st ! i) = Some ''tmp'' then Some ''wal'' else name (fd_table ?st ! i))"
    using rename_keeps_guards [OF sample_table_ok, of sample_rename "Some ''tmp''" None "''tmp''" "''wal''"] sample_rename_succeeds
    by (auto simp: sample_table_def sample_rename_def)
  moreover have "length (fd_table ?st) = 16" "fd_table ?st ! 3 = \<lparr>name = Some ''tmp'', aofguard_of = None\<rparr>"
    by (simp_all add: sample_table_def)
  ultimately show ?thesis by (auto simp: guards_match_def sample_rename_def)
qed

text \<open>
  \<open>rename\<close> reports success although the file is not guarded. When a file is renamed to a name that
  matches the pattern and the guard of its first descriptor cannot be allocated, \<open>rename\<close> returns 0, leaves
  that descriptor without a guard, and no entry gets the new name.
\<close>

theorem rename_hides_missing_guard:
  assumes "inject_ok st" "sys_rename_ok env" "\<not> pattern env old" "pattern env new"
    and "length (buffer (rename_sha1 env)) = 64" "length new < 2 ^ 32 - 64"
    and "i < fd_table_capacity st" "fd_table st ! i = \<lparr>name = Some old, aofguard_of = None\<rparr>"
    and "\<And>j. j < i \<Longrightarrow> name (fd_table st ! j) \<noteq> Some old" "\<not> guard_malloc_ok env i"
  shows "inject_rename env old new st = Some (0, st, [])"
proof -
  let ?body = "rename_start env old (nvm_name_of new)"
  have split: "[0..<fd_table_capacity st] = [0..<i] @ i # [Suc i..<fd_table_capacity st]"
    using assms(7) upt_add_eq_append [of 0 i "fd_table_capacity st - i"] by (simp add: upt_conv_Cons)
  have "?body j st = Some (None, st, [])" if "j < i" for j
    using assms(1,7,9) that by (auto simp: rename_start_def inject_ok_def is_named_def)
  then have "table_loop ?body [0..<fd_table_capacity st] st = table_loop ?body (i # [Suc i..<fd_table_capacity st]) st"
    unfolding split by (intro table_loop_skip) auto
  also have "set_guard st i None = st"
  proof -
    have "(fd_table st ! i)\<lparr>aofguard_of := None\<rparr> = fd_table st ! i" using assms(8) by simp
    then show ?thesis by (simp only: set_guard_def list_update_id) simp
  qed
  then have "table_loop ?body (i # [Suc i..<fd_table_capacity st]) st = Some (Some 0, st, [])"
    using assms(1,7,8,10) by (simp add: rename_start_def inject_ok_def is_named_def)
  finally show ?thesis
    using assms(2-4) get_nvm_file_name_sha1 [OF assms(5,6)] by (simp add: inject_rename_def rename_nvm_def nvm_name_of_def)
qed

theorem rename_hides_missing_guard_witness:
  "inject_rename (sample_rename\<lparr>guard_malloc_ok := \<lambda>_. False\<rparr>) ''tmp'' ''wal'' (sample_table (Some ''tmp'') None) =
     Some (0, sample_table (Some ''tmp'') None, [])"
proof -
  have "name (fd_table (sample_table (Some ''tmp'') None) ! j) \<noteq> Some ''tmp''" if "j < 3" for j
    using that by (simp add: sample_table_nth no_filedes_def)
  then show ?thesis
    by (intro rename_hides_missing_guard [OF sample_table_ok, of _ _ _ 3])
      (simp_all add: sample_rename_def sample_sha1_def sample_table_def)
qed

end
