(* ===== verification/Cbs_Pmem.thy ===== *)
theory Cbs_Pmem
  imports Nvm
begin

text \<open>
  The page cache of \<^verbatim>\<open>cbs_req/cbs_req_pmem.cpp\<close>: pages of 4096 bytes in persistent memory, each with an 8-byte
  meta word (valid bit, sequence number, request number), and in DRAM the table from requests to pages and
  the stack of free pages, which \<open>cbs_init\<close> rebuilds from the meta words.

  Pointers into the mapping are offsets from \<open>pmem_base\<close>, which cancels in every address computation of the
  source; the mapping is aligned to 4096 bytes. An operation returns its result, the new DRAM state and
  the stores it made persistent, in program order; \<open>None\<close> is an access outside an array or through a null
  pointer.
\<close>

section \<open>Layout\<close>

definition PAGE_SIZE :: nat where "PAGE_SIZE = 4096"
definition BLOCK_PAGE_NUM :: nat where "BLOCK_PAGE_NUM = 1024"
definition REQ_BLOCK :: nat where "REQ_BLOCK = 10"
definition REQ_PAGE :: u64 where "REQ_PAGE = 0x3ff"
definition DISK_BLOCK_NUM :: nat where "DISK_BLOCK_NUM = 1048576"
definition MAGIC_NUMBER :: u64 where "MAGIC_NUMBER = 0xabcdabcd"
definition PMEM_META_SIZE :: nat where "PMEM_META_SIZE = 64"
definition MAGIC_NUM_SIZE :: nat where "MAGIC_NUM_SIZE = 64"
definition PMEM_SIZE :: nat where "PMEM_SIZE = 100 * 1024 * 1024 * 1024"

definition PMEM_PAGE_NUMBERS :: nat where
  "PMEM_PAGE_NUMBERS = (PMEM_SIZE - MAGIC_NUM_SIZE) div (PAGE_SIZE + PMEM_META_SIZE) - 1"

text \<open>The fields of the header, and the three translations between meta words, page numbers and pages.\<close>

definition MAGIC_OFF :: nat where "MAGIC_OFF = 0"
definition PAGE_OFFSET_OFF :: nat where "PAGE_OFFSET_OFF = 8"

definition PAGE_ID_FROM_META :: "nat \<Rightarrow> nat" where
  "PAGE_ID_FROM_META meta = (meta - MAGIC_NUM_SIZE) div PMEM_META_SIZE + 1"

definition PAGE_FROM_META :: "nat \<Rightarrow> nat \<Rightarrow> nat" where
  "PAGE_FROM_META page_address meta = page_address + PAGE_SIZE * ((meta - MAGIC_NUM_SIZE) div PMEM_META_SIZE)"

definition PAGE_META_FROM_ID :: "nat \<Rightarrow> nat" where
  "PAGE_META_FROM_ID page_id = MAGIC_NUM_SIZE + (page_id - 1) * PMEM_META_SIZE"

text \<open>The meta word: the valid bit, 31 bits of sequence number, 32 bits of request number.\<close>

definition meta_valid :: "u64 \<Rightarrow> bool" where
  "meta_valid w \<longleftrightarrow> bit w 0"

definition meta_sn :: "u64 \<Rightarrow> nat" where
  "meta_sn w = unat (drop_bit 1 w AND mask 31)"

definition meta_req_id :: "u64 \<Rightarrow> nat" where
  "meta_req_id w = unat (drop_bit 32 w)"

text \<open>A store to the field \<open>sn\<close> replaces its 31 bits.\<close>

definition set_sn :: "u64 \<Rightarrow> nat \<Rightarrow> u64" where
  "set_sn w k = (w AND NOT (push_bit 1 (mask 31))) OR push_bit 1 (of_nat k AND mask 31)"

section \<open>State\<close>

record block_page =
  page_id1 :: nat
  page_id2 :: nat

record cbs =
  disk_pages :: "nat \<Rightarrow> nat \<Rightarrow> block_page"
  cached_pages_cnt :: "nat \<Rightarrow> u32"
  free_num :: nat
  free_list :: "nat list"
  page_address :: nat

text \<open>
  Stores that reach persistent memory: eight aligned bytes, which the memory writes as one, and a range
  of bytes, which a crash may leave in any state.
\<close>

datatype pstore = Store8 nat u64 | Store_range nat bytes

primrec apply_pstore :: "pstore \<Rightarrow> mem \<Rightarrow> mem" where
  "apply_pstore (Store8 off w) p = store64 p off w"
| "apply_pstore (Store_range off bs) p = store_bytes p off bs"

definition apply_pstores :: "pstore list \<Rightarrow> mem \<Rightarrow> mem" where
  "apply_pstores es p = fold apply_pstore es p"

section \<open>Starting\<close>

definition no_block_page :: block_page where
  "no_block_page = \<lparr>page_id1 = 0, page_id2 = 0\<rparr>"

text \<open>The offset of the first page behind \<open>n\<close> meta words, rounded to the page size.\<close>

definition first_page :: "nat \<Rightarrow> nat" where
  "first_page n = (MAGIC_NUM_SIZE + PMEM_META_SIZE * n + PAGE_SIZE) div 4096 * 4096"

definition meta_off :: "nat \<Rightarrow> nat" where
  "meta_off i = MAGIC_NUM_SIZE + PMEM_META_SIZE * i"

text \<open>One turn of the loop that rebuilds the DRAM state: \<open>free_num\<close> is the variable \<open>j\<close> of the loop.\<close>

definition scan_meta :: "mem \<Rightarrow> nat \<Rightarrow> cbs \<Rightarrow> cbs option" where
  "scan_meta p i s =
    (let pmem_meta = meta_off i; w = load64 p pmem_meta in
     if \<not> meta_valid w then
       Some (s\<lparr>free_list := (free_list s)[free_num s := pmem_meta], free_num := free_num s + 1\<rparr>)
     else
       (let req_id = meta_req_id w; block_id = req_id div 2 ^ 10; page_id = req_id mod 1024 in
        if DISK_BLOCK_NUM \<le> block_id then None
        else
          (let e = disk_pages s block_id page_id;
               e' = e\<lparr>page_id1 := PAGE_ID_FROM_META pmem_meta mod 2 ^ 32\<rparr>;
               s' = s\<lparr>disk_pages := (disk_pages s)(block_id := (disk_pages s block_id)(page_id := e'))\<rparr> in
           Some (if page_id1 e = 0
                 then s'\<lparr>cached_pages_cnt := (cached_pages_cnt s)(block_id := cached_pages_cnt s block_id + 1)\<rparr>
                 else s'))))"

primrec scan_metas :: "mem \<Rightarrow> nat list \<Rightarrow> cbs \<Rightarrow> cbs option" where
  "scan_metas p [] s = Some s"
| "scan_metas p (i # is) s = Option.bind (scan_meta p i s) (scan_metas p is)"

text \<open>
  \<open>cbs_init\<close> with room for \<open>n\<close> pages, \<open>PMEM_PAGE_NUMBERS\<close> in the source: the results of mapping the file and of the three
  allocations are arguments, \<open>garbage\<close> is what the last one returned, and \<open>s\<close> the state before.
\<close>

definition cbs_init :: "bool \<Rightarrow> bool \<Rightarrow> bool \<Rightarrow> bool \<Rightarrow> nat list \<Rightarrow> nat \<Rightarrow> mem \<Rightarrow> cbs \<Rightarrow> (int \<times> cbs \<times> pstore list) option" where
  "cbs_init map_ok calloc_ok malloc1_ok malloc2_ok garbage n p s =
    (if \<not> map_ok \<or> \<not> calloc_ok then Some (-1, s, [])
     else if \<not> malloc1_ok then None
     else if \<not> malloc2_ok then Some (-1, s, [])
     else
       (let s = s\<lparr>disk_pages := \<lambda>_ _. no_block_page, cached_pages_cnt := \<lambda>_. 0, free_list := garbage\<rparr> in
        if load64 p MAGIC_OFF \<noteq> MAGIC_NUMBER then
          Some (0, s\<lparr>free_list := map meta_off [0..<n], free_num := n, page_address := first_page n\<rparr>,
            [Store_range (meta_off 0) (replicate (PMEM_META_SIZE * n) 0), Store8 PAGE_OFFSET_OFF (of_nat (first_page n)),
             Store8 MAGIC_OFF MAGIC_NUMBER])
        else
          map_option (\<lambda>s. (0, s\<lparr>page_address := unat (load64 p PAGE_OFFSET_OFF)\<rparr>, []))
            (scan_metas p [0..<n] (s\<lparr>free_num := 0\<rparr>))))"

definition get_cached_count :: "cbs \<Rightarrow> u32" where
  "get_cached_count s = sum_list (map (cached_pages_cnt s) [0..<DISK_BLOCK_NUM])"

section \<open>Requests\<close>

definition req_block :: "u64 \<Rightarrow> nat" where
  "req_block req_id = unat (drop_bit REQ_BLOCK req_id)"

definition req_page :: "u64 \<Rightarrow> nat" where
  "req_page req_id = unat (req_id AND REQ_PAGE)"

definition set_block_page :: "nat \<Rightarrow> nat \<Rightarrow> block_page \<Rightarrow> cbs \<Rightarrow> cbs" where
  "set_block_page b g e s = s\<lparr>disk_pages := (disk_pages s)(b := (disk_pages s b)(g := e))\<rparr>"

text \<open>\<open>free_list[free_num-1]\<close>; with no free page the index wraps around.\<close>

definition top_free :: "cbs \<Rightarrow> nat option" where
  "top_free s = (if 0 < free_num s \<and> free_num s \<le> length (free_list s) then Some (free_list s ! (free_num s - 1)) else None)"

definition push_free :: "nat \<Rightarrow> cbs \<Rightarrow> cbs option" where
  "push_free meta s =
    (if free_num s < length (free_list s)
     then Some (s\<lparr>free_num := free_num s + 1, free_list := (free_list s)[free_num s := meta]\<rparr>) else None)"

definition meta_word :: "u64 \<Rightarrow> u64 \<Rightarrow> u64" where
  "meta_word req_id sn = push_bit 32 req_id OR push_bit 1 sn OR 1"

text \<open>The three cases of \<open>write_req\<close>: no page yet, one page, two pages.\<close>

definition write_first :: "u64 \<Rightarrow> bytes \<Rightarrow> cbs \<Rightarrow> (int \<times> cbs \<times> pstore list) option" where
  "write_first req_id content s =
    map_option (\<lambda>page_new.
      let b = req_block req_id; g = req_page req_id;
          s' = s\<lparr>free_num := free_num s - 1\<rparr>;
          s' = set_block_page b g ((disk_pages s b g)\<lparr>page_id1 := PAGE_ID_FROM_META page_new mod 2 ^ 32\<rparr>) s';
          s' = s'\<lparr>cached_pages_cnt := (cached_pages_cnt s')(b := cached_pages_cnt s' b + 1)\<rparr> in
      (0, s', [Store_range (PAGE_FROM_META (page_address s) page_new) (take 4096 content),
               Store8 page_new (push_bit 32 req_id OR 1)]))
     (top_free s)"

definition write_replace :: "u64 \<Rightarrow> bytes \<Rightarrow> cbs \<Rightarrow> mem \<Rightarrow> (int \<times> cbs \<times> pstore list) option" where
  "write_replace req_id content s p =
    map_option (\<lambda>page_new.
      let b = req_block req_id; g = req_page req_id; e = disk_pages s b g;
          page_old = (if page_id1 e \<noteq> 0 then PAGE_META_FROM_ID (page_id1 e) else PAGE_META_FROM_ID (page_id2 e));
          w = load64 p page_old;
          reset = (if meta_sn w \<noteq> 0 then [Store8 page_old (set_sn w 0)] else []);
          s' = set_block_page b g (e\<lparr>page_id2 := PAGE_ID_FROM_META page_new mod 2 ^ 32, page_id1 := 0\<rparr>) s;
          s' = s'\<lparr>free_list := (free_list s)[free_num s - 1 := page_old]\<rparr> in
      (0, s', reset @ [Store_range (PAGE_FROM_META (page_address s) page_new) (take 4096 content),
                       Store8 page_new (meta_word req_id 1), Store8 page_old 0]))
     (top_free s)"

text \<open>
  The sequence number of the newer page, shifted as an \<open>int\<close> and widened again, goes into the older
  page's word and is itself incremented in place. The second branch frees the page it has just written
  and forgets the other one.
\<close>

definition shifted_sn :: "u64 \<Rightarrow> u64" where
  "shifted_sn w = scast (push_bit 1 (of_nat (meta_sn w) :: u32))"

definition write_pair :: "u64 \<Rightarrow> bytes \<Rightarrow> cbs \<Rightarrow> mem \<Rightarrow> (int \<times> cbs \<times> pstore list) option" where
  "write_pair req_id content s p =
    (let b = req_block req_id; g = req_page req_id; e = disk_pages s b g;
         page1_meta = PAGE_META_FROM_ID (page_id1 e); page2_meta = PAGE_META_FROM_ID (page_id2 e);
         w1 = load64 p page1_meta; w2 = load64 p page2_meta in
     if meta_sn w1 < meta_sn w2 then
       map_option (\<lambda>s. (0, s,
         [Store_range (PAGE_FROM_META (page_address s) page1_meta) (take 4096 content),
          Store8 page2_meta (set_sn w2 (meta_sn w2 + 1)),
          Store8 page1_meta (push_bit 32 req_id OR shifted_sn w2 OR 1), Store8 page2_meta 0]))
        (push_free page2_meta (set_block_page b g (e\<lparr>page_id2 := 0\<rparr>) s))
     else
       map_option (\<lambda>s. (0, s,
         [Store_range (PAGE_FROM_META (page_address s) page2_meta) (take 4096 content),
          Store8 page1_meta (set_sn w1 (meta_sn w1 + 1)),
          Store8 page2_meta (push_bit 32 req_id OR shifted_sn w1 OR 1), Store8 page2_meta 0]))
        (push_free page1_meta (set_block_page b g (e\<lparr>page_id1 := 0\<rparr>) s)))"

text \<open>The check lets block number \<open>DISK_BLOCK_NUM\<close> through, which is behind the end of the table.\<close>

definition write_req :: "u64 \<Rightarrow> bytes \<Rightarrow> cbs \<Rightarrow> mem \<Rightarrow> (int \<times> cbs \<times> pstore list) option" where
  "write_req req_id content s p =
    (let b = req_block req_id; e = disk_pages s b (req_page req_id) in
     if DISK_BLOCK_NUM < b then Some (-1, s, [])
     else if b = DISK_BLOCK_NUM then None
     else if page_id1 e = 0 \<and> page_id2 e = 0 then write_first req_id content s
     else if page_id1 e \<noteq> 0 \<and> page_id2 e = 0 \<or> page_id1 e = 0 \<and> page_id2 e \<noteq> 0 then write_replace req_id content s p
     else write_pair req_id content s p)"

text \<open>\<open>read_req\<close> returns the offset of a page, or \<open>NULL\<close>, the inner \<open>None\<close>.\<close>

definition read_req :: "u64 \<Rightarrow> cbs \<Rightarrow> mem \<Rightarrow> nat option option" where
  "read_req req_id s p =
    (let b = req_block req_id; e = disk_pages s b (req_page req_id) in
     if DISK_BLOCK_NUM < b then Some None
     else if b = DISK_BLOCK_NUM then None
     else if page_id1 e \<noteq> 0 \<and> page_id2 e = 0 \<or> page_id1 e = 0 \<and> page_id2 e \<noteq> 0 then
       (let page_meta = (if page_id1 e \<noteq> 0 then PAGE_META_FROM_ID (page_id1 e) else PAGE_META_FROM_ID (page_id2 e)) in
        Some (Some (PAGE_FROM_META (page_address s) page_meta)))
     else if page_id1 e \<noteq> 0 \<and> page_id2 e \<noteq> 0 then
       (let page1_meta = PAGE_META_FROM_ID (page_id1 e); page2_meta = PAGE_META_FROM_ID (page_id2 e) in
        if meta_sn (load64 p page1_meta) < meta_sn (load64 p page2_meta)
        then Some (Some (PAGE_FROM_META (page_address s) page2_meta))
        else Some (Some (PAGE_FROM_META (page_address s) page1_meta)))
     else Some None)"

definition delete_page :: "u64 \<Rightarrow> cbs \<Rightarrow> mem \<Rightarrow> (cbs \<times> pstore list) option" where
  "delete_page req_id s p =
    (let b = req_block req_id; g = req_page req_id; e = disk_pages s b g in
     if DISK_BLOCK_NUM < b then Some (s, [])
     else if b = DISK_BLOCK_NUM then None
     else if page_id1 e \<noteq> 0 \<and> page_id2 e = 0 \<or> page_id1 e = 0 \<and> page_id2 e \<noteq> 0 then
       (let page_meta = (if page_id1 e \<noteq> 0 then PAGE_META_FROM_ID (page_id1 e) else PAGE_META_FROM_ID (page_id2 e));
            e' = (if page_id1 e \<noteq> 0 then e\<lparr>page_id1 := 0\<rparr> else e\<lparr>page_id2 := 0\<rparr>) in
        map_option (\<lambda>s. (s, [Store8 page_meta 0])) (push_free page_meta (set_block_page b g e' s)))
     else if page_id1 e \<noteq> 0 \<and> page_id2 e \<noteq> 0 then
       (let page1_meta = PAGE_META_FROM_ID (page_id1 e); page2_meta = PAGE_META_FROM_ID (page_id2 e);
            es = (if meta_sn (load64 p page1_meta) < meta_sn (load64 p page2_meta)
                  then [Store8 page1_meta 0, Store8 page2_meta 0] else [Store8 page2_meta 0, Store8 page1_meta 0]) in
        map_option (\<lambda>s. (s, es))
          (Option.bind (push_free page1_meta (set_block_page b g no_block_page s)) (push_free page2_meta)))
     else Some (s, []))"

end
