(* ===== verification/Cbs_Pmem_Recovery.thy ===== *)
theory Cbs_Pmem_Recovery
  imports Cbs_Pmem
begin

text \<open>
  Correctness of the persistent page cache: the layout of the mapping, the invariant that ties the DRAM
  state to the meta words, the contents that a restart finds after a crash at any moment, and what the
  operations do to them.
\<close>

section \<open>Layout\<close>

lemma layout_consts [simp]:
  "PMEM_META_SIZE = 64" "MAGIC_NUM_SIZE = 64" "PAGE_SIZE = 4096" "MAGIC_OFF = 0" "PAGE_OFFSET_OFF = 8"
  by (simp_all add: PMEM_META_SIZE_def MAGIC_NUM_SIZE_def PAGE_SIZE_def MAGIC_OFF_def PAGE_OFFSET_OFF_def)

lemma meta_off_id [simp]:
  "PAGE_ID_FROM_META (meta_off i) = Suc i" "PAGE_META_FROM_ID (Suc i) = meta_off i"
  "PAGE_FROM_META a (meta_off i) = a + 4096 * i"
  by (simp_all add: PAGE_ID_FROM_META_def PAGE_META_FROM_ID_def PAGE_FROM_META_def meta_off_def)

lemma meta_off_inject [simp]: "meta_off i = meta_off j \<longleftrightarrow> i = j"
  by (simp add: meta_off_def)

lemma first_page_above: "i < n \<Longrightarrow> meta_off i + 64 \<le> first_page n" "64 \<le> first_page n"
proof -
  have "(64 + 64 * n + 4096) mod 4096 < 4096" by (rule mod_less_divisor) simp
  then have f: "64 + 64 * n \<le> first_page n"
    using div_mult_mod_eq [of "64 + 64 * n + 4096" 4096] unfolding first_page_def layout_consts by linarith
  then show "64 \<le> first_page n" by simp
  assume "i < n"
  then show "meta_off i + 64 \<le> first_page n" using f by (simp add: meta_off_def)
qed

text \<open>The meta words and pages of a memory, and how a store changes them.\<close>

definition meta :: "mem \<Rightarrow> nat \<Rightarrow> u64" where
  "meta p i = load64 p (meta_off i)"

definition page :: "nat \<Rightarrow> mem \<Rightarrow> nat \<Rightarrow> bytes" where
  "page n p i = load_bytes p (first_page n + 4096 * i) 4096"

definition header_ok :: "nat \<Rightarrow> mem \<Rightarrow> bool" where
  "header_ok n p \<longleftrightarrow> load64 p 0 = MAGIC_NUMBER \<and> load64 p 8 = of_nat (first_page n)"

lemma meta_store8 [simp]: "meta (store64 p (meta_off i) w) j = (if j = i then w else meta p j)"
proof (cases "j = i")
  case False
  then have "j < i \<or> i < j" by linarith
  then show ?thesis using False unfolding meta_def
    by (auto simp: meta_off_def intro!: load64_cong store64_outside)
qed (simp add: meta_def)

lemma page_store8 [simp]: "i < n \<Longrightarrow> page n (store64 p (meta_off i) w) j = page n p j"
  using first_page_above(1) [of i n] unfolding page_def by (intro load_bytes_cong store64_outside) auto

lemma header_store8 [simp]: "header_ok n (store64 p (meta_off i) w) = header_ok n p"
proof -
  have "load64 (store64 p (meta_off i) w) k = load64 p k" if "k + 8 \<le> 64" for k
    using that by (intro load64_cong store64_outside) (auto simp: meta_off_def)
  then show ?thesis by (simp add: header_ok_def)
qed

text \<open>Memories that differ in one page only: a copy into it, whole or cut short by a crash.\<close>

definition same_but_page :: "nat \<Rightarrow> nat \<Rightarrow> mem \<Rightarrow> mem \<Rightarrow> bool" where
  "same_but_page n i p p' \<longleftrightarrow> (\<forall>k. k < first_page n + 4096 * i \<or> first_page n + 4096 * i + 4096 \<le> k \<longrightarrow> p' k = p k)"

lemma store_page_same:
  "length bs = 4096 \<Longrightarrow> same_but_page n i p (store_bytes p (first_page n + 4096 * i) bs)"
  by (auto simp: same_but_page_def store_bytes_outside)

lemma page_store_page: "length bs = 4096 \<Longrightarrow> page n (store_bytes p (first_page n + 4096 * i) bs) i = bs"
  using load_store_same [of p "first_page n + 4096 * i" bs] by (simp add: page_def)

lemma same_but_page_view:
  assumes "same_but_page n i p p'"
  shows "j < n \<Longrightarrow> meta p' j = meta p j" "j \<noteq> i \<Longrightarrow> page n p' j = page n p j" "header_ok n p' = header_ok n p"
proof -
  show "meta p' j = meta p j" if "j < n"
    using assms first_page_above(1) [OF that] unfolding meta_def same_but_page_def by (intro load64_cong) auto
  show "page n p' j = page n p j" if "j \<noteq> i"
  proof -
    have "j < i \<or> i < j" using that by linarith
    then show ?thesis
      using assms unfolding page_def same_but_page_def by (intro load_bytes_cong) auto
  qed
  have "load64 p' k = load64 p k" if "k + 8 \<le> 64" for k
    using assms that first_page_above(2) [of n] unfolding same_but_page_def by (intro load64_cong) auto
  then show "header_ok n p' = header_ok n p" by (simp add: header_ok_def)
qed

section \<open>Meta words\<close>

lemma bit_one_u64: "bit (1 :: u64) k \<longleftrightarrow> k = 0"
  by (simp add: bit_simps)

lemma meta_zero [simp]: "\<not> meta_valid 0"
  by (simp add: meta_valid_def)

lemma meta_valid_word [simp]: "meta_valid (push_bit 32 r OR 1)" "meta_valid (meta_word r s)"
  by (simp_all add: meta_valid_def meta_word_def bit_simps)

lemma unat_small_bits: "unat (r :: u64) < 2 ^ 32 \<Longrightarrow> bit r k \<Longrightarrow> k < 32"
  using unat_less_power_iff [of r 32] by blast

lemma meta_req_word:
  assumes "unat r < 2 ^ 32"
  shows "meta_req_id (push_bit 32 r OR 1) = unat r" "meta_req_id (meta_word r 1) = unat r"
proof -
  have "drop_bit 32 (push_bit 32 r OR 1) = r" "drop_bit 32 (meta_word r 1) = r"
    using unat_small_bits [OF assms] by (auto simp: meta_word_def bit_simps intro!: bit_word_eqI)
  then show "meta_req_id (push_bit 32 r OR 1) = unat r" "meta_req_id (meta_word r 1) = unat r"
    by (simp_all add: meta_req_id_def)
qed

lemma meta_set_sn [simp]: "meta_valid (set_sn w k) = meta_valid w" "meta_req_id (set_sn w k) = meta_req_id w"
proof -
  show "meta_valid (set_sn w k) = meta_valid w"
    unfolding meta_valid_def set_sn_def by (simp only: bit_or_iff bit_and_iff bit_not_iff bit_push_bit_iff) simp
  have "drop_bit 32 (set_sn w k) = drop_bit 32 w"
  proof (rule bit_word_eqI)
    fix m
    show "bit (drop_bit 32 (set_sn w k)) m \<longleftrightarrow> bit (drop_bit 32 w) m"
      unfolding set_sn_def
      by (simp only: bit_drop_bit_eq o_def bit_or_iff bit_and_iff bit_not_iff bit_push_bit_iff bit_mask_iff)
        (auto dest: bit_imp_le_length)
  qed
  then show "meta_req_id (set_sn w k) = meta_req_id w" by (simp add: meta_req_id_def)
qed

lemma req_block_eq: "req_block r = unat r div 1024"
  by (simp add: req_block_def REQ_BLOCK_def drop_bit_eq_div unat_div)

lemma req_page_eq: "req_page r = unat r mod 1024"
proof -
  have "r AND REQ_PAGE = take_bit 10 r" by (simp add: REQ_PAGE_def take_bit_eq_mask mask_eq_exp_minus_1)
  then show ?thesis by (simp add: req_page_def take_bit_eq_mod unat_mod)
qed

section \<open>Rebuilding the DRAM state\<close>

definition entry :: "cbs \<Rightarrow> nat \<Rightarrow> block_page" where
  "entry s r = disk_pages s (r div 1024) (r mod 1024)"

definition slot :: "cbs \<Rightarrow> nat \<Rightarrow> nat" where
  "slot s r = (if page_id1 (entry s r) \<noteq> 0 then page_id1 (entry s r) else page_id2 (entry s r))"

definition free_stack :: "cbs \<Rightarrow> nat list" where
  "free_stack s = take (free_num s) (free_list s)"

lemma request_unique: "r div 1024 = r' div 1024 \<Longrightarrow> r mod 1024 = r' mod 1024 \<Longrightarrow> r = (r' :: nat)"
  by (metis div_mult_mod_eq)

lemma entry_set_block_page [simp]:
  "entry (set_block_page (r div 1024) (r mod 1024) e s) r' = (if r' = r then e else entry s r')"
  using request_unique [of r r'] by (auto simp: entry_def set_block_page_def)

lemma entry_updates [simp]:
  "entry (s\<lparr>free_num := f\<rparr>) = entry s" "entry (s\<lparr>free_list := l\<rparr>) = entry s"
  "entry (s\<lparr>cached_pages_cnt := c\<rparr>) = entry s" "entry (s\<lparr>page_address := a\<rparr>) = entry s"
  by (simp_all add: entry_def fun_eq_iff)

lemma set_block_page_fields [simp]:
  "free_num (set_block_page b g e s) = free_num s" "free_list (set_block_page b g e s) = free_list s"
  "page_address (set_block_page b g e s) = page_address s" "cached_pages_cnt (set_block_page b g e s) = cached_pages_cnt s"
  by (simp_all add: set_block_page_def)

lemma free_stack_updates [simp]:
  "free_stack (s\<lparr>disk_pages := d\<rparr>) = free_stack s" "free_stack (s\<lparr>cached_pages_cnt := c\<rparr>) = free_stack s"
  "free_stack (s\<lparr>page_address := a\<rparr>) = free_stack s" "free_stack (set_block_page b g e s) = free_stack s"
  by (simp_all add: free_stack_def set_block_page_def)

text \<open>The request numbers on the meta words lie in the table.\<close>

definition reqs_ok :: "nat \<Rightarrow> mem \<Rightarrow> bool" where
  "reqs_ok n p \<longleftrightarrow> (\<forall>i < n. meta_valid (meta p i) \<longrightarrow> meta_req_id (meta p i) < 2 ^ 30)"

definition holds :: "nat \<Rightarrow> mem \<Rightarrow> nat \<Rightarrow> nat \<Rightarrow> bool" where
  "holds n p r i \<longleftrightarrow> i < n \<and> meta_valid (meta p i) \<and> meta_req_id (meta p i) = r"

text \<open>What the meta words say is stored for a request; more than one page only after a crash.\<close>

definition contents :: "nat \<Rightarrow> mem \<Rightarrow> nat \<Rightarrow> bytes set" where
  "contents n p r = page n p ` {i. holds n p r i}"

text \<open>The persistent state as a map from page numbers to requests and contents, and its updates.\<close>

definition view :: "nat \<Rightarrow> mem \<Rightarrow> nat \<Rightarrow> (nat \<times> bytes) option" where
  "view n p i = (if i < n \<and> meta_valid (meta p i) then Some (meta_req_id (meta p i), page n p i) else None)"

lemma view_store8: "i < n \<Longrightarrow> view n (store64 p (meta_off i) w) =
    (view n p)(i := if meta_valid w then Some (meta_req_id w, page n p i) else None)"
  by (auto simp: view_def fun_eq_iff)

lemma view_set_sn [simp]: "i < n \<Longrightarrow> view n (store64 p (meta_off i) (set_sn (meta p i) k)) = view n p"
  by (auto simp: view_def fun_eq_iff)

lemma view_same_but_page: "same_but_page n k p p' \<Longrightarrow> view n p k = None \<Longrightarrow> view n p' = view n p"
proof (rule ext)
  fix i
  assume s: "same_but_page n k p p'" and k: "view n p k = None"
  show "view n p' i = view n p i"
    using same_but_page_view(1,2) [OF s, of i] k by (cases "i = k") (auto simp: view_def split: if_splits)
qed

lemma holds_view: "holds n p r i \<longleftrightarrow> (\<exists>c. view n p i = Some (r, c))"
  by (auto simp: holds_def view_def)

lemma contents_view: "contents n p r = {c. \<exists>i. view n p i = Some (r, c)}"
  by (auto simp: contents_def holds_def view_def)

lemma reqs_ok_view: "reqs_ok n p \<longleftrightarrow> (\<forall>i r c. view n p i = Some (r, c) \<longrightarrow> r < 2 ^ 30)"
  by (auto simp: reqs_ok_def view_def)

lemma view_None: "i < n \<Longrightarrow> view n p i = None \<longleftrightarrow> \<not> meta_valid (meta p i)"
  by (simp add: view_def)

primrec last_holder :: "mem \<Rightarrow> nat \<Rightarrow> nat \<Rightarrow> nat" where
  "last_holder p r 0 = 0"
| "last_holder p r (Suc k) = (if meta_valid (meta p k) \<and> meta_req_id (meta p k) = r then Suc k else last_holder p r k)"

lemma last_holder_holds: "last_holder p r n \<noteq> 0 \<Longrightarrow> holds n p r (last_holder p r n - 1)"
  by (induction n) (auto simp: holds_def split: if_splits)

lemma holds_last_holder: "holds n p r i \<Longrightarrow> last_holder p r n \<noteq> 0"
  by (induction n) (auto simp: holds_def less_Suc_eq)

lemma holds_unique_last:
  assumes "holds n p r i" "\<And>j. holds n p r j \<Longrightarrow> j = i"
  shows "last_holder p r n = Suc i"
  using last_holder_holds [OF holds_last_holder [OF assms(1)]] assms(2) holds_last_holder [OF assms(1)] by fastforce

definition free_metas :: "mem \<Rightarrow> nat \<Rightarrow> nat list" where
  "free_metas p k = map meta_off (filter (\<lambda>i. \<not> meta_valid (meta p i)) [0..<k])"

definition scanned :: "mem \<Rightarrow> nat \<Rightarrow> nat \<Rightarrow> cbs \<Rightarrow> bool" where
  "scanned p n k s \<longleftrightarrow> (\<forall>r < 2 ^ 30. entry s r = \<lparr>page_id1 = last_holder p r k, page_id2 = 0\<rparr>) \<and>
     free_stack s = free_metas p k \<and> free_num s = length (free_metas p k) \<and> length (free_list s) = n"

lemma length_free_metas: "length (free_metas p k) \<le> k"
  by (simp add: free_metas_def order_trans [OF length_filter_le])

lemma scan_metas_append: "scan_metas p (xs @ ys) s = Option.bind (scan_metas p xs s) (scan_metas p ys)"
  by (induction xs arbitrary: s) (auto split: bind_split)

lemma take_Suc_update: "f < length xs \<Longrightarrow> take (Suc f) (xs[f := m]) = take f xs @ [m]"
  by (simp add: take_Suc_conv_app_nth)

lemma scan_meta_step:
  assumes "scanned p n k s" "k < n" "n < 2 ^ 31" "meta_valid (meta p k) \<Longrightarrow> meta_req_id (meta p k) < 2 ^ 30"
  shows "\<exists>s'. scan_meta p k s = Some s' \<and> scanned p n (Suc k) s'"
proof (cases "meta_valid (meta p k)")
  case False
  let ?s = "s\<lparr>free_list := (free_list s)[free_num s := meta_off k], free_num := free_num s + 1\<rparr>"
  have "free_num s < length (free_list s)"
    using assms(1,2) length_free_metas [of p k] by (simp add: scanned_def)
  then have "free_stack ?s = free_stack s @ [meta_off k]" by (simp add: free_stack_def take_Suc_update)
  moreover have "free_metas p (Suc k) = free_metas p k @ [meta_off k]" using False by (simp add: free_metas_def)
  ultimately have "scanned p n (Suc k) ?s" using assms(1) False by (simp add: scanned_def)
  then show ?thesis using False by (simp add: scan_meta_def Let_def meta_def)
next
  case True
  let ?r = "meta_req_id (meta p k)"
  have r: "?r < 2 ^ 30" using True assms(4) by blast
  then have "\<not> DISK_BLOCK_NUM \<le> ?r div 1024" by (simp add: DISK_BLOCK_NUM_def less_mult_imp_div_less)
  moreover have "Suc k mod 2 ^ 32 = Suc k" using assms(2,3) by (intro mod_less) simp
  ultimately obtain s' where s': "scan_meta p k s = Some s'"
    "disk_pages s' = (disk_pages s)(?r div 1024 := (disk_pages s (?r div 1024))
       (?r mod 1024 := (entry s ?r)\<lparr>page_id1 := Suc k\<rparr>))"
    "free_stack s' = free_stack s" "free_num s' = free_num s" "free_list s' = free_list s"
    using True by (simp add: scan_meta_def Let_def meta_def entry_def free_stack_def)
  have "entry s' r = \<lparr>page_id1 = last_holder p r (Suc k), page_id2 = 0\<rparr>" if "r < 2 ^ 30" for r
  proof (cases "r = ?r")
    case r: True
    then show ?thesis using that assms(1) True by (simp add: entry_def s'(2) scanned_def)
  next
    case False
    then have "entry s' r = entry s r" using request_unique [of r ?r] by (auto simp: entry_def s'(2))
    then show ?thesis using that assms(1) False by (simp add: scanned_def)
  qed
  then show ?thesis using s' assms(1) True by (auto simp: scanned_def free_metas_def)
qed

lemma scan_metas_scanned:
  assumes "scanned p n 0 s" "reqs_ok n p" "n < 2 ^ 31" "k \<le> n"
  shows "\<exists>s'. scan_metas p [0..<k] s = Some s' \<and> scanned p n k s'"
  using assms(4)
proof (induction k)
  case (Suc k)
  then obtain s1 where "scan_metas p [0..<k] s = Some s1" "scanned p n k s1" by auto
  moreover obtain s2 where "scan_meta p k s1 = Some s2" "scanned p n (Suc k) s2"
    using scan_meta_step [OF calculation(2) _ assms(3)] Suc.prems assms(2) unfolding reqs_ok_def by auto
  ultimately show ?case by (simp add: scan_metas_append)
qed (use assms(1) in simp)

section \<open>The invariant\<close>

text \<open>
  Every request has at most one page, its meta word is valid and carries the request; every valid meta
  word is the one its request points to; the free pages are exactly those with an invalid meta word.
\<close>

definition cbs_inv :: "nat \<Rightarrow> cbs \<Rightarrow> mem \<Rightarrow> bool" where
  "cbs_inv n s p \<longleftrightarrow> n < 2 ^ 31 \<and> header_ok n p \<and> page_address s = first_page n \<and>
     length (free_list s) = n \<and> free_num s \<le> n \<and> distinct (free_stack s) \<and>
     set (free_stack s) = meta_off ` {i. i < n \<and> view n p i = None} \<and>
     (\<forall>r < 2 ^ 30. (page_id1 (entry s r) = 0 \<or> page_id2 (entry s r) = 0) \<and>
        (slot s r \<noteq> 0 \<longrightarrow> holds n p r (slot s r - 1))) \<and>
     (\<forall>i r. holds n p r i \<longrightarrow> r < 2 ^ 30 \<and> slot s r = Suc i)"

lemma cbs_invI:
  assumes "n < 2 ^ 31" "header_ok n p" "page_address s = first_page n" "length (free_list s) = n" "free_num s \<le> n"
    and "distinct (free_stack s)" "set (free_stack s) = meta_off ` {i. i < n \<and> view n p i = None}"
    and "\<And>r. r < 2 ^ 30 \<Longrightarrow> page_id1 (entry s r) = 0 \<or> page_id2 (entry s r) = 0"
    and "\<And>r. r < 2 ^ 30 \<Longrightarrow> slot s r \<noteq> 0 \<Longrightarrow> \<exists>c. view n p (slot s r - 1) = Some (r, c)"
    and "\<And>i r c. view n p i = Some (r, c) \<Longrightarrow> r < 2 ^ 30 \<and> slot s r = Suc i"
  shows "cbs_inv n s p"
  unfolding cbs_inv_def holds_view using assms by auto

lemma cbs_invD:
  assumes "cbs_inv n s p"
  shows "n < 2 ^ 31" "header_ok n p" "page_address s = first_page n" "length (free_list s) = n" "free_num s \<le> n"
    "distinct (free_stack s)" "set (free_stack s) = meta_off ` {i. i < n \<and> view n p i = None}"
    "r < 2 ^ 30 \<Longrightarrow> page_id1 (entry s r) = 0 \<or> page_id2 (entry s r) = 0"
    "r < 2 ^ 30 \<Longrightarrow> slot s r \<noteq> 0 \<Longrightarrow> \<exists>c. view n p (slot s r - 1) = Some (r, c)"
  using assms unfolding cbs_inv_def holds_view by auto

lemma cbs_inv_own: "cbs_inv n s p \<Longrightarrow> view n p i = Some (r, c) \<Longrightarrow> r < 2 ^ 30 \<and> slot s r = Suc i"
  unfolding cbs_inv_def holds_view by (elim conjE) blast

text \<open>The page a request reads.\<close>

definition cached :: "nat \<Rightarrow> cbs \<Rightarrow> mem \<Rightarrow> nat \<Rightarrow> bytes option" where
  "cached n s p r = (if slot s r = 0 then None else Some (page n p (slot s r - 1)))"

lemma cbs_inv_reqs: "cbs_inv n s p \<Longrightarrow> reqs_ok n p"
  by (auto simp: cbs_inv_def reqs_ok_def holds_def)

lemma cbs_inv_contents:
  assumes "cbs_inv n s p" "r < 2 ^ 30"
  shows "contents n p r = set_option (cached n s p r)"
proof -
  have "holds n p r i \<Longrightarrow> slot s r = Suc i" "slot s r \<noteq> 0 \<Longrightarrow> holds n p r (slot s r - 1)" for i
    using assms by (auto simp: cbs_inv_def)
  then have "{i. holds n p r i} = (if slot s r = 0 then {} else {slot s r - 1})" by force
  then show ?thesis by (auto simp: contents_def cached_def)
qed

lemma first_page_word: "n < 2 ^ 31 \<Longrightarrow> unat (of_nat (first_page n) :: u64) = first_page n"
proof -
  assume "n < 2 ^ 31"
  moreover have "first_page n \<le> 64 + 64 * n + 4096"
    unfolding first_page_def layout_consts by (rule div_times_less_eq_dividend)
  ultimately have "first_page n < 2 ^ 64" by simp
  then show ?thesis by (simp add: unsigned_of_nat take_bit_nat_eq_self)
qed

text \<open>
  A restart: whatever pages the meta words name, \<open>cbs_init\<close> succeeds, stores nothing, and each request
  reads a page that the meta words give it, or none when there is none.
\<close>

definition restart :: "nat list \<Rightarrow> nat \<Rightarrow> mem \<Rightarrow> cbs \<Rightarrow> (int \<times> cbs \<times> pstore list) option" where
  "restart garbage n p s = cbs_init True True True True garbage n p s"

lemma restart_scans:
  assumes "header_ok n p" "reqs_ok n p" "n < 2 ^ 31" "length garbage = n"
  shows "\<exists>s'. restart garbage n p s = Some (0, s', []) \<and> scanned p n n s' \<and> page_address s' = first_page n"
proof -
  let ?s = "s\<lparr>disk_pages := \<lambda>_ _. no_block_page, cached_pages_cnt := \<lambda>_. 0, free_list := garbage, free_num := 0\<rparr>"
  have "scanned p n 0 ?s"
    using assms(4) by (simp add: scanned_def entry_def no_block_page_def free_stack_def free_metas_def)
  from scan_metas_scanned [OF this assms(2,3) order_refl] obtain s' where
    "scan_metas p [0..<n] ?s = Some s'" "scanned p n n s'" by blast
  moreover have "scanned p n n (s'\<lparr>page_address := a\<rparr>)" for a
    using calculation(2) by (simp add: scanned_def)
  ultimately show ?thesis
    using assms(1,3) first_page_word [OF assms(3)] by (simp add: restart_def cbs_init_def header_ok_def Let_def)
qed

lemma scanned_slot: "scanned p n k s \<Longrightarrow> r < 2 ^ 30 \<Longrightarrow> slot s r = last_holder p r k"
  by (simp add: scanned_def slot_def)

lemma restart_reads:
  assumes "scanned p n n s" "r < 2 ^ 30"
  shows "cached n s p r = None \<longleftrightarrow> contents n p r = {}" "cached n s p r = Some c \<Longrightarrow> c \<in> contents n p r"
  using scanned_slot [OF assms] last_holder_holds [of p r n] holds_last_holder [of n p r]
  by (auto simp: cached_def contents_def split: if_splits)

lemma scanned_inv:
  assumes "scanned p n n s" "header_ok n p" "reqs_ok n p" "n < 2 ^ 31" "page_address s = first_page n"
    and unique: "\<And>r i j. holds n p r i \<Longrightarrow> holds n p r j \<Longrightarrow> i = j"
  shows "cbs_inv n s p"
proof -
  have "distinct (free_metas p n)"
    by (simp add: free_metas_def distinct_map inj_on_def)
  moreover have "set (free_metas p n) = meta_off ` {i. i < n \<and> view n p i = None}"
    by (auto simp: free_metas_def view_None)
  moreover have "r < 2 ^ 30 \<and> slot s r = Suc i" if "holds n p r i" for r i
  proof -
    have "r < 2 ^ 30" using that assms(3) by (auto simp: holds_def reqs_ok_def)
    then show ?thesis using scanned_slot [OF assms(1)] holds_unique_last [OF that unique [OF _ that]] by simp
  qed
  moreover have "holds n p r (slot s r - 1)" if "r < 2 ^ 30" "slot s r \<noteq> 0" for r
    using that scanned_slot [OF assms(1)] last_holder_holds by auto
  ultimately show ?thesis
    using assms(1,2,4,5) length_free_metas [of p n] by (auto simp: cbs_inv_def scanned_def)
qed

section \<open>Crashes\<close>

text \<open>
  The memories a crash can leave while the stores \<open>es\<close> are made: the crash comes before a store, or in the middle
  of a copy, whose range may then hold anything.
\<close>

inductive crash_state :: "pstore list \<Rightarrow> mem \<Rightarrow> mem \<Rightarrow> bool" where
  before: "crash_state es p p"
| torn: "(\<And>k. k < off \<or> off + length bs \<le> k \<Longrightarrow> p' k = p k) \<Longrightarrow> crash_state (Store_range off bs # es) p p'"
| later: "crash_state es (apply_pstore e p) p' \<Longrightarrow> crash_state (e # es) p p'"

inductive_cases crash_NilE: "crash_state [] p p'"
inductive_cases crash_Store8E: "crash_state (Store8 off w # es) p p'"
inductive_cases crash_rangeE: "crash_state (Store_range off bs # es) p p'"

lemma crash_all: "crash_state es p (apply_pstores es p)"
  by (induction es arbitrary: p) (auto simp: apply_pstores_def intro: crash_state.intros)

lemma crash_page:
  assumes "crash_state (Store_range (first_page n + 4096 * k) bs # es) p p'" "length bs = 4096"
  shows "same_but_page n k p p' \<or> crash_state es (store_bytes p (first_page n + 4096 * k) bs) p'"
  using assms by (elim crash_rangeE) (auto simp: same_but_page_def)

text \<open>The views that a crash during a write can leave.\<close>

definition write_views :: "(nat \<Rightarrow> (nat \<times> bytes) option) \<Rightarrow> nat \<Rightarrow> bytes \<Rightarrow> nat \<Rightarrow> (nat \<Rightarrow> (nat \<times> bytes) option) set" where
  "write_views V r c k = {V, V(k \<mapsto> (r, c))} \<union> {V(i := None, k \<mapsto> (r, c)) | i d. V i = Some (r, d)}"

lemma store_new_page:
  assumes "k < n" "view n p k = None" "length bs = 4096" "meta_valid w" "meta_req_id w = r"
  shows "view n (store64 (store_bytes p (first_page n + 4096 * k) bs) (meta_off k) w) = (view n p)(k \<mapsto> (r, bs))"
  using assms view_same_but_page [OF store_page_same [OF assms(3)] assms(2)] by (simp add: view_store8 page_store_page)

lemma write_new_crash:
  assumes "crash_state [Store_range (first_page n + 4096 * k) bs, Store8 (meta_off k) w] p p'"
    and "k < n" "view n p k = None" "length bs = 4096" "meta_valid w" "meta_req_id w = r" "header_ok n p"
  shows "header_ok n p' \<and> view n p' \<in> write_views (view n p) r bs k"
proof -
  let ?p1 = "store_bytes p (first_page n + 4096 * k) bs"
  have h1: "header_ok n ?p1" "view n ?p1 = view n p"
    using same_but_page_view(3) view_same_but_page store_page_same [OF assms(4), of n k p] assms(3,7) by auto
  from crash_page [OF assms(1,4)] consider "same_but_page n k p p'" | "crash_state [Store8 (meta_off k) w] ?p1 p'" by blast
  then show ?thesis
  proof cases
    case 1
    then show ?thesis using view_same_but_page [OF 1 assms(3)] same_but_page_view(3) [OF 1] assms(7) by (simp add: write_views_def)
  next
    case 2
    then have "p' = ?p1 \<or> p' = store64 ?p1 (meta_off k) w" by (auto elim!: crash_Store8E crash_NilE)
    then show ?thesis using h1 store_new_page [OF assms(2-6)] by (auto simp: write_views_def)
  qed
qed

text \<open>The stores of a replacement, with or without the reset of the old sequence number.\<close>

lemma write_replace_crash:
  assumes "crash_state (reset @ [Store_range (first_page n + 4096 * k) bs, Store8 (meta_off k) w, Store8 (meta_off i) 0]) p p'"
    and reset: "reset = [] \<or> reset = [Store8 (meta_off i) (set_sn (meta p i) 0)]"
    and "k < n" "view n p k = None" "length bs = 4096" "meta_valid w" "meta_req_id w = r" "header_ok n p" "view n p i = Some (r, d)"
  shows "header_ok n p' \<and> view n p' \<in> write_views (view n p) r bs k"
proof -
  have i: "i < n" "i \<noteq> k" using assms(4,9) by (auto simp: view_def split: if_splits)
  have last: "header_ok n p' \<and> view n p' \<in> write_views (view n p) r bs k"
    if "crash_state [Store_range (first_page n + 4096 * k) bs, Store8 (meta_off k) w, Store8 (meta_off i) 0] q p'"
      and q: "view n q = view n p" "header_ok n q" for q
  proof -
    let ?q1 = "store_bytes q (first_page n + 4096 * k) bs" let ?q2 = "store64 ?q1 (meta_off k) w"
    have k: "view n q k = None" using q(1) assms(4) by simp
    note q2 = store_new_page [OF assms(3) k assms(5,6,7)]
    from crash_page [OF that(1) assms(5)] consider "same_but_page n k q p'"
      | "crash_state [Store8 (meta_off k) w, Store8 (meta_off i) 0] ?q1 p'" by blast
    then show ?thesis
    proof cases
      case 1
      then show ?thesis using view_same_but_page [OF 1 k] same_but_page_view(3) [OF 1] q by (simp add: write_views_def)
    next
      case 2
      then consider "p' = ?q1" | "p' = ?q2" | "p' = store64 ?q2 (meta_off i) 0" by (auto elim!: crash_Store8E crash_NilE)
      then show ?thesis
      proof cases
        case 1
        then show ?thesis using view_same_but_page [OF _ k] store_page_same [OF assms(5), of n k q]
            same_but_page_view(3) [of n k q] q by (auto simp: write_views_def)
      next
        case 2
        then show ?thesis using q q2 same_but_page_view(3) [OF store_page_same [OF assms(5), of n k q]] by (simp add: write_views_def)
      next
        case 3
        then have "view n p' = (view n p)(i := None, k \<mapsto> (r, bs))"
          using q(1) q2 i by (simp add: view_store8 fun_upd_twist)
        then show ?thesis using 3 q(2) same_but_page_view(3) [OF store_page_same [OF assms(5), of n k q]] assms(9)
          by (auto simp: write_views_def)
      qed
    qed
  qed
  show ?thesis
  proof (cases "reset = []")
    case True
    then show ?thesis using last [of p] assms(1,8) by simp
  next
    case False
    then have e: "reset = [Store8 (meta_off i) (set_sn (meta p i) 0)]" using reset by simp
    show ?thesis using assms(1) unfolding e append_Cons append_Nil
    proof (rule crash_Store8E)
      assume "p' = p"
      then show ?thesis using assms(8) by (simp add: write_views_def)
    qed (use last i assms(8) in auto)
  qed
qed

section \<open>The operations keep the invariant\<close>

lemma top_free_inv:
  assumes "cbs_inv n s p" "0 < free_num s"
  obtains k where "k < n" "view n p k = None" "top_free s = Some (meta_off k)"
    "free_stack s = take (free_num s - 1) (free_list s) @ [meta_off k]"
proof -
  have f: "free_num s \<le> length (free_list s)" using assms(1) by (simp add: cbs_inv_def)
  then have st: "free_stack s = take (free_num s - 1) (free_list s) @ [free_list s ! (free_num s - 1)]"
    using assms(2) take_Suc_conv_app_nth [of "free_num s - 1" "free_list s"] by (simp add: free_stack_def)
  then have "free_list s ! (free_num s - 1) \<in> set (free_stack s)" by simp
  then obtain k where "free_list s ! (free_num s - 1) = meta_off k" "k < n" "view n p k = None"
    using assms(1) by (auto simp: cbs_inv_def)
  then show thesis using that [of k] st f assms(2) by (simp add: top_free_def)
qed

lemma entry_cases:
  assumes "cbs_inv n s p" "r < 2 ^ 30"
  obtains (none) "entry s r = no_block_page" "slot s r = 0" "cached n s p r = None"
    | (one) i d where "slot s r = Suc i" "view n p i = Some (r, d)" "i < n" "cached n s p r = Some d"
       "page_id1 (entry s r) = Suc i \<and> page_id2 (entry s r) = 0 \<or> page_id1 (entry s r) = 0 \<and> page_id2 (entry s r) = Suc i"
proof (cases "slot s r")
  case 0
  then show ?thesis using none by (cases "entry s r") (auto simp: slot_def no_block_page_def cached_def split: if_splits)
next
  case (Suc i)
  then obtain d where d: "view n p i = Some (r, d)"
    using assms by (fastforce simp: cbs_inv_def holds_view)
  then have "i < n" "cached n s p r = Some d" using Suc by (auto simp: view_def cached_def split: if_splits)
  moreover have "page_id1 (entry s r) = 0 \<or> page_id2 (entry s r) = 0" using assms by (simp add: cbs_inv_def)
  ultimately show ?thesis using one [of i d] Suc d by (auto simp: slot_def split: if_splits)
qed

text \<open>A new page for a request, replacing the old one if there is one.\<close>

lemma inv_put:
  assumes inv: "cbs_inv n s p" and r: "r < 2 ^ 30" and k: "k < n" "view n p k = None" and h: "header_ok n p'"
    and view: "view n p' = (if slot s r = 0 then view n p else (view n p)(slot s r - 1 := None))(k \<mapsto> (r, c))"
    and entries: "\<And>r'. entry s' r' = (if r' = r then e else entry s r')"
    and e: "e = \<lparr>page_id1 = Suc k, page_id2 = 0\<rparr> \<or> e = \<lparr>page_id1 = 0, page_id2 = Suc k\<rparr>"
    and dram: "page_address s' = page_address s" "length (free_list s') = length (free_list s)" "free_num s' \<le> n" "distinct (free_stack s')"
    and free: "set (free_stack s') = set (free_stack s) - {meta_off k} \<union> (if slot s r = 0 then {} else {meta_off (slot s r - 1)})"
  shows "cbs_inv n s' p' \<and> (\<forall>r' < 2 ^ 30. cached n s' p' r' = (if r' = r then Some c else cached n s p r'))"
proof -
  have slot': "slot s' r' = (if r' = r then Suc k else slot s r')" for r'
    using entries e by (auto simp: slot_def)
  note old = cbs_invD [OF inv] and own = cbs_inv_own [OF inv] and ent = cbs_invD(9) [OF inv]
  have view_q: "view n p' (slot s q - 1) = view n p (slot s q - 1)" if q: "q < 2 ^ 30" "q \<noteq> r" "slot s q \<noteq> 0" for q
  proof -
    obtain d where d: "view n p (slot s q - 1) = Some (q, d)" using ent [OF q(1,3)] by blast
    have "slot s q - 1 \<noteq> k" using d k(2) by auto
    moreover have "slot s q - 1 \<noteq> slot s r - 1" if "slot s r \<noteq> 0"
      using ent [OF r that] d \<open>q \<noteq> r\<close> by auto
    ultimately show ?thesis unfolding view by auto
  qed
  have "set (free_stack s') = meta_off ` {i. i < n \<and> view n p' i = None}"
  proof -
    have i: "slot s r - 1 < n" "slot s r - 1 \<noteq> k" if "slot s r \<noteq> 0"
      using ent [OF r that] k(2) by (auto simp: view_def split: if_splits)
    have "{i. i < n \<and> view n p' i = None} =
        {i. i < n \<and> view n p i = None} - {k} \<union> (if slot s r = 0 then {} else {slot s r - 1})"
      using i unfolding view by auto
    moreover have "inj meta_off" by (simp add: inj_def)
    ultimately show ?thesis unfolding free old(7) by (simp add: image_Un image_set_diff)
  qed
  moreover have "q < 2 ^ 30 \<and> slot s' q = Suc i" if "view n p' i = Some (q, d)" for i q d
    using that own r unfolding view slot' by (auto split: if_splits)
  moreover have "\<exists>d. view n p' (slot s' q - 1) = Some (q, d)" if "q < 2 ^ 30" "slot s' q \<noteq> 0" for q
  proof (cases "q = r")
    case True
    then show ?thesis using slot' by (simp add: view)
  next
    case False
    then show ?thesis using that view_q [OF that(1) False] ent slot' by auto
  qed
  moreover have "page_id1 (entry s' q) = 0 \<or> page_id2 (entry s' q) = 0" if "q < 2 ^ 30" for q
    using that entries e old(8) by auto
  ultimately have "cbs_inv n s' p'" 
    using cbs_invI [of n p' s'] old(1-4) dram h by (metis (no_types, lifting))
  moreover have "cached n s' p' q = (if q = r then Some c else cached n s p q)" if "q < 2 ^ 30" for q
  proof (cases "q = r")
    case True
    have "view n p' k = Some (r, c)" by (simp add: view)
    then have "page n p' k = c" by (auto simp: view_def split: if_splits)
    then show ?thesis using True slot' by (simp add: cached_def)
  next
    case False
    have "page n p' (slot s q - 1) = page n p (slot s q - 1)" if "slot s q \<noteq> 0"
      using view_q [OF \<open>q < 2 ^ 30\<close> False that] ent [OF \<open>q < 2 ^ 30\<close> that] by (auto simp: view_def split: if_splits)
    then show ?thesis using False slot' by (simp add: cached_def)
  qed
  ultimately show ?thesis by blast
qed

text \<open>Dropping the page of a request.\<close>

lemma inv_drop:
  assumes inv: "cbs_inv n s p" and r: "r < 2 ^ 30" "slot s r = Suc i" and h: "header_ok n p'"
    and view: "view n p' = (view n p)(i := None)"
    and entries: "\<And>r'. entry s' r' = (if r' = r then no_block_page else entry s r')"
    and dram: "page_address s' = page_address s" "length (free_list s') = length (free_list s)" "free_num s' \<le> n"
    and free: "free_stack s' = free_stack s @ [meta_off i]"
  shows "cbs_inv n s' p' \<and> (\<forall>r' < 2 ^ 30. cached n s' p' r' = (if r' = r then None else cached n s p r'))"
proof -
  have slot': "slot s' r' = (if r' = r then 0 else slot s r')" for r'
    using entries by (auto simp: slot_def no_block_page_def)
  note old = cbs_invD [OF inv] and own = cbs_inv_own [OF inv] and ent = cbs_invD(9) [OF inv]
  obtain d where d: "view n p i = Some (r, d)" using ent [OF r(1)] r(2) by auto
  then have i: "i < n" by (auto simp: view_def split: if_splits)
  have view_q: "view n p' (slot s q - 1) = view n p (slot s q - 1)" if q: "q < 2 ^ 30" "q \<noteq> r" "slot s q \<noteq> 0" for q
    using ent [OF q(1,3)] d q(2) unfolding view by auto
  note fs = old(7)
  have "{j. j < n \<and> view n p' j = None} = insert i {j. j < n \<and> view n p j = None}" using i unfolding view by auto
  then have "set (free_stack s') = meta_off ` {j. j < n \<and> view n p' j = None}" using fs free by simp
  moreover have "distinct (free_stack s')" using old(6) fs d free by auto
  moreover have "q < 2 ^ 30 \<and> slot s' q = Suc j" if "view n p' j = Some (q, c)" for j q c
  proof -
    have "j \<noteq> i" "view n p j = Some (q, c)" using that unfolding view by (auto split: if_splits)
    then show ?thesis using own [of j q c] r(2) slot' by auto
  qed
  moreover have "\<exists>c. view n p' (slot s' q - 1) = Some (q, c)" if q: "q < 2 ^ 30" "slot s' q \<noteq> 0" for q
    using q slot' view_q [OF q(1)] ent [OF q(1)] by (auto split: if_splits)
  moreover have "page_id1 (entry s' q) = 0 \<or> page_id2 (entry s' q) = 0" if "q < 2 ^ 30" for q
    using that entries old(8) by (auto simp: no_block_page_def)
  ultimately have "cbs_inv n s' p'" 
    using cbs_invI [of n p' s'] old(1-4) dram h by (metis (no_types, lifting))
  moreover have "cached n s' p' q = (if q = r then None else cached n s p q)" if "q < 2 ^ 30" for q
  proof -
    have "page n p' (slot s q - 1) = page n p (slot s q - 1)" if "slot s q \<noteq> 0" "q \<noteq> r"
      using view_q [OF \<open>q < 2 ^ 30\<close> that(2,1)] ent [OF \<open>q < 2 ^ 30\<close> that(1)] by (auto simp: view_def split: if_splits)
    then show ?thesis using slot' by (simp add: cached_def)
  qed
  ultimately show ?thesis by blast
qed

text \<open>\<open>write_req\<close> on a request of the table: the stores it makes, and the state and memory it leaves.\<close>

lemma request_bound: "req_block r < DISK_BLOCK_NUM \<longleftrightarrow> unat r < 2 ^ 30"
  by (simp add: req_block_eq DISK_BLOCK_NUM_def div_less_iff_less_mult)

definition write_result :: "nat \<Rightarrow> cbs \<Rightarrow> mem \<Rightarrow> nat \<Rightarrow> bytes \<Rightarrow> cbs \<Rightarrow> pstore list \<Rightarrow> bool" where
  "write_result n s p r c s' es \<longleftrightarrow> cbs_inv n s' (apply_pstores es p) \<and>
    (\<forall>q < 2 ^ 30. cached n s' (apply_pstores es p) q = (if q = r then Some c else cached n s p q)) \<and>
    (\<forall>p'. crash_state es p p' \<longrightarrow> header_ok n p' \<and> (\<exists>k. view n p k = None \<and> view n p' \<in> write_views (view n p) r c k)) \<and>
    free_num s' = (if cached n s p r = None then free_num s - 1 else free_num s)"

lemma write_first_result:
  assumes inv: "cbs_inv n s p" and r: "unat r < 2 ^ 30" and free: "0 < free_num s" and c: "length c = 4096"
    and k: "k < n" "view n p k = None" "top_free s = Some (meta_off k)"
      "free_stack s = take (free_num s - 1) (free_list s) @ [meta_off k]"
    and none: "entry s (unat r) = no_block_page" "slot s (unat r) = 0" "cached n s p (unat r) = None"
  shows "\<exists>s' es. write_req r c s p = Some (0, s', es) \<and> write_result n s p (unat r) c s' es"
proof -
  have n: "n < 2 ^ 31" "header_ok n p" "page_address s = first_page n" "free_num s \<le> n" "length (free_list s) = n"
    "distinct (free_stack s)" using inv by (auto simp: cbs_inv_def)
  have kk: "Suc k mod 4294967296 = Suc k" using k(1) n(1) by simp
  have b: "\<not> DISK_BLOCK_NUM < req_block r" "req_block r \<noteq> DISK_BLOCK_NUM" using request_bound [of r] r by auto
  have at: "disk_pages s (req_block r) (req_page r) = entry s (unat r)" by (simp add: entry_def req_block_eq req_page_eq)
  have w: "unat r < 2 ^ 32" using r by simp
  let ?es = "[Store_range (first_page n + 4096 * k) c, Store8 (meta_off k) (push_bit 32 r OR 1)]"
  let ?p' = "apply_pstores ?es p"
  define s' where "s' = (set_block_page (unat r div 1024) (unat r mod 1024) \<lparr>page_id1 = Suc k, page_id2 = 0\<rparr> (s\<lparr>free_num := free_num s - 1\<rparr>))
    \<lparr>cached_pages_cnt := (cached_pages_cnt s)(unat r div 1024 := cached_pages_cnt s (unat r div 1024) + 1)\<rparr>"
  have run: "write_req r c s p = Some (0, s', ?es)"
    using none(1) b k(3) n(3) c kk at
    by (simp add: write_req_def write_first_def Let_def no_block_page_def req_block_eq req_page_eq s'_def)
  have s': "free_num s' = free_num s - 1" "free_list s' = free_list s" "page_address s' = page_address s"
    "\<And>q. entry s' q = (if q = unat r then \<lparr>page_id1 = Suc k, page_id2 = 0\<rparr> else entry s q)" by (simp_all add: s'_def)
  have stack: "free_stack s' = take (free_num s - 1) (free_list s)" using s'(1,2) by (simp add: free_stack_def)
  have view: "view n ?p' = (view n p)(k \<mapsto> (unat r, c))"
    using store_new_page [OF k(1,2) c _ meta_req_word(1) [OF w]] by (simp add: apply_pstores_def)
  have crash: "header_ok n p' \<and> view n p' \<in> write_views (view n p) (unat r) c k" if "crash_state ?es p p'" for p'
    by (rule write_new_crash [OF that k(1,2) c _ meta_req_word(1) [OF w] n(2)]) simp
  have "cbs_inv n s' ?p' \<and> (\<forall>q < 2 ^ 30. cached n s' ?p' q = (if q = unat r then Some c else cached n s p q))"
    using none(2) n(4,6) k(4) stack s' view crash [OF crash_all]
    by (intro inv_put [OF inv r k(1,2), where e = "\<lparr>page_id1 = Suc k, page_id2 = 0\<rparr>"]) auto
  then show ?thesis using run crash k(2) s'(1) none(3) unfolding write_result_def by metis
qed

lemma write_replace_result:
  assumes inv: "cbs_inv n s p" and r: "unat r < 2 ^ 30" and free: "0 < free_num s" and c: "length c = 4096"
    and k: "k < n" "view n p k = None" "top_free s = Some (meta_off k)"
      "free_stack s = take (free_num s - 1) (free_list s) @ [meta_off k]"
    and one: "slot s (unat r) = Suc i" "view n p i = Some (unat r, d)" "i < n" "cached n s p (unat r) = Some d"
      "page_id1 (entry s (unat r)) = Suc i \<and> page_id2 (entry s (unat r)) = 0 \<or>
       page_id1 (entry s (unat r)) = 0 \<and> page_id2 (entry s (unat r)) = Suc i"
  shows "\<exists>s' es. write_req r c s p = Some (0, s', es) \<and> write_result n s p (unat r) c s' es"
proof -
  have n: "n < 2 ^ 31" "header_ok n p" "page_address s = first_page n" "free_num s \<le> n" "length (free_list s) = n"
    "distinct (free_stack s)" using inv by (auto simp: cbs_inv_def)
  have kk: "Suc k mod 4294967296 = Suc k" using k(1) n(1) by simp
  have b: "\<not> DISK_BLOCK_NUM < req_block r" "req_block r \<noteq> DISK_BLOCK_NUM" using request_bound [of r] r by auto
  have at: "disk_pages s (req_block r) (req_page r) = entry s (unat r)" by (simp add: entry_def req_block_eq req_page_eq)
  have w: "unat r < 2 ^ 32" using r by simp
  define reset where "reset = (if meta_sn (meta p i) \<noteq> 0 then [Store8 (meta_off i) (set_sn (meta p i) 0)] else [])"
  let ?es = "reset @ [Store_range (first_page n + 4096 * k) c, Store8 (meta_off k) (meta_word r 1), Store8 (meta_off i) 0]"
  let ?p' = "apply_pstores ?es p"
  define s' where "s' = (set_block_page (unat r div 1024) (unat r mod 1024) \<lparr>page_id1 = 0, page_id2 = Suc k\<rparr> s)
    \<lparr>free_list := (free_list s)[free_num s - 1 := meta_off i]\<rparr>"
  have run: "write_req r c s p = Some (0, s', ?es)"
    using one(5) b k(3) n(3) c kk at
    by (cases "entry s (unat r)")
      (auto simp: write_req_def write_replace_def Let_def req_block_eq req_page_eq reset_def meta_def s'_def)
  have s': "free_num s' = free_num s" "free_list s' = (free_list s)[free_num s - 1 := meta_off i]"
    "page_address s' = page_address s" "\<And>q. entry s' q = (if q = unat r then \<lparr>page_id1 = 0, page_id2 = Suc k\<rparr> else entry s q)"
    by (simp_all add: s'_def)
  have "free_stack s' = take (free_num s - 1) (free_list s) @ [meta_off i]"
    using s'(1,2) free n(4,5) take_Suc_update [of "free_num s - 1" "free_list s"] by (simp add: free_stack_def)
  moreover have "meta_off i \<notin> set (free_stack s)" using inv one(2) by (auto simp: cbs_inv_def)
  ultimately have stack: "distinct (free_stack s')" "set (free_stack s') = set (free_stack s) - {meta_off k} \<union> {meta_off i}"
    using k(4) n(6) by auto
  have ik: "i \<noteq> k" using one(2) k(2) by auto
  let ?q = "apply_pstores reset p"
  have q: "view n ?q = view n p" using one(3) by (simp add: reset_def apply_pstores_def)
  have "?p' = store64 (store64 (store_bytes ?q (first_page n + 4096 * k) c) (meta_off k) (meta_word r 1)) (meta_off i) 0"
    by (simp add: apply_pstores_def)
  then have view: "view n ?p' = (view n p)(i := None, k \<mapsto> (unat r, c))"
    using store_new_page [OF k(1) _ c _ meta_req_word(2) [OF w], of ?q] q k(2) one(3) ik by (simp add: view_store8 fun_upd_twist)
  have crash: "header_ok n p' \<and> view n p' \<in> write_views (view n p) (unat r) c k" if "crash_state ?es p p'" for p'
    by (rule write_replace_crash [OF that _ k(1,2) c _ meta_req_word(2) [OF w] n(2) one(2)]) (simp_all add: reset_def)
  have "cbs_inv n s' ?p' \<and> (\<forall>q < 2 ^ 30. cached n s' ?p' q = (if q = unat r then Some c else cached n s p q))"
    using one(1) n(4,5) stack s' view crash [OF crash_all]
    by (intro inv_put [OF inv r k(1,2), where e = "\<lparr>page_id1 = 0, page_id2 = Suc k\<rparr>"]) auto
  then show ?thesis using run crash k(2) s'(1) one(4) unfolding write_result_def by (metis option.distinct(1))
qed

lemma write_req_result:
  assumes inv: "cbs_inv n s p" and r: "unat r < 2 ^ 30" and free: "0 < free_num s" and c: "length c = 4096"
  shows "\<exists>s' es. write_req r c s p = Some (0, s', es) \<and> write_result n s p (unat r) c s' es"
proof -
  obtain k where k: "k < n" "view n p k = None" "top_free s = Some (meta_off k)"
    "free_stack s = take (free_num s - 1) (free_list s) @ [meta_off k]" using top_free_inv [OF inv free] by blast
  show ?thesis
    using inv r
  proof (cases rule: entry_cases)
    case none
    show ?thesis by (rule write_first_result [OF assms k none])
  next
    case (one i d)
    show ?thesis by (rule write_replace_result [OF assms k one])
  qed
qed

lemma push_free_stack:
  assumes "push_free m s = Some s'"
  shows "free_stack s' = free_stack s @ [m] \<and> entry s' = entry s \<and> page_address s' = page_address s \<and>
    length (free_list s') = length (free_list s) \<and> free_num s' = Suc (free_num s) \<and> free_num s' \<le> length (free_list s')"
  using assms by (auto simp: push_free_def free_stack_def take_Suc_update split: if_splits)

lemma push_free_some: "free_num s < length (free_list s) \<Longrightarrow> \<exists>s'. push_free m s = Some s'"
  by (simp add: push_free_def)

text \<open>A cached page leaves room on the stack of free pages.\<close>

lemma free_num_less:
  assumes "cbs_inv n s p" "view n p i = Some x" "i < n"
  shows "free_num s < n"
proof -
  have "card (set (free_stack s)) = free_num s"
    using distinct_card [OF cbs_invD(6) [OF assms(1)]] cbs_invD(4,5) [OF assms(1)] by (simp add: free_stack_def)
  moreover have "set (free_stack s) \<subseteq> meta_off ` ({..<n} - {i})" using assms by (auto simp: cbs_invD(7))
  then have "card (set (free_stack s)) \<le> card ({..<n} - {i})"
    by (meson card_image_le card_mono finite_Diff finite_imageI finite_lessThan order_trans)
  ultimately show ?thesis using assms(3) by simp
qed

lemma delete_page_inv:
  assumes inv: "cbs_inv n s p" and r: "unat r < 2 ^ 30"
  shows "\<exists>s' es. delete_page r s p = Some (s', es) \<and> cbs_inv n s' (apply_pstores es p) \<and>
    (\<forall>q < 2 ^ 30. cached n s' (apply_pstores es p) q = (if q = unat r then None else cached n s p q)) \<and>
    cached_pages_cnt s' = cached_pages_cnt s"
proof -
  have b: "\<not> DISK_BLOCK_NUM < req_block r" "req_block r \<noteq> DISK_BLOCK_NUM" using request_bound [of r] r by auto
  have at: "disk_pages s (req_block r) (req_page r) = entry s (unat r)" by (simp add: entry_def req_block_eq req_page_eq)
  show ?thesis
    using inv r
  proof (cases rule: entry_cases)
    case none
    then have "delete_page r s p = Some (s, [])" using b at by (simp add: delete_page_def Let_def no_block_page_def)
    then show ?thesis using inv none by (auto simp: apply_pstores_def)
  next
    case (one i d)
    let ?s = "set_block_page (unat r div 1024) (unat r mod 1024) no_block_page s"
    have "free_num ?s < length (free_list ?s)" using free_num_less [OF inv one(2,3)] cbs_invD(4) [OF inv] by simp
    then obtain s' where s': "push_free (meta_off i) ?s = Some s'" using push_free_some by blast
    have run: "delete_page r s p = Some (s', [Store8 (meta_off i) 0])"
      using one(5) b at s'
      by (cases "entry s (unat r)") (auto simp: delete_page_def Let_def req_block_eq req_page_eq no_block_page_def)
    have view: "view n (store64 p (meta_off i) 0) = (view n p)(i := None)" using one(3) by (simp add: view_store8)
    note st = push_free_stack [OF s'] and n = cbs_invD [OF inv]
    have "cbs_inv n s' (store64 p (meta_off i) 0) \<and>
        (\<forall>q < 2 ^ 30. cached n s' (store64 p (meta_off i) 0) q = (if q = unat r then None else cached n s p q))"
      using st n(2,4) view by (intro inv_drop [OF inv r one(1)]) auto
    moreover have "cached_pages_cnt s' = cached_pages_cnt s" using s' by (auto simp: push_free_def split: if_splits)
    ultimately show ?thesis using run by (simp add: apply_pstores_def)
  qed
qed

section \<open>Reading\<close>

text \<open>The bytes that the caller of \<open>read_req\<close> copies, or \<open>None\<close> for a null pointer.\<close>

definition read_page :: "u64 \<Rightarrow> cbs \<Rightarrow> mem \<Rightarrow> bytes option" where
  "read_page r s p = Option.bind (read_req r s p) (map_option (\<lambda>off. load_bytes p off 4096))"

lemma read_page_cached:
  assumes "page_address s = first_page n" "unat r < 2 ^ 30" "page_id1 (entry s (unat r)) = 0 \<or> page_id2 (entry s (unat r)) = 0"
  shows "read_page r s p = cached n s p (unat r)"
proof -
  have b: "\<not> DISK_BLOCK_NUM < req_block r" "req_block r \<noteq> DISK_BLOCK_NUM" using request_bound [of r] assms(2) by auto
  have at: "disk_pages s (req_block r) (req_page r) = entry s (unat r)" by (simp add: entry_def req_block_eq req_page_eq)
  have "PAGE_FROM_META a (PAGE_META_FROM_ID x) = a + 4096 * (x - 1)" for a x
    by (simp add: PAGE_FROM_META_def PAGE_META_FROM_ID_def)
  then show ?thesis
    using assms(1,3) b at by (auto simp: read_page_def read_req_def cached_def slot_def page_def Let_def)
qed

lemma read_page_inv: "cbs_inv n s p \<Longrightarrow> unat r < 2 ^ 30 \<Longrightarrow> read_page r s p = cached n s p (unat r)"
  by (rule read_page_cached [OF cbs_invD(3) _ cbs_invD(8)])

lemma read_page_scanned:
  "scanned p n n s \<Longrightarrow> page_address s = first_page n \<Longrightarrow> unat r < 2 ^ 30 \<Longrightarrow> read_page r s p = cached n s p (unat r)"
  using read_page_cached [of s n r p] by (auto simp: scanned_def)

section \<open>The first start\<close>

definition blank :: "nat \<Rightarrow> mem \<Rightarrow> bool" where
  "blank n p \<longleftrightarrow> load64 p 0 \<noteq> MAGIC_NUMBER \<or> header_ok n p \<and> (\<forall>i < n. meta p i = 0)"

definition first_stores :: "nat \<Rightarrow> pstore list" where
  "first_stores n = [Store_range (meta_off 0) (replicate (64 * n) 0), Store8 8 (of_nat (first_page n)), Store8 0 MAGIC_NUMBER]"

lemma cleared_metas: "i < n \<Longrightarrow> meta (store_bytes p (meta_off 0) (replicate (64 * n) 0)) i = 0"
proof -
  assume "i < n"
  then have "meta (store_bytes p (meta_off 0) (replicate (64 * n) 0)) i = load64 (\<lambda>_. 0) (meta_off i)"
    unfolding meta_def by (intro load64_cong) (auto simp: store_bytes_def meta_off_def)
  also have "\<dots> = 0" by (simp add: load64_def load_bytes_def upt_rec)
  finally show ?thesis .
qed

lemma header_store_metas: "k + 8 \<le> 64 \<Longrightarrow> load64 (store_bytes p (meta_off 0) bs) k = load64 p k"
  by (intro load64_cong store_bytes_outside) (auto simp: meta_off_def)

lemma meta_header_store: "k + 8 \<le> 64 \<Longrightarrow> meta (store64 p k w) i = meta p i"
  unfolding meta_def by (intro load64_cong store64_outside) (auto simp: meta_off_def)

lemma load64_store64_other: "k + 8 \<le> j \<or> j + 8 \<le> k \<Longrightarrow> load64 (store64 p k w) j = load64 p j"
  by (intro load64_cong store64_outside) auto

lemma first_stores_metas: "header_ok n (apply_pstores (first_stores n) p)" "\<forall>i < n. meta (apply_pstores (first_stores n) p) i = 0"
  by (auto simp: header_ok_def first_stores_def apply_pstores_def cleared_metas meta_header_store load64_store64_other)

lemma first_stores_blank: "blank n (apply_pstores (first_stores n) p)"
  using first_stores_metas [of n p] by (simp add: blank_def)

lemma first_stores_crash:
  assumes "crash_state (first_stores n) p p'" "load64 p 0 \<noteq> MAGIC_NUMBER"
  shows "blank n p'"
proof -
  let ?p1 = "store_bytes p (meta_off 0) (replicate (64 * n) 0)"
  let ?p2 = "store64 ?p1 8 (of_nat (first_page n))"
  have m: "load64 ?p1 0 \<noteq> MAGIC_NUMBER" "load64 ?p2 0 \<noteq> MAGIC_NUMBER"
    using assms(2) by (simp_all add: header_store_metas load64_store64_other)
  from assms(1) consider "p' = p" | "\<forall>k. k < 64 \<longrightarrow> p' k = p k" | "p' = ?p1" | "p' = ?p2" | "p' = apply_pstores (first_stores n) p"
    unfolding first_stores_def
    by (elim crash_rangeE crash_Store8E) (auto simp: meta_off_def apply_pstores_def elim!: crash_Store8E crash_NilE)
  then show ?thesis
  proof cases
    case 2
    then have "load64 p' 0 = load64 p 0" by (intro load64_cong) auto
    then show ?thesis using assms(2) by (simp add: blank_def)
  qed (use assms(2) m first_stores_blank in \<open>auto simp: blank_def\<close>)
qed

lemma blank_view: "(\<forall>i < n. meta p i = 0) \<Longrightarrow> view n p = (\<lambda>_. None)"
  by (auto simp: view_def fun_eq_iff)

lemma fresh_inv:
  assumes "n < 2 ^ 31" "header_ok n p" "\<forall>i < n. meta p i = 0" "page_address s = first_page n"
    and "free_list s = map meta_off [0..<n]" "free_num s = n" "disk_pages s = (\<lambda>_ _. no_block_page)"
  shows "cbs_inv n s p \<and> (\<forall>r. cached n s p r = None)"
proof -
  have "slot s r = 0" "entry s r = no_block_page" for r using assms(7) by (simp_all add: slot_def entry_def no_block_page_def)
  then show ?thesis
    using assms(1-6) blank_view [OF assms(3)]
    by (intro conjI cbs_invI) (auto simp: cached_def free_stack_def distinct_map inj_on_def no_block_page_def)
qed

lemma blank_restart:
  assumes "blank n p" "n < 2 ^ 31" "length garbage = n"
  shows "\<exists>s' es. restart garbage n p s = Some (0, s', es) \<and> cbs_inv n s' (apply_pstores es p) \<and>
    (\<forall>r < 2 ^ 30. cached n s' (apply_pstores es p) r = None) \<and> free_num s' = n \<and> (\<forall>p'. crash_state es p p' \<longrightarrow> blank n p')"
proof (cases "load64 p 0 = MAGIC_NUMBER")
  case False
  let ?s = "s\<lparr>disk_pages := \<lambda>_ _. no_block_page, cached_pages_cnt := \<lambda>_. 0, free_list := map meta_off [0..<n], free_num := n,
    page_address := first_page n\<rparr>"
  have run: "restart garbage n p s = Some (0, ?s, first_stores n)"
    using False by (simp add: restart_def cbs_init_def first_stores_def Let_def)
  from fresh_inv [OF assms(2) first_stores_metas, of ?s p] show ?thesis using run first_stores_crash [OF _ False] by auto
next
  case True
  then have h: "header_ok n p" "\<forall>i < n. meta p i = 0" using assms(1) by (auto simp: blank_def)
  have V: "view n p = (\<lambda>_. None)" by (rule blank_view [OF h(2)])
  then have "reqs_ok n p" by (simp add: reqs_ok_view)
  from restart_scans [OF h(1) this assms(2,3)] obtain s' where s': "restart garbage n p s = Some (0, s', [])"
    "scanned p n n s'" "page_address s' = first_page n" by blast
  have "cbs_inv n s' p" using scanned_inv [OF s'(2) h(1) \<open>reqs_ok n p\<close> assms(2) s'(3)] V by (simp add: holds_view)
  moreover have "cached n s' p r = None" if "r < 2 ^ 30" for r
    using restart_reads(1) [OF s'(2) that] V by (simp add: contents_view)
  moreover have "free_num s' = n"
    using s'(2) h(2) by (simp add: scanned_def free_metas_def)
  ultimately show ?thesis using s'(1) assms(1) by (auto simp: apply_pstores_def elim: crash_NilE)
qed

section \<open>Restarting after a crash in a write\<close>

lemma write_views_reqs:
  assumes "view n p' \<in> write_views (view n p) r c k" "reqs_ok n p" "r < 2 ^ 30"
  shows "reqs_ok n p'"
proof -
  have "view n p i = Some (q, d) \<Longrightarrow> q < 2 ^ 30" for i q d using assms(2) unfolding reqs_ok_view by blast
  then show ?thesis using assms(1,3) unfolding reqs_ok_view write_views_def by (auto split: if_splits)
qed

lemma write_views_contents:
  assumes "view n p' \<in> write_views (view n p) r c k" "view n p k = None"
  shows "q \<noteq> r \<Longrightarrow> contents n p' q = contents n p q" "contents n p' r \<subseteq> insert c (contents n p r)"
    "contents n p r \<noteq> {} \<Longrightarrow> contents n p' r \<noteq> {}"
proof -
  from assms(1) consider "view n p' = view n p" | "view n p' = (view n p)(k \<mapsto> (r, c))"
    | i d where "view n p' = (view n p)(i := None, k \<mapsto> (r, c))" "view n p i = Some (r, d)"
    by (auto simp: write_views_def)
  note cases = this
  show "contents n p' q = contents n p q" if "q \<noteq> r"
  proof -
    have "view n p' j = Some (q, x) \<longleftrightarrow> view n p j = Some (q, x)" for j x
      by (rule cases) (use that assms(2) in auto)
    then show ?thesis by (simp add: contents_view)
  qed
  show "contents n p' r \<subseteq> insert c (contents n p r)"
    by (rule cases) (auto simp: contents_view split: if_splits)
  show "contents n p' r \<noteq> {}" if "contents n p r \<noteq> {}"
    by (rule cases) (use that in \<open>auto simp: contents_view\<close>)
qed

lemma restart_others:
  assumes "cbs_inv n s p" "view n p k = None" "view n p' \<in> write_views (view n p) r c k" "scanned p' n n s1" "q < 2 ^ 30" "q \<noteq> r"
  shows "cached n s1 p' q = cached n s p q"
proof -
  have "contents n p' q = set_option (cached n s p q)"
    using write_views_contents(1) [OF assms(3,2,6)] cbs_inv_contents [OF assms(1,5)] by simp
  then show ?thesis using restart_reads [OF assms(4,5)] by (cases "cached n s1 p' q"; cases "cached n s p q") auto
qed

lemma restart_atomic:
  assumes "cbs_inv n s p" "r < 2 ^ 30" "view n p k = None" "view n p' \<in> write_views (view n p) r c k" "scanned p' n n s1"
  shows "cached n s1 p' r = cached n s p r \<or> cached n s1 p' r = Some c"
proof -
  have "contents n p' r \<subseteq> insert c (set_option (cached n s p r))" "cached n s p r \<noteq> None \<Longrightarrow> contents n p' r \<noteq> {}"
    using write_views_contents(2,3) [OF assms(4,3)] cbs_inv_contents [OF assms(1,2)] by auto
  then show ?thesis using restart_reads [OF assms(5,2)] by (cases "cached n s1 p' r"; cases "cached n s p r") auto
qed

end
