(* ===== verification/Page_Store.thy ===== *)
theory Page_Store
  imports Nvm
begin

text \<open>
  The interface that the page caches of \<^verbatim>\<open>cbs_req\<close> share: writing a page of 4096 bytes under a request number and
  reading it back. Its client is the benchmark that every \<open>main\<close> of that directory runs.
\<close>

section \<open>The benchmark\<close>

text \<open>The loops of \<open>main\<close>; a null pointer from a read is \<open>None\<close>, since its page is copied unchecked.\<close>

primrec write_all :: "(nat \<Rightarrow> bytes \<Rightarrow> 's \<Rightarrow> 's option) \<Rightarrow> nat list \<Rightarrow> bytes \<Rightarrow> 's \<Rightarrow> 's option" where
  "write_all put [] c s = Some s"
| "write_all put (r # rs) c s = Option.bind (put r c s) (write_all put rs c)"

primrec read_all :: "(nat \<Rightarrow> 's \<Rightarrow> bytes option) \<Rightarrow> nat list \<Rightarrow> bytes \<Rightarrow> 's \<Rightarrow> bytes option" where
  "read_all get [] buf s = Some buf"
| "read_all get (r # rs) buf s = Option.bind (get r s) (\<lambda>c. read_all get rs c s)"

primrec delete_all :: "(nat \<Rightarrow> 's \<Rightarrow> 's option) \<Rightarrow> nat list \<Rightarrow> 's \<Rightarrow> 's option" where
  "delete_all del [] s = Some s"
| "delete_all del (r # rs) s = Option.bind (del r s) (delete_all del rs)"

text \<open>
  Write \<open>w\<close> pages, overwrite the first \<open>k\<close>, read these and then the others; the result has the last page that
  each of the two loops read.
\<close>

definition benchmark ::
    "(nat \<Rightarrow> bytes \<Rightarrow> 's \<Rightarrow> 's option) \<Rightarrow> (nat \<Rightarrow> 's \<Rightarrow> bytes option) \<Rightarrow> nat \<Rightarrow> nat \<Rightarrow> bytes \<Rightarrow> bytes \<Rightarrow> 's \<Rightarrow>
     ('s \<times> bytes \<times> bytes) option" where
  "benchmark put get w k page1 page2 s =
    Option.bind (write_all put [0..<w] page1 s) (\<lambda>s.
    Option.bind (write_all put [0..<k] page2 s) (\<lambda>s.
    Option.bind (read_all get [0..<k] page2 s) (\<lambda>b1.
    map_option (\<lambda>b2. (s, b1, b2)) (read_all get [k..<w] b1 s))))"

definition WRITE_COUNT :: nat where "WRITE_COUNT = 100000"
definition OVERWRITE_COUNT :: nat where "OVERWRITE_COUNT = 10000"

definition page_of :: "u8 \<Rightarrow> bytes" where
  "page_of b = replicate 4096 b"

section \<open>The interface\<close>

text \<open>
  \<open>room m s\<close>: at least \<open>m\<close> pages can still be allocated. A write needs one free page and keeps one free page when it
  replaces a page.
\<close>

locale page_store =
  fixes inv :: "'s \<Rightarrow> bool" and room :: "nat \<Rightarrow> 's \<Rightarrow> bool" and valid :: "nat \<Rightarrow> bool"
    and put :: "nat \<Rightarrow> bytes \<Rightarrow> 's \<Rightarrow> 's option" and get :: "nat \<Rightarrow> 's \<Rightarrow> bytes option"
  assumes room_less: "room (Suc m) s \<Longrightarrow> room m s"
    and put_ok: "inv s \<Longrightarrow> valid r \<Longrightarrow> room (Suc m) s \<Longrightarrow> length c = 4096 \<Longrightarrow>
      \<exists>s'. put r c s = Some s' \<and> inv s' \<and> (\<forall>q. valid q \<longrightarrow> get q s' = (if q = r then Some c else get q s)) \<and>
        room (if get r s = None then m else Suc m) s'"
begin

lemma write_all_ok:
  assumes "inv s" "\<forall>r \<in> set rs. valid r" "room (m + length rs) s" "0 < m" "length c = 4096"
  shows "\<exists>s'. write_all put rs c s = Some s' \<and> inv s' \<and> room m s' \<and>
    (\<forall>q. valid q \<longrightarrow> get q s' = (if q \<in> set rs then Some c else get q s))"
  using assms(1-3)
proof (induction rs arbitrary: s)
  case (Cons r rs)
  then obtain s1 where s1: "put r c s = Some s1" "inv s1" "\<forall>q. valid q \<longrightarrow> get q s1 = (if q = r then Some c else get q s)"
    "room (if get r s = None then m + length rs else Suc (m + length rs)) s1"
    using put_ok [of s r "m + length rs" c] assms(5) by auto
  then have "room (m + length rs) s1" using room_less by (auto split: if_splits)
  from Cons.IH [OF s1(2) _ this] Cons.prems(2) obtain s' where
    "write_all put rs c s1 = Some s'" "inv s'" "room m s'"
    "\<forall>q. valid q \<longrightarrow> get q s' = (if q \<in> set rs then Some c else get q s1)" by auto
  then show ?case using s1(1,3) by auto
qed simp

text \<open>Overwriting needs one free page only.\<close>

lemma overwrite_all_ok:
  assumes "inv s" "\<forall>r \<in> set rs. valid r \<and> get r s \<noteq> None" "room (Suc m) s" "length c = 4096"
  shows "\<exists>s'. write_all put rs c s = Some s' \<and> inv s' \<and> room (Suc m) s' \<and>
    (\<forall>q. valid q \<longrightarrow> get q s' = (if q \<in> set rs then Some c else get q s))"
  using assms(1-3)
proof (induction rs arbitrary: s)
  case (Cons r rs)
  then obtain s1 where s1: "put r c s = Some s1" "inv s1" "\<forall>q. valid q \<longrightarrow> get q s1 = (if q = r then Some c else get q s)"
    "room (Suc m) s1"
    using put_ok [of s r m c] assms(4) by auto
  have "\<forall>r \<in> set rs. valid r \<and> get r s1 \<noteq> None" using Cons.prems(2) s1(3) by auto
  from Cons.IH [OF s1(2) this s1(4)] obtain s' where
    "write_all put rs c s1 = Some s'" "inv s'" "room (Suc m) s'"
    "\<forall>q. valid q \<longrightarrow> get q s' = (if q \<in> set rs then Some c else get q s1)" by blast
  then show ?case using s1(1,3) by auto
qed simp

lemma read_all_ok:
  "\<forall>r \<in> set rs. get r s = Some c \<Longrightarrow> rs \<noteq> [] \<Longrightarrow> read_all get rs buf s = Some c"
proof (induction rs arbitrary: buf)
  case (Cons r rs)
  then show ?case by (cases rs) auto
qed simp

text \<open>The benchmark reads back what it wrote: the second page below \<open>k\<close>, the first page above.\<close>

lemma benchmark_ok:
  assumes "inv s" "\<forall>r < w. valid r" "room (Suc w) s" "0 < k" "k < w" "length page1 = 4096" "length page2 = 4096"
  shows "\<exists>s'. benchmark put get w k page1 page2 s = Some (s', page2, page1) \<and> inv s' \<and> room 1 s' \<and>
    (\<forall>r < w. get r s' = Some (if r < k then page2 else page1))"
proof -
  obtain s1 where s1: "write_all put [0..<w] page1 s = Some s1" "inv s1" "room (Suc 0) s1"
    "\<forall>q. valid q \<longrightarrow> get q s1 = (if q \<in> {0..<w} then Some page1 else get q s)"
    using write_all_ok [OF assms(1), of "[0..<w]" "Suc 0" page1] assms(2,3,6) by auto
  have "\<forall>r \<in> set [0..<k]. valid r \<and> get r s1 \<noteq> None" using s1(4) assms(2,5) by auto
  from overwrite_all_ok [OF s1(2) this s1(3) assms(7)] obtain s2 where s2: "write_all put [0..<k] page2 s1 = Some s2" "inv s2"
    "room (Suc 0) s2" "\<forall>q. valid q \<longrightarrow> get q s2 = (if q \<in> {0..<k} then Some page2 else get q s1)" by auto
  have get: "\<forall>r < w. get r s2 = Some (if r < k then page2 else page1)" using s1(4) s2(4) assms(2,5) by auto
  then have "read_all get [0..<k] page2 s2 = Some page2" "read_all get [k..<w] page2 s2 = Some page1"
    using assms(4,5) by (auto intro!: read_all_ok)
  then show ?thesis using s1(1) s2(1-3) get by (simp add: benchmark_def)
qed

end

text \<open>A store whose pages can be deleted, which makes room for others.\<close>

locale deleting_store = page_store +
  fixes del :: "nat \<Rightarrow> 's \<Rightarrow> 's option"
  assumes del_ok: "inv s \<Longrightarrow> valid r \<Longrightarrow> room m s \<Longrightarrow>
      \<exists>s'. del r s = Some s' \<and> inv s' \<and> (\<forall>q. valid q \<longrightarrow> get q s' = (if q = r then None else get q s)) \<and>
        room (if get r s = None then m else Suc m) s'"
begin

lemma delete_all_ok:
  assumes "inv s" "\<forall>r \<in> set rs. valid r \<and> get r s \<noteq> None" "distinct rs" "room m s"
  shows "\<exists>s'. delete_all del rs s = Some s' \<and> inv s' \<and> room (m + length rs) s' \<and>
    (\<forall>q. valid q \<longrightarrow> get q s' = (if q \<in> set rs then None else get q s))"
  using assms
proof (induction rs arbitrary: s m)
  case (Cons r rs)
  then obtain s1 where s1: "del r s = Some s1" "inv s1" "\<forall>q. valid q \<longrightarrow> get q s1 = (if q = r then None else get q s)" "room (Suc m) s1"
    using del_ok [of s r m] by auto
  have "\<forall>r \<in> set rs. valid r \<and> get r s1 \<noteq> None" using Cons.prems(2,3) s1(3) by auto
  from Cons.IH [OF s1(2) this _ s1(4)] Cons.prems(3) obtain s' where
    "delete_all del rs s1 = Some s'" "inv s'" "room (Suc m + length rs) s'"
    "\<forall>q. valid q \<longrightarrow> get q s' = (if q \<in> set rs then None else get q s1)" by auto
  then show ?case using s1(1,3) by auto
qed simp

text \<open>Deleting every page and writing them again.\<close>

lemma rewrite_ok:
  assumes "inv s" "\<forall>r < w. valid r \<and> get r s \<noteq> None" "room 1 s" "k \<le> w" "length page1 = 4096" "length page2 = 4096"
  shows "\<exists>s1 s2 s3. delete_all del [0..<w] s = Some s1 \<and> write_all put [0..<w] page1 s1 = Some s2 \<and>
    write_all put [0..<k] page2 s2 = Some s3 \<and> inv s3 \<and> (\<forall>r < w. get r s3 = Some (if r < k then page2 else page1))"
proof -
  obtain s1 where s1: "delete_all del [0..<w] s = Some s1" "inv s1" "room (1 + w) s1"
    using delete_all_ok [OF assms(1), of "[0..<w]" 1] assms(2,3) by auto
  then obtain s2 where s2: "write_all put [0..<w] page1 s1 = Some s2" "inv s2" "room (Suc 0) s2"
    "\<forall>q. valid q \<longrightarrow> get q s2 = (if q \<in> set [0..<w] then Some page1 else get q s1)"
    using write_all_ok [of s1 "[0..<w]" "Suc 0" page1] assms(2,5) by auto
  then have "\<forall>r \<in> set [0..<k]. valid r \<and> get r s2 \<noteq> None" using assms(2,4) by auto
  from overwrite_all_ok [OF s2(2) this s2(3) assms(6)] obtain s3 where "write_all put [0..<k] page2 s2 = Some s3" "inv s3"
    "\<forall>q. valid q \<longrightarrow> get q s3 = (if q \<in> set [0..<k] then Some page2 else get q s2)" by blast
  then show ?thesis using s1(1) s2(1,4) assms(2) by auto
qed

end

end
