(* ===== verification/Cbs_Pmem_System.thy ===== *)
theory Cbs_Pmem_System
  imports Cbs_Pmem_Recovery Page_Store
begin

text \<open>
  The persistent page cache as a page store, its benchmark, and the properties of the cache: it
  implements a map from requests to pages, a restart keeps the map, a write is atomic with respect to
  crashes, and where the code goes wrong.
\<close>

section \<open>The benchmark\<close>

definition cbs_put :: "nat \<Rightarrow> bytes \<Rightarrow> cbs \<times> mem \<Rightarrow> (cbs \<times> mem) option" where
  "cbs_put r c sp = (case sp of (s, p) \<Rightarrow> map_option (\<lambda>(_, s', es). (s', apply_pstores es p)) (write_req (of_nat r) c s p))"

definition cbs_get :: "nat \<Rightarrow> cbs \<times> mem \<Rightarrow> bytes option" where
  "cbs_get r sp = (case sp of (s, p) \<Rightarrow> read_page (of_nat r) s p)"

text \<open>\<open>main\<close>: what the two reading loops leave in the buffer; a failed \<open>cbs_init\<close> leaves null pointers behind.\<close>

definition main :: "bool \<Rightarrow> bool \<Rightarrow> bool \<Rightarrow> bool \<Rightarrow> nat list \<Rightarrow> nat \<Rightarrow> mem \<Rightarrow> cbs \<Rightarrow> ((cbs \<times> mem) \<times> bytes \<times> bytes) option" where
  "main map_ok calloc_ok malloc1_ok malloc2_ok garbage n p s =
    Option.bind (cbs_init map_ok calloc_ok malloc1_ok malloc2_ok garbage n p s) (\<lambda>(ret, s, es).
      if ret \<noteq> 0 then None
      else benchmark cbs_put cbs_get WRITE_COUNT OVERWRITE_COUNT (page_of 0xab) (page_of 0xcd) (s, apply_pstores es p))"

lemma unat_request: "r < 2 ^ 30 \<Longrightarrow> unat (of_nat r :: u64) = r"
  by (simp add: unsigned_of_nat take_bit_nat_eq_self)

lemma cbs_get_inv: "cbs_inv n s p \<Longrightarrow> r < 2 ^ 30 \<Longrightarrow> cbs_get r (s, p) = cached n s p r"
  using read_page_inv [of n s p "of_nat r"] unat_request [of r] by (simp add: cbs_get_def)

interpretation cbs: page_store "\<lambda>(s, p). cbs_inv n s p" "\<lambda>m (s, p). m \<le> free_num s" "\<lambda>r. r < 2 ^ 30" cbs_put cbs_get for n
proof
  fix m s
  show "(\<lambda>(s, p). Suc m \<le> free_num s) s \<Longrightarrow> (\<lambda>(s, p). m \<le> free_num s) s" by auto
next
  fix sp :: "cbs \<times> mem" and r m :: nat and c :: bytes
  assume "(\<lambda>(s, p). cbs_inv n s p) sp" "r < 2 ^ 30" "(\<lambda>(s, p). Suc m \<le> free_num s) sp" "length c = 4096"
  moreover obtain s p where sp: "sp = (s, p)" by (cases sp)
  ultimately have h: "cbs_inv n s p" "r < 2 ^ 30" "0 < free_num s" "m < free_num s" "length c = 4096" by auto
  obtain s' es where run: "write_req (of_nat r) c s p = Some (0, s', es)" and w: "write_result n s p r c s' es"
    using write_req_result [OF h(1) _ h(3,5), of "of_nat r"] unat_request [OF h(2)] h(2) by auto
  have inv: "cbs_inv n s' (apply_pstores es p)" using w by (simp add: write_result_def)
  have "cbs_put r c sp = Some (s', apply_pstores es p)" using run by (simp add: cbs_put_def sp)
  moreover have "cbs_get q (s', apply_pstores es p) = (if q = r then Some c else cbs_get q sp)" if "q < 2 ^ 30" for q
    using w that cbs_get_inv [OF inv that] cbs_get_inv [OF h(1) that] by (simp add: write_result_def sp)
  moreover have "(if cbs_get r sp = None then m else Suc m) \<le> free_num s'"
    using w h(2,4) cbs_get_inv [OF h(1,2)] by (auto simp: write_result_def sp)
  ultimately show "\<exists>s'. cbs_put r c sp = Some s' \<and> (\<lambda>(s, p). cbs_inv n s p) s' \<and>
      (\<forall>q. q < 2 ^ 30 \<longrightarrow> cbs_get q s' = (if q = r then Some c else cbs_get q sp)) \<and>
      (\<lambda>(s, p). (if cbs_get r sp = None then m else Suc m) \<le> free_num s) s'"
    using inv by auto
qed

section \<open>A cache of three pages\<close>

definition tiny :: cbs where
  "tiny = \<lparr>disk_pages = \<lambda>_ _. no_block_page, cached_pages_cnt = \<lambda>_. 0, free_num = 3, free_list = [64, 128, 192], page_address = 4096\<rparr>"

definition tiny_mem :: mem where
  "tiny_mem = apply_pstores (first_stores 3) (\<lambda>_. 0)"

lemma tiny_consts: "first_page 3 = 4096" "map meta_off [0..<3] = [64, 128, 192]"
  by (simp_all add: first_page_def meta_off_def upt_rec)

lemma tiny_blank: "load64 (\<lambda>_. 0) 0 \<noteq> MAGIC_NUMBER"
  by (simp add: load64_def load_bytes_def upt_rec MAGIC_NUMBER_def)

lemma tiny_run: "cbs_init True True True True [0, 0, 0] 3 (\<lambda>_. 0) s = Some (0, cbs.extend tiny (cbs.more s), first_stores 3)"
  using tiny_blank tiny_consts by (simp add: cbs_init_def first_stores_def tiny_def Let_def cbs.defs)

lemma tiny_inv: "cbs_inv 3 tiny tiny_mem" "cached 3 tiny tiny_mem r = None"
proof -
  have "cbs_inv 3 tiny tiny_mem \<and> (\<forall>r. cached 3 tiny tiny_mem r = None)"
    using tiny_consts first_stores_metas by (intro fresh_inv) (simp_all add: tiny_def tiny_mem_def)
  then show "cbs_inv 3 tiny tiny_mem" "cached 3 tiny tiny_mem r = None" by auto
qed

lemma length_page_of [simp]: "length (page_of b) = 4096"
  by (simp add: page_of_def)

text \<open>Loads behind stores at other addresses.\<close>

lemma loads_elsewhere:
  "k + 8 \<le> off \<or> off + length bs \<le> k \<Longrightarrow> load64 (store_bytes p off bs) k = load64 p k"
  "k + m \<le> off \<or> off + 8 \<le> k \<Longrightarrow> load_bytes (store64 p off w) k m = load_bytes p k m"
  "k + m \<le> off \<or> off + length bs \<le> k \<Longrightarrow> load_bytes (store_bytes p off bs) k m = load_bytes p k m"
  by (auto intro!: load64_cong load_bytes_cong store_bytes_outside store64_outside)

lemma load_stored_page: "length bs = 4096 \<Longrightarrow> load_bytes (store_bytes p off bs) off 4096 = bs"
  using load_store_same [of p off bs] by simp

lemmas tiny_loads = loads_elsewhere load_stored_page load64_store64_other

lemma tiny_mem_loads:
  "load64 tiny_mem 0 = MAGIC_NUMBER" "load64 tiny_mem 8 = 4096" "load64 tiny_mem 64 = 0" "load64 tiny_mem 128 = 0" "load64 tiny_mem 192 = 0"
proof -
  have h: "header_ok 3 tiny_mem" "\<forall>i < 3. meta tiny_mem i = 0" using first_stores_metas by (simp_all add: tiny_mem_def)
  then show "load64 tiny_mem 0 = MAGIC_NUMBER" "load64 tiny_mem 8 = 4096" by (simp_all add: header_ok_def tiny_consts)
  have "meta tiny_mem 0 = 0" "meta tiny_mem 1 = 0" "meta tiny_mem 2 = 0" using h(2) by auto
  then show "load64 tiny_mem 64 = 0" "load64 tiny_mem 128 = 0" "load64 tiny_mem 192 = 0" by (simp_all add: meta_def meta_off_def)
qed

lemma tiny_words:
  "meta_valid 1" "meta_valid 3" "meta_sn 1 = 0" "meta_req_id 1 = 0" "meta_req_id 3 = 0" "meta_word 0 1 = 3"
  by (simp_all add: meta_valid_def meta_sn_def meta_req_id_def meta_word_def drop_bit_eq_div)

text \<open>A state of the small cache: the two entries of request 0, and the free pages.\<close>

definition tiny_state :: "nat \<Rightarrow> nat \<Rightarrow> u32 \<Rightarrow> nat \<Rightarrow> nat list \<Rightarrow> cbs" where
  "tiny_state id1 id2 cnt f fl = \<lparr>disk_pages = (\<lambda>_ _. no_block_page)(0 := (\<lambda>_. no_block_page)(0 := \<lparr>page_id1 = id1, page_id2 = id2\<rparr>)),
     cached_pages_cnt = (\<lambda>_. 0)(0 := cnt), free_num = f, free_list = fl, page_address = 4096\<rparr>"

lemma tiny_is_state: "tiny = tiny_state 0 0 0 3 [64, 128, 192]"
  by (simp add: tiny_def tiny_state_def no_block_page_def fun_eq_iff)

lemma tiny_request: "req_block 0 = 0" "req_page 0 = 0" "DISK_BLOCK_NUM = 1048576"
  by (simp_all add: req_block_eq req_page_eq DISK_BLOCK_NUM_def)

lemmas tiny_run_defs = tiny_state_def tiny_request tiny_words top_free_def set_block_page_def no_block_page_def Let_def
  PAGE_ID_FROM_META_def PAGE_FROM_META_def PAGE_META_FROM_ID_def

lemma tiny_write_first:
  "length c = 4096 \<Longrightarrow> write_req 0 c (tiny_state 0 0 0 3 [64, 128, 192]) p =
    Some (0, tiny_state 3 0 1 2 [64, 128, 192], [Store_range 12288 c, Store8 192 1])"
  by (simp add: write_req_def write_first_def tiny_run_defs fun_eq_iff)

lemma tiny_write_replace:
  "length c = 4096 \<Longrightarrow> load64 p 192 = 1 \<Longrightarrow> 0 < f \<Longrightarrow> f \<le> length fl \<Longrightarrow> fl ! (f - 1) = 64 * Suc i \<Longrightarrow> i < 3 \<Longrightarrow>
   write_req 0 c (tiny_state 3 0 cnt f fl) p = Some (0, tiny_state 0 (Suc i) cnt f (fl[f - 1 := 192]),
     [Store_range (4096 * Suc i) c, Store8 (64 * Suc i) 3, Store8 192 0])"
  by (simp add: write_req_def write_replace_def tiny_run_defs fun_eq_iff)

lemma tiny_read:
  "read_page 0 (tiny_state (Suc i) 0 cnt f fl) p = Some (load_bytes p (4096 * Suc i) 4096)"
  "read_page 0 (tiny_state 0 (Suc i) cnt f fl) p = Some (load_bytes p (4096 * Suc i) 4096)"
  by (simp_all add: read_page_def read_req_def tiny_run_defs)

section \<open>Properties\<close>

text \<open>
  C15: A write to the page cache is atomic with respect to crashes. From a consistent state with a free
  page \<open>write_req\<close> returns 0, and after a crash at any moment of it, also in the middle of copying the page, a
  restart succeeds, the request reads its old page or the whole new one, and every other request reads what it read before.
\<close>

theorem page_write_is_crash_atomic:
  assumes "cbs_inv n s p" "unat r < 2 ^ 30" "0 < free_num s" "length c = 4096" "length garbage = n"
    and "write_req r c s p = Some (ret, s', es)" "crash_state es p p'"
  shows "ret = 0 \<and> (\<exists>s1. cbs_init True True True True garbage n p' s0 = Some (0, s1, []) \<and>
    (read_page r s1 p' = read_page r s p \<or> read_page r s1 p' = Some c) \<and>
    (\<forall>q. unat q < 2 ^ 30 \<longrightarrow> q \<noteq> r \<longrightarrow> read_page q s1 p' = read_page q s p))"
proof -
  have w: "write_result n s p (unat r) c s' es" and ret: "ret = 0"
    using write_req_result [OF assms(1-4)] assms(6) by auto
  obtain k where h: "header_ok n p'" and k: "view n p k = None" "view n p' \<in> write_views (view n p) (unat r) c k"
    using w assms(7) by (auto simp: write_result_def)
  have reqs: "reqs_ok n p'"
    using write_views_reqs [OF k(2) cbs_inv_reqs [OF assms(1)] assms(2)] by simp
  obtain s1 where s1: "restart garbage n p' s0 = Some (0, s1, [])" "scanned p' n n s1" "page_address s1 = first_page n"
    using restart_scans [OF h reqs cbs_invD(1) [OF assms(1)] assms(5)] by blast
  have read: "read_page q s1 p' = cached n s1 p' (unat q)" if "unat q < 2 ^ 30" for q
    by (rule read_page_scanned [OF s1(2,3) that])
  have "cached n s1 p' (unat r) = cached n s p (unat r) \<or> cached n s1 p' (unat r) = Some c"
    using restart_atomic [OF assms(1,2) k s1(2)] by blast
  moreover have "cached n s1 p' q = cached n s p q" if "q < 2 ^ 30" "q \<noteq> unat r" for q
    using restart_others [OF assms(1) k s1(2) that] .
  ultimately show ?thesis
    using s1(1) ret read read_page_inv [OF assms(1)] assms(2) by (auto simp: restart_def word_unat_eq_iff)
qed

theorem page_write_is_crash_atomic_witness:
  "\<exists>s1. cbs_init True True True True [0, 0, 0] 3 tiny_mem tiny = Some (0, s1, []) \<and>
     (read_page 0 s1 tiny_mem = read_page 0 tiny tiny_mem \<or> read_page 0 s1 tiny_mem = Some (page_of 7))"
proof -
  obtain s' es where "write_req 0 (page_of 7) tiny tiny_mem = Some (0, s', es)"
    using write_req_result [OF tiny_inv(1), of 0 "page_of 7"] by (auto simp: tiny_def)
  from page_write_is_crash_atomic [OF tiny_inv(1) _ _ _ _ this crash_state.before, of "[0, 0, 0]" tiny]
  show ?thesis by (auto simp: tiny_def)
qed

text \<open>
  C16: The cache implements a map from requests to pages. In a consistent state with a free page a write returns 0
  and afterwards the request reads its page and every other request what it read before; a deletion
  removes the page of its request only; both keep the state consistent. A deletion does not decrease
  the count of cached pages.
\<close>

theorem page_cache_refines_map:
  assumes "cbs_inv n s p" "unat r < 2 ^ 30" "length c = 4096"
  shows "(0 < free_num s \<longrightarrow> (\<exists>s' es. write_req r c s p = Some (0, s', es) \<and> cbs_inv n s' (apply_pstores es p) \<and>
      (\<forall>q. unat q < 2 ^ 30 \<longrightarrow> read_page q s' (apply_pstores es p) = (if q = r then Some c else read_page q s p)))) \<and>
    (\<exists>s' es. delete_page r s p = Some (s', es) \<and> cbs_inv n s' (apply_pstores es p) \<and>
      (\<forall>q. unat q < 2 ^ 30 \<longrightarrow> read_page q s' (apply_pstores es p) = (if q = r then None else read_page q s p)) \<and>
      cached_pages_cnt s' = cached_pages_cnt s)"
proof -
  note read = read_page_inv
  have "\<exists>s' es. write_req r c s p = Some (0, s', es) \<and> cbs_inv n s' (apply_pstores es p) \<and>
      (\<forall>q. unat q < 2 ^ 30 \<longrightarrow> read_page q s' (apply_pstores es p) = (if q = r then Some c else read_page q s p))" if free: "0 < free_num s"
  proof -
    obtain s' es where run: "write_req r c s p = Some (0, s', es)" and w: "write_result n s p (unat r) c s' es"
      using write_req_result [OF assms(1,2) free assms(3)] by blast
    then have inv: "cbs_inv n s' (apply_pstores es p)" by (simp add: write_result_def)
    then show ?thesis using run w read [OF inv] read [OF assms(1)] by (auto simp: write_result_def word_unat_eq_iff)
  qed
  moreover obtain s' es where del: "delete_page r s p = Some (s', es)" and inv: "cbs_inv n s' (apply_pstores es p)"
    and same: "\<forall>q < 2 ^ 30. cached n s' (apply_pstores es p) q = (if q = unat r then None else cached n s p q)"
      "cached_pages_cnt s' = cached_pages_cnt s"
    using delete_page_inv [OF assms(1,2)] by blast
  then have "\<forall>q. unat q < 2 ^ 30 \<longrightarrow> read_page q s' (apply_pstores es p) = (if q = r then None else read_page q s p)"
    using read [OF inv] read [OF assms(1)] by (auto simp: word_unat_eq_iff)
  ultimately show ?thesis using del inv same(2) by blast
qed

theorem page_cache_refines_map_witness:
  "\<exists>s' es. write_req 5 (page_of 7) tiny tiny_mem = Some (0, s', es) \<and> read_page 5 s' (apply_pstores es tiny_mem) = Some (page_of 7)"
  using page_cache_refines_map [OF tiny_inv(1), of 5 "page_of 7"] by (auto simp: tiny_def)

text \<open>
  C17: A restart keeps the cache. From the persistent memory of a consistent state \<open>cbs_init\<close> rebuilds a consistent
  state in which every request reads the same page, without storing anything; from a memory that was
  never used, or whose first start was cut short by a crash, it makes an empty consistent state.
\<close>

theorem restart_keeps_pages:
  assumes "length garbage = n"
  shows "(cbs_inv n s p \<longrightarrow> (\<exists>s'. cbs_init True True True True garbage n p s0 = Some (0, s', []) \<and> cbs_inv n s' p \<and>
      (\<forall>q. unat q < 2 ^ 30 \<longrightarrow> read_page q s' p = read_page q s p))) \<and>
    (n < 2 ^ 31 \<and> load64 p0 MAGIC_OFF \<noteq> MAGIC_NUMBER \<longrightarrow>
      (\<exists>s1 es. cbs_init True True True True garbage n p0 s0 = Some (0, s1, es) \<and>
        (\<forall>p1. p1 = apply_pstores es p0 \<or> crash_state es p0 p1 \<longrightarrow>
          (\<exists>s2 es2. cbs_init True True True True garbage n p1 s0 = Some (0, s2, es2) \<and> cbs_inv n s2 (apply_pstores es2 p1) \<and>
             (\<forall>q. unat q < 2 ^ 30 \<longrightarrow> read_page q s2 (apply_pstores es2 p1) = None)))))"
proof (intro conjI impI)
  assume inv: "cbs_inv n s p"
  note reqs = cbs_inv_reqs [OF inv] and n = cbs_invD [OF inv]
  obtain s' where s': "restart garbage n p s0 = Some (0, s', [])" "scanned p n n s'" "page_address s' = first_page n"
    using restart_scans [OF n(2) reqs n(1) assms] by blast
  have unique: "i = j" if "holds n p r i" "holds n p r j" for r i j
    using that cbs_inv_own [OF inv, of i r] cbs_inv_own [OF inv, of j r] by (auto simp: holds_view)
  have inv': "cbs_inv n s' p" using scanned_inv [OF s'(2) n(2) reqs n(1) s'(3)] unique by blast
  moreover have "cached n s' p q = cached n s p q" if "q < 2 ^ 30" for q
    using cbs_inv_contents [OF inv that] cbs_inv_contents [OF inv' that] by (metis set_empty_eq option.set_sel option.collapse singletonD elem_set)
  ultimately show "\<exists>s'. cbs_init True True True True garbage n p s0 = Some (0, s', []) \<and> cbs_inv n s' p \<and>
      (\<forall>q. unat q < 2 ^ 30 \<longrightarrow> read_page q s' p = read_page q s p)"
    using s'(1) read_page_inv [OF inv] read_page_inv [OF inv'] by (auto simp: restart_def)
next
  assume "n < 2 ^ 31 \<and> load64 p0 MAGIC_OFF \<noteq> MAGIC_NUMBER"
  then have n: "n < 2 ^ 31" and b: "blank n p0" by (auto simp: blank_def)
  obtain s1 es where s1: "restart garbage n p0 s0 = Some (0, s1, es)" "\<forall>p'. crash_state es p0 p' \<longrightarrow> blank n p'"
    using blank_restart [OF b n assms] by blast
  have "\<exists>s2 es2. cbs_init True True True True garbage n p1 s0 = Some (0, s2, es2) \<and> cbs_inv n s2 (apply_pstores es2 p1) \<and>
      (\<forall>q. unat q < 2 ^ 30 \<longrightarrow> read_page q s2 (apply_pstores es2 p1) = None)"
    if "p1 = apply_pstores es p0 \<or> crash_state es p0 p1" for p1
  proof -
    have "blank n p1" using that s1(2) crash_all by blast
    from blank_restart [OF this n assms, of s0] show ?thesis using read_page_inv by (fastforce simp: restart_def)
  qed
  then show "\<exists>s1 es. cbs_init True True True True garbage n p0 s0 = Some (0, s1, es) \<and>
        (\<forall>p1. p1 = apply_pstores es p0 \<or> crash_state es p0 p1 \<longrightarrow>
          (\<exists>s2 es2. cbs_init True True True True garbage n p1 s0 = Some (0, s2, es2) \<and> cbs_inv n s2 (apply_pstores es2 p1) \<and>
             (\<forall>q. unat q < 2 ^ 30 \<longrightarrow> read_page q s2 (apply_pstores es2 p1) = None)))"
    using s1(1) by (auto simp: restart_def)
qed

theorem restart_keeps_pages_witness:
  "\<exists>s'. cbs_init True True True True [0, 0, 0] 3 tiny_mem tiny = Some (0, s', []) \<and> cbs_inv 3 s' tiny_mem \<and> read_page 9 s' tiny_mem = None"
  using restart_keeps_pages [of "[0, 0, 0]" 3 tiny tiny_mem tiny] tiny_inv read_page_inv [OF tiny_inv(1), of 9] by fastforce

text \<open>
  The benchmark of \<open>main\<close> reads back what it wrote: on a memory that was never used and with room for more
  pages than it writes, the first reading loop ends with a page of \<open>0xcd\<close>, the second with a page of \<open>0xab\<close>.
\<close>

theorem benchmark_reads_back:
  assumes "WRITE_COUNT < n" "n < 2 ^ 31" "length garbage = n" "load64 p MAGIC_OFF \<noteq> MAGIC_NUMBER"
  shows "\<exists>sp. main True True True True garbage n p s = Some (sp, page_of 0xcd, page_of 0xab)"
proof -
  have "blank n p" using assms(4) by (simp add: blank_def)
  from blank_restart [OF this assms(2,3), of s] obtain s1 es where s1: "cbs_init True True True True garbage n p s = Some (0, s1, es)"
    "cbs_inv n s1 (apply_pstores es p)" "free_num s1 = n" by (auto simp: restart_def)
  have "\<exists>sp. benchmark cbs_put cbs_get WRITE_COUNT OVERWRITE_COUNT (page_of 0xab) (page_of 0xcd) (s1, apply_pstores es p) =
      Some (sp, page_of 0xcd, page_of 0xab)"
    using cbs.benchmark_ok [of n "(s1, apply_pstores es p)" WRITE_COUNT OVERWRITE_COUNT "page_of 0xab" "page_of 0xcd"] s1(2,3) assms(1)
    by (auto simp: WRITE_COUNT_def OVERWRITE_COUNT_def)
  then show ?thesis using s1(1) by (simp add: main_def)
qed

theorem benchmark_reads_back_witness:
  "\<exists>sp. main True True True True (replicate PMEM_PAGE_NUMBERS 0) PMEM_PAGE_NUMBERS (\<lambda>_. 0) tiny = Some (sp, page_of 0xcd, page_of 0xab)"
  using benchmark_reads_back [of PMEM_PAGE_NUMBERS "replicate PMEM_PAGE_NUMBERS 0" "\<lambda>_. 0" tiny] tiny_blank
  by (simp add: PMEM_PAGE_NUMBERS_def PMEM_SIZE_def WRITE_COUNT_def)

text \<open>
  C18: A write that has returned can be lost. After a crash between the two last stores of an overwrite the
  restart keeps one of the two valid pages and forgets the other, which stays valid in persistent memory;
  a later write of the request returns 0 and is read back, but the next restart finds the
  forgotten page and the request reads that one.
\<close>

theorem committed_write_is_lost:
  assumes "length a = 4096" "length b = 4096" "length c = 4096"
  shows "\<exists>s1 es1 s2 es2 p2 s3 s4 es4 s5.
    write_req 0 a tiny tiny_mem = Some (0, s1, es1) \<and>
    write_req 0 b s1 (apply_pstores es1 tiny_mem) = Some (0, s2, es2) \<and>
    crash_state es2 (apply_pstores es1 tiny_mem) p2 \<and>
    cbs_init True True True True [0, 0, 0] 3 p2 tiny = Some (0, s3, []) \<and> read_page 0 s3 p2 = Some a \<and>
    write_req 0 c s3 p2 = Some (0, s4, es4) \<and> read_page 0 s4 (apply_pstores es4 p2) = Some c \<and>
    cbs_init True True True True [0, 0, 0] 3 (apply_pstores es4 p2) tiny = Some (0, s5, []) \<and>
    read_page 0 s5 (apply_pstores es4 p2) = Some b"
proof -
  let ?p1 = "store64 (store_bytes tiny_mem 12288 a) 192 1"
  let ?p2 = "store64 (store_bytes ?p1 8192 b) 128 3"
  let ?es2 = "[Store_range 8192 b, Store8 128 3, Store8 192 0]"
  let ?es4 = "[Store_range 4096 c, Store8 64 3, Store8 192 0]"
  let ?p4 = "apply_pstores ?es4 ?p2"
  let ?s3 = "tiny_state 3 0 1 1 [64, 0, 0]" and ?s4 = "tiny_state 0 1 1 1 [192, 0, 0]"
  note mem = tiny_loads tiny_mem_loads assms
  have 1: "write_req 0 a tiny tiny_mem = Some (0, tiny_state 3 0 1 2 [64, 128, 192], [Store_range 12288 a, Store8 192 1])"
    unfolding tiny_is_state by (rule tiny_write_first [OF assms(1)])
  have 2: "write_req 0 b (tiny_state 3 0 1 2 [64, 128, 192]) ?p1 = Some (0, tiny_state 0 2 1 2 [64, 192, 192], ?es2)"
    using tiny_write_replace [OF assms(2), of ?p1 2 "[64, 128, 192]" 1 1] by (simp flip: numeral_2_eq_2)
  have crash: "crash_state ?es2 ?p1 ?p2"
    using crash_state.later [of "[Store8 128 3, Store8 192 0]" "Store_range 8192 b" ?p1, OF crash_state.later [OF crash_state.before]] by simp
  have 3: "cbs_init True True True True [0, 0, 0] 3 ?p2 tiny = Some (0, ?s3, [])"
    by (simp add: cbs_init_def tiny_def scan_meta_def tiny_run_defs meta_off_def upt_rec mem fun_eq_iff)
  have 4: "write_req 0 c ?s3 ?p2 = Some (0, ?s4, ?es4)"
    using tiny_write_replace [OF assms(3), of ?p2 1 "[64, 0, 0]" 0 1] mem by simp
  have 5: "cbs_init True True True True [0, 0, 0] 3 ?p4 tiny = Some (0, tiny_state 2 0 1 1 [192, 0, 0], [])"
    by (simp add: cbs_init_def tiny_def scan_meta_def tiny_run_defs meta_off_def upt_rec mem fun_eq_iff apply_pstores_def)
  have "read_page 0 ?s3 ?p2 = Some a" "read_page 0 ?s4 ?p4 = Some c" "read_page 0 (tiny_state 2 0 1 1 [192, 0, 0]) ?p4 = Some b"
    using tiny_read [of 2] tiny_read(2) [of 0] tiny_read(1) [of 1] mem by (simp_all add: apply_pstores_def numeral_2_eq_2 numeral_3_eq_3)
  moreover have "apply_pstores [Store_range 12288 a, Store8 192 1] tiny_mem = ?p1" by (simp add: apply_pstores_def)
  ultimately show ?thesis using 1 2 3 4 5 crash by metis
qed

theorem committed_write_is_lost_witness:
  "\<exists>s1 es1 s2 es2 p2 s3 s4 es4 s5.
    write_req 0 (page_of 1) tiny tiny_mem = Some (0, s1, es1) \<and>
    write_req 0 (page_of 2) s1 (apply_pstores es1 tiny_mem) = Some (0, s2, es2) \<and>
    crash_state es2 (apply_pstores es1 tiny_mem) p2 \<and>
    cbs_init True True True True [0, 0, 0] 3 p2 tiny = Some (0, s3, []) \<and> read_page 0 s3 p2 = Some (page_of 1) \<and>
    write_req 0 (page_of 3) s3 p2 = Some (0, s4, es4) \<and> read_page 0 s4 (apply_pstores es4 p2) = Some (page_of 3) \<and>
    cbs_init True True True True [0, 0, 0] 3 (apply_pstores es4 p2) tiny = Some (0, s5, []) \<and>
    read_page 0 s5 (apply_pstores es4 p2) = Some (page_of 2)"
  using committed_write_is_lost [of "page_of 1" "page_of 2" "page_of 3"] by simp

text \<open>
  Requests without a defined result. With no free page left, \<open>write_req\<close> reports it and then takes
  the entry before the beginning of the list of free pages; and the range check of all three operations accepts
  block number \<open>DISK_BLOCK_NUM\<close>, one behind the end of the table, and rejects only larger ones.
\<close>

theorem undefined_requests:
  "(cbs_inv n s p \<and> free_num s = 0 \<and> unat r < 2 ^ 30 \<longrightarrow> write_req r c s p = None) \<and>
   (req_block r = DISK_BLOCK_NUM \<longrightarrow> write_req r c s p = None \<and> read_req r s p = None \<and> delete_page r s p = None) \<and>
   (DISK_BLOCK_NUM < req_block r \<longrightarrow>
      write_req r c s p = Some (-1, s, []) \<and> read_req r s p = Some None \<and> delete_page r s p = Some (s, []))"
proof -
  have "write_req r c s p = None" if inv: "cbs_inv n s p" and f: "free_num s = 0" and r: "unat r < 2 ^ 30"
  proof -
    have "\<not> DISK_BLOCK_NUM < req_block r" "req_block r \<noteq> DISK_BLOCK_NUM" using request_bound [of r] r by auto
    moreover have "disk_pages s (req_block r) (req_page r) = entry s (unat r)" by (simp add: entry_def req_block_eq req_page_eq)
    moreover note cbs_invD(8) [OF inv r]
    moreover have "top_free s = None" using f by (simp add: top_free_def)
    ultimately show ?thesis by (auto simp: write_req_def write_first_def write_replace_def Let_def)
  qed
  then show ?thesis by (simp add: write_req_def read_req_def delete_page_def Let_def)
qed

theorem undefined_requests_witness:
  "write_req 0x40000000 (page_of 1) tiny tiny_mem = None \<and> read_req 0x40000000 tiny tiny_mem = None"
  using undefined_requests [of 3 tiny tiny_mem "0x40000000" "page_of 1"] by (simp add: req_block_eq DISK_BLOCK_NUM_def)

end
