(* ===== verification/Cbs_Memkind.thy ===== *)
theory Cbs_Memkind
  imports Cbs_Pmem_Recovery Page_Store
begin

text \<open>
  The volatile page cache of \<^verbatim>\<open>cbs_req/cbs_req_memkind.cpp\<close>: pages allocated from a heap, whose addresses are kept in
  a table. \<open>memkind_malloc\<close> is the argument \<open>alloc\<close>, which returns an address or 0; \<open>None\<close> is an access outside
  the table or through a null or dangling pointer. The request macros are those of the persistent cache.
\<close>

section \<open>The program\<close>

record memkind_cache =
  mk_pages :: "nat \<Rightarrow> nat \<Rightarrow> nat"
  mk_count :: "nat \<Rightarrow> u32"
  mk_heap :: "nat \<Rightarrow> bytes option"

text \<open>The result and the table, \<open>None\<close> when there is none.\<close>

definition cbs_init :: "bool \<Rightarrow> bool \<Rightarrow> int \<times> memkind_cache option" where
  "cbs_init create_ok calloc_ok =
    (if \<not> create_ok then (1, None)
     else if \<not> calloc_ok then (1, None)
     else (0, Some \<lparr>mk_pages = \<lambda>_ _. 0, mk_count = \<lambda>_. 0, mk_heap = \<lambda>_. None\<rparr>))"

definition get_cached_count :: "memkind_cache \<Rightarrow> u32" where
  "get_cached_count s = sum_list (map (mk_count s) [0..<DISK_BLOCK_NUM])"

definition set_page :: "nat \<Rightarrow> nat \<Rightarrow> nat \<Rightarrow> memkind_cache \<Rightarrow> memkind_cache" where
  "set_page b g a s = s\<lparr>mk_pages := (mk_pages s)(b := (mk_pages s b)(g := a))\<rparr>"

definition write_req :: "((nat \<Rightarrow> bytes option) \<Rightarrow> nat) \<Rightarrow> u64 \<Rightarrow> bytes \<Rightarrow> memkind_cache \<Rightarrow> (int \<times> memkind_cache) option" where
  "write_req alloc req_id content s =
    (let b = req_block req_id; g = req_page req_id; page = mk_pages s b g in
     if DISK_BLOCK_NUM < b then Some (-1, s)
     else if b = DISK_BLOCK_NUM then None
     else if page = 0 then
       (let page = alloc (mk_heap s); s = set_page b g page s in
        Some (0, if page \<noteq> 0 then s\<lparr>mk_heap := (mk_heap s)(page \<mapsto> take 4096 content)\<rparr> else s))
     else if mk_heap s page = None then None
     else Some (0, s\<lparr>mk_heap := (mk_heap s)(page \<mapsto> take 4096 content)\<rparr>))"

definition read_req :: "u64 \<Rightarrow> memkind_cache \<Rightarrow> nat option" where
  "read_req req_id s =
    (let b = req_block req_id; g = req_page req_id in
     if DISK_BLOCK_NUM < b then Some 0
     else if b = DISK_BLOCK_NUM then None
     else Some (mk_pages s b g))"

definition delete_page :: "u64 \<Rightarrow> memkind_cache \<Rightarrow> memkind_cache option" where
  "delete_page req_id s =
    (let b = req_block req_id; g = req_page req_id; page = mk_pages s b g in
     if DISK_BLOCK_NUM < b then Some s
     else if b = DISK_BLOCK_NUM then None
     else if page \<noteq> 0 then
       if mk_heap s page = None then None
       else Some (set_page b g 0 (s\<lparr>mk_heap := (mk_heap s)(page := None)\<rparr>))
     else Some s)"

text \<open>The operations as \<open>main\<close> calls them: it ignores results and copies the page a read returns.\<close>

definition mk_put :: "((nat \<Rightarrow> bytes option) \<Rightarrow> nat) \<Rightarrow> nat \<Rightarrow> bytes \<Rightarrow> memkind_cache \<Rightarrow> memkind_cache option" where
  "mk_put alloc r c s = map_option snd (write_req alloc (of_nat r) c s)"

definition mk_get :: "nat \<Rightarrow> memkind_cache \<Rightarrow> bytes option" where
  "mk_get r s = Option.bind (read_req (of_nat r) s) (\<lambda>a. if a = 0 then None else mk_heap s a)"

definition mk_del :: "nat \<Rightarrow> memkind_cache \<Rightarrow> memkind_cache option" where
  "mk_del r s = delete_page (of_nat r) s"

text \<open>
  \<open>main\<close>: the cache at the end, the count printed at the start and the two bytes printed. The
  buffer holds the last page read when the pages are written again.
\<close>

definition main :: "((nat \<Rightarrow> bytes option) \<Rightarrow> nat) \<Rightarrow> bool \<Rightarrow> bool \<Rightarrow> (memkind_cache \<times> u32 \<times> u8 \<times> u8) option" where
  "main alloc create_ok calloc_ok =
    (case cbs_init create_ok calloc_ok of
       (_, None) \<Rightarrow> None
     | (_, Some s0) \<Rightarrow>
        Option.bind (benchmark (mk_put alloc) mk_get WRITE_COUNT OVERWRITE_COUNT (page_of 0xab) (page_of 0xcd) s0) (\<lambda>(s, b1, b2).
        Option.bind (delete_all mk_del [0..<WRITE_COUNT] s) (\<lambda>s.
        Option.bind (write_all (mk_put alloc) [0..<WRITE_COUNT] b2 s) (\<lambda>s.
        Option.bind (write_all (mk_put alloc) [0..<OVERWRITE_COUNT] (page_of 0xcd) s) (\<lambda>s.
        Some (s, get_cached_count s0, b1 ! 0, b2 ! 0))))))"

section \<open>The cache as a store\<close>

text \<open>An allocator that succeeds while fewer than \<open>cap\<close> pages are in use.\<close>

definition alloc_ok :: "((nat \<Rightarrow> bytes option) \<Rightarrow> nat) \<Rightarrow> nat \<Rightarrow> bool" where
  "alloc_ok alloc cap \<longleftrightarrow> (\<forall>h. finite (dom h) \<longrightarrow> card (dom h) < cap \<longrightarrow> alloc h \<noteq> 0 \<and> h (alloc h) = None)"

definition mk_at :: "memkind_cache \<Rightarrow> nat \<Rightarrow> nat" where
  "mk_at s r = mk_pages s (r div 1024) (r mod 1024)"

text \<open>The pages in the table are allocated and no two entries share one.\<close>

definition mk_inv :: "memkind_cache \<Rightarrow> bool" where
  "mk_inv s \<longleftrightarrow> finite (dom (mk_heap s)) \<and> mk_heap s 0 = None \<and> (\<forall>r. mk_at s r \<noteq> 0 \<longrightarrow> mk_heap s (mk_at s r) \<noteq> None) \<and>
    (\<forall>r q. mk_at s r = mk_at s q \<longrightarrow> mk_at s r \<noteq> 0 \<longrightarrow> r = q)"

definition mk_page :: "nat \<Rightarrow> memkind_cache \<Rightarrow> bytes option" where
  "mk_page r s = (if mk_at s r = 0 then None else mk_heap s (mk_at s r))"

lemma mk_invI:
  assumes "finite (dom (mk_heap s))" "mk_heap s 0 = None" "\<And>r. mk_at s r \<noteq> 0 \<Longrightarrow> mk_heap s (mk_at s r) \<noteq> None"
    and "\<And>r q. mk_at s r = mk_at s q \<Longrightarrow> mk_at s r \<noteq> 0 \<Longrightarrow> r = q"
  shows "mk_inv s"
  using assms unfolding mk_inv_def by blast

lemma mk_invD:
  assumes "mk_inv s"
  shows "finite (dom (mk_heap s))" "mk_heap s 0 = None" "mk_at s r \<noteq> 0 \<Longrightarrow> mk_heap s (mk_at s r) \<noteq> None"
    "mk_at s r = mk_at s q \<Longrightarrow> mk_at s r \<noteq> 0 \<Longrightarrow> r = q"
  using assms unfolding mk_inv_def by blast+

lemma mk_at_set_page [simp]: "mk_at (set_page (r div 1024) (r mod 1024) a s) q = (if q = r then a else mk_at s q)"
  using request_unique [of r q] by (auto simp: mk_at_def set_page_def)

lemma set_page_heap [simp]: "mk_heap (set_page b g a s) = mk_heap s" "mk_count (set_page b g a s) = mk_count s"
  "mk_at (s\<lparr>mk_heap := h\<rparr>) = mk_at s"
  by (simp_all add: set_page_def mk_at_def fun_eq_iff)

lemma mk_page_some: "mk_inv s \<Longrightarrow> (mk_page r s = None) = (mk_at s r = 0)"
  using mk_invD(3) [of s r] by (auto simp: mk_page_def)

lemma mk_request: "unat q < 2 ^ 30 \<Longrightarrow>
    \<not> DISK_BLOCK_NUM < req_block q \<and> req_block q \<noteq> DISK_BLOCK_NUM \<and> mk_pages s (req_block q) (req_page q) = mk_at s (unat q)"
  using request_bound [of q] by (auto simp: mk_at_def req_block_eq req_page_eq)

lemma mk_write:
  assumes "mk_inv s" "unat q < 2 ^ 30" "length c = 4096" "mk_at s (unat q) \<noteq> 0 \<or> alloc (mk_heap s) \<noteq> 0 \<and> mk_heap s (alloc (mk_heap s)) = None"
  shows "\<exists>s'. write_req alloc q c s = Some (0, s') \<and> mk_inv s' \<and> (\<forall>r. mk_page r s' = (if r = unat q then Some c else mk_page r s)) \<and>
    mk_count s' = mk_count s \<and>
    card (dom (mk_heap s')) = (if mk_page (unat q) s = None then Suc (card (dom (mk_heap s))) else card (dom (mk_heap s)))"
proof (cases "mk_at s (unat q) = 0")
  case True
  let ?a = "alloc (mk_heap s)"
  let ?s = "(set_page (unat q div 1024) (unat q mod 1024) ?a s)\<lparr>mk_heap := (mk_heap s)(?a \<mapsto> c)\<rparr>"
  have a: "?a \<noteq> 0" "mk_heap s ?a = None" using assms(4) True by auto
  have run: "write_req alloc q c s = Some (0, ?s)"
    using mk_request [OF assms(2), of s] True a assms(3) by (simp add: write_req_def Let_def req_block_eq req_page_eq)
  have no: "mk_at s r \<noteq> ?a" for r using assms(1) a by (metis mk_inv_def)
  have inv: "mk_inv ?s"
  proof (rule mk_invI)
    fix r q' assume "mk_at ?s r = mk_at ?s q'" "mk_at ?s r \<noteq> 0"
    then show "r = q'" using no [of r] no [of q'] mk_invD(4) [OF assms(1), of r q'] by (auto split: if_splits)
  qed (use mk_invD(1-3) [OF assms(1)] a no in \<open>auto split: if_splits\<close>)
  have "dom (mk_heap ?s) = insert ?a (dom (mk_heap s))" by auto
  then have "card (dom (mk_heap ?s)) = Suc (card (dom (mk_heap s)))"
    using card_insert_disjoint [of "dom (mk_heap s)" ?a] mk_invD(1) [OF assms(1)] a(2) by (simp add: domIff)
  moreover have "mk_page r ?s = (if r = unat q then Some c else mk_page r s)" for r using no a(1) by (auto simp: mk_page_def)
  ultimately show ?thesis using run inv True by (intro exI [of _ ?s]) (simp add: mk_page_def)
next
  case False
  let ?a = "mk_at s (unat q)"
  let ?s = "s\<lparr>mk_heap := (mk_heap s)(?a \<mapsto> c)\<rparr>"
  have a: "mk_heap s ?a \<noteq> None" using assms(1) False by (simp add: mk_inv_def)
  have run: "write_req alloc q c s = Some (0, ?s)"
    using mk_request [OF assms(2), of s] False a assms(3) by (simp add: write_req_def Let_def)
  have "mk_inv ?s"
    by (rule mk_invI) (use mk_invD(1-3) [OF assms(1)] mk_invD(4) [OF assms(1)] False in \<open>simp_all split: if_splits\<close>)
  moreover have "mk_page r ?s = (if r = unat q then Some c else mk_page r s)" for r
    using mk_invD(4) [OF assms(1), of r "unat q"] False by (simp add: mk_page_def)
  moreover have "dom (mk_heap ?s) = dom (mk_heap s)" using a by auto
  ultimately show ?thesis using run mk_page_some [OF assms(1)] False by (intro exI [of _ ?s]) simp
qed

lemma mk_delete:
  assumes "mk_inv s" "unat q < 2 ^ 30"
  shows "\<exists>s'. delete_page q s = Some s' \<and> mk_inv s' \<and> (\<forall>r. mk_page r s' = (if r = unat q then None else mk_page r s)) \<and>
    mk_count s' = mk_count s \<and>
    card (dom (mk_heap s)) = (if mk_page (unat q) s = None then card (dom (mk_heap s')) else Suc (card (dom (mk_heap s'))))"
proof (cases "mk_at s (unat q) = 0")
  case True
  then show ?thesis using mk_request [OF assms(2), of s] assms(1) by (auto simp: delete_page_def mk_page_def)
next
  case False
  let ?a = "mk_at s (unat q)"
  let ?s = "set_page (unat q div 1024) (unat q mod 1024) 0 (s\<lparr>mk_heap := (mk_heap s)(?a := None)\<rparr>)"
  have a: "mk_heap s ?a \<noteq> None" "\<And>r. mk_at s r = ?a \<longleftrightarrow> r = unat q" using mk_invD(3) [OF assms(1) False] mk_invD(4) [OF assms(1), of _ "unat q"] False by auto
  have run: "delete_page q s = Some ?s"
    using mk_request [OF assms(2), of s] False a by (auto simp: delete_page_def Let_def req_block_eq req_page_eq)
  have "mk_inv ?s"
  proof (rule mk_invI)
    fix r q' assume "mk_at ?s r = mk_at ?s q'" "mk_at ?s r \<noteq> 0"
    then show "r = q'" using mk_invD(4) [OF assms(1), of r q'] by (simp split: if_splits)
  qed (use mk_invD(1-3) [OF assms(1)] a(2) in \<open>auto split: if_splits\<close>)
  moreover have "mk_page r ?s = (if r = unat q then None else mk_page r s)" for r using a(2) by (auto simp: mk_page_def)
  moreover have "dom (mk_heap ?s) = dom (mk_heap s) - {?a}" by auto
  then have "Suc (card (dom (mk_heap ?s))) = card (dom (mk_heap s))"
    using card_Suc_Diff1 [of "dom (mk_heap s)" ?a] mk_invD(1) [OF assms(1)] a(1) by (simp add: domIff)
  ultimately show ?thesis using run mk_page_some [OF assms(1)] False by (intro exI [of _ ?s]) simp
qed

lemma mk_get_page: "r < 2 ^ 30 \<Longrightarrow> mk_get r s = mk_page r s"
  using mk_request [of "of_nat r" s] by (simp add: mk_get_def read_req_def mk_page_def Let_def unsigned_of_nat take_bit_nat_eq_self)

interpretation mk: deleting_store "\<lambda>s. mk_inv s \<and> alloc_ok alloc cap" "\<lambda>m s. card (dom (mk_heap s)) + m \<le> cap" "\<lambda>r. r < 2 ^ 30"
  "mk_put alloc" mk_get mk_del for alloc cap
proof
  fix s :: memkind_cache and m r :: nat and c :: bytes
  have id: "unat (of_nat r :: u64) = r" if "r < 2 ^ 30" using that by (simp add: unsigned_of_nat take_bit_nat_eq_self)
  show "card (dom (mk_heap s)) + m \<le> cap" if "card (dom (mk_heap s)) + Suc m \<le> cap" using that by simp
  show "\<exists>s'. mk_put alloc r c s = Some s' \<and> (mk_inv s' \<and> alloc_ok alloc cap) \<and>
      (\<forall>q. q < 2 ^ 30 \<longrightarrow> mk_get q s' = (if q = r then Some c else mk_get q s)) \<and>
      card (dom (mk_heap s')) + (if mk_get r s = None then m else Suc m) \<le> cap"
    if h: "mk_inv s \<and> alloc_ok alloc cap" "r < 2 ^ 30" "card (dom (mk_heap s)) + Suc m \<le> cap" "length c = 4096"
  proof -
    have "alloc (mk_heap s) \<noteq> 0 \<and> mk_heap s (alloc (mk_heap s)) = None" using h mk_invD(1) [of s] by (simp add: alloc_ok_def)
    then show ?thesis using mk_write [of s "of_nat r" c alloc] h id mk_get_page by (fastforce simp: mk_put_def)
  qed
  show "\<exists>s'. mk_del r s = Some s' \<and> (mk_inv s' \<and> alloc_ok alloc cap) \<and>
      (\<forall>q. q < 2 ^ 30 \<longrightarrow> mk_get q s' = (if q = r then None else mk_get q s)) \<and>
      card (dom (mk_heap s')) + (if mk_get r s = None then m else Suc m) \<le> cap"
    if h: "mk_inv s \<and> alloc_ok alloc cap" "r < 2 ^ 30" "card (dom (mk_heap s)) + m \<le> cap"
    using mk_delete [of s "of_nat r"] h id mk_get_page by (fastforce simp: mk_del_def)
qed

section \<open>Properties\<close>

text \<open>A request without memory: the write reports success and stores nothing.\<close>

lemma mk_write_no_memory:
  assumes "mk_inv s" "unat q < 2 ^ 30" "mk_page (unat q) s = None" "alloc (mk_heap s) = 0"
  shows "\<exists>s'. write_req alloc q c s = Some (0, s') \<and> mk_inv s' \<and> mk_page r s' = mk_page r s"
proof -
  let ?s = "set_page (unat q div 1024) (unat q mod 1024) 0 s"
  have at: "mk_at s (unat q) = 0" using assms(1,3) mk_page_some by simp
  have "write_req alloc q c s = Some (0, ?s)"
    using mk_request [OF assms(2), of s] at assms(4) by (simp add: write_req_def Let_def req_block_eq req_page_eq)
  moreover have "mk_at ?s = mk_at s" using at by auto
  ultimately show ?thesis using mk_invD(1-3) [OF assms(1)] mk_invD(4) [OF assms(1)] by (auto simp: mk_page_def intro!: mk_invI)
qed

definition no_pages :: memkind_cache where
  "no_pages = \<lparr>mk_pages = \<lambda>_ _. 0, mk_count = \<lambda>_. 0, mk_heap = \<lambda>_. None\<rparr>"

lemma no_pages_inv: "mk_inv no_pages" "mk_page r no_pages = None" "dom (mk_heap no_pages) = {}"
  by (simp_all add: no_pages_def mk_inv_def mk_page_def mk_at_def)

text \<open>
  C19: The volatile page cache implements a map from requests to pages. A write of a page in range
  stores it for its request and changes no other, as long as the allocator returns memory; without memory it still
  returns 0 and the page is lost. Reading returns the stored page or a null pointer, deleting removes exactly one
  page, all keep the table consistent, and the counters that \<open>get_cached_count\<close> adds up are never changed.
\<close>

theorem memkind_cache_refines_map:
  assumes "mk_inv s" "unat q < 2 ^ 30" "length c = 4096"
  shows "(alloc (mk_heap s) \<noteq> 0 \<longrightarrow> mk_heap s (alloc (mk_heap s)) = None \<longrightarrow>
      (\<exists>s'. write_req alloc q c s = Some (0, s') \<and> mk_inv s' \<and> mk_count s' = mk_count s \<and>
        (\<forall>r. mk_page r s' = (if r = unat q then Some c else mk_page r s)))) \<and>
    (alloc (mk_heap s) = 0 \<longrightarrow> mk_page (unat q) s = None \<longrightarrow>
      (\<exists>s'. write_req alloc q c s = Some (0, s') \<and> mk_inv s' \<and> mk_page (unat q) s' = None)) \<and>
    (\<exists>a. read_req q s = Some a \<and> (a = 0 \<longleftrightarrow> mk_page (unat q) s = None) \<and> (a \<noteq> 0 \<longrightarrow> mk_heap s a = mk_page (unat q) s)) \<and>
    (\<exists>s'. delete_page q s = Some s' \<and> mk_inv s' \<and> mk_count s' = mk_count s \<and>
      (\<forall>r. mk_page r s' = (if r = unat q then None else mk_page r s)))"
proof (intro conjI impI)
  assume "alloc (mk_heap s) \<noteq> 0" "mk_heap s (alloc (mk_heap s)) = None"
  then show "\<exists>s'. write_req alloc q c s = Some (0, s') \<and> mk_inv s' \<and> mk_count s' = mk_count s \<and>
      (\<forall>r. mk_page r s' = (if r = unat q then Some c else mk_page r s))"
    using mk_write [OF assms, of alloc] by blast
next
  assume "alloc (mk_heap s) = 0" "mk_page (unat q) s = None"
  then show "\<exists>s'. write_req alloc q c s = Some (0, s') \<and> mk_inv s' \<and> mk_page (unat q) s' = None"
    using mk_write_no_memory [OF assms(1,2), of alloc c "unat q"] by auto
next
  have "read_req q s = Some (mk_at s (unat q))" using mk_request [OF assms(2), of s] by (simp add: read_req_def Let_def)
  then show "\<exists>a. read_req q s = Some a \<and> (a = 0 \<longleftrightarrow> mk_page (unat q) s = None) \<and> (a \<noteq> 0 \<longrightarrow> mk_heap s a = mk_page (unat q) s)"
    using mk_page_some [OF assms(1), of "unat q"] by (simp add: mk_page_def)
next
  show "\<exists>s'. delete_page q s = Some s' \<and> mk_inv s' \<and> mk_count s' = mk_count s \<and>
      (\<forall>r. mk_page r s' = (if r = unat q then None else mk_page r s))"
    using mk_delete [OF assms(1,2)] by blast
qed

theorem memkind_cache_refines_map_witness:
  "\<exists>s'. write_req (\<lambda>_. 0) 5 (page_of 7) no_pages = Some (0, s') \<and> mk_page 5 s' = None"
  using memkind_cache_refines_map [OF no_pages_inv(1), of 5 "page_of 7" "\<lambda>_. 0"] no_pages_inv(2) by (auto simp: page_of_def)

text \<open>\<open>main\<close> on an allocator with room for its pages: it prints no cached page, and the two patterns.\<close>

theorem memkind_main_reads_back:
  assumes "alloc_ok alloc cap" "WRITE_COUNT < cap"
  shows "\<exists>s. main alloc True True = Some (s, 0, 0xcd, 0xab) \<and> mk_inv s \<and>
    (\<forall>r < WRITE_COUNT. mk_page r s = Some (page_of (if r < OVERWRITE_COUNT then 0xcd else 0xab)))"
proof -
  have c: "0 < OVERWRITE_COUNT" "OVERWRITE_COUNT < WRITE_COUNT" "\<forall>r < WRITE_COUNT. r < 2 ^ 30" "OVERWRITE_COUNT \<le> WRITE_COUNT"
    by (auto simp: OVERWRITE_COUNT_def WRITE_COUNT_def)
  have len: "length (page_of 0xab) = 4096" "length (page_of 0xcd) = 4096" by (simp_all add: page_of_def)
  obtain s1 where s1: "benchmark (mk_put alloc) mk_get WRITE_COUNT OVERWRITE_COUNT (page_of 0xab) (page_of 0xcd) no_pages =
      Some (s1, page_of 0xcd, page_of 0xab)" "mk_inv s1" "card (dom (mk_heap s1)) + 1 \<le> cap"
    "\<forall>r < WRITE_COUNT. mk_get r s1 = Some (if r < OVERWRITE_COUNT then page_of 0xcd else page_of 0xab)"
    using mk.benchmark_ok [OF _ c(3) _ c(1,2) len(1,2), of no_pages alloc cap] no_pages_inv(1,3) assms by auto
  then have "\<forall>r < WRITE_COUNT. r < 2 ^ 30 \<and> mk_get r s1 \<noteq> None" using c(3) by auto
  from mk.rewrite_ok [OF _ this s1(3) c(4) len(1,2), of alloc] s1(2) assms(1) obtain s2 s3 s4 where
    s4: "delete_all mk_del [0..<WRITE_COUNT] s1 = Some s2" "write_all (mk_put alloc) [0..<WRITE_COUNT] (page_of 0xab) s2 = Some s3"
    "write_all (mk_put alloc) [0..<OVERWRITE_COUNT] (page_of 0xcd) s3 = Some s4" "mk_inv s4"
    "\<forall>r < WRITE_COUNT. mk_get r s4 = Some (if r < OVERWRITE_COUNT then page_of 0xcd else page_of 0xab)" by blast
  have "get_cached_count no_pages = 0" by (simp add: get_cached_count_def no_pages_def sum_list_0)
  then have "main alloc True True = Some (s4, 0, 0xcd, 0xab)"
    using s1(1) s4(1-3) unfolding main_def cbs_init_def no_pages_def by (simp add: page_of_def)
  then show ?thesis using s4(4,5) c(3) mk_get_page by auto
qed

end
