(* ===== verification/Tx.thy ===== *)
theory Tx
  imports Prelude
begin

text \<open>
  The transactions of \<open>libpmemobj\<close> that \<^verbatim>\<open>simple_fifo_queue/queue_pmemobj.cpp\<close> and \<^verbatim>\<open>cbs_req/cbs_req_pmemobj.cpp\<close>
  use. A pool has live objects and cells; a cell belongs to the root object or to an object with a
  number, and number 0 is the null object. A transaction is the sequence of what its body does. The library itself is not
  part of the sources: how it restores a pool after an abort or a crash is the argument \<open>rollback\<close>, and \<open>tx_undo\<close> states
  what its manual promises of it.
\<close>

type_synonym oid = nat

record ('l, 'v) pool =
  live :: "oid set"
  cells :: "'l \<Rightarrow> 'v"

datatype ('l, 'v) tx_op = Tx_alloc oid | Tx_add "'l list" | Store 'l 'v | Tx_free oid

fun run_op :: "('l, 'v) tx_op \<Rightarrow> ('l, 'v) pool \<Rightarrow> ('l, 'v) pool" where
  "run_op (Tx_alloc i) p = p\<lparr>live := insert i (live p)\<rparr>"
| "run_op (Tx_add ls) p = p"
| "run_op (Store l v) p = p\<lparr>cells := (cells p)(l := v)\<rparr>"
| "run_op (Tx_free i) p = p\<lparr>live := live p - {i}\<rparr>"

definition run_ops :: "('l, 'v) tx_op list \<Rightarrow> ('l, 'v) pool \<Rightarrow> ('l, 'v) pool" where
  "run_ops ops p = fold run_op ops p"

text \<open>
  The cells that were stored to without having been added before, outside the objects allocated in
  the transaction: \<open>added\<close> and \<open>fresh\<close> are what earlier operations covered.
\<close>

fun exposed :: "('l \<Rightarrow> oid option) \<Rightarrow> 'l set \<Rightarrow> oid set \<Rightarrow> ('l, 'v) tx_op list \<Rightarrow> 'l set" where
  "exposed owner added fresh [] = {}"
| "exposed owner added fresh (Tx_alloc i # ops) = exposed owner added (insert i fresh) ops"
| "exposed owner added fresh (Tx_add ls # ops) = exposed owner (added \<union> set ls) fresh ops"
| "exposed owner added fresh (Store l v # ops) =
    (if l \<in> added \<or> owner l \<in> Some ` fresh then {} else {l}) \<union> exposed owner added fresh ops"
| "exposed owner added fresh (Tx_free i # ops) = exposed owner added fresh ops"

definition present :: "('l \<Rightarrow> oid option) \<Rightarrow> ('l, 'v) pool \<Rightarrow> 'l \<Rightarrow> bool" where
  "present owner p l \<longleftrightarrow> (case owner l of None \<Rightarrow> True | Some i \<Rightarrow> i \<in> live p)"

text \<open>
  After a transaction that did not commit, the live objects are those of its start, and every
  cell of them has its old value unless it was written without being added.
\<close>

definition tx_undo :: "('l \<Rightarrow> oid option) \<Rightarrow> (('l, 'v) pool \<Rightarrow> ('l, 'v) tx_op list \<Rightarrow> ('l, 'v) pool) \<Rightarrow> bool" where
  "tx_undo owner rollback \<longleftrightarrow>
    (\<forall>p ops. live (rollback p ops) = live p \<and>
      (\<forall>l. present owner p l \<longrightarrow> l \<notin> exposed owner {} {} ops \<longrightarrow> cells (rollback p ops) l = cells p l))"

text \<open>
  The results of the calls to the library inside one transaction: whether it began, and the number of
  the operation that fails, which aborts the transaction.
\<close>

record tx_env =
  begin_ok :: bool
  stop_at :: "nat option"

definition tx_ends :: "tx_env \<Rightarrow> (('l, 'v) pool \<Rightarrow> ('l, 'v) tx_op list \<Rightarrow> ('l, 'v) pool) \<Rightarrow> ('l, 'v) tx_op list \<Rightarrow>
    ('l, 'v) pool \<Rightarrow> ('l, 'v) pool" where
  "tx_ends env rollback ops p =
    (if \<not> begin_ok env then p
     else case stop_at env of
       None \<Rightarrow> run_ops ops p
     | Some k \<Rightarrow> if k < length ops then rollback p (take k ops) else run_ops ops p)"

text \<open>A transaction that commits.\<close>

definition tx_commits :: "tx_env \<Rightarrow> ('l, 'v) tx_op list \<Rightarrow> bool" where
  "tx_commits env ops \<longleftrightarrow> begin_ok env \<and> (case stop_at env of None \<Rightarrow> True | Some k \<Rightarrow> length ops \<le> k)"

text \<open>A pool after a crash in a transaction: restored from any point of it, or committed.\<close>

definition tx_crashed :: "(('l, 'v) pool \<Rightarrow> ('l, 'v) tx_op list \<Rightarrow> ('l, 'v) pool) \<Rightarrow> ('l, 'v) tx_op list \<Rightarrow>
    ('l, 'v) pool \<Rightarrow> ('l, 'v) pool \<Rightarrow> bool" where
  "tx_crashed rollback ops p p' \<longleftrightarrow> p' = run_ops ops p \<or> (\<exists>k \<le> length ops. p' = rollback p (take k ops))"

section \<open>Lemmas\<close>

lemma run_ops_simps [simp]: "run_ops [] p = p" "run_ops (op # ops) p = run_ops ops (run_op op p)"
  by (simp_all add: run_ops_def)

lemma exposed_take: "exposed owner added fresh (take k ops) \<subseteq> exposed owner added fresh ops"
proof (induction ops arbitrary: k added fresh)
  case (Cons op ops)
  then show ?case by (cases k; cases op) (auto split: if_splits)
qed simp

text \<open>A pool in which the objects of \<open>p\<close> are unchanged.\<close>

definition same_pool :: "('l \<Rightarrow> oid option) \<Rightarrow> ('l, 'v) pool \<Rightarrow> ('l, 'v) pool \<Rightarrow> bool" where
  "same_pool owner p p' \<longleftrightarrow> live p' = live p \<and> (\<forall>l. present owner p l \<longrightarrow> cells p' l = cells p l)"

lemma same_pool_refl [simp]: "same_pool owner p p"
  by (simp add: same_pool_def)

lemma rollback_same: "tx_undo owner rollback \<Longrightarrow> exposed owner {} {} ops = {} \<Longrightarrow> same_pool owner p (rollback p (take k ops))"
  using exposed_take [of owner "{}" "{}" k ops] by (auto simp: tx_undo_def same_pool_def)

lemma tx_ends_cases:
  assumes "tx_undo owner rollback" "exposed owner {} {} ops = {}"
  shows "if tx_commits env ops then tx_ends env rollback ops p = run_ops ops p
    else same_pool owner p (tx_ends env rollback ops p)"
  using rollback_same [OF assms, of p] by (auto simp: tx_commits_def tx_ends_def split: option.splits)

lemma tx_crashed_cases:
  assumes "tx_undo owner rollback" "exposed owner {} {} ops = {}" "tx_crashed rollback ops p p'"
  shows "p' = run_ops ops p \<or> same_pool owner p p'"
  using rollback_same [OF assms(1,2), of p] assms(3) by (auto simp: tx_crashed_def)

text \<open>The promise can be kept: an undo log restores what was added and nothing else.\<close>

definition undo_log :: "('l \<Rightarrow> oid option) \<Rightarrow> ('l, 'v) pool \<Rightarrow> ('l, 'v) tx_op list \<Rightarrow> ('l, 'v) pool" where
  "undo_log owner p ops =
    \<lparr>live = live p, cells = (\<lambda>l. if l \<in> exposed owner {} {} ops then cells (run_ops ops p) l else cells p l)\<rparr>"

lemma undo_log_ok: "tx_undo owner (undo_log owner)"
  by (simp add: tx_undo_def undo_log_def)

end
