(* ===== verification/Cbs_Pmemobj.thy ===== *)
theory Cbs_Pmemobj
  imports Tx Cbs_Pmem_Recovery Page_Store
begin

text \<open>
  The page cache of \<^verbatim>\<open>cbs_req/cbs_req_pmemobj.cpp\<close>: a root table of blocks, each a table of pages, in a pool of
  \<open>libpmemobj\<close> and changed in transactions. Object 0 is \<open>OID_NULL\<close>; \<open>None\<close> is an access outside a table or to
  an object that is not allocated. The request macros are those of the persistent cache.
\<close>

section \<open>The program\<close>

text \<open>The fields of \<open>struct root\<close>, \<open>struct block\<close> and \<open>struct page\<close>, and what they hold.\<close>

datatype cbs_loc = Block nat | Page_slot oid nat | Count oid | Rpage oid

datatype cbs_val = Ref oid | Cnt u64 | Content bytes

fun ref_of :: "cbs_val \<Rightarrow> oid" where
  "ref_of (Ref i) = i"
| "ref_of _ = 0"

fun cnt_of :: "cbs_val \<Rightarrow> u64" where
  "cnt_of (Cnt k) = k"
| "cnt_of _ = 0"

fun content_of :: "cbs_val \<Rightarrow> bytes" where
  "content_of (Content c) = c"
| "content_of _ = []"

fun cbs_owner :: "cbs_loc \<Rightarrow> oid option" where
  "cbs_owner (Block _) = None"
| "cbs_owner (Page_slot i _) = Some i"
| "cbs_owner (Count i) = Some i"
| "cbs_owner (Rpage i) = Some i"

type_synonym cbs_pool = "(cbs_loc, cbs_val) pool"
type_synonym cbs_tx = "(cbs_loc, cbs_val) tx_op list"
type_synonym cbs_rollback = "cbs_pool \<Rightarrow> cbs_tx \<Rightarrow> cbs_pool"

text \<open>A new pool: the root object is zeroed.\<close>

definition empty_cache :: cbs_pool where
  "empty_cache = \<lparr>live = {}, cells = (\<lambda>_. Ref 0)\<rparr>"

text \<open>The file that exists, if any, and the results of creating, opening and mapping the root.\<close>

definition cbs_init :: "bool \<Rightarrow> bool \<Rightarrow> bool \<Rightarrow> cbs_pool option \<Rightarrow> int \<times> cbs_pool option" where
  "cbs_init create_ok open_ok root_ok f =
    (let pop = (if Option.is_none f \<and> create_ok then Some empty_cache else if open_ok then f else None) in
     if Option.is_none pop then (1, None) else if \<not> root_ok then (1, None) else (0, pop))"

text \<open>The sum starts from the uninitialised \<open>cnt\<close>.\<close>

definition get_cached_count :: "u32 \<Rightarrow> cbs_pool \<Rightarrow> u32" where
  "get_cached_count cnt p =
    fold (\<lambda>i cnt. let block_oid = ref_of (cells p (Block i)) in
      if block_oid \<noteq> 0 then ucast (scast cnt + cnt_of (cells p (Count block_oid))) else cnt) [0..<DISK_BLOCK_NUM] cnt"

text \<open>\<open>memset\<close> of a block.\<close>

definition clear_block :: "oid \<Rightarrow> cbs_tx" where
  "clear_block i = map (\<lambda>g. Store (Page_slot i g) (Ref 0)) [0..<BLOCK_PAGE_NUM] @ [Store (Count i) (Cnt 0)]"

text \<open>The transaction of \<open>write_req\<close>, with the objects that its allocations return.\<close>

definition write_tx :: "oid \<Rightarrow> oid \<Rightarrow> u64 \<Rightarrow> bytes \<Rightarrow> cbs_pool \<Rightarrow> cbs_tx option" where
  "write_tx new_block new_page req_id content p =
    (let b = req_block req_id; g = req_page req_id; page = Store (Rpage new_page) (Content (take 4096 content)) in
     if DISK_BLOCK_NUM \<le> b then None
     else
       (let block_oid = ref_of (cells p (Block b)) in
        if block_oid = 0 then
          Some ([Tx_alloc new_block] @ clear_block new_block @ [Tx_alloc new_page, page,
            Tx_add [Block b], Store (Block b) (Ref new_block),
            Tx_add [Page_slot new_block g], Store (Page_slot new_block g) (Ref new_page),
            Tx_add [Count new_block], Store (Count new_block) (Cnt (0 + 1))])
        else if block_oid \<notin> live p then None
        else
          (let page_oid = ref_of (cells p (Page_slot block_oid g)) in
           if page_oid = 0 then
             Some [Tx_alloc new_page, page,
               Tx_add [Page_slot block_oid g], Store (Page_slot block_oid g) (Ref new_page),
               Tx_add [Count block_oid], Store (Count block_oid) (Cnt (cnt_of (cells p (Count block_oid)) + 1))]
           else if page_oid \<notin> live p then None
           else Some [Tx_add [Rpage page_oid], Store (Rpage page_oid) (Content (take 4096 content))])))"

text \<open>A transaction that fails ends like one that commits, and 0 is returned.\<close>

definition write_req :: "tx_env \<Rightarrow> cbs_rollback \<Rightarrow> oid \<Rightarrow> oid \<Rightarrow> u64 \<Rightarrow> bytes \<Rightarrow> cbs_pool \<Rightarrow> (int \<times> cbs_pool) option" where
  "write_req env rollback new_block new_page req_id content p =
    (if \<not> begin_ok env then Some (0, p)
     else map_option (\<lambda>ops. (0, tx_ends env rollback ops p)) (write_tx new_block new_page req_id content p))"

text \<open>The page object whose contents are returned, or 0 for a null pointer.\<close>

definition read_req :: "u64 \<Rightarrow> cbs_pool \<Rightarrow> oid option" where
  "read_req req_id p =
    (let b = req_block req_id; g = req_page req_id in
     if DISK_BLOCK_NUM \<le> b then None
     else
       (let block_oid = ref_of (cells p (Block b)) in
        if block_oid = 0 then Some 0
        else if block_oid \<notin> live p then None
        else
          (let page_oid = ref_of (cells p (Page_slot block_oid g)) in
           if page_oid = 0 then Some 0 else if page_oid \<notin> live p then None else Some page_oid)))"

text \<open>Freeing an object that is not allocated is undefined; the entry of the page is not cleared.\<close>

definition delete_page :: "tx_env \<Rightarrow> cbs_rollback \<Rightarrow> u64 \<Rightarrow> cbs_pool \<Rightarrow> cbs_pool option" where
  "delete_page env rollback req_id p =
    (let b = req_block req_id; g = req_page req_id in
     if DISK_BLOCK_NUM \<le> b then None
     else
       (let block_oid = ref_of (cells p (Block b)) in
        if block_oid = 0 then Some p
        else if block_oid \<notin> live p then None
        else
          (let page_oid = ref_of (cells p (Page_slot block_oid g)) in
           if page_oid = 0 then Some p
           else if page_oid \<notin> live p then None
           else Some (tx_ends env rollback [Tx_free page_oid] p))))"

text \<open>The operations as \<open>main\<close> calls them, with an allocator that returns an object of the pool.\<close>

definition pobj_put :: "tx_env \<Rightarrow> cbs_rollback \<Rightarrow> (oid set \<Rightarrow> oid) \<Rightarrow> nat \<Rightarrow> bytes \<Rightarrow> cbs_pool \<Rightarrow> cbs_pool option" where
  "pobj_put env rollback alloc r c p =
    map_option snd (write_req env rollback (alloc (live p))
      (if ref_of (cells p (Block (req_block (of_nat r)))) = 0 then alloc (insert (alloc (live p)) (live p)) else alloc (live p)) (of_nat r) c p)"

definition pobj_get :: "nat \<Rightarrow> cbs_pool \<Rightarrow> bytes option" where
  "pobj_get r p = Option.bind (read_req (of_nat r) p) (\<lambda>i. if i = 0 then None else Some (content_of (cells p (Rpage i))))"

definition main :: "tx_env \<Rightarrow> cbs_rollback \<Rightarrow> (oid set \<Rightarrow> oid) \<Rightarrow> bool \<Rightarrow> bool \<Rightarrow> bool \<Rightarrow> u32 \<Rightarrow> cbs_pool option \<Rightarrow>
    (cbs_pool \<times> u32 \<times> u8 \<times> u8) option" where
  "main env rollback alloc create_ok open_ok root_ok garbage f =
    (case cbs_init create_ok open_ok root_ok f of
       (_, None) \<Rightarrow> None
     | (_, Some p0) \<Rightarrow>
        map_option (\<lambda>(p, b1, b2). (p, get_cached_count garbage p0, b1 ! 0, b2 ! 0))
          (benchmark (pobj_put env rollback alloc) pobj_get WRITE_COUNT OVERWRITE_COUNT (page_of 0xab) (page_of 0xcd) p0))"

section \<open>The cache in the pool\<close>

definition blk :: "cbs_pool \<Rightarrow> nat \<Rightarrow> oid" where
  "blk p b = ref_of (cells p (Block b))"

text \<open>The page object of a request.\<close>

definition pg :: "cbs_pool \<Rightarrow> nat \<Rightarrow> oid" where
  "pg p r = (if blk p (r div 1024) = 0 then 0 else ref_of (cells p (Page_slot (blk p (r div 1024)) (r mod 1024))))"

definition pobj_page :: "nat \<Rightarrow> cbs_pool \<Rightarrow> bytes option" where
  "pobj_page r p = (if pg p r = 0 then None else Some (content_of (cells p (Rpage (pg p r)))))"

text \<open>Blocks and pages are allocated, and no two entries share an object.\<close>

definition pobj_inv :: "cbs_pool \<Rightarrow> bool" where
  "pobj_inv p \<longleftrightarrow> finite (live p) \<and>
    (\<forall>b < DISK_BLOCK_NUM. blk p b \<noteq> 0 \<longrightarrow> blk p b \<in> live p) \<and>
    (\<forall>b < DISK_BLOCK_NUM. \<forall>b' < DISK_BLOCK_NUM. blk p b \<noteq> 0 \<longrightarrow> blk p b = blk p b' \<longrightarrow> b = b') \<and>
    (\<forall>r < 2 ^ 30. pg p r \<noteq> 0 \<longrightarrow> pg p r \<in> live p) \<and>
    (\<forall>r < 2 ^ 30. \<forall>q < 2 ^ 30. pg p r \<noteq> 0 \<longrightarrow> pg p r = pg p q \<longrightarrow> r = q)"

lemma pobj_invI:
  assumes "finite (live p)" "\<And>b. b < DISK_BLOCK_NUM \<Longrightarrow> blk p b \<noteq> 0 \<Longrightarrow> blk p b \<in> live p"
    and "\<And>b b'. b < DISK_BLOCK_NUM \<Longrightarrow> b' < DISK_BLOCK_NUM \<Longrightarrow> blk p b \<noteq> 0 \<Longrightarrow> blk p b = blk p b' \<Longrightarrow> b = b'"
    and "\<And>r. r < 2 ^ 30 \<Longrightarrow> pg p r \<noteq> 0 \<Longrightarrow> pg p r \<in> live p"
    and "\<And>r q. r < 2 ^ 30 \<Longrightarrow> q < 2 ^ 30 \<Longrightarrow> pg p r \<noteq> 0 \<Longrightarrow> pg p r = pg p q \<Longrightarrow> r = q"
  shows "pobj_inv p"
  using assms unfolding pobj_inv_def by blast

lemma pobj_invD:
  assumes "pobj_inv p"
  shows "finite (live p)" "b < DISK_BLOCK_NUM \<Longrightarrow> blk p b \<noteq> 0 \<Longrightarrow> blk p b \<in> live p"
    "b < DISK_BLOCK_NUM \<Longrightarrow> b' < DISK_BLOCK_NUM \<Longrightarrow> blk p b \<noteq> 0 \<Longrightarrow> blk p b = blk p b' \<Longrightarrow> b = b'"
    "r < 2 ^ 30 \<Longrightarrow> pg p r \<noteq> 0 \<Longrightarrow> pg p r \<in> live p"
    "r < 2 ^ 30 \<Longrightarrow> q < 2 ^ 30 \<Longrightarrow> pg p r \<noteq> 0 \<Longrightarrow> pg p r = pg p q \<Longrightarrow> r = q"
  using assms unfolding pobj_inv_def by blast+

lemma block_of: "r < 2 ^ 30 \<Longrightarrow> r div 1024 < DISK_BLOCK_NUM"
  by (simp add: DISK_BLOCK_NUM_def div_less_iff_less_mult)

text \<open>Restoring a pool restores its pages.\<close>

lemma same_cache:
  assumes "pobj_inv p" "same_pool cbs_owner p p'"
  shows "pobj_inv p'" "r < 2 ^ 30 \<Longrightarrow> pobj_page r p' = pobj_page r p"
proof -
  have live: "live p' = live p" and cells: "\<And>l. present cbs_owner p l \<Longrightarrow> cells p' l = cells p l"
    using assms(2) by (auto simp: same_pool_def)
  have blk: "blk p' b = blk p b" for b using cells [of "Block b"] by (simp add: blk_def present_def)
  have pg: "pg p' r = pg p r" if "r < 2 ^ 30" for r
    using cells [of "Page_slot (blk p (r div 1024)) (r mod 1024)"] pobj_invD(2) [OF assms(1) block_of [OF that]]
    by (auto simp: pg_def blk present_def)
  show "pobj_inv p'"
    by (rule pobj_invI) (use pobj_invD [OF assms(1)] live blk pg in auto)
  show "pobj_page r p' = pobj_page r p" if "r < 2 ^ 30"
    using cells [of "Rpage (pg p r)"] pobj_invD(4) [OF assms(1) that] pg [OF that] by (auto simp: pobj_page_def present_def)
qed

lemma run_ops_append: "run_ops (xs @ ys) p = run_ops ys (run_ops xs p)"
  by (simp add: run_ops_def)

lemma run_stores:
  "live (run_ops (map (\<lambda>g. Store (f g) v) gs) p) = live p"
  "cells (run_ops (map (\<lambda>g. Store (f g) v) gs) p) l = (if l \<in> f ` set gs then v else cells p l)"
  by (induction gs arbitrary: p) auto

lemma run_clear_block:
  "live (run_ops (clear_block i) p) = live p"
  "cells (run_ops (clear_block i) p) l =
    (if l = Count i then Cnt 0 else if l \<in> Page_slot i ` {..<1024} then Ref 0 else cells p l)"
  using run_stores [of "Page_slot i" "Ref 0" "[0..<1024]" p]
  by (auto simp: clear_block_def run_ops_append BLOCK_PAGE_NUM_def atLeast0LessThan)

lemma exposed_stores:
  "\<forall>g \<in> set gs. owner (f g) \<in> Some ` fresh \<Longrightarrow>
    exposed owner added fresh (map (\<lambda>g. Store (f g) v) gs @ ops) = exposed owner added fresh ops"
  by (induction gs) auto

lemma exposed_clear_block: "i \<in> fresh \<Longrightarrow> exposed cbs_owner added fresh (clear_block i @ ops) = exposed cbs_owner added fresh ops"
  using exposed_stores [of "[0..<BLOCK_PAGE_NUM]" cbs_owner "Page_slot i" fresh added "Ref 0" "Store (Count i) (Cnt 0) # ops"]
  by (simp add: clear_block_def)

text \<open>A page put into the cache, in its old object \<open>i\<close> or in a new one.\<close>

lemma cache_put:
  assumes "pobj_inv p" "r < 2 ^ 30" "finite (live p')" "live p \<subseteq> live p'"
    and blk: "\<And>b. b \<noteq> r div 1024 \<Longrightarrow> blk p' b = blk p b"
      "blk p' (r div 1024) = blk p (r div 1024) \<or> blk p' (r div 1024) \<notin> live p" "blk p' (r div 1024) \<in> live p'"
    and pg: "\<And>q. q < 2 ^ 30 \<Longrightarrow> pg p' q = (if q = r then i else pg p q)" "i \<noteq> 0" "i \<in> live p'" "i = pg p r \<or> i \<notin> live p"
    and page: "\<And>j. j \<noteq> i \<Longrightarrow> cells p' (Rpage j) = cells p (Rpage j)" "cells p' (Rpage i) = Content c"
  shows "pobj_inv p' \<and> (\<forall>q < 2 ^ 30. pobj_page q p' = (if q = r then Some c else pobj_page q p))"
proof
  note D = pobj_invD [OF assms(1)]
  have other: "pg p q \<noteq> i" if "q < 2 ^ 30" "q \<noteq> r" for q
    using D(4,5) [OF that(1)] that(2) assms(2) pg(2,4) by metis
  show "pobj_inv p'"
  proof (rule pobj_invI)
    show "blk p' b \<in> live p'" if "b < DISK_BLOCK_NUM" "blk p' b \<noteq> 0" for b
      using that blk D(2) [of b] assms(4) by (cases "b = r div 1024") auto
    show "b = b'" if "b < DISK_BLOCK_NUM" "b' < DISK_BLOCK_NUM" "blk p' b \<noteq> 0" "blk p' b = blk p' b'" for b b'
    proof (rule ccontr)
      assume "b \<noteq> b'"
      then consider "b = r div 1024" "b' \<noteq> r div 1024" | "b' = r div 1024" "b \<noteq> r div 1024" | "b \<noteq> r div 1024" "b' \<noteq> r div 1024" by blast
      then show False using that blk(1) blk(2) D(2,3) \<open>b \<noteq> b'\<close> by cases metis+
    qed
    show "q = q'" if "q < 2 ^ 30" "q' < 2 ^ 30" "pg p' q \<noteq> 0" "pg p' q = pg p' q'" for q q'
      using that pg(1) other D(5) by (metis (full_types))
  qed (use assms(2-4) pg D(4) in \<open>auto split: if_splits\<close>)
  show "\<forall>q < 2 ^ 30. pobj_page q p' = (if q = r then Some c else pobj_page q p)"
    using pg(1,2) page other by (auto simp: pobj_page_def)
qed

text \<open>What the transaction of a write does, whichever branch it takes.\<close>

definition write_tx_result :: "cbs_pool \<Rightarrow> nat \<Rightarrow> bytes \<Rightarrow> cbs_tx \<Rightarrow> bool" where
  "write_tx_result p r c ops \<longleftrightarrow> ops \<noteq> [] \<and> exposed cbs_owner {} {} ops = {} \<and> pobj_inv (run_ops ops p) \<and>
    (\<forall>q < 2 ^ 30. pobj_page q (run_ops ops p) = (if q = r then Some c else pobj_page q p)) \<and>
    card (live (run_ops ops p)) \<le> card (live p) + (if pobj_page r p = None then 2 else 0)"

lemma write_tx_resultI:
  assumes "p' = run_ops ops p" "ops \<noteq> []" "exposed cbs_owner {} {} ops = {}"
    and "pobj_inv p' \<and> (\<forall>q < 2 ^ 30. pobj_page q p' = (if q = r then Some c else pobj_page q p))"
    and "card (live p') \<le> card (live p) + (if pobj_page r p = None then 2 else 0)"
  shows "write_tx_result p r c ops"
  using assms unfolding write_tx_result_def by blast

lemma write_tx_new_block:
  assumes "pobj_inv p" "unat q < 2 ^ 30" "length c = 4096" "blk p (unat q div 1024) = 0"
    and "nb \<noteq> 0" "nb \<notin> live p" "np \<noteq> 0" "np \<notin> live p" "np \<noteq> nb"
  shows "\<exists>ops. write_tx nb np q c p = Some ops \<and> write_tx_result p (unat q) c ops"
proof -
  let ?b = "unat q div 1024" and ?g = "unat q mod 1024"
  let ?ops = "[Tx_alloc nb] @ clear_block nb @ [Tx_alloc np, Store (Rpage np) (Content c), Tx_add [Block ?b], Store (Block ?b) (Ref nb),
    Tx_add [Page_slot nb ?g], Store (Page_slot nb ?g) (Ref np), Tx_add [Count nb], Store (Count nb) (Cnt (0 + 1))]"
  define p' where "p' = run_ops ?ops p"
  have tx: "write_tx nb np q c p = Some ?ops"
    using request_bound [of q] assms(2-4) by (simp add: write_tx_def Let_def req_block_eq req_page_eq blk_def)
  have live: "live p' = insert np (insert nb (live p))" by (simp add: p'_def run_ops_append run_clear_block)
  have cells: "cells p' l = (if l = Block ?b then Ref nb else if l = Page_slot nb ?g then Ref np else if l = Count nb then Cnt (0 + 1)
    else if l \<in> Page_slot nb ` {..<1024} then Ref 0 else if l = Rpage np then Content c else cells p l)" for l
    by (auto simp: p'_def run_ops_append run_clear_block)
  have blk: "blk p' b = (if b = ?b then nb else blk p b)" for b by (auto simp: blk_def cells)
  have "blk p b \<noteq> nb" if "b < DISK_BLOCK_NUM" for b using pobj_invD(2) [OF assms(1) that] assms(5,6) by metis
  then have pg: "pg p' r = (if r = unat q then np else pg p r)" if "r < 2 ^ 30" for r
    using block_of [OF that] assms(4,5) request_unique [of r "unat q"] by (auto simp: pg_def blk cells image_iff)
  have "pobj_inv p' \<and> (\<forall>r < 2 ^ 30. pobj_page r p' = (if r = unat q then Some c else pobj_page r p))"
    by (rule cache_put [OF assms(1,2), of p' np c])
      (use live blk pg assms pobj_invD(1) [OF assms(1)] in \<open>auto simp: cells\<close>)
  moreover have "card (live p') = card (live p) + 2" using live assms(6,8,9) pobj_invD(1) [OF assms(1)] by simp
  moreover have "pobj_page (unat q) p = None" using assms(4) by (simp add: pobj_page_def pg_def)
  moreover have "exposed cbs_owner {} {} ?ops = {}" by (simp add: exposed_clear_block)
  ultimately have "write_tx_result p (unat q) c ?ops" by (intro write_tx_resultI [OF p'_def]) simp_all
  then show ?thesis using tx by blast
qed

lemma write_tx_new_page:
  assumes "pobj_inv p" "unat q < 2 ^ 30" "length c = 4096" "blk p (unat q div 1024) \<noteq> 0" "pg p (unat q) = 0"
    and "np \<noteq> 0" "np \<notin> live p"
  shows "\<exists>ops. write_tx nb np q c p = Some ops \<and> write_tx_result p (unat q) c ops"
proof -
  let ?b = "unat q div 1024" and ?g = "unat q mod 1024"
  let ?i = "blk p ?b"
  let ?ops = "[Tx_alloc np, Store (Rpage np) (Content c), Tx_add [Page_slot ?i ?g], Store (Page_slot ?i ?g) (Ref np),
    Tx_add [Count ?i], Store (Count ?i) (Cnt (cnt_of (cells p (Count ?i)) + 1))]"
  define p' where "p' = run_ops ?ops p"
  have i: "?i \<in> live p" using pobj_invD(2) [OF assms(1) block_of [OF assms(2)] assms(4)] .
  have tx: "write_tx nb np q c p = Some ?ops"
    using request_bound [of q] assms(2-5) i by (simp add: write_tx_def Let_def req_block_eq req_page_eq blk_def pg_def)
  have cells: "cells p' l = (if l = Page_slot ?i ?g then Ref np else if l = Count ?i then Cnt (cnt_of (cells p (Count ?i)) + 1)
    else if l = Rpage np then Content c else cells p l)" for l by (simp add: p'_def)
  have live: "live p' = insert np (live p)" by (simp add: p'_def)
  have blk: "blk p' b = blk p b" for b by (simp add: blk_def cells)
  have pg: "pg p' r = (if r = unat q then np else pg p r)" if "r < 2 ^ 30" for r
    using pobj_invD(3) [OF assms(1) block_of [OF that] block_of [OF assms(2)]] assms(4) request_unique [of r "unat q"]
    by (auto simp: pg_def blk cells)
  have "pobj_inv p' \<and> (\<forall>r < 2 ^ 30. pobj_page r p' = (if r = unat q then Some c else pobj_page r p))"
    by (rule cache_put [OF assms(1,2), of p' np c])
      (use i live blk pg assms(6,7) pobj_invD(1) [OF assms(1)] in \<open>auto simp: cells\<close>)
  moreover have "card (live p') = Suc (card (live p))" using live assms(7) pobj_invD(1) [OF assms(1)] by simp
  moreover have "pobj_page (unat q) p = None" using assms(5) by (simp add: pobj_page_def)
  ultimately have "write_tx_result p (unat q) c ?ops" by (intro write_tx_resultI [OF p'_def]) simp_all
  then show ?thesis using tx by blast
qed

lemma write_tx_overwrite:
  assumes "pobj_inv p" "unat q < 2 ^ 30" "length c = 4096" "pg p (unat q) \<noteq> 0"
  shows "\<exists>ops. write_tx nb np q c p = Some ops \<and> write_tx_result p (unat q) c ops"
proof -
  let ?i = "pg p (unat q)" and ?b = "unat q div 1024"
  let ?ops = "[Tx_add [Rpage ?i], Store (Rpage ?i) (Content c)]"
  define p' where "p' = run_ops ?ops p"
  have b: "blk p ?b \<noteq> 0" using assms(4) by (auto simp: pg_def split: if_splits)
  then have "blk p ?b \<in> live p" using pobj_invD(2) [OF assms(1) block_of [OF assms(2)]] by blast
  moreover have i: "?i \<in> live p" using pobj_invD(4) [OF assms(1,2,4)] .
  ultimately have tx: "write_tx nb np q c p = Some ?ops"
    using request_bound [of q] assms(2-4) b by (simp add: write_tx_def Let_def req_block_eq req_page_eq blk_def pg_def)
  have cells: "cells p' l = (if l = Rpage ?i then Content c else cells p l)" for l by (simp add: p'_def)
  have live: "live p' = live p" by (simp add: p'_def)
  have blk: "blk p' b = blk p b" for b by (simp add: blk_def cells)
  have pg: "pg p' r = pg p r" for r by (simp add: pg_def blk cells)
  have "pobj_inv p' \<and> (\<forall>r < 2 ^ 30. pobj_page r p' = (if r = unat q then Some c else pobj_page r p))"
    by (rule cache_put [OF assms(1,2), of p' ?i c])
      (use i blk pg live assms(4) pobj_invD(1) [OF assms(1)] \<open>blk p ?b \<in> live p\<close> in \<open>auto simp: cells\<close>)
  then have "write_tx_result p (unat q) c ?ops" using live by (intro write_tx_resultI [OF p'_def]) simp_all
  then show ?thesis using tx by blast
qed

text \<open>The objects an allocation may return: not null, not in use, and not the same one twice.\<close>

definition fresh_objects :: "cbs_pool \<Rightarrow> nat \<Rightarrow> oid \<Rightarrow> oid \<Rightarrow> bool" where
  "fresh_objects p r nb np \<longleftrightarrow> np \<noteq> 0 \<and> np \<notin> live p \<and> (blk p (r div 1024) = 0 \<longrightarrow> nb \<noteq> 0 \<and> nb \<notin> live p \<and> np \<noteq> nb)"

lemma write_tx_ok:
  assumes "pobj_inv p" "unat q < 2 ^ 30" "length c = 4096" "fresh_objects p (unat q) nb np"
  shows "\<exists>ops. write_tx nb np q c p = Some ops \<and> write_tx_result p (unat q) c ops"
  using write_tx_new_block [OF assms(1-3)] write_tx_new_page [OF assms(1-3)] write_tx_overwrite [OF assms(1-3)] assms(4)
  unfolding fresh_objects_def by metis

lemma empty_cache_inv: "pobj_inv empty_cache" "pobj_page r empty_cache = None" "live empty_cache = {}"
  by (simp_all add: pobj_inv_def empty_cache_def blk_def pg_def pobj_page_def)

lemma pobj_read:
  assumes "pobj_inv p" "unat q < 2 ^ 30"
  shows "read_req q p = Some (pg p (unat q))"
  using pobj_invD(2) [OF assms(1) block_of [OF assms(2)]] pobj_invD(4) [OF assms] request_bound [of q] assms(2)
  by (cases "blk p (unat q div 1024) = 0") (auto simp: read_req_def Let_def req_block_eq req_page_eq pg_def blk_def [symmetric])

lemma pobj_get_page: "pobj_inv p \<Longrightarrow> r < 2 ^ 30 \<Longrightarrow> pobj_get r p = pobj_page r p"
  using pobj_read [of p "of_nat r"] by (simp add: pobj_get_def pobj_page_def unsigned_of_nat take_bit_nat_eq_self)

text \<open>An allocator that succeeds while fewer than \<open>cap\<close> objects are in use, and transactions that commit.\<close>

definition oids_ok :: "tx_env \<Rightarrow> (oid set \<Rightarrow> oid) \<Rightarrow> nat \<Rightarrow> bool" where
  "oids_ok env alloc cap \<longleftrightarrow> begin_ok env \<and> stop_at env = None \<and>
    (\<forall>L. finite L \<longrightarrow> card L < cap \<longrightarrow> alloc L \<noteq> 0 \<and> alloc L \<notin> L)"

lemma pobj_put_ok:
  assumes "pobj_inv p" "r < 2 ^ 30" "length c = 4096" "oids_ok env alloc cap" "card (live p) + 2 \<le> cap"
  shows "\<exists>p'. pobj_put env rollback alloc r c p = Some p' \<and> pobj_inv p' \<and>
    (\<forall>q < 2 ^ 30. pobj_page q p' = (if q = r then Some c else pobj_page q p)) \<and>
    card (live p') \<le> card (live p) + (if pobj_page r p = None then 2 else 0)"
proof -
  let ?nb = "alloc (live p)" and ?q = "of_nat r :: u64"
  let ?np = "if ref_of (cells p (Block (req_block ?q))) = 0 then alloc (insert ?nb (live p)) else ?nb"
  have q: "unat ?q = r" using assms(2) by (simp add: unsigned_of_nat take_bit_nat_eq_self)
  have alloc: "alloc L \<noteq> 0" "alloc L \<notin> L" if "finite L" "card L < cap" for L
    using assms(4) that unfolding oids_ok_def by blast+
  have "card (insert ?nb (live p)) < cap" using card_insert_le_m1 [of "cap - 1" "live p" ?nb] assms(5) by linarith
  then have "?nb \<noteq> 0" "?nb \<notin> live p" "alloc (insert ?nb (live p)) \<noteq> 0" "alloc (insert ?nb (live p)) \<notin> insert ?nb (live p)"
    using alloc [of "live p"] alloc [of "insert ?nb (live p)"] pobj_invD(1) [OF assms(1)] assms(5) by simp_all
  then have "fresh_objects p (unat ?q) ?nb ?np" by (simp add: fresh_objects_def blk_def req_block_eq)
  from write_tx_ok [OF assms(1) _ assms(3) this] q assms(2) obtain ops where
    "write_tx ?nb ?np ?q c p = Some ops" "write_tx_result p r c ops" by auto
  then show ?thesis using assms(4) by (auto simp: pobj_put_def write_req_def oids_ok_def tx_ends_def write_tx_result_def)
qed

interpretation pobj: page_store "\<lambda>p. pobj_inv p \<and> oids_ok env alloc cap" "\<lambda>m p. card (live p) + 2 * m \<le> cap" "\<lambda>r. r < 2 ^ 30"
  "pobj_put env rollback alloc" pobj_get for env rollback alloc cap
proof
  fix p :: cbs_pool and m r :: nat and c :: bytes
  show "card (live p) + 2 * m \<le> cap" if "card (live p) + 2 * Suc m \<le> cap" using that by simp
  assume h: "pobj_inv p \<and> oids_ok env alloc cap" "r < 2 ^ 30" "card (live p) + 2 * Suc m \<le> cap" "length c = 4096"
  obtain p' where p': "pobj_put env rollback alloc r c p = Some p'" "pobj_inv p'"
    "\<forall>q < 2 ^ 30. pobj_page q p' = (if q = r then Some c else pobj_page q p)"
    "card (live p') \<le> card (live p) + (if pobj_page r p = None then 2 else 0)"
    using pobj_put_ok [of p r c env alloc cap rollback] h by auto
  then show "\<exists>s'. pobj_put env rollback alloc r c p = Some s' \<and> (pobj_inv s' \<and> oids_ok env alloc cap) \<and>
      (\<forall>q. q < 2 ^ 30 \<longrightarrow> pobj_get q s' = (if q = r then Some c else pobj_get q p)) \<and>
      card (live s') + 2 * (if pobj_get r p = None then m else Suc m) \<le> cap"
    using h pobj_get_page [of p] pobj_get_page [OF p'(2)] by (intro exI [of _ p']) (simp split: if_splits)
qed

section \<open>Properties\<close>

text \<open>
  C20: A page write in the transactional cache is atomic. When the library restores what a transaction
  added, a crash at any moment of \<open>write_req\<close> leaves a consistent cache that holds either all old pages or the new
  page and all others; the same holds for a transaction that fails, after which \<open>write_req\<close> returns 0 although the
  old pages are still there. A write that commits stores its page.
\<close>

theorem transactional_write_is_crash_atomic:
  assumes "tx_undo cbs_owner rollback" "pobj_inv p" "unat q < 2 ^ 30" "length c = 4096" "fresh_objects p (unat q) nb np"
  shows "\<exists>ops p1. write_tx nb np q c p = Some ops \<and>
    (\<forall>p'. tx_crashed rollback ops p p' \<longrightarrow> pobj_inv p' \<and>
      ((\<forall>r < 2 ^ 30. pobj_page r p' = pobj_page r p) \<or> (\<forall>r < 2 ^ 30. pobj_page r p' = (if r = unat q then Some c else pobj_page r p)))) \<and>
    write_req env rollback nb np q c p = Some (0, p1) \<and> pobj_inv p1 \<and>
    (\<forall>r < 2 ^ 30. pobj_page r p1 = (if r = unat q \<and> tx_commits env ops then Some c else pobj_page r p))"
proof -
  obtain ops where tx: "write_tx nb np q c p = Some ops" "write_tx_result p (unat q) c ops" using write_tx_ok [OF assms(2-5)] by blast
  then have res: "exposed cbs_owner {} {} ops = {}" "pobj_inv (run_ops ops p)"
    "\<forall>r < 2 ^ 30. pobj_page r (run_ops ops p) = (if r = unat q then Some c else pobj_page r p)" by (simp_all add: write_tx_result_def)
  have crash: "pobj_inv p' \<and> ((\<forall>r < 2 ^ 30. pobj_page r p' = pobj_page r p) \<or>
      (\<forall>r < 2 ^ 30. pobj_page r p' = (if r = unat q then Some c else pobj_page r p)))" if "tx_crashed rollback ops p p'" for p'
    using tx_crashed_cases [OF assms(1) res(1) that]
  proof
    assume "p' = run_ops ops p"
    then show ?thesis using res(2,3) by simp
  next
    assume "same_pool cbs_owner p p'"
    then show ?thesis using same_cache [OF assms(2)] by blast
  qed
  have run: "write_req env rollback nb np q c p = Some (0, tx_ends env rollback ops p)" using tx(1) by (simp add: write_req_def tx_ends_def)
  have "pobj_inv (tx_ends env rollback ops p) \<and> (\<forall>r < 2 ^ 30. pobj_page r (tx_ends env rollback ops p) =
      (if r = unat q \<and> tx_commits env ops then Some c else pobj_page r p))"
  proof (cases "tx_commits env ops")
    case True
    then show ?thesis using tx_ends_cases [OF assms(1) res(1), of env p] res(2,3) by simp
  next
    case False
    then have "same_pool cbs_owner p (tx_ends env rollback ops p)" using tx_ends_cases [OF assms(1) res(1), of env p] by simp
    from same_cache [OF assms(2) this] show ?thesis using False by simp
  qed
  note ends = this [THEN conjunct1] this [THEN conjunct2]
  show ?thesis
    by (intro exI [of _ ops] exI [of _ "tx_ends env rollback ops p"] conjI tx(1) run ends) (intro allI impI, rule crash)
qed

theorem transactional_write_is_crash_atomic_witness:
  "\<exists>p1. write_req \<lparr>begin_ok = True, stop_at = None\<rparr> (undo_log cbs_owner) 1 2 5 (page_of 7) empty_cache = Some (0, p1) \<and>
     pobj_page 5 p1 = Some (page_of 7) \<and> pobj_page 6 p1 = None"
proof -
  let ?env = "\<lparr>begin_ok = True, stop_at = None\<rparr>"
  have fr: "fresh_objects empty_cache (unat (5 :: u64)) 1 2" by (simp add: fresh_objects_def empty_cache_def)
  have r5: "unat (5 :: u64) < 2 ^ 30" by simp
  have len: "length (page_of 7) = 4096" by (simp add: page_of_def)
  obtain ops :: cbs_tx and p1 where
    "write_req \<lparr>begin_ok = True, stop_at = None\<rparr> (undo_log cbs_owner) 1 2 5 (page_of 7) empty_cache = Some (0, p1)"
    "\<forall>r < 2 ^ 30. pobj_page r p1 = (if r = unat (5 :: u64) \<and> tx_commits \<lparr>begin_ok = True, stop_at = None\<rparr> ops then Some (page_of 7)
       else pobj_page r empty_cache)"
    using transactional_write_is_crash_atomic [OF undo_log_ok empty_cache_inv(1) r5 len fr, of ?env]
    by (elim exE conjE) (rule that)
  then show ?thesis using empty_cache_inv(2) by (intro exI [of _ p1]) (simp add: tx_commits_def)
qed

text \<open>
  Deleting a page leaves a dangling entry. After \<open>delete_page\<close> has freed a stored page, its entry still
  names the freed object: reading, writing or deleting the same request again accesses an object that is not allocated.
\<close>

theorem delete_leaves_dangling_page:
  assumes "pobj_inv p" "unat q < 2 ^ 30" "pobj_page (unat q) p \<noteq> None" "begin_ok env" "stop_at env = None"
  shows "\<exists>p'. delete_page env rollback q p = Some p' \<and> read_req q p' = None \<and>
    write_req env rollback nb np q c p' = None \<and> delete_page env rollback q p' = None"
proof -
  let ?b = "req_block q" and ?i = "pg p (unat q)"
  have i: "?i \<noteq> 0" using assms(3) by (auto simp: pobj_page_def split: if_splits)
  then have b: "blk p ?b \<noteq> 0" "?i = ref_of (cells p (Page_slot (blk p ?b) (req_page q)))"
    by (auto simp: pg_def req_block_eq req_page_eq split: if_splits)
  have live: "?i \<in> live p" "blk p ?b \<in> live p" "\<not> DISK_BLOCK_NUM \<le> ?b"
    using pobj_invD(4) [OF assms(1,2) i] pobj_invD(2) [OF assms(1) block_of [OF assms(2)]] b(1) request_bound [of q] assms(2)
    by (auto simp: req_block_eq)
  let ?p = "run_op (Tx_free ?i) p"
  have "delete_page env rollback q p = Some ?p"
    using b live i assms(4,5) by (simp add: delete_page_def Let_def blk_def tx_ends_def)
  moreover have "read_req q ?p = None" "write_req env rollback nb np q c ?p = None" "delete_page env rollback q ?p = None"
    using b live i assms(4)
    by (simp_all add: read_req_def write_req_def write_tx_def delete_page_def Let_def blk_def)
  ultimately show ?thesis by blast
qed

theorem delete_leaves_dangling_page_witness:
  "\<exists>p p'. pobj_page 5 p = Some (page_of 7) \<and> delete_page \<lparr>begin_ok = True, stop_at = None\<rparr> (undo_log cbs_owner) 5 p = Some p' \<and>
     read_req 5 p' = None"
proof -
  let ?env = "\<lparr>begin_ok = True, stop_at = None\<rparr>"
  have "fresh_objects empty_cache (unat (5 :: u64)) 1 2" by (simp add: fresh_objects_def empty_cache_def)
  moreover have "length (page_of 7) = 4096" by (simp add: page_of_def)
  ultimately obtain ops where "write_tx_result empty_cache 5 (page_of 7) ops"
    using write_tx_ok [OF empty_cache_inv(1), of 5 "page_of 7" 1 2] by auto
  then have p: "pobj_inv (run_ops ops empty_cache)" "pobj_page 5 (run_ops ops empty_cache) = Some (page_of 7)"
    by (simp_all add: write_tx_result_def)
  from p(2) have "pobj_page (unat (5 :: u64)) (run_ops ops empty_cache) \<noteq> None" by simp
  from delete_leaves_dangling_page [OF p(1) _ this, of ?env "undo_log cbs_owner" 0 0 "[]"] obtain p' where
    "delete_page ?env (undo_log cbs_owner) 5 (run_ops ops empty_cache) = Some p'" "read_req 5 p' = None" by auto
  then show ?thesis using p(2) by blast
qed

text \<open>\<open>main\<close> on a new pool with room for its pages: it prints the uninitialised count and the two patterns.\<close>

theorem pmemobj_main_reads_back:
  assumes "oids_ok env alloc cap" "2 * WRITE_COUNT + 2 \<le> cap"
  shows "\<exists>p. main env rollback alloc True open_ok True garbage None = Some (p, garbage, 0xcd, 0xab) \<and> pobj_inv p \<and>
    (\<forall>r < WRITE_COUNT. pobj_page r p = Some (if r < OVERWRITE_COUNT then page_of 0xcd else page_of 0xab))"
proof -
  have c: "0 < OVERWRITE_COUNT" "OVERWRITE_COUNT < WRITE_COUNT" "\<forall>r < WRITE_COUNT. r < 2 ^ 30"
    by (auto simp: OVERWRITE_COUNT_def WRITE_COUNT_def)
  have len: "length (page_of 0xab) = 4096" "length (page_of 0xcd) = 4096" by (simp_all add: page_of_def)
  obtain p where p: "benchmark (pobj_put env rollback alloc) pobj_get WRITE_COUNT OVERWRITE_COUNT (page_of 0xab) (page_of 0xcd) empty_cache =
      Some (p, page_of 0xcd, page_of 0xab)" "pobj_inv p"
    "\<forall>r < WRITE_COUNT. pobj_get r p = Some (if r < OVERWRITE_COUNT then page_of 0xcd else page_of 0xab)"
    using pobj.benchmark_ok [OF _ c(3) _ c(1,2) len, of empty_cache env alloc cap rollback] empty_cache_inv(1,3) assms by auto
  have "fold (\<lambda>i cnt. cnt) xs garbage = garbage" for xs :: "nat list" by (induction xs) simp_all
  then have "get_cached_count garbage empty_cache = garbage" by (simp add: get_cached_count_def empty_cache_def)
  then have "main env rollback alloc True open_ok True garbage None = Some (p, garbage, 0xcd, 0xab)"
    using p(1) by (simp add: main_def cbs_init_def page_of_def)
  then show ?thesis using p(2,3) c(3) pobj_get_page by auto
qed

end
