(* ===== verification/Cbs_Ssd.thy ===== *)
theory Cbs_Ssd
  imports Cbs_Pmem Page_Store
begin

text \<open>
  The page store of \<^verbatim>\<open>cbs_req/cbs_req_ssd.cpp\<close>: a memory-mapped file in which a request number, shifted by twelve
  bits, is the offset of its page. \<open>None\<close> is an access outside the mapping or a failed assertion.
\<close>

section \<open>The program\<close>

definition cbs_init :: "bool \<Rightarrow> mem \<Rightarrow> int \<times> mem option" where
  "cbs_init map_ok p = (if map_ok then (0, Some p) else (-1, None))"

definition page_offset :: "u64 \<Rightarrow> nat" where
  "page_offset req_id = unat (push_bit 12 req_id)"

text \<open>A page that lies in the mapping.\<close>

definition mapped :: "nat \<Rightarrow> bool" where
  "mapped off \<longleftrightarrow> off + PAGE_SIZE \<le> PMEM_SIZE"

definition write_req :: "u64 \<Rightarrow> bytes \<Rightarrow> mem \<Rightarrow> (int \<times> mem) option" where
  "write_req req_id content p =
    (let off = page_offset req_id in if mapped off then Some (0, store_bytes p off (take PAGE_SIZE content)) else None)"

text \<open>The offset that is returned as a pointer.\<close>

definition read_req :: "u64 \<Rightarrow> nat" where
  "read_req req_id = page_offset req_id"

definition ssd_put :: "nat \<Rightarrow> bytes \<Rightarrow> mem \<Rightarrow> mem option" where
  "ssd_put r c p = map_option snd (write_req (of_nat r) c p)"

definition ssd_get :: "nat \<Rightarrow> mem \<Rightarrow> bytes option" where
  "ssd_get r p = (let off = read_req (of_nat r) in if mapped off then Some (load_bytes p off PAGE_SIZE) else None)"

text \<open>A reading loop that asserts the first byte of every page.\<close>

primrec read_assert :: "(nat \<Rightarrow> 's \<Rightarrow> bytes option) \<Rightarrow> u8 \<Rightarrow> nat list \<Rightarrow> bytes \<Rightarrow> 's \<Rightarrow> bytes option" where
  "read_assert get b [] buf s = Some buf"
| "read_assert get b (r # rs) buf s = Option.bind (get r s) (\<lambda>c. if c ! 0 = b then read_assert get b rs c s else None)"

text \<open>
  \<open>main\<close>: the file at the end and the four bytes printed. It reads first, then writes, overwrites and
  reads again with assertions; \<open>buf\<close> is the allocated buffer.
\<close>

definition main :: "bool \<Rightarrow> bytes \<Rightarrow> mem \<Rightarrow> (mem \<times> u8 list) option" where
  "main map_ok buf p =
    (case cbs_init map_ok p of
       (_, None) \<Rightarrow> None
     | (_, Some p) \<Rightarrow>
        Option.bind (read_all ssd_get [0..<OVERWRITE_COUNT] buf p) (\<lambda>b1.
        Option.bind (read_all ssd_get [OVERWRITE_COUNT..<WRITE_COUNT] b1 p) (\<lambda>b2.
        Option.bind (write_all ssd_put [0..<WRITE_COUNT] (page_of 0xab) p) (\<lambda>p.
        Option.bind (write_all ssd_put [0..<OVERWRITE_COUNT] (page_of 0xcd) p) (\<lambda>p.
        Option.bind (read_assert ssd_get 0xcd [0..<OVERWRITE_COUNT] (page_of 0xcd) p) (\<lambda>b3.
        Option.bind (read_assert ssd_get 0xab [OVERWRITE_COUNT..<WRITE_COUNT] b3 p) (\<lambda>b4.
        Some (p, [b1 ! 0, b2 ! 0, b3 ! 0, b4 ! 0]))))))))"

section \<open>The file as a store\<close>

text \<open>The number of pages of the mapping.\<close>

definition SSD_PAGES :: nat where
  "SSD_PAGES = 26214400"

lemma page_offset_small: "r < SSD_PAGES \<Longrightarrow> page_offset (of_nat r) = r * 4096 \<and> mapped (r * 4096)"
proof -
  assume "r < SSD_PAGES"
  then have r: "r < 26214400" by (simp add: SSD_PAGES_def)
  have "push_bit 12 (of_nat r :: u64) = of_nat (r * 4096)" by (simp add: push_bit_eq_mult)
  then have "page_offset (of_nat r) = r * 4096" using r by (simp add: page_offset_def unsigned_of_nat take_bit_nat_eq_self del: of_nat_mult)
  then show ?thesis using r by (simp add: mapped_def PAGE_SIZE_def PMEM_SIZE_def)
qed

lemma ssd_ops:
  assumes "r < SSD_PAGES"
  shows "ssd_get r p = Some (load_bytes p (r * 4096) 4096)"
    "length c = 4096 \<Longrightarrow> ssd_put r c p = Some (store_bytes p (r * 4096) c)"
  using page_offset_small [OF assms] by (simp_all add: ssd_get_def ssd_put_def read_req_def write_req_def Let_def PAGE_SIZE_def)

interpretation ssd: page_store "\<lambda>_. True" "\<lambda>_ _. True" "\<lambda>r. r < SSD_PAGES" ssd_put ssd_get
proof
  fix p :: mem and r :: nat and c :: bytes
  assume h: "r < SSD_PAGES" "length c = 4096"
  have "ssd_get q (store_bytes p (r * 4096) c) = (if q = r then Some c else ssd_get q p)" if "q < SSD_PAGES" for q
  proof (cases "q = r")
    case True
    then show ?thesis using ssd_ops(1) [OF h(1)] h(2) load_store_same [of p "r * 4096" c] by simp
  next
    case False
    then have "q * 4096 + 4096 \<le> r * 4096 \<or> r * 4096 + length c \<le> q * 4096" using h(2) by (cases "q < r") auto
    then have "load_bytes (store_bytes p (r * 4096) c) (q * 4096) 4096 = load_bytes p (q * 4096) 4096"
      by (intro load_bytes_cong store_bytes_outside) auto
    then show ?thesis using ssd_ops(1) [OF that] False by simp
  qed
  then show "\<exists>s'. ssd_put r c p = Some s' \<and> True \<and> (\<forall>q. q < SSD_PAGES \<longrightarrow> ssd_get q s' = (if q = r then Some c else ssd_get q p)) \<and> True"
    using ssd_ops(2) [OF h] by simp
qed simp

lemma read_assert_ok:
  "\<forall>r \<in> set rs. get r s = Some c \<Longrightarrow> c ! 0 = b \<Longrightarrow> rs \<noteq> [] \<Longrightarrow> read_assert get b rs buf s = Some c"
proof (induction rs arbitrary: buf)
  case (Cons r rs)
  then show ?case by (cases rs) auto
qed simp

lemma read_all_some: "\<forall>r \<in> set rs. get r s \<noteq> None \<Longrightarrow> \<exists>b. read_all get rs buf s = Some b"
  by (induction rs arbitrary: buf) auto

section \<open>Properties\<close>

text \<open>
  The program on the mapped file ends with its assertions satisfied. Whatever the file held, the two
  asserting loops read 0xcd from every overwritten page and 0xab from every other, and \<open>main\<close> prints these two bytes last.
\<close>

theorem ssd_program_asserts_hold:
  "\<exists>p' x y. main True buf p = Some (p', [x, y, 0xcd, 0xab]) \<and>
    (\<forall>r < WRITE_COUNT. load_bytes p' (r * 4096) 4096 = page_of (if r < OVERWRITE_COUNT then 0xcd else 0xab))"
proof -
  have c: "OVERWRITE_COUNT < WRITE_COUNT" "0 < OVERWRITE_COUNT" "\<And>r. r < WRITE_COUNT \<Longrightarrow> r < SSD_PAGES"
    by (auto simp: OVERWRITE_COUNT_def WRITE_COUNT_def SSD_PAGES_def)
  have len: "length (page_of 0xab) = 4096" "length (page_of 0xcd) = 4096" by (simp_all add: page_of_def)
  obtain b1 where b1: "read_all ssd_get [0..<OVERWRITE_COUNT] buf p = Some b1"
    using read_all_some [of "[0..<OVERWRITE_COUNT]" ssd_get p buf] ssd_ops(1) c by fastforce
  obtain b2 where b2: "read_all ssd_get [OVERWRITE_COUNT..<WRITE_COUNT] b1 p = Some b2"
    using read_all_some [of "[OVERWRITE_COUNT..<WRITE_COUNT]" ssd_get p b1] ssd_ops(1) c by fastforce
  obtain p1 where p1: "write_all ssd_put [0..<WRITE_COUNT] (page_of 0xab) p = Some p1"
    "\<forall>q < SSD_PAGES. ssd_get q p1 = (if q \<in> set [0..<WRITE_COUNT] then Some (page_of 0xab) else ssd_get q p)"
    using ssd.write_all_ok [of "[0..<WRITE_COUNT]" 1 "page_of 0xab" p] c(3) len by auto
  obtain p2 where p2: "write_all ssd_put [0..<OVERWRITE_COUNT] (page_of 0xcd) p1 = Some p2"
    "\<forall>q < SSD_PAGES. ssd_get q p2 = (if q \<in> set [0..<OVERWRITE_COUNT] then Some (page_of 0xcd) else ssd_get q p1)"
    using ssd.write_all_ok [of "[0..<OVERWRITE_COUNT]" 1 "page_of 0xcd" p1] c len by auto
  have get: "ssd_get r p2 = Some (page_of (if r < OVERWRITE_COUNT then 0xcd else 0xab))" if "r < WRITE_COUNT" for r
    using p1(2) p2(2) c(3) [OF that] that by auto
  have "read_assert ssd_get 0xcd [0..<OVERWRITE_COUNT] (page_of 0xcd) p2 = Some (page_of 0xcd)"
    using get c by (intro read_assert_ok) (auto simp: page_of_def)
  moreover have "read_assert ssd_get 0xab [OVERWRITE_COUNT..<WRITE_COUNT] (page_of 0xcd) p2 = Some (page_of 0xab)"
    using get c by (intro read_assert_ok) (auto simp: page_of_def)
  ultimately have "main True buf p = Some (p2, [b1 ! 0, b2 ! 0, page_of 0xcd ! 0, page_of 0xab ! 0])"
    using b1 b2 p1(1) p2(1) unfolding main_def cbs_init_def by simp
  moreover have "page_of 0xcd ! 0 = 0xcd" "page_of 0xab ! 0 = 0xab" by (simp_all add: page_of_def)
  moreover have "\<forall>r < WRITE_COUNT. load_bytes p2 (r * 4096) 4096 = page_of (if r < OVERWRITE_COUNT then 0xcd else 0xab)"
    using get ssd_ops(1) c(3) by auto
  ultimately show ?thesis by auto
qed

theorem ssd_program_asserts_hold_witness:
  "\<exists>p' x y. main True (page_of 0) (\<lambda>_. 0) = Some (p', [x, y, 0xcd, 0xab]) \<and> load_bytes p' (3 * 4096) 4096 = page_of 0xcd"
proof -
  obtain p' x y where run: "main True (page_of 0) (\<lambda>_. 0) = Some (p', [x, y, 0xcd, 0xab])"
    "\<forall>r < WRITE_COUNT. load_bytes p' (r * 4096) 4096 = page_of (if r < OVERWRITE_COUNT then 0xcd else 0xab)"
    using ssd_program_asserts_hold [of "page_of 0" "\<lambda>_. 0"] by blast
  have "3 < WRITE_COUNT" "3 < OVERWRITE_COUNT" by (simp_all add: WRITE_COUNT_def OVERWRITE_COUNT_def)
  with run(2) [rule_format, of 3] have "load_bytes p' (3 * 4096) 4096 = page_of 0xcd" by simp
  with run(1) show ?thesis by blast
qed

text \<open>The shift drops the highest twelve bits: requests that differ in them share a page.\<close>

theorem ssd_requests_alias: "write_req (q + 2 ^ 52) c p = write_req q c p"
proof -
  have "push_bit 12 (2 ^ 52 :: u64) = 2 ^ 64" unfolding push_bit_eq_mult by (simp only: power_add [symmetric] semiring_norm)
  also have "\<dots> = (0 :: u64)" using word_exp_length_eq_0 [where 'a = 64] by simp
  finally have "push_bit 12 (q + 2 ^ 52) = push_bit 12 q" by (simp only: push_bit_add add_0_right)
  then show ?thesis by (simp add: write_req_def page_offset_def)
qed

end
