(* ===== verification/Cbs_Pmemblk.thy ===== *)
theory Cbs_Pmemblk
  imports Page_Store
begin

text \<open>
  The page store of \<^verbatim>\<open>cbs_req/cbs_req_pmemblk.cpp\<close>, a thin layer over \<open>libpmemblk\<close>. The library is not part of the
  sources: \<open>pmemblk_write\<close> and \<open>pmemblk_read\<close> are arguments on a state of their own, and \<open>blk_works\<close> states what its
  manual promises when no operation fails.
\<close>

section \<open>The program\<close>

type_synonym 's blk_write = "bytes \<Rightarrow> nat \<Rightarrow> 's \<Rightarrow> int \<times> 's"
type_synonym 's blk_read = "nat \<Rightarrow> 's \<Rightarrow> int \<times> bytes"

text \<open>The pool that was created or opened, if any, and the number of its elements.\<close>

definition cbs_init :: "'s option \<Rightarrow> 's option \<Rightarrow> ('s \<Rightarrow> nat) \<Rightarrow> int \<times> ('s \<times> nat) option" where
  "cbs_init created opened nblock =
    (case (case created of None \<Rightarrow> opened | Some s \<Rightarrow> Some s) of
       None \<Rightarrow> (-1, None)
     | Some s \<Rightarrow> (0, Some (s, nblock s)))"

definition write_req :: "'s blk_write \<Rightarrow> nat \<Rightarrow> u64 \<Rightarrow> bytes \<Rightarrow> 's \<Rightarrow> (int \<times> 's) outcome" where
  "write_req pmemblk_write nelements req_id content s =
    (if unat req_id < nelements then
       (case pmemblk_write (take 4096 content) (unat req_id) s of (r, s) \<Rightarrow> Done (if r < 0 then -1 else 0, s))
     else Aborted)"

text \<open>Whether a null pointer is returned, and the buffer afterwards.\<close>

definition read_req :: "'s blk_read \<Rightarrow> nat \<Rightarrow> u64 \<Rightarrow> 's \<Rightarrow> (bool \<times> bytes) outcome" where
  "read_req pmemblk_read nelements req_id s =
    (if unat req_id < nelements then (case pmemblk_read (unat req_id) s of (r, buf) \<Rightarrow> Done (r < 0, buf)) else Aborted)"

definition blk_put :: "'s blk_write \<Rightarrow> nat \<Rightarrow> nat \<Rightarrow> bytes \<Rightarrow> 's \<Rightarrow> 's option" where
  "blk_put wr n r c s = map_option snd (returned (write_req wr n (of_nat r) c s))"

text \<open>The reading loop: the last pointer returned and the buffer.\<close>

primrec read_into :: "'s blk_read \<Rightarrow> nat \<Rightarrow> nat list \<Rightarrow> bool \<times> bytes \<Rightarrow> 's \<Rightarrow> (bool \<times> bytes) option" where
  "read_into rd n [] b s = Some b"
| "read_into rd n (r # rs) b s = Option.bind (returned (read_req rd n (of_nat r) s)) (\<lambda>b. read_into rd n rs b s)"

text \<open>The byte printed through the last pointer.\<close>

definition print_first :: "bool \<times> bytes \<Rightarrow> u8 option" where
  "print_first b = (if fst b then None else Some (snd b ! 0))"

definition main :: "'s blk_write \<Rightarrow> 's blk_read \<Rightarrow> 's option \<Rightarrow> 's option \<Rightarrow> ('s \<Rightarrow> nat) \<Rightarrow> ('s \<times> u8 \<times> u8) option" where
  "main wr rd created opened nblock =
    (case cbs_init created opened nblock of
       (_, None) \<Rightarrow> None
     | (_, Some (s, n)) \<Rightarrow>
        Option.bind (write_all (blk_put wr n) [0..<WRITE_COUNT] (page_of 0xab) s) (\<lambda>s.
        Option.bind (write_all (blk_put wr n) [0..<OVERWRITE_COUNT] (page_of 0xcd) s) (\<lambda>s.
        Option.bind (read_into rd n [0..<OVERWRITE_COUNT] (True, page_of 0xcd) s) (\<lambda>b1.
        Option.bind (print_first b1) (\<lambda>x.
        Option.bind (read_into rd n [OVERWRITE_COUNT..<WRITE_COUNT] b1 s) (\<lambda>b2.
        Option.bind (print_first b2) (\<lambda>y. Some (s, x, y))))))))"

section \<open>The library as a store\<close>

definition blk_works :: "'s blk_write \<Rightarrow> 's blk_read \<Rightarrow> nat \<Rightarrow> bool" where
  "blk_works wr rd n \<longleftrightarrow> (\<forall>s r c. r < n \<longrightarrow> length c = 4096 \<longrightarrow>
    0 \<le> fst (wr c r s) \<and> (\<forall>q < n. rd q (snd (wr c r s)) = (if q = r then (0, c) else rd q s)))"

definition blk_get :: "'s blk_read \<Rightarrow> nat \<Rightarrow> 's \<Rightarrow> bytes option" where
  "blk_get rd r s = (if fst (rd r s) < 0 then None else Some (snd (rd r s)))"

interpretation blk: page_store "\<lambda>_. blk_works wr rd n \<and> n \<le> 2 ^ 64" "\<lambda>_ _. True" "\<lambda>r. r < n" "blk_put wr n" "blk_get rd" for wr rd n
proof
  fix s r and c :: bytes
  assume h: "blk_works wr rd n \<and> n \<le> 2 ^ 64" "r < n" "length c = 4096"
  have r: "unat (of_nat r :: u64) = r" using h(1,2) by (simp add: unsigned_of_nat take_bit_nat_eq_self)
  then have "blk_put wr n r c s = Some (snd (wr c r s))" using h(2,3) by (simp add: blk_put_def write_req_def case_prod_beta)
  moreover have "\<forall>q < n. blk_get rd q (snd (wr c r s)) = (if q = r then Some c else blk_get rd q s)"
    using h by (simp add: blk_works_def blk_get_def)
  ultimately show "\<exists>s'. blk_put wr n r c s = Some s' \<and> (blk_works wr rd n \<and> n \<le> 2 ^ 64) \<and>
      (\<forall>q. q < n \<longrightarrow> blk_get rd q s' = (if q = r then Some c else blk_get rd q s)) \<and> True"
    using h(1) by simp
qed simp

lemma blk_read_into_ok:
  "\<forall>r \<in> set rs. r < n \<and> blk_get rd r s = Some c \<Longrightarrow> n \<le> 2 ^ 64 \<Longrightarrow> rs \<noteq> [] \<Longrightarrow> read_into rd n rs b s = Some (False, c)"
proof (induction rs arbitrary: b)
  case (Cons r rs)
  have "unat (of_nat r :: u64) = r" using Cons.prems(1,2) by (simp add: unsigned_of_nat take_bit_nat_eq_self)
  then have "read_req rd n (of_nat r) s = Done (False, c)"
    using Cons.prems(1) by (auto simp: read_req_def blk_get_def case_prod_beta split: if_splits)
  then show ?case using Cons by (cases rs) auto
qed simp

text \<open>The program on a pool that is large enough prints the two patterns.\<close>

theorem pmemblk_main_reads_back:
  assumes "blk_works wr rd (nblock s)" "nblock s \<le> 2 ^ 64" "WRITE_COUNT \<le> nblock s"
  shows "\<exists>s'. main wr rd (Some s) opened nblock = Some (s', 0xcd, 0xab)"
proof -
  let ?n = "nblock s"
  have c: "OVERWRITE_COUNT < WRITE_COUNT" "0 < OVERWRITE_COUNT" "\<And>r. r < WRITE_COUNT \<Longrightarrow> r < ?n"
    using assms(3) by (auto simp: OVERWRITE_COUNT_def WRITE_COUNT_def)
  have len: "length (page_of 0xab) = 4096" "length (page_of 0xcd) = 4096" by (simp_all add: page_of_def)
  have st: "blk_works wr rd ?n \<and> ?n \<le> 2 ^ 64" using assms(1,2) by simp
  obtain s1 where s1: "write_all (blk_put wr ?n) [0..<WRITE_COUNT] (page_of 0xab) s = Some s1"
    "\<forall>q < ?n. blk_get rd q s1 = (if q \<in> set [0..<WRITE_COUNT] then Some (page_of 0xab) else blk_get rd q s)"
    using blk.write_all_ok [OF st, of "[0..<WRITE_COUNT]" 1 "page_of 0xab" s] c(3) len by auto
  obtain s2 where s2: "write_all (blk_put wr ?n) [0..<OVERWRITE_COUNT] (page_of 0xcd) s1 = Some s2"
    "\<forall>q < ?n. blk_get rd q s2 = (if q \<in> set [0..<OVERWRITE_COUNT] then Some (page_of 0xcd) else blk_get rd q s1)"
    using blk.write_all_ok [OF st, of "[0..<OVERWRITE_COUNT]" 1 "page_of 0xcd" s1] c len by auto
  have "read_into rd ?n [0..<OVERWRITE_COUNT] b s2 = Some (False, page_of 0xcd)" for b
    using s2(2) c assms(2) by (intro blk_read_into_ok) auto
  moreover have "read_into rd ?n [OVERWRITE_COUNT..<WRITE_COUNT] b s2 = Some (False, page_of 0xab)" for b
    using s1(2) s2(2) c assms(2) by (intro blk_read_into_ok) auto
  ultimately show ?thesis
    using s1(1) s2(1) unfolding main_def cbs_init_def by (simp add: print_first_def page_of_def)
qed

end
