(* ===== verification/Decimal.thy ===== *)
theory Decimal
  imports Prelude
begin

text \<open>
  Decimal text as the C library prints and reads it: \<open>sprintf\<close> with \<open>%d\<close> or \<open>%ld\<close>, \<open>atoi\<close>, \<open>strtok\<close> with a single
  separator and \<open>fgets\<close>, with the lemmas on reading back what was printed.
\<close>

definition digit_char :: "nat \<Rightarrow> char" where
  "digit_char n = char_of (48 + n)"

fun print_nat :: "nat \<Rightarrow> string" where
  "print_nat n = (if n < 10 then [digit_char n] else print_nat (n div 10) @ [digit_char (n mod 10)])"

declare print_nat.simps [simp del]

definition print_int :: "int \<Rightarrow> string" where
  "print_int i = (if i < 0 then CHR ''-'' # print_nat (nat (- i)) else print_nat (nat i))"

definition is_digit :: "char \<Rightarrow> bool" where
  "is_digit c \<longleftrightarrow> 48 \<le> (of_char c :: nat) \<and> (of_char c :: nat) \<le> 57"

definition digit_value :: "char \<Rightarrow> nat" where
  "digit_value c = of_char c - 48"

fun read_digits :: "nat \<Rightarrow> string \<Rightarrow> nat" where
  "read_digits acc [] = acc"
| "read_digits acc (c # cs) = (if is_digit c then read_digits (acc * 10 + digit_value c) cs else acc)"

definition is_space :: "char \<Rightarrow> bool" where
  "is_space c \<longleftrightarrow> (of_char c :: nat) = 32 \<or> 9 \<le> (of_char c :: nat) \<and> (of_char c :: nat) \<le> 13"

definition atoi :: "string \<Rightarrow> int" where
  "atoi s =
    (case dropWhile is_space s of
       [] \<Rightarrow> 0
     | c # cs \<Rightarrow> if c = CHR ''-'' then - int (read_digits 0 cs)
                 else if c = CHR ''+'' then int (read_digits 0 cs)
                 else int (read_digits 0 (c # cs)))"

text \<open>The first token and what \<open>strtok\<close> continues with.\<close>

definition strtok :: "char \<Rightarrow> string \<Rightarrow> (string \<times> string) option" where
  "strtok sep s =
    (let s = dropWhile (\<lambda>c. c = sep) s in
     if s = [] then None
     else Some (takeWhile (\<lambda>c. c \<noteq> sep) s, drop 1 (dropWhile (\<lambda>c. c \<noteq> sep) s)))"

definition newline :: char where
  "newline = CHR 0x0A"

text \<open>At most \<open>k\<close> characters, up to and including a newline, and the rest of the input.\<close>

fun fgets :: "nat \<Rightarrow> string \<Rightarrow> string \<times> string" where
  "fgets 0 s = ([], s)"
| "fgets (Suc k) [] = ([], [])"
| "fgets (Suc k) (c # cs) =
    (if c = newline then ([c], cs) else (case fgets k cs of (l, r) \<Rightarrow> (c # l, r)))"

section \<open>Lemmas\<close>

lemma fgets_rest: "s \<noteq> [] \<Longrightarrow> length (snd (fgets (Suc k) s)) < length s"
proof -
  have le: "length (snd (fgets k s)) \<le> length s" for k s
    by (induction k s rule: fgets.induct) (auto split: prod.splits)
  assume "s \<noteq> []"
  then obtain c cs where "s = c # cs" by (cases s) auto
  then show ?thesis using le [of k cs] by (auto split: prod.splits)
qed

lemma fgets_less: "fgets k s = (l, r) \<Longrightarrow> 0 < k \<Longrightarrow> s \<noteq> [] \<Longrightarrow> length r < length s"
  using fgets_rest [of s "k - 1"] by simp

lemma fgets_line: "newline \<notin> set l \<Longrightarrow> length l < k \<Longrightarrow> fgets k (l @ newline # r) = (l @ [newline], r)"
proof (induction l arbitrary: k)
  case Nil
  then show ?case by (cases k) auto
next
  case (Cons c l)
  then show ?case by (cases k) auto
qed

lemma digit_char: "n < 10 \<Longrightarrow> is_digit (digit_char n)" "n < 10 \<Longrightarrow> digit_value (digit_char n) = n"
  by (simp_all add: digit_char_def is_digit_def digit_value_def)

lemma print_nat_digits: "c \<in> set (print_nat n) \<Longrightarrow> is_digit c"
proof (induction n rule: print_nat.induct)
  case (1 n)
  then show ?case
    by (cases "n < 10") (auto simp: print_nat.simps [of n] digit_char)
qed

lemma print_nat_not_Nil [simp]: "print_nat n \<noteq> []"
  by (simp add: print_nat.simps [of n])

lemma read_digits_append: "\<forall>c \<in> set s. is_digit c \<Longrightarrow> read_digits acc (s @ r) = read_digits (read_digits acc s) r"
  by (induction s arbitrary: acc) auto

lemma read_print_nat: "read_digits 0 (print_nat n) = n"
proof (induction n rule: print_nat.induct)
  case (1 n)
  show ?case
  proof (cases "n < 10")
    case True
    then show ?thesis by (simp add: print_nat.simps [of n] digit_char)
  next
    case False
    then have "read_digits 0 (print_nat (n div 10)) = n div 10" using 1 by blast
    then show ?thesis
      using False read_digits_append [of "print_nat (n div 10)" 0 "[digit_char (n mod 10)]"] print_nat_digits
      by (simp add: print_nat.simps [of n] digit_char)
  qed
qed

lemma print_nat_inject: "print_nat m = print_nat n \<longleftrightarrow> m = n"
  by (metis read_print_nat)

lemma print_nat_hd: "is_digit (hd (print_nat n))"
  by (rule print_nat_digits [of _ n]) simp

lemma digit_not_special: "is_digit c \<Longrightarrow> \<not> is_space c \<and> c \<noteq> CHR ''-'' \<and> c \<noteq> CHR ''+'' \<and> c \<noteq> CHR '' '' \<and> c \<noteq> newline"
  by (auto simp: is_digit_def is_space_def newline_def)

lemma read_print_nat_rest: "r = [] \<or> \<not> is_digit (hd r) \<Longrightarrow> read_digits 0 (print_nat n @ r) = n"
  using read_digits_append [of "print_nat n" 0 r] print_nat_digits read_print_nat [of n] by (cases r) auto

lemma atoi_print_int:
  assumes "r = [] \<or> \<not> is_digit (hd r)"
  shows "atoi (print_int i @ r) = i"
proof (cases "i < 0")
  case True
  then show ?thesis using read_print_nat_rest [OF assms] by (simp add: atoi_def print_int_def is_space_def)
next
  case False
  obtain c cs where c: "print_nat (nat i) = c # cs" by (cases "print_nat (nat i)") auto
  then have "is_digit c" using print_nat_hd [of "nat i"] by simp
  then show ?thesis
    using False read_print_nat_rest [OF assms, of "nat i"] c digit_not_special [of c] by (simp add: atoi_def print_int_def)
qed

lemma print_int_chars: "c \<in> set (print_int i) \<Longrightarrow> c \<noteq> CHR '' '' \<and> c \<noteq> newline"
  using print_nat_digits digit_not_special by (fastforce simp: print_int_def newline_def split: if_splits)

lemma length_print_nat: "n < 10 ^ k \<Longrightarrow> 0 < k \<Longrightarrow> length (print_nat n) \<le> k"
proof (induction k arbitrary: n)
  case (Suc k)
  show ?case
  proof (cases "n < 10")
    case True
    then show ?thesis by (simp add: print_nat.simps [of n])
  next
    case False
    then have "0 < k" using Suc.prems(1) by (cases k) auto
    moreover have "n div 10 < 10 ^ k" using Suc.prems(1) by (simp add: div_less_iff_less_mult)
    ultimately have "length (print_nat (n div 10)) \<le> k" using Suc.IH by blast
    then show ?thesis using False by (simp add: print_nat.simps [of n])
  qed
qed simp

lemma length_print_nat_ge: "10 ^ k \<le> n \<Longrightarrow> k < length (print_nat n)"
proof (induction k arbitrary: n)
  case 0
  then show ?case by simp
next
  case (Suc k)
  then have n: "10 ^ k \<le> n div 10" by (simp add: less_eq_div_iff_mult_less_eq)
  moreover have "(1 :: nat) \<le> 10 ^ k" by simp
  ultimately have "\<not> n < 10" by linarith
  then show ?case using Suc.IH [OF n] by (simp add: print_nat.simps [of n])
qed

lemma print_int_inject: "print_int i = print_int j \<longleftrightarrow> i = j"
  using atoi_print_int [of "[]"] by (metis append_Nil2)

end
