(* ===== verification/Cbs_Pmemkv.thy ===== *)
theory Cbs_Pmemkv
  imports Decimal Page_Store
begin

text \<open>
  The page store of \<^verbatim>\<open>cbs_req/cbs_req_pmemkv.cpp\<close> over \<open>pmemkv\<close>: the key of a page is the decimal text of its request
  number. The library is not part of the sources: opening, putting, getting and counting are arguments on a
  state of their own, and \<open>kv_works\<close> states what its manual promises when no operation fails.
\<close>

section \<open>The program\<close>

type_synonym 's kv_put = "string \<Rightarrow> bytes \<Rightarrow> 's \<Rightarrow> bool \<times> 's"
type_synonym 's kv_get = "string \<Rightarrow> 's \<Rightarrow> bytes option"

text \<open>The configuration: the value of \<open>force_create\<close>, or a null pointer when a setting was refused.\<close>

definition config_setup :: "bool \<Rightarrow> bool \<Rightarrow> bool \<Rightarrow> bool \<Rightarrow> u64 \<Rightarrow> u64 option outcome" where
  "config_setup new_ok path_ok fcreate_ok size_ok fcreate =
    (if \<not> new_ok then Aborted
     else if \<not> path_ok then Done None
     else if \<not> fcreate_ok then Done None
     else if \<not> size_ok then Done None
     else Done (Some fcreate))"

definition cbs_init :: "bool \<Rightarrow> bool \<Rightarrow> bool \<Rightarrow> bool \<Rightarrow> bool \<Rightarrow> (u64 \<Rightarrow> 's option) \<Rightarrow> (int \<times> 's) outcome" where
  "cbs_init exists new_ok path_ok fcreate_ok size_ok pmemkv_open =
    (case (if exists then config_setup new_ok path_ok fcreate_ok size_ok 0 else config_setup new_ok path_ok fcreate_ok size_ok 1) of
       Done (Some cfg) \<Rightarrow> (case pmemkv_open cfg of None \<Rightarrow> Aborted | Some db \<Rightarrow> Done (0, db))
     | _ \<Rightarrow> Aborted)"

text \<open>\<open>sprintf\<close> of a key into \<open>char str[20]\<close>; the number is printed as a signed one.\<close>

definition key_text :: "u64 \<Rightarrow> string outcome" where
  "key_text req_id = (let s = print_int (sint req_id) in if length s < 20 then Done s else Undefined)"

definition write_req :: "'s kv_put \<Rightarrow> u64 \<Rightarrow> bytes \<Rightarrow> 's \<Rightarrow> (int \<times> 's) outcome" where
  "write_req pmemkv_put req_id content db =
    (case key_text req_id of
       Done str \<Rightarrow> (case pmemkv_put str (take 4096 content) db of (ok, db) \<Rightarrow> if ok then Done (0, db) else Aborted)
     | Aborted \<Rightarrow> Aborted
     | Undefined \<Rightarrow> Undefined)"

definition get_key_count :: "('s \<Rightarrow> nat option) \<Rightarrow> 's \<Rightarrow> nat outcome" where
  "get_key_count pmemkv_count_all db = (case pmemkv_count_all db of None \<Rightarrow> Aborted | Some cnt \<Rightarrow> Done cnt)"

text \<open>The callback of \<open>pmemkv_get\<close>: the buffer has 4096 bytes.\<close>

definition pmemkv_get_value :: "bytes \<Rightarrow> bytes \<Rightarrow> bytes outcome" where
  "pmemkv_get_value v val = (if length v \<le> length val then Done (overwrite val 0 v) else Undefined)"

definition read_req :: "'s kv_get \<Rightarrow> u64 \<Rightarrow> bytes \<Rightarrow> 's \<Rightarrow> bytes outcome" where
  "read_req pmemkv_get req_id val db =
    (case key_text req_id of
       Done str \<Rightarrow> (case pmemkv_get str db of None \<Rightarrow> Aborted | Some v \<Rightarrow> pmemkv_get_value v val)
     | Aborted \<Rightarrow> Aborted
     | Undefined \<Rightarrow> Undefined)"

definition delete_page :: "u64 \<Rightarrow> 's \<Rightarrow> 's" where
  "delete_page req_id db = db"

definition kv_store :: "'s kv_put \<Rightarrow> nat \<Rightarrow> bytes \<Rightarrow> 's \<Rightarrow> 's option" where
  "kv_store put r c s = map_option snd (returned (write_req put (of_nat r) c s))"

text \<open>The reading loop, which reads into one buffer.\<close>

primrec read_into :: "'s kv_get \<Rightarrow> nat list \<Rightarrow> bytes \<Rightarrow> 's \<Rightarrow> bytes option" where
  "read_into get [] val s = Some val"
| "read_into get (r # rs) val s = Option.bind (returned (read_req get (of_nat r) val s)) (\<lambda>val. read_into get rs val s)"

definition main :: "'s kv_put \<Rightarrow> 's kv_get \<Rightarrow> ('s \<Rightarrow> nat option) \<Rightarrow> (int \<times> 's) outcome \<Rightarrow> ('s \<times> nat \<times> u8 \<times> u8) option" where
  "main put get count init =
    Option.bind (returned init) (\<lambda>(_, s).
    Option.bind (returned (get_key_count count s)) (\<lambda>cnt.
    Option.bind (write_all (kv_store put) [0..<WRITE_COUNT] (page_of 0xab) s) (\<lambda>s.
    Option.bind (write_all (kv_store put) [0..<OVERWRITE_COUNT] (page_of 0xcd) s) (\<lambda>s.
    Option.bind (read_into get [0..<OVERWRITE_COUNT] (page_of 0xcd) s) (\<lambda>b1.
    Option.bind (read_into get [OVERWRITE_COUNT..<WRITE_COUNT] b1 s) (\<lambda>b2.
    Some (s, cnt, b1 ! 0, b2 ! 0)))))))"

section \<open>Keys\<close>

lemma key_text_done:
  assumes "- (10 ^ 18) < sint q"
  shows "key_text q = Done (print_int (sint q))"
proof -
  have "sint q < 2 ^ 63" using sint_lt [of q] by simp
  then have "length (print_nat (nat (sint q))) \<le> 19" by (intro length_print_nat) (simp_all add: nat_less_iff)
  moreover have "length (print_nat (nat (- sint q))) \<le> 18" if "sint q < 0"
    using assms that by (intro length_print_nat) (simp_all add: nat_less_iff)
  ultimately show ?thesis by (auto simp: key_text_def print_int_def Let_def)
qed

lemma key_text_undefined:
  assumes "sint q \<le> - (10 ^ 18)"
  shows "key_text q = Undefined"
proof -
  have "18 < length (print_nat (nat (- sint q)))" using assms by (intro length_print_nat_ge) (simp add: le_nat_iff)
  then show ?thesis using assms by (simp add: key_text_def print_int_def Let_def)
qed

text \<open>Requests whose keys fit in the buffer.\<close>

definition key_fits :: "u64 \<Rightarrow> bool" where
  "key_fits q \<longleftrightarrow> - (10 ^ 18) < sint q"

definition kv_works :: "'s kv_put \<Rightarrow> 's kv_get \<Rightarrow> bool" where
  "kv_works put get \<longleftrightarrow> (\<forall>k v s. fst (put k v s) \<and> (\<forall>k'. get k' (snd (put k v s)) = (if k' = k then Some v else get k' s)))"

definition kv_page :: "'s kv_get \<Rightarrow> u64 \<Rightarrow> 's \<Rightarrow> bytes option" where
  "kv_page get q s = get (print_int (sint q)) s"

lemma kv_write:
  assumes "kv_works put get" "key_fits q" "length c = 4096"
  shows "\<exists>s'. write_req put q c s = Done (0, s') \<and> (\<forall>r. kv_page get r s' = (if r = q then Some c else kv_page get r s))"
proof -
  let ?k = "print_int (sint q)"
  have ok: "fst (put ?k c s)" "\<forall>k'. get k' (snd (put ?k c s)) = (if k' = ?k then Some c else get k' s)"
    using assms(1) unfolding kv_works_def by blast+
  have "print_int (sint r) = ?k \<longleftrightarrow> r = q" for r by (auto simp: print_int_inject intro: signed_word_eqI)
  then have "\<forall>r. kv_page get r (snd (put ?k c s)) = (if r = q then Some c else kv_page get r s)" using ok(2) by (simp add: kv_page_def)
  moreover have "write_req put q c s = Done (0, snd (put ?k c s))"
    using key_text_done assms(2,3) ok(1) by (simp add: write_req_def key_fits_def case_prod_beta)
  ultimately show ?thesis by blast
qed

lemma key_fits_small: "r < 2 ^ 63 \<Longrightarrow> key_fits (of_nat r)"
  using sint_small [of "of_nat r"] by (simp add: key_fits_def unsigned_of_nat take_bit_nat_eq_self)

lemma of_nat_request: "q < 2 ^ 63 \<Longrightarrow> r < 2 ^ 63 \<Longrightarrow> (of_nat q :: u64) = of_nat r \<longleftrightarrow> q = r"
  by (auto dest!: arg_cong [of _ _ unat] simp: unsigned_of_nat take_bit_nat_eq_self)

interpretation kv: page_store "\<lambda>_. kv_works put get" "\<lambda>_ _. True" "\<lambda>r :: nat. r < 2 ^ 63" "kv_store put" "\<lambda>r. kv_page get (of_nat r)" for put get
proof
  fix s and r :: nat and c :: bytes
  assume h: "kv_works put get" "r < 2 ^ 63" "length c = 4096"
  obtain s' where s': "write_req put (of_nat r) c s = Done (0, s')"
    "\<forall>q. kv_page get q s' = (if q = of_nat r then Some c else kv_page get q s)"
    using kv_write [OF h(1) key_fits_small [OF h(2)] h(3)] by blast
  then have "kv_store put r c s = Some s'" by (simp add: kv_store_def)
  moreover have "\<forall>q. q < 2 ^ 63 \<longrightarrow> kv_page get (of_nat q) s' = (if q = r then Some c else kv_page get (of_nat q) s)"
    using s'(2) of_nat_request [OF _ h(2)] by simp
  ultimately show "\<exists>s'. kv_store put r c s = Some s' \<and> kv_works put get \<and>
      (\<forall>q. q < 2 ^ 63 \<longrightarrow> kv_page get (of_nat q) s' = (if q = r then Some c else kv_page get (of_nat q) s)) \<and> True"
    using h(1) by blast
qed simp

lemma kv_read:
  assumes "key_fits q" "kv_page get q s = Some c" "length c = 4096" "length val = 4096"
  shows "read_req get q val s = Done c"
  using key_text_done assms by (simp add: read_req_def key_fits_def kv_page_def pmemkv_get_value_def overwrite_def)

lemma kv_read_into_ok:
  "\<forall>r \<in> set rs. r < 2 ^ 63 \<and> kv_page get (of_nat r) s = Some c \<Longrightarrow> length c = 4096 \<Longrightarrow> length val = 4096 \<Longrightarrow> rs \<noteq> [] \<Longrightarrow>
    read_into get rs val s = Some c"
proof (induction rs arbitrary: val)
  case (Cons r rs)
  then have "read_req get (of_nat r) val s = Done c" by (intro kv_read key_fits_small) auto
  then show ?case using Cons by (cases rs) auto
qed simp

section \<open>Properties\<close>

text \<open>
  The key-value store implements a map from request numbers to pages. When the library works as documented, a write stores its
  page for its request and no other, because the decimal texts of different numbers differ, and reading returns it;
  a request number whose signed value is \<open>-10^18\<close> or less overflows the buffer of twenty characters
  in both operations, and no other request does.
\<close>

theorem kv_cache_refines_map:
  assumes "kv_works put get" "length c = 4096" "length val = 4096"
  shows "(- (10 ^ 18) < sint q \<longrightarrow>
      (\<exists>s'. write_req put q c s = Done (0, s') \<and> read_req get q val s' = Done c \<and>
        (\<forall>r. r \<noteq> q \<longrightarrow> read_req get r val s' = read_req get r val s))) \<and>
    (sint q \<le> - (10 ^ 18) \<longrightarrow> write_req put q c s = Undefined \<and> read_req get q val s = Undefined)"
proof (intro conjI impI)
  assume "- (10 ^ 18) < sint q"
  then have q: "key_fits q" by (simp add: key_fits_def)
  obtain s' where s': "write_req put q c s = Done (0, s')" "\<forall>r. kv_page get r s' = (if r = q then Some c else kv_page get r s)"
    using kv_write [OF assms(1) q assms(2)] by blast
  have "read_req get q val s' = Done c" using s'(2) by (intro kv_read [OF q _ assms(2,3)]) simp
  moreover have "read_req get r val s' = read_req get r val s" if "r \<noteq> q" for r
    using s'(2) that by (auto simp: read_req_def kv_page_def key_text_def Let_def)
  ultimately show "\<exists>s'. write_req put q c s = Done (0, s') \<and> read_req get q val s' = Done c \<and>
      (\<forall>r. r \<noteq> q \<longrightarrow> read_req get r val s' = read_req get r val s)"
    using s'(1) by blast
qed (simp_all add: write_req_def read_req_def key_text_undefined)

definition map_put :: "(string \<Rightarrow> bytes option) kv_put" where
  "map_put k v m = (True, m(k \<mapsto> v))"

definition map_get :: "(string \<Rightarrow> bytes option) kv_get" where
  "map_get k m = m k"

lemma map_works: "kv_works map_put map_get"
  by (simp add: kv_works_def map_put_def map_get_def)

theorem kv_cache_refines_map_witness:
  "\<exists>s'. write_req map_put 5 (page_of 7) (\<lambda>_. None) = Done (0, s') \<and> read_req map_get 5 (page_of 0) s' = Done (page_of 7) \<and>
     write_req map_put (2 ^ 63) (page_of 7) (\<lambda>_. None) = Undefined"
proof -
  have len: "length (page_of 7) = 4096" "length (page_of 0) = 4096" by (simp_all add: page_of_def)
  have "sint (2 ^ 63 :: u64) \<le> - (10 ^ 18)" "- (10 ^ 18) < sint (5 :: u64)" by simp_all
  then show ?thesis
    using kv_cache_refines_map [OF map_works len, of 5 "\<lambda>_. None"] kv_cache_refines_map [OF map_works len, of "2 ^ 63" "\<lambda>_. None"] by blast
qed

text \<open>The program prints the number of keys it found and the two patterns.\<close>

theorem pmemkv_main_reads_back:
  assumes "kv_works put get" "count s = Some n"
  shows "\<exists>s'. main put get count (Done (0, s)) = Some (s', n, 0xcd, 0xab)"
proof -
  have c: "OVERWRITE_COUNT < WRITE_COUNT" "0 < OVERWRITE_COUNT" "\<And>r. r < WRITE_COUNT \<Longrightarrow> r < 2 ^ 63"
    by (auto simp: OVERWRITE_COUNT_def WRITE_COUNT_def)
  have len: "length (page_of 0xab) = 4096" "length (page_of 0xcd) = 4096" by (simp_all add: page_of_def)
  obtain s1 where s1: "write_all (kv_store put) [0..<WRITE_COUNT] (page_of 0xab) s = Some s1"
    "\<forall>q < 2 ^ 63. kv_page get (of_nat q) s1 = (if q \<in> set [0..<WRITE_COUNT] then Some (page_of 0xab) else kv_page get (of_nat q) s)"
    using kv.write_all_ok [OF assms(1), of "[0..<WRITE_COUNT]" 1 "page_of 0xab" s] c(3) len by auto
  obtain s2 where s2: "write_all (kv_store put) [0..<OVERWRITE_COUNT] (page_of 0xcd) s1 = Some s2"
    "\<forall>q < 2 ^ 63. kv_page get (of_nat q) s2 = (if q \<in> set [0..<OVERWRITE_COUNT] then Some (page_of 0xcd) else kv_page get (of_nat q) s1)"
    using kv.write_all_ok [OF assms(1), of "[0..<OVERWRITE_COUNT]" 1 "page_of 0xcd" s1] c len by auto
  have "read_into get [0..<OVERWRITE_COUNT] (page_of 0xcd) s2 = Some (page_of 0xcd)"
    using s2(2) c len by (intro kv_read_into_ok) auto
  moreover have "read_into get [OVERWRITE_COUNT..<WRITE_COUNT] (page_of 0xcd) s2 = Some (page_of 0xab)"
    using s1(2) s2(2) c len by (intro kv_read_into_ok) auto
  ultimately show ?thesis
    using s1(1) s2(1) assms(2) unfolding main_def by (simp add: get_key_count_def page_of_def)
qed

end
