(* ===== verification/Queue_Aof.thy ===== *)
theory Queue_Aof
  imports Decimal
begin

text \<open>
  The volatile queue with an append-only log of \<^verbatim>\<open>simple_fifo_queue/queue_aof.cpp\<close>: a linked list of heap nodes, the
  commands, the log they write and the loop that replays it at the start. Addresses are numbers, 0 is
  the null pointer; \<open>malloc\<close> is the argument \<open>alloc\<close>, which returns an address or 0. \<open>None\<close> is a dereferenced null or
  dangling pointer.
\<close>

section \<open>The queue\<close>

datatype que_op = ENQUE | DEQUE | SHOW | PREQUE | MAX_OPS

definition ops_str :: "(string \<times> que_op) list" where
  "ops_str = [(''enque'', ENQUE), (''deque'', DEQUE), (''show'', SHOW), (''preque'', PREQUE)]"

definition parse_que_ops :: "string \<Rightarrow> que_op" where
  "parse_que_ops ops = (case map_of ops_str ops of Some op \<Rightarrow> op | None \<Rightarrow> MAX_OPS)"

record queue_node =
  node_value :: int
  node_next :: nat

type_synonym heap = "nat \<Rightarrow> queue_node option"

record que =
  nodes :: heap
  pmem_queue :: "(nat \<times> nat) option"

definition queue_enque_v :: "(heap \<Rightarrow> nat) \<Rightarrow> bool \<Rightarrow> int \<Rightarrow> que \<Rightarrow> que option" where
  "queue_enque_v alloc queue_ok v s =
    (let node = alloc (nodes s); h = (nodes s)(node \<mapsto> \<lparr>node_value = v, node_next = 0\<rparr>) in
     if node = 0 then None
     else case pmem_queue s of
       None \<Rightarrow> if queue_ok then Some \<lparr>nodes = h, pmem_queue = Some (node, node)\<rparr> else None
     | Some (head, tail) \<Rightarrow>
        (case h tail of
           None \<Rightarrow> None
         | Some t \<Rightarrow> Some \<lparr>nodes = h(tail \<mapsto> t\<lparr>node_next := node\<rparr>), pmem_queue = Some (head, node)\<rparr>))"

text \<open>The result, the value that was stored through the pointer if any, and the state.\<close>

definition queue_deque_v :: "que \<Rightarrow> (int \<times> int option \<times> que) option" where
  "queue_deque_v s =
    (case pmem_queue s of
       None \<Rightarrow> Some (-1, None, s)
     | Some (head, tail) \<Rightarrow>
        (case nodes s head of
           None \<Rightarrow> None
         | Some n \<Rightarrow>
            Some (0, Some (node_value n),
              \<lparr>nodes = (nodes s)(head := None), pmem_queue = Some (node_next n, if head = tail then 0 else tail)\<rparr>)))"

partial_function (option) show_loop :: "heap \<Rightarrow> nat \<Rightarrow> int list option" where
  "show_loop h node =
    (if node = 0 then Some []
     else case h node of
       None \<Rightarrow> None
     | Some n \<Rightarrow> Option.bind (show_loop h (node_next n)) (\<lambda>vs. Some (node_value n # vs)))"

declare show_loop.simps [code]

text \<open>The result and the values printed.\<close>

definition queue_show :: "que \<Rightarrow> (int \<times> int list) option" where
  "queue_show s =
    (case pmem_queue s of
       None \<Rightarrow> Some (-1, [])
     | Some (head, _) \<Rightarrow> map_option (\<lambda>vs. (0, vs)) (show_loop (nodes s) head))"

section \<open>The log\<close>

definition enque_line :: "int \<Rightarrow> string" where
  "enque_line v = ''enque '' @ print_int v @ [newline]"

definition deque_line :: string where
  "deque_line = ''deque'' @ [newline]"

definition replay_line :: "(heap \<Rightarrow> nat) \<Rightarrow> string \<Rightarrow> que \<Rightarrow> que option" where
  "replay_line alloc buf s =
    (case strtok (CHR '' '') buf of
       None \<Rightarrow> None
     | Some (p, rest) \<Rightarrow>
        if parse_que_ops p = ENQUE then
          (case strtok (CHR '' '') rest of
             None \<Rightarrow> None
           | Some (p, _) \<Rightarrow> queue_enque_v alloc True (atoi p) s)
        else if parse_que_ops p = DEQUE then map_option (\<lambda>(_, _, s). s) (queue_deque_v s)
        else Some s)"

text \<open>The loop over the lines of the log, read through a buffer of 32 characters.\<close>

function replay :: "(heap \<Rightarrow> nat) \<Rightarrow> string \<Rightarrow> que \<Rightarrow> que option" where
  "replay alloc fp s =
    (if fp = [] then Some s
     else case fgets 31 fp of (buf, rest) \<Rightarrow>
       (case replay_line alloc buf s of None \<Rightarrow> None | Some s \<Rightarrow> replay alloc rest s))"
  by pat_completeness auto

termination replay
  by (relation "measure (\<lambda>(_, fp, _). length fp)") (auto dest: fgets_less [OF sym])

declare replay.simps [simp del]

section \<open>Commands\<close>

text \<open>One enqueued and logged value; the program has no other way to write an \<open>enque\<close> line.\<close>

definition enque_logged :: "(heap \<Rightarrow> nat) \<Rightarrow> int \<Rightarrow> que \<times> string \<Rightarrow> (que \<times> string) option" where
  "enque_logged alloc v st =
    (case st of (s, fp) \<Rightarrow> map_option (\<lambda>s. (s, fp @ enque_line v)) (queue_enque_v alloc True v s))"

primrec enque_all :: "(heap \<Rightarrow> nat) \<Rightarrow> int list \<Rightarrow> que \<times> string \<Rightarrow> (que \<times> string) option" where
  "enque_all alloc [] st = Some st"
| "enque_all alloc (v # vs) st = Option.bind (enque_logged alloc v st) (enque_all alloc vs)"

text \<open>One turn of the command loop on the word and the number read; the flag says that the program exits.\<close>

definition handle_command :: "(heap \<Rightarrow> nat) \<Rightarrow> string \<times> int \<Rightarrow> que \<times> string \<Rightarrow> (bool \<times> que \<times> string) option" where
  "handle_command alloc cmd st =
    (case parse_que_ops (fst cmd) of
       ENQUE \<Rightarrow> map_option (\<lambda>st. (False, st)) (enque_logged alloc (snd cmd) st)
     | DEQUE \<Rightarrow> map_option (\<lambda>(_, _, s). (False, s, snd st @ deque_line)) (queue_deque_v (fst st))
     | SHOW \<Rightarrow> map_option (\<lambda>_. (False, st)) (queue_show (fst st))
     | PREQUE \<Rightarrow> map_option (\<lambda>st. (False, st)) (enque_all alloc [0..9999] st)
     | MAX_OPS \<Rightarrow> Some (True, st))"

primrec command_loop :: "(heap \<Rightarrow> nat) \<Rightarrow> (string \<times> int) list \<Rightarrow> que \<times> string \<Rightarrow> (que \<times> string) option" where
  "command_loop alloc [] st = Some st"
| "command_loop alloc (cmd # cmds) st =
    (case handle_command alloc cmd st of
       None \<Rightarrow> None
     | Some (exit, st) \<Rightarrow> if exit then Some st else command_loop alloc cmds st)"

definition empty_que :: que where
  "empty_que = \<lparr>nodes = \<lambda>_. None, pmem_queue = None\<rparr>"

text \<open>\<open>main\<close> on the contents of the log file and the commands typed until it exits or is killed.\<close>

definition main :: "(heap \<Rightarrow> nat) \<Rightarrow> string \<Rightarrow> (string \<times> int) list \<Rightarrow> (que \<times> string) option" where
  "main alloc fp cmds = Option.bind (replay alloc fp empty_que) (\<lambda>s. command_loop alloc cmds (s, fp))"

section \<open>Queues in the heap\<close>

text \<open>The contract of \<open>malloc\<close> while memory lasts: an address that is not null and not in use.\<close>

definition fresh_alloc :: "(heap \<Rightarrow> nat) \<Rightarrow> bool" where
  "fresh_alloc alloc \<longleftrightarrow> (\<forall>h. finite (dom h) \<longrightarrow> alloc h \<noteq> 0 \<and> h (alloc h) = None)"

primrec chain :: "heap \<Rightarrow> nat \<Rightarrow> (nat \<times> int) list \<Rightarrow> bool" where
  "chain h a [] \<longleftrightarrow> a = 0"
| "chain h a (n # ns) \<longleftrightarrow> a = fst n \<and> a \<noteq> 0 \<and> (\<exists>b. h a = Some \<lparr>node_value = snd n, node_next = b\<rparr> \<and> chain h b ns)"

text \<open>The abstract queue: not yet allocated, or allocated with a list of values.\<close>

datatype fifo = Fresh | Fifo "int list"

fun queue_rep :: "que \<Rightarrow> fifo \<Rightarrow> bool" where
  "queue_rep s Fresh \<longleftrightarrow> finite (dom (nodes s)) \<and> nodes s 0 = None \<and> pmem_queue s = None"
| "queue_rep s (Fifo vs) \<longleftrightarrow> finite (dom (nodes s)) \<and> nodes s 0 = None \<and>
    (\<exists>head ns. pmem_queue s = Some (head, if ns = [] then 0 else fst (last ns)) \<and> chain (nodes s) head ns \<and>
       distinct (map fst ns) \<and> map snd ns = vs)"

lemma node_chain_upd: "a \<notin> fst ` set ns \<Longrightarrow> chain (h(a := x)) b ns = chain h b ns"
  by (induction ns arbitrary: b) auto

lemma node_chain_dom: "chain h a ns \<Longrightarrow> n \<in> set ns \<Longrightarrow> fst n \<in> dom h"
  by (induction ns arbitrary: a) auto

lemma node_chain_snoc:
  assumes "chain h a (ns @ [(t, v)])" "distinct (map fst (ns @ [(t, v)]))" "h b = None" "b \<noteq> 0"
  shows "chain (h(b \<mapsto> \<lparr>node_value = w, node_next = 0\<rparr>, t \<mapsto> \<lparr>node_value = v, node_next = b\<rparr>)) a (ns @ [(t, v), (b, w)])"
  using assms(1,2)
proof (induction ns arbitrary: a)
  case Nil
  then show ?case using assms(3,4) by auto
next
  case (Cons n ns)
  then show ?case using assms(3) by auto
qed

lemma node_chain_last: "chain h a ns \<Longrightarrow> ns \<noteq> [] \<Longrightarrow> h (fst (last ns)) = Some \<lparr>node_value = snd (last ns), node_next = 0\<rparr>"
  by (induction ns arbitrary: a) auto

lemma enque_rep:
  assumes "queue_rep s q" "q \<noteq> Fifo []" "fresh_alloc alloc"
  shows "\<exists>s'. queue_enque_v alloc True v s = Some s' \<and>
    queue_rep s' (case q of Fresh \<Rightarrow> Fifo [v] | Fifo vs \<Rightarrow> Fifo (vs @ [v]))"
proof (cases q)
  case Fresh
  let ?a = "alloc (nodes s)"
  have "?a \<noteq> 0" using assms(1,3) Fresh by (simp add: fresh_alloc_def)
  moreover have "\<exists>head ns. (?a, ?a) = (head, if ns = [] then 0 else fst (last ns)) \<and>
      chain ((nodes s)(?a \<mapsto> \<lparr>node_value = v, node_next = 0\<rparr>)) head ns \<and> distinct (map fst ns) \<and> map snd ns = [v]"
    using \<open>?a \<noteq> 0\<close> by (intro exI [of _ ?a] exI [of _ "[(?a, v)]"]) simp
  ultimately show ?thesis using assms(1) Fresh by (simp add: queue_enque_v_def Let_def)
next
  case (Fifo vs)
  obtain head ns where q: "pmem_queue s = Some (head, if ns = [] then 0 else fst (last ns))" "chain (nodes s) head ns"
    "distinct (map fst ns)" "map snd ns = vs" and fin: "finite (dom (nodes s))" "nodes s 0 = None"
    using assms(1) Fifo by auto
  have "ns \<noteq> []" using q(4) assms(2) Fifo by auto
  then obtain ms t x where ns: "ns = ms @ [(t, x)]" by (metis rev_exhaust surj_pair)
  let ?a = "alloc (nodes s)"
  have a: "?a \<noteq> 0" "nodes s ?a = None" using fin assms(3) by (auto simp: fresh_alloc_def)
  have t: "nodes s t = Some \<lparr>node_value = x, node_next = 0\<rparr>" using node_chain_last [OF q(2)] ns by simp
  let ?h = "(nodes s)(?a \<mapsto> \<lparr>node_value = v, node_next = 0\<rparr>, t \<mapsto> \<lparr>node_value = x, node_next = ?a\<rparr>)"
  have run: "queue_enque_v alloc True v s = Some \<lparr>nodes = ?h, pmem_queue = Some (head, ?a)\<rparr>"
    using q(1) ns a t by (auto simp: queue_enque_v_def Let_def)
  have "chain ?h head (ms @ [(t, x), (?a, v)])" using node_chain_snoc [of "nodes s" head ms t x ?a v] a q(2,3) ns by simp
  moreover have "?a \<notin> fst ` set ns" using node_chain_dom [OF q(2)] a(2) by fastforce
  moreover have "?h 0 = None" using fin(2) a(1) t by (cases "t = 0") auto
  ultimately have "queue_rep \<lparr>nodes = ?h, pmem_queue = Some (head, ?a)\<rparr> (Fifo (vs @ [v]))"
    using q(3,4) ns fin(1) by (auto intro!: exI [of _ "ms @ [(t, x), (?a, v)]"])
  then show ?thesis using run Fifo by simp
qed

lemma deque_rep:
  assumes "queue_rep s (Fifo (v # vs))"
  shows "\<exists>s'. queue_deque_v s = Some (0, Some v, s') \<and> queue_rep s' (Fifo vs)"
proof -
  obtain head ns where q: "pmem_queue s = Some (head, if ns = [] then 0 else fst (last ns))" "chain (nodes s) head ns"
    "distinct (map fst ns)" "map snd ns = v # vs" and fin: "finite (dom (nodes s))" "nodes s 0 = None"
    using assms unfolding queue_rep.simps by (elim conjE exE) (rule that)
  obtain ms where ns: "ns = (head, v) # ms" using q(2,4) by (cases ns) auto
  then obtain b where b: "nodes s head = Some \<lparr>node_value = v, node_next = b\<rparr>" "chain (nodes s) b ms" using q(2) by auto
  have "head = fst (last ns) \<longleftrightarrow> ms = []"
    using q(3) ns by (cases ms rule: rev_cases) auto
  then have "queue_deque_v s = Some (0, Some v, \<lparr>nodes = (nodes s)(head := None),
      pmem_queue = Some (b, if ms = [] then 0 else fst (last ms))\<rparr>)"
    using q(1) ns b(1) by (auto simp: queue_deque_v_def)
  moreover have "chain ((nodes s)(head := None)) b ms" using b(2) q(3) ns by (subst node_chain_upd) auto
  ultimately show ?thesis using q(3,4) ns fin by auto
qed

lemma show_chain: "chain h a ns \<Longrightarrow> show_loop h a = Some (map snd ns)"
  by (induction ns arbitrary: a) (auto simp: show_loop.simps)

declare queue_rep.simps [simp del]

section \<open>The log\<close>

datatype log_entry = Enq int | Deq

definition entry_text :: "log_entry \<Rightarrow> string" where
  "entry_text e = (case e of Enq v \<Rightarrow> enque_line v | Deq \<Rightarrow> deque_line)"

definition log_text :: "log_entry list \<Rightarrow> string" where
  "log_text es = concat (map entry_text es)"

definition enqueued :: "log_entry list \<Rightarrow> int list" where
  "enqueued es = concat (map (\<lambda>e. case e of Enq v \<Rightarrow> [v] | Deq \<Rightarrow> []) es)"

text \<open>A number that \<open>%d\<close> prints: at most eleven characters.\<close>

definition is_int32 :: "int \<Rightarrow> bool" where
  "is_int32 v \<longleftrightarrow> - (2 ^ 31) \<le> v \<and> v < 2 ^ 31"

lemma length_print_int32: "is_int32 v \<Longrightarrow> length (print_int v) \<le> 11"
proof -
  assume v: "is_int32 v"
  have "length (print_nat (nat v)) \<le> 10" "length (print_nat (nat (- v))) \<le> 10"
    using v by (auto simp: is_int32_def intro!: length_print_nat)
  then show ?thesis by (simp add: print_int_def)
qed

lemma takeWhile_stop: "\<forall>x \<in> set xs. P x \<Longrightarrow> \<not> P y \<Longrightarrow> takeWhile P (xs @ y # ys) = xs \<and> dropWhile P (xs @ y # ys) = y # ys"
  by (induction xs) auto

lemma strtok_word: "w \<noteq> [] \<Longrightarrow> CHR '' '' \<notin> set w \<Longrightarrow> strtok (CHR '' '') (w @ CHR '' '' # r) = Some (w, r)"
proof -
  assume w: "w \<noteq> []" "CHR '' '' \<notin> set w"
  then have "dropWhile (\<lambda>c. c = CHR '' '') (w @ CHR '' '' # r) = w @ CHR '' '' # r" by (cases w) auto
  moreover have "\<forall>c \<in> set w. c \<noteq> CHR '' ''" using w(2) by auto
  from takeWhile_stop [OF this, of "CHR '' ''" r]
  have "takeWhile (\<lambda>c. c \<noteq> CHR '' '') (w @ CHR '' '' # r) = w" "dropWhile (\<lambda>c. c \<noteq> CHR '' '') (w @ CHR '' '' # r) = CHR '' '' # r"
    by auto
  ultimately show ?thesis using w(1) unfolding strtok_def Let_def by simp
qed

lemma strtok_last: "w \<noteq> [] \<Longrightarrow> CHR '' '' \<notin> set w \<Longrightarrow> strtok (CHR '' '') w = Some (w, [])"
proof -
  assume w: "w \<noteq> []" "CHR '' '' \<notin> set w"
  then have "dropWhile (\<lambda>c. c = CHR '' '') w = w" by (cases w) auto
  moreover have "\<forall>c \<in> set w. c \<noteq> CHR '' ''" using w(2) by auto
  then have "takeWhile (\<lambda>c. c \<noteq> CHR '' '') w = w" "dropWhile (\<lambda>c. c \<noteq> CHR '' '') w = []"
    by (simp_all add: takeWhile_eq_all_conv)
  ultimately show ?thesis using w(1) unfolding strtok_def Let_def by (simp del: dropWhile_eq_Nil_conv)
qed

text \<open>The word on a \<open>deque\<close> line is read with its newline, so that it is no command.\<close>

lemma replay_deque_line: "replay_line alloc deque_line s = Some s"
proof -
  have "strtok (CHR '' '') deque_line = Some (deque_line, [])"
    by (rule strtok_last) (simp_all add: deque_line_def newline_def)
  moreover have "parse_que_ops deque_line = MAX_OPS" by (simp add: parse_que_ops_def ops_str_def deque_line_def newline_def)
  ultimately show ?thesis by (simp add: replay_line_def)
qed

lemma replay_enque_line: "replay_line alloc (enque_line v) s = queue_enque_v alloc True v s"
proof -
  have "strtok (CHR '' '') (enque_line v) = Some (''enque'', print_int v @ [newline])"
    using strtok_word [of "''enque''" "print_int v @ [newline]"] by (simp add: enque_line_def)
  moreover have "strtok (CHR '' '') (print_int v @ [newline]) = Some (print_int v @ [newline], [])"
    using print_int_chars [of "CHR '' ''" v] by (intro strtok_last) (auto simp: newline_def)
  moreover have "atoi (print_int v @ [newline]) = v" by (rule atoi_print_int) (simp add: is_digit_def newline_def)
  ultimately show ?thesis by (simp add: replay_line_def parse_que_ops_def ops_str_def)
qed

lemma fgets_entry:
  assumes "\<And>v. e = Enq v \<Longrightarrow> is_int32 v"
  shows "fgets 31 (entry_text e @ r) = (entry_text e, r)"
proof (cases e)
  case (Enq v)
  have "newline \<notin> set (''enque '' @ print_int v)" using print_int_chars [of newline v] by (auto simp: newline_def)
  moreover have "length (''enque '' @ print_int v) < 31" using length_print_int32 [of v] assms Enq by auto
  ultimately show ?thesis
    using fgets_line [of "''enque '' @ print_int v" 31 r] Enq by (simp add: entry_text_def enque_line_def)
next
  case Deq
  then show ?thesis
    using fgets_line [of "''deque''" 31 r] by (simp add: entry_text_def deque_line_def newline_def)
qed

text \<open>What a replayed log leaves: every value ever enqueued.\<close>

definition fifo_of :: "int list \<Rightarrow> fifo" where
  "fifo_of vs = (if vs = [] then Fresh else Fifo vs)"

lemma enque_fifo_of:
  assumes "queue_rep s (fifo_of vs)" "fresh_alloc alloc"
  shows "\<exists>s'. queue_enque_v alloc True v s = Some s' \<and> queue_rep s' (fifo_of (vs @ [v]))"
  using enque_rep [OF assms(1) _ assms(2), of v] by (cases vs) (auto simp: fifo_of_def)

lemma replay_entry:
  assumes "\<And>v. e = Enq v \<Longrightarrow> is_int32 v"
  shows "replay alloc (entry_text e @ r) s =
    (case replay_line alloc (entry_text e) s of None \<Rightarrow> None | Some s \<Rightarrow> replay alloc r s)"
proof -
  have "entry_text e \<noteq> []" by (cases e) (simp_all add: entry_text_def enque_line_def deque_line_def)
  then show ?thesis using fgets_entry [of e r] assms by (subst replay.simps) simp
qed

lemma replay_log:
  assumes "fresh_alloc alloc" "\<forall>v \<in> set (enqueued es). is_int32 v" "queue_rep s (fifo_of vs)"
  shows "\<exists>s'. replay alloc (log_text es) s = Some s' \<and> queue_rep s' (fifo_of (vs @ enqueued es))"
  using assms(2,3)
proof (induction es arbitrary: s vs)
  case Nil
  then show ?case by (auto simp: log_text_def enqueued_def replay.simps)
next
  case (Cons e es)
  have lt: "log_text (x # es) = entry_text x @ log_text es" for x by (simp add: log_text_def)
  show ?case
  proof (cases e)
    case (Enq v)
    have v: "is_int32 v" "\<forall>v \<in> set (enqueued es). is_int32 v" using Cons.prems(1) Enq by (auto simp: enqueued_def)
    obtain s1 where s1: "queue_enque_v alloc True v s = Some s1" "queue_rep s1 (fifo_of (vs @ [v]))"
      using enque_fifo_of [OF Cons.prems(2) assms(1)] by blast
    from Cons.IH [OF v(2) s1(2)] show ?thesis
      using s1(1) v(1) Enq replay_entry [of e alloc "log_text es" s]
      by (simp add: lt replay_enque_line entry_text_def enqueued_def)
  next
    case Deq
    from Cons.IH [OF _ Cons.prems(2)] Cons.prems(1) show ?thesis
      using Deq replay_entry [of e alloc "log_text es" s]
      by (simp add: lt replay_deque_line entry_text_def enqueued_def)
  qed
qed

text \<open>The commands write exactly the entries of what they did.\<close>

definition command_entries :: "string \<times> int \<Rightarrow> log_entry list" where
  "command_entries cmd =
    (case parse_que_ops (fst cmd) of ENQUE \<Rightarrow> [Enq (snd cmd)] | DEQUE \<Rightarrow> [Deq] | PREQUE \<Rightarrow> map Enq [0..9999] | _ \<Rightarrow> [])"

lemma enque_all_log: "enque_all alloc vs (s, fp) = Some (s', fp') \<Longrightarrow> fp' = fp @ log_text (map Enq vs)"
  by (induction vs arbitrary: s fp)
    (fastforce simp: enque_logged_def log_text_def entry_text_def split: bind_splits)+

lemma handle_command_log: "handle_command alloc cmd (s, fp) = Some (False, s', fp') \<Longrightarrow> fp' = fp @ log_text (command_entries cmd)"
  using enque_all_log [of alloc "[0..9999]" s fp]
  by (auto simp: handle_command_def command_entries_def enque_logged_def log_text_def entry_text_def split: que_op.splits)

lemma log_text_append: "log_text (es @ es') = log_text es @ log_text es'"
  by (simp add: log_text_def)

text \<open>The commands before the first one that ends the program.\<close>

definition executed :: "(string \<times> int) list \<Rightarrow> (string \<times> int) list" where
  "executed = takeWhile (\<lambda>cmd. parse_que_ops (fst cmd) \<noteq> MAX_OPS)"

definition session_entries :: "(string \<times> int) list \<Rightarrow> log_entry list" where
  "session_entries cmds = concat (map command_entries (executed cmds))"

lemma handle_command_exit:
  "handle_command alloc cmd st = Some (x, st') \<Longrightarrow> x \<longleftrightarrow> parse_que_ops (fst cmd) = MAX_OPS"
  "parse_que_ops (fst cmd) = MAX_OPS \<Longrightarrow> handle_command alloc cmd st = Some (True, st)"
  by (auto simp: handle_command_def split: que_op.splits)

lemma command_loop_log: "command_loop alloc cmds (s, fp) = Some (s', fp') \<Longrightarrow> fp' = fp @ log_text (session_entries cmds)"
proof (induction cmds arbitrary: s fp)
  case (Cons cmd cmds)
  show ?case
  proof (cases "parse_que_ops (fst cmd) = MAX_OPS")
    case True
    then show ?thesis
      using Cons.prems handle_command_exit(2) [OF True] by (simp add: session_entries_def executed_def log_text_def)
  next
    case False
    obtain x s1 fp1 where h: "handle_command alloc cmd (s, fp) = Some (x, s1, fp1)"
      using Cons.prems by (cases "handle_command alloc cmd (s, fp)") auto
    then have 1: "handle_command alloc cmd (s, fp) = Some (False, s1, fp1)" using handle_command_exit(1) False by fastforce
    then have 2: "command_loop alloc cmds (s1, fp1) = Some (s', fp')" using Cons.prems by simp
    show ?thesis
      using Cons.IH [OF 2] handle_command_log [OF 1] False
      by (simp add: session_entries_def executed_def log_text_append)
  qed
qed (simp add: session_entries_def executed_def log_text_def)

section \<open>Properties\<close>

definition next_alloc :: "heap \<Rightarrow> nat" where
  "next_alloc h = Suc (Max (insert 0 (dom h)))"

lemma next_alloc_fresh: "fresh_alloc next_alloc"
proof -
  have "h (next_alloc h) = None" if "finite (dom h)" for h
  proof (rule ccontr)
    assume "h (next_alloc h) \<noteq> None"
    then have "next_alloc h \<le> Max (insert 0 (dom h))" using that by (intro Max_ge) auto
    then show False by (simp add: next_alloc_def)
  qed
  then show ?thesis by (simp add: fresh_alloc_def next_alloc_def)
qed

text \<open>
  C21: The linked queue is first in, first out until it runs empty. Enqueueing appends, dequeueing returns
  and removes the first value, showing prints all values in order; before the first value dequeueing returns -1.
  Once the last value has been removed, the next enqueueing and the next dequeueing dereference a null pointer.
\<close>

theorem queue_is_fifo_until_empty:
  assumes "fresh_alloc alloc"
  shows "(queue_rep s Fresh \<longrightarrow> queue_deque_v s = Some (-1, None, s) \<and>
      (\<exists>s'. queue_enque_v alloc True v s = Some s' \<and> queue_rep s' (Fifo [v]))) \<and>
    (queue_rep s (Fifo (w # ws)) \<longrightarrow>
      (\<exists>s'. queue_enque_v alloc True v s = Some s' \<and> queue_rep s' (Fifo (w # ws @ [v]))) \<and>
      (\<exists>s'. queue_deque_v s = Some (0, Some w, s') \<and> queue_rep s' (Fifo ws)) \<and> queue_show s = Some (0, w # ws)) \<and>
    (queue_rep s (Fifo []) \<longrightarrow> queue_enque_v alloc True v s = None \<and> queue_deque_v s = None)"
proof (intro conjI impI)
  assume "queue_rep s Fresh"
  then show "queue_deque_v s = Some (-1, None, s)" "\<exists>s'. queue_enque_v alloc True v s = Some s' \<and> queue_rep s' (Fifo [v])"
    using enque_rep [of s Fresh alloc v] assms by (auto simp: queue_deque_v_def queue_rep.simps)
next
  assume q: "queue_rep s (Fifo (w # ws))"
  then show "\<exists>s'. queue_enque_v alloc True v s = Some s' \<and> queue_rep s' (Fifo (w # ws @ [v]))"
    using enque_rep [OF q _ assms, of v] by auto
  show "\<exists>s'. queue_deque_v s = Some (0, Some w, s') \<and> queue_rep s' (Fifo ws)" by (rule deque_rep [OF q])
  show "queue_show s = Some (0, w # ws)" using q show_chain by (fastforce simp: queue_show_def queue_rep.simps)
next
  assume q: "queue_rep s (Fifo [])"
  then have "alloc (nodes s) \<noteq> 0" using assms by (auto simp: fresh_alloc_def queue_rep.simps)
  then show "queue_enque_v alloc True v s = None" "queue_deque_v s = None"
    using q by (auto simp: queue_enque_v_def queue_deque_v_def Let_def queue_rep.simps)
qed

theorem queue_is_fifo_until_empty_witness:
  "\<exists>s1 s2 s3. queue_enque_v next_alloc True 5 empty_que = Some s1 \<and> queue_deque_v s1 = Some (0, Some 5, s2) \<and>
     queue_deque_v s2 = None \<and> queue_enque_v next_alloc True 6 s2 = None"
proof -
  have e: "queue_rep empty_que Fresh" by (simp add: empty_que_def queue_rep.simps)
  then obtain s1 where 1: "queue_enque_v next_alloc True 5 empty_que = Some s1" "queue_rep s1 (Fifo [5])"
    using queue_is_fifo_until_empty [OF next_alloc_fresh, of empty_que 5] by blast
  then obtain s2 where "queue_deque_v s1 = Some (0, Some 5, s2)" "queue_rep s2 (Fifo [])"
    using queue_is_fifo_until_empty [OF next_alloc_fresh, of s1 6 5 "[]"] by blast
  then show ?thesis using 1(1) queue_is_fifo_until_empty [OF next_alloc_fresh, of s2 6] by blast
qed

text \<open>
  C22: Replaying the log brings back every value ever enqueued. After any session that starts from an empty
  log, in which only 32-bit numbers were enqueued, the next start replays the log into the queue of all
  enqueued values in order, whether or not they were dequeued: the \<open>deque\<close> lines are read with their newline and ignored.
\<close>

theorem restart_ignores_deques:
  assumes "fresh_alloc alloc" "main alloc [] cmds = Some (s, fp)" "\<forall>v \<in> set (enqueued (session_entries cmds)). is_int32 v"
  shows "fp = log_text (session_entries cmds) \<and>
    (\<exists>s'. main alloc fp [] = Some (s', fp) \<and> queue_rep s' (fifo_of (enqueued (session_entries cmds))))"
proof -
  have fp: "fp = log_text (session_entries cmds)"
    using assms(2) command_loop_log [of alloc cmds empty_que "[]" s fp] by (simp add: main_def replay.simps)
  have "queue_rep empty_que (fifo_of [])" by (simp add: empty_que_def fifo_of_def queue_rep.simps)
  from replay_log [OF assms(1,3) this] show ?thesis using fp by (auto simp: main_def)
qed

theorem restart_ignores_deques_witness:
  "\<exists>s fp s'. main next_alloc [] [(''enque'', 5), (''enque'', 7), (''deque'', 0)] = Some (s, fp) \<and> queue_rep s (Fifo [7]) \<and>
     main next_alloc fp [] = Some (s', fp) \<and> queue_rep s' (Fifo [5, 7])"
proof -
  let ?cmds = "[(''enque'', 5), (''enque'', 7), (''deque'', 0)] :: (string \<times> int) list"
  have "queue_rep empty_que Fresh" by (simp add: empty_que_def queue_rep.simps)
  from enque_rep [OF this _ next_alloc_fresh, of 5] obtain s1 where 1: "queue_enque_v next_alloc True 5 empty_que = Some s1" "queue_rep s1 (Fifo [5])" by auto
  from enque_rep [OF 1(2) _ next_alloc_fresh, of 7] obtain s2 where 2: "queue_enque_v next_alloc True 7 s1 = Some s2" "queue_rep s2 (Fifo [5, 7])" by auto
  from deque_rep [OF 2(2)] obtain s3 where 3: "queue_deque_v s2 = Some (0, Some 5, s3)" "queue_rep s3 (Fifo [7])" by auto
  have ops: "parse_que_ops ''enque'' = ENQUE" "parse_que_ops ''deque'' = DEQUE" by (simp_all add: parse_que_ops_def ops_str_def)
  obtain fp where run: "main next_alloc [] ?cmds = Some (s3, fp)"
    using 1(1) 2(1) 3(1) by (simp add: main_def replay.simps handle_command_def enque_logged_def ops)
  have "enqueued (session_entries ?cmds) = [5, 7]"
    by (simp add: session_entries_def executed_def command_entries_def enqueued_def ops)
  then show ?thesis
    using restart_ignores_deques [OF next_alloc_fresh run] run 3(2) by (auto simp: is_int32_def fifo_of_def)
qed

end
