(* ===== verification/Queue_Pmemobj.thy ===== *)
theory Queue_Pmemobj
  imports Tx Decimal
begin

text \<open>
  The persistent queue of \<^verbatim>\<open>simple_fifo_queue/queue_pmemobj.cpp\<close>: a linked list in a pool of \<open>libpmemobj\<close>, changed in
  transactions, and the program that performs one command on it. \<open>None\<close> is a dereferenced null pointer.
\<close>

section \<open>The program\<close>

datatype que_op = ENQUE | DEQUE | SHOW | MAX_OPS

definition ops_str :: "(string \<times> que_op) list" where
  "ops_str = [(''enque'', ENQUE), (''deque'', DEQUE), (''show'', SHOW)]"

definition parse_que_ops :: "string \<Rightarrow> que_op" where
  "parse_que_ops ops = (case map_of ops_str ops of Some op \<Rightarrow> op | None \<Rightarrow> MAX_OPS)"

text \<open>The fields of the root \<open>struct queue\<close> and of a \<open>struct queue_node\<close>, and what they hold.\<close>

datatype queue_loc = Head | Tail | Value oid | Next oid

datatype queue_val = Num int | Oid oid

fun num_of :: "queue_val \<Rightarrow> int" where
  "num_of (Num v) = v"
| "num_of (Oid _) = 0"

fun oid_of :: "queue_val \<Rightarrow> oid" where
  "oid_of (Num _) = 0"
| "oid_of (Oid i) = i"

fun queue_owner :: "queue_loc \<Rightarrow> oid option" where
  "queue_owner Head = None"
| "queue_owner Tail = None"
| "queue_owner (Value i) = Some i"
| "queue_owner (Next i) = Some i"

type_synonym queue_pool = "(queue_loc, queue_val) pool"
type_synonym queue_tx = "(queue_loc, queue_val) tx_op list"
type_synonym queue_rollback = "queue_pool \<Rightarrow> queue_tx \<Rightarrow> queue_pool"

text \<open>The body of the transaction of \<open>queue_enque\<close>, with the object that \<open>TX_NEW\<close> returns.\<close>

definition enque_tx :: "oid \<Rightarrow> int \<Rightarrow> queue_pool \<Rightarrow> queue_tx option" where
  "enque_tx newnode v p =
    (let head = oid_of (cells p Head); tail = oid_of (cells p Tail);
         new = [Tx_alloc newnode, Store (Value newnode) (Num v), Store (Next newnode) (Oid 0)] in
     if head = 0 then
       Some (new @ [Tx_add [Head, Tail], Store Head (Oid newnode), Store Tail (Oid newnode)])
     else if tail \<notin> live p then None
     else Some (new @ [Tx_add [Next tail], Store (Next tail) (Oid newnode), Tx_add [Tail], Store Tail (Oid newnode)]))"

definition queue_enque :: "tx_env \<Rightarrow> queue_rollback \<Rightarrow> oid \<Rightarrow> int \<Rightarrow> queue_pool \<Rightarrow> queue_pool option" where
  "queue_enque env rollback newnode v p =
    (if begin_ok env then map_option (\<lambda>ops. tx_ends env rollback ops p) (enque_tx newnode v p) else Some p)"

text \<open>The value read in the body of \<open>queue_deque\<close> and the transaction of its second branch.\<close>

definition deque_tx :: "queue_pool \<Rightarrow> (int \<times> queue_tx) option" where
  "deque_tx p =
    (let head = oid_of (cells p Head); tail = oid_of (cells p Tail) in
     if head \<notin> live p then None
     else Some (num_of (cells p (Value head)),
       [Tx_add [Head], Store Head (cells p (Next head))] @
       (if head = tail then [Tx_add [Tail], Store Tail (cells p (Next tail))] else []) @ [Tx_free head]))"

text \<open>
  The result, the value stored through the pointer if any, whether the transaction is left open, and the
  pool. An empty queue returns from inside the transaction; a transaction that fails ends in
  \<open>TX_END\<close> like one that commits, and 0 is returned.
\<close>

definition queue_deque :: "tx_env \<Rightarrow> queue_rollback \<Rightarrow> queue_pool \<Rightarrow> (int \<times> int option \<times> bool \<times> queue_pool) option" where
  "queue_deque env rollback p =
    (if \<not> begin_ok env then Some (0, None, False, p)
     else if oid_of (cells p Head) = 0 then Some (-1, None, True, p)
     else map_option (\<lambda>(v, ops). (0, Some v, False, tx_ends env rollback ops p)) (deque_tx p))"

partial_function (option) show_loop :: "queue_pool \<Rightarrow> oid \<Rightarrow> int list option" where
  "show_loop p node =
    (if node = 0 then Some []
     else if node \<notin> live p then None
     else Option.bind (show_loop p (oid_of (cells p (Next node)))) (\<lambda>vs. Some (num_of (cells p (Value node)) # vs)))"

declare show_loop.simps [code]

definition queue_show :: "queue_pool \<Rightarrow> (int \<times> int list) option" where
  "queue_show p =
    (let head = oid_of (cells p Head) in
     if head = 0 then Some (-1, []) else map_option (\<lambda>vs. (0, vs)) (show_loop p head))"

text \<open>A new pool: the root object is zeroed.\<close>

definition empty_pool :: queue_pool where
  "empty_pool = \<lparr>live = {}, cells = (\<lambda>_. Oid 0)\<rparr>"

text \<open>
  \<open>main\<close> on the arguments and the contents of the file, \<open>None\<close> when it does not exist: the pool afterwards and
  the numbers printed. \<open>pop_ok\<close> is the result of creating or opening the pool; the value of an uninitialised
  variable is \<open>garbage\<close>.
\<close>

definition main :: "tx_env \<Rightarrow> queue_rollback \<Rightarrow> oid \<Rightarrow> bool \<Rightarrow> int \<Rightarrow> string list \<Rightarrow> queue_pool option \<Rightarrow>
    (queue_pool option \<times> int list) option" where
  "main env rollback newnode pop_ok garbage argv f =
    (if length argv < 3 then Some (f, [])
     else if \<not> pop_ok then None
     else
       (let p = (case f of None \<Rightarrow> empty_pool | Some p \<Rightarrow> p) in
        case parse_que_ops (argv ! 2) of
          ENQUE \<Rightarrow> if length argv < 4 then None
                   else map_option (\<lambda>p. (Some p, [])) (queue_enque env rollback newnode (atoi (argv ! 3)) p)
        | DEQUE \<Rightarrow> map_option (\<lambda>(r, v, _, p).
            (Some p, if r \<noteq> -1 then [case v of None \<Rightarrow> garbage | Some v \<Rightarrow> v] else [])) (queue_deque env rollback p)
        | SHOW \<Rightarrow> map_option (\<lambda>(_, vs). (Some p, vs)) (queue_show p)
        | MAX_OPS \<Rightarrow> Some (Some p, [])))"

section \<open>Queues in a pool\<close>

primrec linked :: "queue_pool \<Rightarrow> oid \<Rightarrow> (oid \<times> int) list \<Rightarrow> bool" where
  "linked p a [] \<longleftrightarrow> a = 0"
| "linked p a (n # ns) \<longleftrightarrow> a = fst n \<and> a \<noteq> 0 \<and> a \<in> live p \<and> num_of (cells p (Value a)) = snd n \<and>
    linked p (oid_of (cells p (Next a))) ns"

text \<open>The pool holds the queue \<open>vs\<close>, in nodes that are live and distinct; an empty queue has a null tail.\<close>

definition pool_queue :: "queue_pool \<Rightarrow> int list \<Rightarrow> bool" where
  "pool_queue p vs \<longleftrightarrow> (\<exists>ns. linked p (oid_of (cells p Head)) ns \<and> distinct (map fst ns) \<and> map snd ns = vs \<and>
     oid_of (cells p Tail) = (if ns = [] then 0 else fst (last ns)))"

lemma linked_cong:
  assumes "live p \<subseteq> live p' \<or> (\<forall>n \<in> set ns. fst n \<in> live p')"
    "\<forall>n \<in> set ns. cells p' (Value (fst n)) = cells p (Value (fst n)) \<and> cells p' (Next (fst n)) = cells p (Next (fst n))"
  shows "linked p a ns \<Longrightarrow> linked p' a ns"
  using assms by (induction ns arbitrary: a) auto

lemma linked_live: "linked p a ns \<Longrightarrow> n \<in> set ns \<Longrightarrow> fst n \<in> live p \<and> fst n \<noteq> 0"
  by (induction ns arbitrary: a) auto

lemma linked_show: "linked p a ns \<Longrightarrow> show_loop p a = Some (map snd ns)"
  by (induction ns arbitrary: a) (auto simp: show_loop.simps)

text \<open>Restoring a pool restores its queue.\<close>

lemma pool_queue_same: "pool_queue p vs \<Longrightarrow> same_pool queue_owner p p' \<Longrightarrow> pool_queue p' vs"
proof -
  assume q: "pool_queue p vs" and s: "same_pool queue_owner p p'"
  obtain ns where ns: "linked p (oid_of (cells p Head)) ns" "distinct (map fst ns)" "map snd ns = vs"
    "oid_of (cells p Tail) = (if ns = [] then 0 else fst (last ns))" using q by (auto simp: pool_queue_def)
  have root: "cells p' Head = cells p Head" "cells p' Tail = cells p Tail" "live p' = live p"
    using s by (auto simp: same_pool_def present_def)
  have "\<forall>n \<in> set ns. cells p' (Value (fst n)) = cells p (Value (fst n)) \<and> cells p' (Next (fst n)) = cells p (Next (fst n))"
    using s linked_live [OF ns(1)] by (auto simp: same_pool_def present_def)
  then have "linked p' (oid_of (cells p Head)) ns" using linked_cong [OF _ _ ns(1)] root(3) by auto
  then show ?thesis using ns(2-4) root by (auto simp: pool_queue_def)
qed

lemma pool_queue_head:
  assumes "pool_queue p vs"
  shows "oid_of (cells p Head) = 0 \<longleftrightarrow> vs = []"
proof -
  obtain ns where "linked p (oid_of (cells p Head)) ns" "map snd ns = vs" using assms by (auto simp: pool_queue_def)
  then show ?thesis by (cases ns) auto
qed

text \<open>The end of the list before and after a node is linked to it.\<close>

lemma linked_snoc:
  assumes "linked p a (ns @ [(t, x)])" "distinct (map fst (ns @ [(t, x)]))" "n \<notin> live p" "n \<noteq> 0"
    and "live p' = insert n (live p)" "cells p' (Next t) = Oid n" "num_of (cells p' (Value n)) = v" "oid_of (cells p' (Next n)) = 0"
    and "\<And>i. i \<noteq> n \<Longrightarrow> cells p' (Value i) = cells p (Value i)" "\<And>i. i \<noteq> n \<Longrightarrow> i \<noteq> t \<Longrightarrow> cells p' (Next i) = cells p (Next i)"
  shows "linked p' a (ns @ [(t, x), (n, v)])"
  using assms(1,2)
proof (induction ns arbitrary: a)
  case Nil
  then have "t \<noteq> n" using assms(3) by auto
  then show ?case using Nil assms(4-9) by auto
next
  case (Cons m ns)
  then have "fst m \<noteq> n" "fst m \<noteq> t" using assms(3) by auto
  then show ?case using Cons assms(5,9,10) by auto
qed

lemma enque_tx_ok:
  assumes "pool_queue p vs" "n \<notin> live p" "n \<noteq> 0"
  shows "\<exists>ops. enque_tx n v p = Some ops \<and> exposed queue_owner {} {} ops = {} \<and> pool_queue (run_ops ops p) (vs @ [v])"
proof -
  obtain ns where ns: "linked p (oid_of (cells p Head)) ns" "distinct (map fst ns)" "map snd ns = vs"
    "oid_of (cells p Tail) = (if ns = [] then 0 else fst (last ns))" using assms(1) by (auto simp: pool_queue_def)
  show ?thesis
  proof (cases ns rule: rev_cases)
    case Nil
    then show ?thesis using ns assms(3) by (auto simp: enque_tx_def Let_def pool_queue_def intro!: exI [of _ "[(n, v)]"])
  next
    case (snoc ms tx)
    obtain t x where tx: "tx = (t, x)" by (cases tx)
    have t: "t \<in> live p" "oid_of (cells p Head) \<noteq> 0"
      using linked_live [OF ns(1), of "(t, x)"] ns(1) snoc tx by (auto, cases ms) auto
    then have "t \<noteq> n" using assms(2) by auto
    let ?ops = "[Tx_alloc n, Store (Value n) (Num v), Store (Next n) (Oid 0), Tx_add [Next t], Store (Next t) (Oid n),
      Tx_add [Tail], Store Tail (Oid n)]"
    have tx': "enque_tx n v p = Some ?ops" using t ns(4) snoc tx by (simp add: enque_tx_def)
    have lk: "linked p (oid_of (cells p Head)) (ms @ [(t, x)])" "distinct (map fst (ms @ [(t, x)]))" using ns(1,2) snoc tx by simp_all
    have "linked (run_ops ?ops p) (oid_of (cells p Head)) (ms @ [(t, x), (n, v)])"
      by (rule linked_snoc [OF lk assms(2,3)]) (use \<open>t \<noteq> n\<close> in simp_all)
    moreover have "n \<notin> fst ` set ns" using linked_live [OF ns(1)] assms(2) by fastforce
    ultimately have "pool_queue (run_ops ?ops p) (vs @ [v])"
      unfolding pool_queue_def using ns(2,3) snoc tx by (intro exI [of _ "ms @ [(t, x), (n, v)]"]) auto
    then show ?thesis using tx' by (intro exI [of _ ?ops]) simp
  qed
qed

lemma deque_tx_ok:
  assumes "pool_queue p (v # vs)"
  shows "\<exists>ops. deque_tx p = Some (v, Tx_add [Head] # ops) \<and> exposed queue_owner {} {} (Tx_add [Head] # ops) = {} \<and>
    pool_queue (run_ops (Tx_add [Head] # ops) p) vs"
proof -
  obtain a ms where ns: "linked p (oid_of (cells p Head)) ((a, v) # ms)" "distinct (map fst ((a, v) # ms))" "map snd ms = vs"
    "oid_of (cells p Tail) = fst (last ((a, v) # ms))" using assms unfolding pool_queue_def by auto
  let ?tail = "if ms = [] then [Tx_add [Tail], Store Tail (cells p (Next a))] else []"
  let ?ops = "Store Head (cells p (Next a)) # ?tail @ [Tx_free a]"
  have "a = oid_of (cells p Tail) \<longleftrightarrow> ms = []" using ns(2,4) by (cases ms rule: rev_cases) auto
  then have tx: "deque_tx p = Some (v, Tx_add [Head] # ?ops)" using ns(1) by (auto simp: deque_tx_def Let_def)
  let ?p = "run_ops (Tx_add [Head] # ?ops) p"
  have p: "live ?p = live p - {a}" "cells ?p Head = cells p (Next a)" "cells ?p Tail = (if ms = [] then cells p (Next a) else cells p Tail)"
    "\<And>i. cells ?p (Value i) = cells p (Value i)" "\<And>i. cells ?p (Next i) = cells p (Next i)" by simp_all
  have "linked p (oid_of (cells p (Next a))) ms" using ns(1) by auto
  from linked_cong [OF _ _ this, of ?p] have "linked ?p (oid_of (cells p (Next a))) ms"
    using p(1,4,5) linked_live [OF ns(1)] ns(2) by force
  then have "pool_queue ?p vs" unfolding pool_queue_def using ns(1-4) p(2,3) by (intro exI [of _ ms]) auto
  moreover have "exposed queue_owner {} {} (Tx_add [Head] # ?ops) = {}" by simp
  ultimately show ?thesis using tx by blast
qed

text \<open>How a transaction that takes \<open>vs\<close> to \<open>ws\<close> can end.\<close>

lemma tx_ends_queue:
  assumes "tx_undo queue_owner rollback" "exposed queue_owner {} {} ops = {}" "pool_queue p vs" "pool_queue (run_ops ops p) ws"
    and "begin_ok env" "ops \<noteq> []"
  shows "(pool_queue (tx_ends env rollback ops p) vs \<or> pool_queue (tx_ends env rollback ops p) ws) \<and>
    (stop_at env = None \<longrightarrow> pool_queue (tx_ends env rollback ops p) ws) \<and> (stop_at env = Some 0 \<longrightarrow> pool_queue (tx_ends env rollback ops p) vs)"
proof (cases "tx_commits env ops")
  case True
  then have "tx_ends env rollback ops p = run_ops ops p" using tx_ends_cases [OF assms(1,2), of env p] by simp
  then show ?thesis using True assms(4,6) by (auto simp: tx_commits_def)
next
  case False
  then have "same_pool queue_owner p (tx_ends env rollback ops p)" using tx_ends_cases [OF assms(1,2), of env p] by simp
  then show ?thesis using pool_queue_same [OF assms(3)] False assms(5) by (auto simp: tx_commits_def)
qed

section \<open>Properties\<close>

lemma empty_pool_queue: "pool_queue empty_pool []"
  by (auto simp: pool_queue_def empty_pool_def)

text \<open>
  C23: The persistent queue is crash atomic. When the library restores what a transaction
  added, a crash at any moment of enqueueing or dequeueing leaves a pool that holds either the old queue or
  the new one: with the value appended, with the first value removed. Every field the two transactions overwrite is added before.
\<close>

theorem persistent_queue_is_crash_atomic:
  assumes "tx_undo queue_owner rollback" "pool_queue p vs"
  shows "(newnode \<noteq> 0 \<longrightarrow> newnode \<notin> live p \<longrightarrow>
      (\<exists>ops. enque_tx newnode v p = Some ops \<and>
        (\<forall>p'. tx_crashed rollback ops p p' \<longrightarrow> pool_queue p' vs \<or> pool_queue p' (vs @ [v])))) \<and>
    (vs \<noteq> [] \<longrightarrow> (\<exists>ops. deque_tx p = Some (hd vs, ops) \<and>
        (\<forall>p'. tx_crashed rollback ops p p' \<longrightarrow> pool_queue p' vs \<or> pool_queue p' (tl vs))))"
proof (intro conjI impI)
  assume "newnode \<noteq> 0" "newnode \<notin> live p"
  then obtain ops where ops: "enque_tx newnode v p = Some ops" "exposed queue_owner {} {} ops = {}" "pool_queue (run_ops ops p) (vs @ [v])"
    using enque_tx_ok [OF assms(2)] by blast
  then show "\<exists>ops. enque_tx newnode v p = Some ops \<and> (\<forall>p'. tx_crashed rollback ops p p' \<longrightarrow> pool_queue p' vs \<or> pool_queue p' (vs @ [v]))"
    using tx_crashed_cases [OF assms(1) ops(2), of p] pool_queue_same [OF assms(2)] by blast
next
  assume "vs \<noteq> []"
  then obtain w ws where vs: "vs = w # ws" by (cases vs) auto
  from deque_tx_ok [of p w ws] obtain ops where ops: "deque_tx p = Some (w, ops)" "exposed queue_owner {} {} ops = {}" "pool_queue (run_ops ops p) ws"
    using assms(2) vs by blast
  then show "\<exists>ops. deque_tx p = Some (hd vs, ops) \<and> (\<forall>p'. tx_crashed rollback ops p p' \<longrightarrow> pool_queue p' vs \<or> pool_queue p' (tl vs))"
    using tx_crashed_cases [OF assms(1) ops(2), of p] pool_queue_same [OF assms(2)] vs by auto
qed

theorem persistent_queue_is_crash_atomic_witness:
  "\<exists>ops. enque_tx 1 7 empty_pool = Some ops \<and>
     (\<forall>k \<le> length ops. pool_queue (undo_log queue_owner empty_pool (take k ops)) [] \<or>
        pool_queue (undo_log queue_owner empty_pool (take k ops)) [7])"
proof -
  have "1 \<notin> live empty_pool" by (simp add: empty_pool_def)
  then obtain ops where "enque_tx 1 7 empty_pool = Some ops"
    "\<forall>p'. tx_crashed (undo_log queue_owner) ops empty_pool p' \<longrightarrow> pool_queue p' [] \<or> pool_queue p' ([] @ [7])"
    using persistent_queue_is_crash_atomic [OF undo_log_ok empty_pool_queue, of 1 7] by auto
  then show ?thesis by (auto simp: tx_crashed_def)
qed

text \<open>
  The program implements a queue that survives its runs. On a file that holds a queue, \<open>enque\<close> with a
  number leaves the file with the number appended, \<open>deque\<close> prints the first value and leaves the others, \<open>show\<close> prints all
  values, and on an empty queue \<open>deque\<close> and \<open>show\<close> print nothing; an unknown command changes nothing. A
  transaction that fails leaves the old queue, but \<open>deque\<close> still prints the value it did not remove.
\<close>

theorem queue_program_is_fifo:
  assumes "tx_undo queue_owner rollback" "pool_queue p vs" "newnode \<noteq> 0" "newnode \<notin> live p" "begin_ok env"
  shows "(\<exists>p'. main env rollback newnode True g [prog, path, ''enque'', print_int v] (Some p) = Some (Some p', []) \<and>
      (pool_queue p' vs \<or> pool_queue p' (vs @ [v])) \<and>
      (stop_at env = None \<longrightarrow> pool_queue p' (vs @ [v])) \<and> (stop_at env = Some 0 \<longrightarrow> pool_queue p' vs)) \<and>
    (\<exists>p'. main env rollback newnode True g [prog, path, ''deque''] (Some p) = Some (Some p', take 1 vs) \<and>
      (pool_queue p' vs \<or> pool_queue p' (tl vs)) \<and>
      (stop_at env = None \<longrightarrow> pool_queue p' (tl vs)) \<and> (stop_at env = Some 0 \<longrightarrow> pool_queue p' vs)) \<and>
    main env rollback newnode True g [prog, path, ''show''] (Some p) = Some (Some p, vs) \<and>
    (parse_que_ops c = MAX_OPS \<longrightarrow> main env rollback newnode True g (prog # path # c # args) (Some p) = Some (Some p, []))"
proof (intro conjI)
  note ops_simps = main_def parse_que_ops_def ops_str_def
  obtain ops where ops: "enque_tx newnode v p = Some ops" "exposed queue_owner {} {} ops = {}" "pool_queue (run_ops ops p) (vs @ [v])"
    using enque_tx_ok [OF assms(2,4,3)] by blast
  moreover have "ops \<noteq> []" using ops(1) by (auto simp: enque_tx_def Let_def split: if_splits)
  moreover have "atoi (print_int v) = v" using atoi_print_int [of "[]" v] by simp
  ultimately show "\<exists>p'. main env rollback newnode True g [prog, path, ''enque'', print_int v] (Some p) = Some (Some p', []) \<and>
      (pool_queue p' vs \<or> pool_queue p' (vs @ [v])) \<and>
      (stop_at env = None \<longrightarrow> pool_queue p' (vs @ [v])) \<and> (stop_at env = Some 0 \<longrightarrow> pool_queue p' vs)"
    using tx_ends_queue [OF assms(1) ops(2) assms(2) ops(3) assms(5)] assms(5)
    by (simp add: ops_simps queue_enque_def)
  show "\<exists>p'. main env rollback newnode True g [prog, path, ''deque''] (Some p) = Some (Some p', take 1 vs) \<and>
      (pool_queue p' vs \<or> pool_queue p' (tl vs)) \<and>
      (stop_at env = None \<longrightarrow> pool_queue p' (tl vs)) \<and> (stop_at env = Some 0 \<longrightarrow> pool_queue p' vs)"
  proof (cases vs)
    case Nil
    then show ?thesis using pool_queue_head [OF assms(2)] assms(2,5) by (simp add: ops_simps queue_deque_def)
  next
    case (Cons w ws)
    from deque_tx_ok [of p w ws] obtain ops where ops: "deque_tx p = Some (w, Tx_add [Head] # ops)"
      "exposed queue_owner {} {} (Tx_add [Head] # ops) = {}" "pool_queue (run_ops (Tx_add [Head] # ops) p) ws" using assms(2) Cons by blast
    then show ?thesis
      using tx_ends_queue [OF assms(1) ops(2) assms(2) ops(3) assms(5)] pool_queue_head [OF assms(2)] assms(5) Cons
      by (simp add: ops_simps queue_deque_def)
  qed
  show "main env rollback newnode True g [prog, path, ''show''] (Some p) = Some (Some p, vs)"
  proof -
    obtain ns where "linked p (oid_of (cells p Head)) ns" "map snd ns = vs" using assms(2) by (auto simp: pool_queue_def)
    then show ?thesis using linked_show pool_queue_head [OF assms(2)] by (auto simp: ops_simps queue_show_def Let_def)
  qed
  show "parse_que_ops c = MAX_OPS \<longrightarrow> main env rollback newnode True g (prog # path # c # args) (Some p) = Some (Some p, [])"
    by (simp add: main_def)
qed

theorem queue_program_is_fifo_witness:
  "\<exists>p p'. main \<lparr>begin_ok = True, stop_at = None\<rparr> (undo_log queue_owner) 1 True 0 [''q'', ''f'', ''enque'', print_int 7] (Some empty_pool) =
       Some (Some p, []) \<and> pool_queue p [7] \<and>
     main \<lparr>begin_ok = True, stop_at = Some 0\<rparr> (undo_log queue_owner) 2 True 0 [''q'', ''f'', ''deque''] (Some p) = Some (Some p', [7]) \<and>
     pool_queue p' [7]"
proof -
  have n: "1 \<notin> live empty_pool" by (simp add: empty_pool_def)
  from queue_program_is_fifo [OF undo_log_ok empty_pool_queue _ n, of "\<lparr>begin_ok = True, stop_at = None\<rparr>" 0 "''q''" "''f''" 7]
  obtain p where p: "main \<lparr>begin_ok = True, stop_at = None\<rparr> (undo_log queue_owner) 1 True 0 [''q'', ''f'', ''enque'', print_int 7] (Some empty_pool) =
      Some (Some p, [])" "pool_queue p [7]" by auto
  then have "live p = {1}"
    by (simp add: main_def parse_que_ops_def ops_str_def queue_enque_def enque_tx_def empty_pool_def tx_ends_def run_ops_def)
      (auto simp: run_ops_def)
  then obtain p' where "main \<lparr>begin_ok = True, stop_at = Some 0\<rparr> (undo_log queue_owner) 2 True 0 [''q'', ''f'', ''deque''] (Some p) =
      Some (Some p', take 1 [7])" "pool_queue p' [7]"
    using queue_program_is_fifo [OF undo_log_ok p(2), of 2 "\<lparr>begin_ok = True, stop_at = Some 0\<rparr>" 0 "''q''" "''f''" 0 "[]" "[]"] by auto
  then show ?thesis using p by (intro exI [of _ p] exI [of _ p']) simp
qed

end
