(* ===== verification/Rw_Info.thy ===== *)
theory Rw_Info
  imports Crc Decimal
begin

text \<open>
  The helpers of \<^verbatim>\<open>cxl_memory_sharing/rw_info.c\<close>: filling a block with random bytes and its checksum, flushing the cache
  lines of a range, and printing memory. Results of \<open>random\<close> are arguments; the flushing functions return the
  instructions they issue, in order, and \<open>None\<close> when their loop does not end.
\<close>

section \<open>The code\<close>

definition BLOCK_NUM :: nat where "BLOCK_NUM = 255"
definition FLUSH_ALIGN :: u64 where "FLUSH_ALIGN = 64"

text \<open>\<open>random\<close> returns a number between 0 and \<open>2^31 - 1\<close>.\<close>

definition random_select_block :: "nat \<Rightarrow> nat" where
  "random_select_block r = r mod BLOCK_NUM"

definition fill_buffer_random :: "(nat \<Rightarrow> u64) \<Rightarrow> nat \<Rightarrow> bytes" where
  "fill_buffer_random rnd n = map (\<lambda>i. ucast (rnd i)) [0..<n]"

text \<open>A 32-bit store and load on x86.\<close>

definition le32 :: "u32 \<Rightarrow> bytes" where
  "le32 w = map (\<lambda>i. ucast (drop_bit (8 * i) w)) [0..<4]"

definition load32 :: "bytes \<Rightarrow> u32" where
  "load32 bs = foldr (\<lambda>b w. ucast b OR push_bit 8 w) bs 0"

datatype instr = Clflushopt u64 | Sfence | Load_byte u64 | Clflush u64 | Mfence

partial_function (option) flush_loop :: "u64 \<Rightarrow> u64 \<Rightarrow> (u64 list \<times> u64) option" where
  "flush_loop uptr e =
    (if uptr < e then Option.bind (flush_loop (uptr + FLUSH_ALIGN) e) (\<lambda>(fs, u). Some (uptr # fs, u)) else Some ([], uptr))"

declare flush_loop.simps [code]

definition cflush :: "u64 \<Rightarrow> u64 \<Rightarrow> instr list option" where
  "cflush addr len =
    map_option (\<lambda>(fs, u). map Clflushopt fs @ [Sfence, Clflushopt u, Load_byte u])
      (flush_loop (addr AND NOT (FLUSH_ALIGN - 1)) (addr + len - 64))"

definition cflushopt :: "u64 \<Rightarrow> u64 \<Rightarrow> instr list option" where
  "cflushopt addr len = map_option (\<lambda>(fs, _). map Clflushopt fs) (flush_loop (addr AND NOT (FLUSH_ALIGN - 1)) (addr + len))"

text \<open>
  The variants without \<open>FLUSH_OPT\<close>, which the definition of the macro right above them compiles out: \<open>__flush_processor_cache\<close> steps from \<open>addr\<close> itself in steps of
  \<open>CL_SIZE\<close>, which is \<open>FLUSH_ALIGN\<close>, and both callers end with a full fence.
\<close>

definition flush_processor_cache :: "u64 \<Rightarrow> u64 \<Rightarrow> instr list option" where
  "flush_processor_cache addr len = map_option (\<lambda>(is, _). map (\<lambda>i. Clflush (addr + i)) is) (flush_loop 0 len)"

definition cflush_sync :: "u64 \<Rightarrow> u64 \<Rightarrow> instr list option" where
  "cflush_sync addr len = map_option (\<lambda>fs. Mfence # fs @ [Mfence]) (flush_processor_cache addr len)"

definition cflushopt_sync :: "u64 \<Rightarrow> u64 \<Rightarrow> instr list option" where
  "cflushopt_sync addr len = map_option (\<lambda>fs. fs @ [Mfence]) (flush_processor_cache addr len)"

text \<open>The bytes copied to the block at \<open>addr\<close>, the instructions that flush it, and the checksum returned.\<close>

definition fill_block_data :: "(nat \<Rightarrow> u64) \<Rightarrow> u64 \<Rightarrow> nat \<Rightarrow> (bytes \<times> instr list \<times> u32) option" where
  "fill_block_data rnd addr block_size =
    (let data = fill_buffer_random rnd (block_size - 4) in
     Option.bind (calculate_crc32 data (of_nat (block_size - 4))) (\<lambda>crc.
     map_option (\<lambda>fl. (data @ le32 crc, fl, crc)) (cflush addr (of_nat block_size))))"

text \<open>\<open>toHex\<close> returns a pointer into the digits, which is printed up to the end of the string.\<close>

definition toHex :: "u8 \<Rightarrow> string" where
  "toHex byte = drop (unat (drop_bit 4 byte AND 0xF)) ''0123456789ABCDEF''"

definition print_char :: "u8 \<Rightarrow> char" where
  "print_char b = (if 33 \<le> unat b \<and> unat b \<le> 126 then char_of (unat b) else CHR ''.'')"

text \<open>The characters of a line, read through the pointer that has advanced to byte \<open>i\<close>.\<close>

definition print_line :: "bytes \<Rightarrow> nat \<Rightarrow> string option" where
  "print_line m i =
    (let js = [i - i mod 16..<Suc i] in
     if \<forall>j \<in> set js. i + j < length m then Some (map (\<lambda>j. print_char (m ! (i + j))) js) else None)"

text \<open>
  \<open>printMemory\<close> on the memory from \<open>ptr\<close> on: one turn of its loop, and the loop. \<open>None\<close> is a read behind the end of that
  memory.
\<close>

definition print_turn :: "bytes \<Rightarrow> nat \<Rightarrow> nat \<Rightarrow> string option" where
  "print_turn m siz i =
    (if \<not> i < length m then None
     else if (i + 1) mod 16 = 0 \<or> i = siz - 1 then
       map_option (\<lambda>line. toHex (m ! i) @ '' '' @ [newline] @ replicate (if (i + 1) mod 16 = 0 then 0 else 16 - (i + 1) mod 16) (CHR '' '') @
         ''| '' @ line @ '' |'' @ [newline]) (print_line m i)
     else Some (toHex (m ! i) @ '' ''))"

primrec print_turns :: "bytes \<Rightarrow> nat \<Rightarrow> nat list \<Rightarrow> string option" where
  "print_turns m siz [] = Some []"
| "print_turns m siz (i # is) = Option.bind (print_turn m siz i) (\<lambda>s. map_option ((@) s) (print_turns m siz is))"

definition printMemory :: "bytes \<Rightarrow> nat \<Rightarrow> string option" where
  "printMemory m siz = print_turns m siz [0..<siz]"

section \<open>Flushing\<close>

lemma of_nat_u64_less: "a < 2 ^ 64 \<Longrightarrow> b < 2 ^ 64 \<Longrightarrow> (of_nat a :: u64) < of_nat b \<longleftrightarrow> a < b"
  by (simp add: word_less_nat_alt unsigned_of_nat take_bit_nat_eq_self)

text \<open>From an aligned start the loop flushes line after line up to the first one at or behind the bound.\<close>

lemma flush_loop_ok:
  assumes "e + 64 \<le> 2 ^ 64" "64 * k < 2 ^ 64"
  shows "\<exists>m. flush_loop (of_nat (64 * k)) (of_nat e) = Some (map (\<lambda>j. of_nat (64 * j)) [k..<m], of_nat (64 * m)) \<and>
    k \<le> m \<and> e \<le> 64 * m \<and> (k < m \<longrightarrow> 64 * (m - 1) < e)"
  using assms(2)
proof (induction "e - 64 * k" arbitrary: k rule: less_induct)
  case less
  have lt: "(of_nat (64 * k) :: u64) < of_nat e \<longleftrightarrow> 64 * k < e" using less.prems assms(1) by (intro of_nat_u64_less) auto
  show ?case
  proof (cases "64 * k < e")
    case False
    then have "flush_loop (of_nat (64 * k)) (of_nat e) = Some ([], of_nat (64 * k))" using lt by (subst flush_loop.simps) simp
    then show ?thesis using False by (intro exI [of _ k]) simp
  next
    case True
    have "e - 64 * Suc k < e - 64 * k" "64 * Suc k < 2 ^ 64" using True assms(1) by auto
    from less.hyps [OF this] obtain m where m:
      "flush_loop (of_nat (64 * Suc k)) (of_nat e) = Some (map (\<lambda>j. of_nat (64 * j)) [Suc k..<m], of_nat (64 * m))"
      "Suc k \<le> m" "e \<le> 64 * m" "Suc k < m \<longrightarrow> 64 * (m - 1) < e" by blast
    have step: "(of_nat (64 * k) :: u64) + FLUSH_ALIGN = of_nat (64 * Suc k)" by (simp add: FLUSH_ALIGN_def)
    have "flush_loop (of_nat (64 * k)) (of_nat e) = Some (of_nat (64 * k) # map (\<lambda>j. of_nat (64 * j)) [Suc k..<m], of_nat (64 * m))"
      using lt True by (subst flush_loop.simps) (simp add: step m(1) del: of_nat_mult mult_Suc_right)
    moreover have "[k..<m] = k # [Suc k..<m]" using m(2) by (simp add: upt_conv_Cons)
    moreover have "64 * (m - 1) < e" using m(2,4) True by (cases "Suc k < m") auto
    ultimately show ?thesis using m(2,3) by (intro exI [of _ m]) simp
  qed
qed

lemma align_down: "addr AND NOT (FLUSH_ALIGN - 1) = of_nat (64 * (unat addr div 64))"
proof -
  have "FLUSH_ALIGN - 1 = mask 6" by (simp add: FLUSH_ALIGN_def mask_eq_exp_minus_1)
  moreover have "addr AND NOT (mask 6) = push_bit 6 (drop_bit 6 addr)"
    by (rule bit_word_eqI) (auto simp: bit_simps)
  moreover have "drop_bit 6 addr = of_nat (unat addr div 64)"
    by (simp add: drop_bit_eq_div word_arith_nat_div)
  ultimately show ?thesis by (simp add: push_bit_eq_mult)
qed

text \<open>The lines that a range of bytes touches, as the addresses of their first bytes.\<close>

definition range_lines :: "nat \<Rightarrow> nat \<Rightarrow> nat set" where
  "range_lines addr len = {u. u mod 64 = 0 \<and> u < addr + len \<and> addr < u + 64}"

lemma flushed_lines:
  assumes "\<And>j. 64 * j < addr + len \<longleftrightarrow> j < m"
  shows "(\<lambda>j. 64 * j) ` {addr div 64..<m} = range_lines addr len"
proof (intro equalityI subsetI)
  fix u assume "u \<in> (\<lambda>j. 64 * j) ` {addr div 64..<m}"
  then obtain j where "u = 64 * j" "addr div 64 \<le> j" "j < m" by auto
  then show "u \<in> range_lines addr len" using assms [of j] by (simp add: range_lines_def)
next
  fix u assume u: "u \<in> range_lines addr len"
  then obtain j where j: "u = 64 * j" by (auto simp: range_lines_def elim!: dvdE dest!: mod_0_imp_dvd)
  then have "j < m" "addr div 64 \<le> j" using u assms [of j] by (auto simp: range_lines_def)
  then show "u \<in> (\<lambda>j. 64 * j) ` {addr div 64..<m}" using j by auto
qed

lemma flush_lines:
  assumes "64 \<le> unat addr" "0 < unat len" "unat addr + unat len + 64 \<le> 2 ^ 64"
  shows "\<exists>us. sorted_wrt (<) us \<and> us \<noteq> [] \<and> set us = range_lines (unat addr) (unat len) \<and>
    cflushopt addr len = Some (map (\<lambda>u. Clflushopt (of_nat u)) us) \<and>
    cflush addr len = Some (map (\<lambda>u. Clflushopt (of_nat u)) (butlast us) @
      [Sfence, Clflushopt (of_nat (last us)), Load_byte (of_nat (last us))])"
proof -
  let ?a = "unat addr" and ?l = "unat len"
  let ?k = "?a div 64"
  have k: "64 * ?k < 2 ^ 64" using assms(3) by linarith
  have e1: "addr + len = of_nat (?a + ?l)" by simp
  obtain m where m: "flush_loop (of_nat (64 * ?k)) (of_nat (?a + ?l)) = Some (map (\<lambda>j. of_nat (64 * j)) [?k..<m], of_nat (64 * m))"
    "?k \<le> m" "?a + ?l \<le> 64 * m" "?k < m \<longrightarrow> 64 * (m - 1) < ?a + ?l"
    using flush_loop_ok [OF assms(3) k] by blast
  have km: "?k < m" using m(3) assms(2) by linarith
  have opt: "cflushopt addr len = Some (map (\<lambda>u. Clflushopt (of_nat u)) (map (\<lambda>j. 64 * j) [?k..<m]))"
    by (simp add: cflushopt_def align_down e1 m(1) comp_def del: of_nat_add of_nat_mult)
  have e2: "addr + len - 64 = of_nat (?a + ?l - 64)" using assms(1) by (simp add: of_nat_diff)
  have e3: "?a + ?l - 64 + 64 \<le> 2 ^ 64" using assms(1,3) by linarith
  obtain m2 where m2: "flush_loop (of_nat (64 * ?k)) (of_nat (?a + ?l - 64)) = Some (map (\<lambda>j. of_nat (64 * j)) [?k..<m2], of_nat (64 * m2))"
    "?k \<le> m2" "?a + ?l - 64 \<le> 64 * m2" "?k < m2 \<longrightarrow> 64 * (m2 - 1) < ?a + ?l - 64"
    using flush_loop_ok [OF e3 k] by blast
  have "64 * m2 < ?a + ?l" using m2(2,4) assms(1,2) by (cases "?k < m2") linarith+
  moreover have "64 * (m - 1) < ?a + ?l" "?a + ?l \<le> 64 * m2 + 64" using m(4) km m2(3) by linarith+
  ultimately have "m = Suc m2" using m(3) km by linarith
  moreover have "map (\<lambda>j. 64 * j) [?k..<Suc m2] = map (\<lambda>j. 64 * j) [?k..<m2] @ [64 * m2]" using m2(2) by simp
  ultimately have fl: "cflush addr len = Some (map (\<lambda>u. Clflushopt (of_nat u)) (butlast (map (\<lambda>j. 64 * j) [?k..<m])) @
      [Sfence, Clflushopt (of_nat (last (map (\<lambda>j. 64 * j) [?k..<m]))), Load_byte (of_nat (last (map (\<lambda>j. 64 * j) [?k..<m])))])"
    by (simp add: cflush_def align_down e2 m2(1) comp_def del: of_nat_mult)
  have "64 * j < ?a + ?l \<longleftrightarrow> j < m" for j using m(3,4) km by auto
  then have "set (map (\<lambda>j. 64 * j) [?k..<m]) = range_lines ?a ?l" using flushed_lines [of ?a ?l m] by simp
  moreover have "sorted_wrt (<) (map (\<lambda>j. 64 * j) [?k..<m])" by (simp add: sorted_wrt_map)
  ultimately show ?thesis using opt fl km by (intro exI [of _ "map (\<lambda>j. 64 * j) [?k..<m]"]) simp
qed

text \<open>
  C32: Flushing a range ends and flushes exactly the cache lines the range touches. For a range that is not
  empty, starts behind the first 64 bytes and ends 64 bytes before the end of the address space, the loops of \<open>cflush\<close> and
  \<open>cflushopt\<close> end; the lines flushed are those with a byte in the range, each once and in order. \<open>cflush\<close> flushes the last line behind its fence
  and then loads a byte of it.
\<close>

theorem flush_covers_range:
  assumes "64 \<le> unat addr" "0 < unat len" "unat addr + unat len + 64 \<le> 2 ^ 64"
  shows "\<exists>us. sorted_wrt (<) us \<and> us \<noteq> [] \<and> set us = range_lines (unat addr) (unat len) \<and>
    cflushopt addr len = Some (map (\<lambda>u. Clflushopt (of_nat u)) us) \<and>
    cflush addr len = Some (map (\<lambda>u. Clflushopt (of_nat u)) (butlast us) @
      [Sfence, Clflushopt (of_nat (last us)), Load_byte (of_nat (last us))])"
  using assms by (rule flush_lines)

theorem flush_covers_range_witness:
  "\<exists>us. set us = range_lines 100 64 \<and> cflushopt 100 64 = Some (map (\<lambda>u. Clflushopt (of_nat u)) us)"
  using flush_covers_range [of 100 64] by auto

text \<open>The variant that is compiled out flushes the same lines of an aligned range; of other ranges it may miss the last line.\<close>

lemma flush_processor_cache_lines:
  assumes "64 dvd unat addr" "0 < unat len" "unat addr + unat len + 64 \<le> 2 ^ 64"
  shows "\<exists>us. set us = range_lines (unat addr) (unat len) \<and> flush_processor_cache addr len = Some (map (\<lambda>u. Clflush (of_nat u)) us)"
proof -
  obtain a where a: "unat addr = 64 * a" using assms(1) by blast
  obtain m where m: "flush_loop 0 (of_nat (unat len)) = Some (map (\<lambda>j. of_nat (64 * j)) [0..<m], of_nat (64 * m))"
    "unat len \<le> 64 * m" "0 < m \<longrightarrow> 64 * (m - 1) < unat len"
    using flush_loop_ok [of "unat len" 0] assms(3) by auto
  let ?us = "map (\<lambda>j. 64 * j) [a..<a + m]"
  have "map (\<lambda>i. Clflush (addr + i)) (map (\<lambda>j. of_nat (64 * j)) [0..<m]) = map (\<lambda>u. Clflush (of_nat u)) ?us"
  proof -
    have "addr = of_nat (64 * a)" by (simp flip: a)
    then show ?thesis by (simp add: list_eq_iff_nth_eq algebra_simps)
  qed
  then have "flush_processor_cache addr len = Some (map (\<lambda>u. Clflush (of_nat u)) ?us)"
    using m(1) by (simp add: flush_processor_cache_def)
  moreover have "64 * j < unat addr + unat len \<longleftrightarrow> j < a + m" for j using m(2,3) assms(2) a by auto
  then have "set ?us = range_lines (unat addr) (unat len)" using flushed_lines [of "unat addr" "unat len" "a + m"] a by simp
  ultimately show ?thesis by blast
qed

lemma flush_processor_cache_misses: "flush_processor_cache 124 8 = Some [Clflush 124] \<and> 128 \<in> range_lines 124 8"
  by (simp add: flush_processor_cache_def flush_loop.simps [of 0] flush_loop.simps [of 64] FLUSH_ALIGN_def range_lines_def)

section \<open>Blocks\<close>

text \<open>A block whose last four bytes are the checksum of the others; what the readers test.\<close>

definition block_ok :: "bytes \<Rightarrow> bool" where
  "block_ok bs \<longleftrightarrow> 4 \<le> length bs \<and>
    calculate_crc32 bs (of_nat (length bs - 4)) = Some (load32 (drop (length bs - 4) bs))"

lemma load32_le32: "load32 (le32 w) = w"
proof -
  define v :: u32 where "v = ucast (ucast w :: u8) OR push_bit 8 (ucast (ucast (drop_bit 8 w) :: u8) OR
      push_bit 8 (ucast (ucast (drop_bit 16 w) :: u8) OR push_bit 8 (ucast (ucast (drop_bit 24 w) :: u8))))"
  have "load32 (le32 w) = v" by (simp add: load32_def le32_def upt_rec v_def)
  also have "v = w"
  proof (rule bit_word_eqI)
    fix n assume "n < LENGTH(32)"
    then show "bit v n \<longleftrightarrow> bit w n"
      unfolding v_def by (cases "n < 8"; cases "n < 16"; cases "n < 24") (auto simp: bit_simps)
  qed
  finally show ?thesis .
qed

lemma length_le32 [simp]: "length (le32 w) = 4"
  by (simp add: le32_def)

lemma sealed_block_ok:
  assumes "calculate_crc32 d (of_nat (length d)) = Some crc" "length d < 2 ^ 32"
  shows "block_ok (d @ le32 crc)"
proof -
  have "unat (ucast (of_nat (length d) :: u64) :: u32) = length d" using assms(2) by (simp add: unat_ucast_of_nat)
  then have "calculate_crc32 (d @ le32 crc) (of_nat (length d)) = calculate_crc32 d (of_nat (length d))"
    by (simp add: calculate_crc32_eq_spec)
  then show ?thesis using assms(1) by (simp add: block_ok_def load32_le32)
qed

lemma block_ok_le32:
  assumes "length d < 2 ^ 32"
  shows "block_ok (d @ le32 c) \<longleftrightarrow> c = crc32_spec d"
proof -
  have "unat (ucast (of_nat (length d) :: u64) :: u32) = length d" using assms by (simp add: unat_ucast_of_nat)
  then show ?thesis by (auto simp: block_ok_def load32_le32 calculate_crc32_eq_spec)
qed

lemma length_fill [simp]: "length (fill_buffer_random rnd n) = n"
  by (simp add: fill_buffer_random_def)

lemma fill_block_data_ok:
  assumes "fill_block_data rnd addr n = Some (bs, fl, crc)" "4 \<le> n" "n < 2 ^ 32"
  shows "block_ok bs \<and> length bs = n \<and> cflush addr (of_nat n) = Some fl"
proof -
  let ?d = "fill_buffer_random rnd (n - 4)"
  have d: "calculate_crc32 ?d (of_nat (length ?d)) = Some crc" "bs = ?d @ le32 crc" "cflush addr (of_nat n) = Some fl"
    using assms(1) by (auto simp: fill_block_data_def Let_def split: bind_splits)
  have "length ?d < 2 ^ 32" using assms(3) by simp
  then show ?thesis using sealed_block_ok [OF d(1)] d(2,3) assms(2) by simp
qed

lemma random_select_block_less: "random_select_block r < BLOCK_NUM"
  by (simp add: random_select_block_def BLOCK_NUM_def)

section \<open>Printing\<close>

lemma print_turns_None: "print_turns m siz is = None \<longleftrightarrow> (\<exists>i \<in> set is. print_turn m siz i = None)"
  by (induction "is") (auto split: bind_splits)

lemma print_line_None: "print_line m i = None \<longleftrightarrow> length m \<le> 2 * i"
  by (auto simp: print_line_def Let_def not_less intro!: bexI [of _ i])

lemma print_turn_None:
  "print_turn m siz i = None \<longleftrightarrow> length m \<le> i \<or> ((i + 1) mod 16 = 0 \<or> i = siz - 1) \<and> length m \<le> 2 * i"
  by (simp add: print_turn_def print_line_None)

text \<open>
  \<open>printMemory\<close> reads nearly twice as many bytes as it is asked to print. Because the characters of a line are
  indexed from the pointer that already advanced, it reads behind the given memory exactly when that has not at least
  \<open>2 * siz - 1\<close> bytes; on a buffer of \<open>siz\<close> bytes, two or more, it reads out of bounds.
\<close>

theorem printMemory_overreads:
  assumes "0 < siz"
  shows "printMemory m siz = None \<longleftrightarrow> length m \<le> 2 * (siz - 1)"
proof
  assume "printMemory m siz = None"
  then obtain i where i: "i < siz" "print_turn m siz i = None" by (auto simp: printMemory_def print_turns_None)
  then have "length m \<le> 2 * i" by (auto simp: print_turn_None)
  then show "length m \<le> 2 * (siz - 1)" using i(1) by linarith
next
  assume "length m \<le> 2 * (siz - 1)"
  then have "print_turn m siz (siz - 1) = None" by (simp add: print_turn_None)
  then show "printMemory m siz = None" using assms unfolding printMemory_def print_turns_None by (intro bexI [of _ "siz - 1"]) simp_all
qed

theorem printMemory_overreads_witness: "printMemory (replicate 256 0) 256 = None \<and> printMemory (replicate 511 0) 256 \<noteq> None"
  using printMemory_overreads [of 256 "replicate 256 0"] printMemory_overreads [of 256 "replicate 511 0"] by simp

end
