(* ===== verification/Meta_Sharing.thy ===== *)
theory Meta_Sharing
  imports Rw_Info
begin

text \<open>
  The protocol of \<^verbatim>\<open>cxl_memory_sharing/meta_write.c\<close> and \<^verbatim>\<open>meta_read.c\<close>: two hosts share a memory that their caches do not keep
  coherent. The first line of the shared file is a flag, \<open>0x00\<close> when the writer may write and \<open>0x10\<close> when the
  reader may read; the lines behind it are one block of data with a checksum.

  Memory and caches are arrays of lines of 64 bytes, line 0 the flag and lines 1 to \<open>n\<close> the data (\<open>n\<close> is 131072 for
  the block size of the source). A cache line is absent, clean or dirty; a load fetches an absent line, a store makes it dirty, a flush
  writes a dirty line back and drops it. At any moment a cache may also fetch a line or write it back and drop it of its own accord.
  In this theory instructions take effect in program order, which is not what \<open>clflushopt\<close> promises: the invariants here are the common ground for the theories
  \<open>Weak_Sharing\<close>, \<open>Sharing_Start\<close> and \<open>Dsa_Sharing\<close>, whose flushes take effect late and which hold the properties. A line is stored as a whole: of the flag only the
  first byte is tested, and no data line is read while the flag is zero.
\<close>

section \<open>Caches\<close>

type_synonym line_mem = "nat \<Rightarrow> bytes"
type_synonym line_cache = "nat \<Rightarrow> (bytes \<times> bool) option"

definition cached_value :: "line_mem \<Rightarrow> line_cache \<Rightarrow> nat \<Rightarrow> bytes" where
  "cached_value m c i = (case c i of None \<Rightarrow> m i | Some (v, _) \<Rightarrow> v)"

definition fetch_line :: "line_mem \<Rightarrow> line_cache \<Rightarrow> nat \<Rightarrow> line_cache" where
  "fetch_line m c i = (case c i of None \<Rightarrow> c(i \<mapsto> (m i, False)) | Some _ \<Rightarrow> c)"

definition store_line :: "line_cache \<Rightarrow> nat \<Rightarrow> bytes \<Rightarrow> line_cache" where
  "store_line c i v = c(i \<mapsto> (v, True))"

definition flush_mem :: "line_mem \<Rightarrow> line_cache \<Rightarrow> nat \<Rightarrow> line_mem" where
  "flush_mem m c i = (case c i of Some (v, True) \<Rightarrow> m(i := v) | _ \<Rightarrow> m)"

definition drop_line :: "line_cache \<Rightarrow> nat \<Rightarrow> line_cache" where
  "drop_line c i = c(i := None)"

section \<open>The two programs\<close>

definition flag_line :: "u8 \<Rightarrow> bytes" where
  "flag_line b = replicate 64 b"

datatype writer_pc = W_fill | W_flush_meta | W_test | W_copy nat | W_flush_data nat | W_load_data | W_set | W_flush_flag | W_load_flag

datatype reader_pc = R_flush_meta | R_test | R_flush_data nat | R_copy nat | R_clear | R_flush_flag | R_load_flag | R_check | R_failed

text \<open>\<open>sent\<close> and \<open>received\<close> record the blocks that the writer published and the reader copied.\<close>

record share =
  smem :: line_mem
  wcache :: line_cache
  rcache :: line_cache
  wpc :: writer_pc
  rpc :: reader_pc
  wbuf :: line_mem
  rbuf :: line_mem
  sent :: "bytes list"
  received :: "bytes list"

definition block_of_lines :: "nat \<Rightarrow> line_mem \<Rightarrow> bytes" where
  "block_of_lines n f = concat (map f [1..<Suc n])"

text \<open>The writer's buffer: random bytes, their checksum behind them.\<close>

definition filled :: "nat \<Rightarrow> line_mem \<Rightarrow> bool" where
  "filled n f \<longleftrightarrow> (\<exists>rnd crc. calculate_crc32 (fill_buffer_random rnd (64 * n - 4)) (of_nat (64 * n - 4)) = Some crc \<and>
    f = (\<lambda>i. take 64 (drop (64 * (i - 1)) (fill_buffer_random rnd (64 * n - 4) @ le32 crc))))"

text \<open>
  One step of the loop of the writer; \<open>f\<close> is the buffer when it is filled. The branches that flush complete at once; theory \<open>Weak_Sharing\<close>
  replaces them by issuing the flush.
\<close>

definition writer_step :: "nat \<Rightarrow> line_mem \<Rightarrow> share \<Rightarrow> share" where
  "writer_step n f s =
    (case wpc s of
       W_fill \<Rightarrow> s\<lparr>wbuf := f, wpc := W_flush_meta\<rparr>
     | W_flush_meta \<Rightarrow> s\<lparr>smem := flush_mem (smem s) (wcache s) 0, wcache := drop_line (wcache s) 0, wpc := W_test\<rparr>
     | W_test \<Rightarrow> s\<lparr>wcache := fetch_line (smem s) (wcache s) 0,
         wpc := (if cached_value (smem s) (wcache s) 0 ! 0 = 0x00 then W_copy 1 else W_fill)\<rparr>
     | W_copy i \<Rightarrow> s\<lparr>wcache := store_line (wcache s) i (wbuf s i), wpc := (if i < n then W_copy (Suc i) else W_flush_data 1)\<rparr>
     | W_flush_data i \<Rightarrow> s\<lparr>smem := flush_mem (smem s) (wcache s) i, wcache := drop_line (wcache s) i,
         wpc := (if i < n then W_flush_data (Suc i) else W_load_data)\<rparr>
     | W_load_data \<Rightarrow> s\<lparr>wcache := fetch_line (smem s) (wcache s) n, wpc := W_set\<rparr>
     | W_set \<Rightarrow> s\<lparr>wcache := store_line (wcache s) 0 (flag_line 0x10), wpc := W_flush_flag, sent := sent s @ [block_of_lines n (wbuf s)]\<rparr>
     | W_flush_flag \<Rightarrow> s\<lparr>smem := flush_mem (smem s) (wcache s) 0, wcache := drop_line (wcache s) 0, wpc := W_load_flag\<rparr>
     | W_load_flag \<Rightarrow> s\<lparr>wcache := fetch_line (smem s) (wcache s) 0, wpc := W_fill\<rparr>)"

text \<open>One step of the loop of the reader; the assertion that fails ends it. The same holds of its flushes.\<close>

definition reader_step :: "nat \<Rightarrow> share \<Rightarrow> share" where
  "reader_step n s =
    (case rpc s of
       R_flush_meta \<Rightarrow> s\<lparr>smem := flush_mem (smem s) (rcache s) 0, rcache := drop_line (rcache s) 0, rpc := R_test\<rparr>
     | R_test \<Rightarrow> s\<lparr>rcache := fetch_line (smem s) (rcache s) 0,
         rpc := (if cached_value (smem s) (rcache s) 0 ! 0 = 0x10 then R_flush_data 1 else R_flush_meta)\<rparr>
     | R_flush_data i \<Rightarrow> s\<lparr>smem := flush_mem (smem s) (rcache s) i, rcache := drop_line (rcache s) i,
         rpc := (if i < n then R_flush_data (Suc i) else R_copy 1)\<rparr>
     | R_copy i \<Rightarrow> s\<lparr>rcache := fetch_line (smem s) (rcache s) i, rbuf := (rbuf s)(i := cached_value (smem s) (rcache s) i),
         rpc := (if i < n then R_copy (Suc i) else R_clear)\<rparr>
     | R_clear \<Rightarrow> s\<lparr>rcache := store_line (rcache s) 0 (flag_line 0x00), rpc := R_flush_flag,
         received := received s @ [block_of_lines n (rbuf s)]\<rparr>
     | R_flush_flag \<Rightarrow> s\<lparr>smem := flush_mem (smem s) (rcache s) 0, rcache := drop_line (rcache s) 0, rpc := R_load_flag\<rparr>
     | R_load_flag \<Rightarrow> s\<lparr>rcache := fetch_line (smem s) (rcache s) 0, rpc := R_check\<rparr>
     | R_check \<Rightarrow> s\<lparr>rpc := (if block_ok (block_of_lines n (rbuf s)) then R_flush_meta else R_failed)\<rparr>
     | R_failed \<Rightarrow> s)"

inductive share_step :: "nat \<Rightarrow> share \<Rightarrow> share \<Rightarrow> bool" for n where
  writer: "filled n f \<Longrightarrow> share_step n s (writer_step n f s)"
| reader: "share_step n s (reader_step n s)"
| writer_evicts: "share_step n s (s\<lparr>smem := flush_mem (smem s) (wcache s) i, wcache := drop_line (wcache s) i\<rparr>)"
| reader_evicts: "share_step n s (s\<lparr>smem := flush_mem (smem s) (rcache s) i, rcache := drop_line (rcache s) i\<rparr>)"
| writer_fetches: "share_step n s (s\<lparr>wcache := fetch_line (smem s) (wcache s) i\<rparr>)"
| reader_fetches: "share_step n s (s\<lparr>rcache := fetch_line (smem s) (rcache s) i\<rparr>)"

text \<open>
  The start: the writer has cleared and flushed the flag before its loop, the caches hold no dirty
  line, and the reader's clean lines may be out of date.
\<close>

definition share_start :: "nat \<Rightarrow> share \<Rightarrow> bool" where
  "share_start n s \<longleftrightarrow> wpc s = W_fill \<and> rpc s = R_flush_meta \<and> smem s 0 = flag_line 0 \<and>
    (\<forall>i v. wcache s i = Some (v, False) \<longrightarrow> smem s i = v) \<and> (\<forall>i v. wcache s i \<noteq> Some (v, True)) \<and>
    (\<forall>i v. rcache s i \<noteq> Some (v, True)) \<and> (rcache s 0 = None \<or> rcache s 0 = Some (flag_line 0, False)) \<and>
    sent s = [] \<and> received s = []"

section \<open>The main functions before their loops\<close>

text \<open>
  \<open>mapped\<close> and \<open>alloc\<close> tell whether \<open>open\<close> with \<open>mmap\<close> and \<open>malloc\<close> succeeded. A main function returns, faults before its loop or
  in the first turn of it that uses the missing memory, or enters the loop in good order.
\<close>

datatype main_run = Returns int | Faults | Faults_in_loop | Enters_loop

definition META_SIZE :: u32 where "META_SIZE = 64"

definition meta_mmap_size :: u32 where
  "meta_mmap_size = META_SIZE + 8 * 1024 * 1024 + 64"

definition meta_write_main :: "nat \<Rightarrow> bool \<Rightarrow> bool \<Rightarrow> main_run" where
  "meta_write_main argc mapped alloc =
    (if argc \<noteq> 2 then Returns 0
     else if \<not> mapped then Faults
     else if \<not> alloc then Faults_in_loop
     else Enters_loop)"

definition meta_read_main :: "nat \<Rightarrow> bool \<Rightarrow> bool \<Rightarrow> main_run" where
  "meta_read_main argc mapped alloc =
    (if argc \<noteq> 2 then Returns 0
     else if \<not> mapped then Faults_in_loop
     else if \<not> alloc then Faults_in_loop
     else Enters_loop)"

text \<open>The mapping holds what the loops access: the flag line and a block of 131072 lines.\<close>

lemma meta_mmap_holds: "64 * (1 + 131072) \<le> unat meta_mmap_size" "unat meta_mmap_size < 2 ^ 31"
  by (simp_all add: meta_mmap_size_def META_SIZE_def)

section \<open>The invariant\<close>

text \<open>A host is active while it owns the data: it has seen its value of the flag and has not yet changed the flag.\<close>

fun w_active :: "writer_pc \<Rightarrow> bool" where
  "w_active (W_copy _) = True"
| "w_active (W_flush_data _) = True"
| "w_active W_load_data = True"
| "w_active W_set = True"
| "w_active _ = False"

fun r_active :: "reader_pc \<Rightarrow> bool" where
  "r_active (R_flush_data _) = True"
| "r_active (R_copy _) = True"
| "r_active R_clear = True"
| "r_active _ = False"

abbreviation free_flag :: bytes where "free_flag \<equiv> flag_line 0"
abbreviation busy_flag :: bytes where "busy_flag \<equiv> flag_line 0x10"

text \<open>
  The flag: who may hold which value. A dirty line of the writer is the value \<open>0x10\<close> on its way to memory, a
  dirty line of the reader the value \<open>0x00\<close>; a host never holds its own go-ahead when memory does not.
\<close>

definition flag_ok :: "bytes \<Rightarrow> (bytes \<times> bool) option \<Rightarrow> (bytes \<times> bool) option \<Rightarrow> bool \<Rightarrow> bool \<Rightarrow> bool" where
  "flag_ok m w r w_act r_act \<longleftrightarrow>
    (m = free_flag \<or> m = busy_flag) \<and>
    (w = None \<or> w = Some (busy_flag, False) \<and> \<not> w_act \<or> w = Some (free_flag, False) \<and> m = free_flag \<or>
     w = Some (busy_flag, True) \<and> m = free_flag \<and> \<not> w_act) \<and>
    (r = None \<or> r = Some (free_flag, False) \<and> \<not> r_act \<or> r = Some (busy_flag, False) \<and> m = busy_flag \<or>
     r = Some (free_flag, True) \<and> m = busy_flag \<and> \<not> r_act) \<and>
    (w_act \<longrightarrow> m = free_flag) \<and> (r_act \<longrightarrow> m = busy_flag)"

definition flag_inv :: "share \<Rightarrow> bool" where
  "flag_inv s \<longleftrightarrow> flag_ok (smem s 0) (wcache s 0) (rcache s 0) (w_active (wpc s)) (r_active (rpc s))"

text \<open>A data line that the writer has written: in its cache, or in memory too.\<close>

definition settled :: "share \<Rightarrow> nat \<Rightarrow> bool" where
  "settled s i \<longleftrightarrow> smem s i = wbuf s i \<and> (\<forall>v. wcache s i \<noteq> Some (v, True))"

definition held :: "share \<Rightarrow> nat \<Rightarrow> bool" where
  "held s i \<longleftrightarrow> wcache s i = Some (wbuf s i, True) \<or> settled s i"

fun writer_inv :: "nat \<Rightarrow> share \<Rightarrow> writer_pc \<Rightarrow> bool" where
  "writer_inv n s (W_copy k) \<longleftrightarrow> 1 \<le> k \<and> k \<le> n \<and> (\<forall>i. 1 \<le> i \<longrightarrow> i < k \<longrightarrow> held s i) \<and>
     (\<forall>i v. k \<le> i \<longrightarrow> wcache s i \<noteq> Some (v, True))"
| "writer_inv n s (W_flush_data k) \<longleftrightarrow> 1 \<le> k \<and> k \<le> n \<and> (\<forall>i. 1 \<le> i \<longrightarrow> i \<le> n \<longrightarrow> held s i) \<and>
     (\<forall>i. 1 \<le> i \<longrightarrow> i < k \<longrightarrow> settled s i) \<and> (\<forall>i v. n < i \<longrightarrow> wcache s i \<noteq> Some (v, True))"
| "writer_inv n s W_load_data \<longleftrightarrow> (\<forall>i. 1 \<le> i \<longrightarrow> i \<le> n \<longrightarrow> settled s i) \<and> (\<forall>i v. 1 \<le> i \<longrightarrow> wcache s i \<noteq> Some (v, True))"
| "writer_inv n s W_set \<longleftrightarrow> (\<forall>i. 1 \<le> i \<longrightarrow> i \<le> n \<longrightarrow> settled s i) \<and> (\<forall>i v. 1 \<le> i \<longrightarrow> wcache s i \<noteq> Some (v, True))"
| "writer_inv n s _ \<longleftrightarrow> (\<forall>i v. 1 \<le> i \<longrightarrow> wcache s i \<noteq> Some (v, True))"

text \<open>A data line that the reader will read from memory.\<close>

definition up_to_date :: "share \<Rightarrow> nat \<Rightarrow> bool" where
  "up_to_date s i \<longleftrightarrow> rcache s i = None \<or> rcache s i = Some (smem s i, False)"

fun reader_inv :: "nat \<Rightarrow> share \<Rightarrow> reader_pc \<Rightarrow> bool" where
  "reader_inv n s (R_flush_data k) \<longleftrightarrow> 1 \<le> k \<and> k \<le> n \<and> (\<forall>i. 1 \<le> i \<longrightarrow> i < k \<longrightarrow> up_to_date s i)"
| "reader_inv n s (R_copy k) \<longleftrightarrow> 1 \<le> k \<and> k \<le> n \<and> (\<forall>i. 1 \<le> i \<longrightarrow> i \<le> n \<longrightarrow> up_to_date s i) \<and>
     (\<forall>i. 1 \<le> i \<longrightarrow> i < k \<longrightarrow> rbuf s i = smem s i)"
| "reader_inv n s R_clear \<longleftrightarrow> (\<forall>i. 1 \<le> i \<longrightarrow> i \<le> n \<longrightarrow> rbuf s i = smem s i)"
| "reader_inv n s R_flush_flag \<longleftrightarrow> block_ok (block_of_lines n (rbuf s))"
| "reader_inv n s R_load_flag \<longleftrightarrow> block_ok (block_of_lines n (rbuf s))"
| "reader_inv n s R_check \<longleftrightarrow> block_ok (block_of_lines n (rbuf s))"
| "reader_inv n s R_failed \<longleftrightarrow> False"
| "reader_inv n s _ \<longleftrightarrow> True"

text \<open>A block that was published and not yet taken is the one in memory.\<close>

definition flight :: "bytes \<Rightarrow> (bytes \<times> bool) option \<Rightarrow> (bytes \<times> bool) option \<Rightarrow> bool" where
  "flight m w r \<longleftrightarrow> w = Some (busy_flag, True) \<or> m = busy_flag \<and> r \<noteq> Some (free_flag, True)"

definition in_flight :: "share \<Rightarrow> bool" where
  "in_flight s \<longleftrightarrow> flight (smem s 0) (wcache s 0) (rcache s 0)"

definition data_inv :: "nat \<Rightarrow> share \<Rightarrow> bool" where
  "data_inv n s \<longleftrightarrow>
    (\<forall>i v. 1 \<le> i \<longrightarrow> wcache s i = Some (v, False) \<longrightarrow> smem s i = v) \<and>
    (\<forall>i v. 1 \<le> i \<longrightarrow> rcache s i \<noteq> Some (v, True)) \<and>
    (wpc s \<noteq> W_fill \<longrightarrow> block_ok (block_of_lines n (wbuf s))) \<and>
    (in_flight s \<longrightarrow> block_ok (block_of_lines n (smem s)) \<and> sent s = received s @ [block_of_lines n (smem s)]) \<and>
    (\<not> in_flight s \<longrightarrow> sent s = received s) \<and> (\<forall>b \<in> set (sent s). block_ok b)"

definition share_inv :: "nat \<Rightarrow> share \<Rightarrow> bool" where
  "share_inv n s \<longleftrightarrow> flag_inv s \<and> writer_inv n s (wpc s) \<and> reader_inv n s (rpc s) \<and> data_inv n s"

section \<open>Preservation\<close>

lemma flag_lines [simp]: "free_flag \<noteq> busy_flag" "busy_flag \<noteq> free_flag" "flag_line b ! 0 = b"
  by (simp_all add: flag_line_def)

lemma block_of_lines_cong: "(\<And>i. 1 \<le> i \<Longrightarrow> i \<le> n \<Longrightarrow> f i = g i) \<Longrightarrow> block_of_lines n f = block_of_lines n g"
  unfolding block_of_lines_def by (rule arg_cong [of _ _ concat], rule map_cong) auto

lemma writer_inv_cong:
  assumes "\<And>i. 1 \<le> i \<Longrightarrow> smem s' i = smem s i \<and> wcache s' i = wcache s i" "wbuf s' = wbuf s"
  shows "writer_inv n s pc \<Longrightarrow> writer_inv n s' pc"
  using assms by (cases pc) (auto simp: held_def settled_def)

lemma reader_inv_cong:
  assumes "\<And>i. 1 \<le> i \<Longrightarrow> smem s' i = smem s i \<and> rcache s' i = rcache s i" "rbuf s' = rbuf s"
  shows "reader_inv n s pc \<Longrightarrow> reader_inv n s' pc"
  using assms by (cases pc) (auto simp: up_to_date_def)

text \<open>A cache that drops a line of its own accord.\<close>

definition w_evict :: "nat \<Rightarrow> share \<Rightarrow> share" where
  "w_evict i s = s\<lparr>smem := flush_mem (smem s) (wcache s) i, wcache := drop_line (wcache s) i\<rparr>"

definition r_evict :: "nat \<Rightarrow> share \<Rightarrow> share" where
  "r_evict i s = s\<lparr>smem := flush_mem (smem s) (rcache s) i, rcache := drop_line (rcache s) i\<rparr>"

definition w_fetch :: "nat \<Rightarrow> share \<Rightarrow> share" where
  "w_fetch i s = s\<lparr>wcache := fetch_line (smem s) (wcache s) i\<rparr>"

definition r_fetch :: "nat \<Rightarrow> share \<Rightarrow> share" where
  "r_fetch i s = s\<lparr>rcache := fetch_line (smem s) (rcache s) i\<rparr>"

lemmas cache_defs = flush_mem_def drop_line_def fetch_line_def store_line_def cached_value_def

lemma flag_ok_steps:
  assumes "flag_ok m w r a b"
  shows "flag_ok (case w of Some (v, True) \<Rightarrow> v | _ \<Rightarrow> m) None r a b" "flag_ok (case r of Some (v, True) \<Rightarrow> v | _ \<Rightarrow> m) w None a b"
    "flag_ok m (case w of None \<Rightarrow> Some (m, False) | Some x \<Rightarrow> Some x) r a b" "flag_ok m w (case r of None \<Rightarrow> Some (m, False) | Some x \<Rightarrow> Some x) a b"
  using assms unfolding flag_ok_def by (elim conjE disjE; simp)+

lemma flight_steps:
  assumes "flag_ok m w r a b"
  shows "flight (case w of Some (v, True) \<Rightarrow> v | _ \<Rightarrow> m) None r = flight m w r" "flight (case r of Some (v, True) \<Rightarrow> v | _ \<Rightarrow> m) w None = flight m w r"
    "flight m (case w of None \<Rightarrow> Some (m, False) | Some x \<Rightarrow> Some x) r = flight m w r"
    "flight m w (case r of None \<Rightarrow> Some (m, False) | Some x \<Rightarrow> Some x) = flight m w r"
  using assms unfolding flag_ok_def flight_def by (elim conjE disjE; simp)+

lemma evict_line:
  "smem (w_evict i s) 0 = (if i = 0 then case wcache s 0 of Some (v, True) \<Rightarrow> v | _ \<Rightarrow> smem s 0 else smem s 0)"
  "smem (r_evict i s) 0 = (if i = 0 then case rcache s 0 of Some (v, True) \<Rightarrow> v | _ \<Rightarrow> smem s 0 else smem s 0)"
  "fetch_line m c i 0 = (if i = 0 then case c 0 of None \<Rightarrow> Some (m 0, False) | Some x \<Rightarrow> Some x else c 0)"
  by (auto simp: w_evict_def r_evict_def cache_defs split: option.splits bool.splits)

lemma evict_flag:
  assumes "flag_inv s"
  shows "flag_inv (w_evict i s)" "flag_inv (r_evict i s)" "flag_inv (w_fetch i s)" "flag_inv (r_fetch i s)"
  using flag_ok_steps [OF assms [unfolded flag_inv_def]] assms
  by (cases "i = 0"; simp add: flag_inv_def evict_line; simp add: w_evict_def r_evict_def w_fetch_def r_fetch_def drop_line_def evict_line)+

lemma evict_flight:
  assumes "flag_inv s"
  shows "in_flight (w_evict i s) = in_flight s" "in_flight (r_evict i s) = in_flight s"
    "in_flight (w_fetch i s) = in_flight s" "in_flight (r_fetch i s) = in_flight s"
  using flight_steps [OF assms [unfolded flag_inv_def]]
  by (cases "i = 0"; simp add: in_flight_def evict_line; simp add: w_evict_def r_evict_def w_fetch_def r_fetch_def drop_line_def evict_line)+

text \<open>The flag line does not concern the data.\<close>

lemma flag_line_data:
  assumes "f = w_evict 0 \<or> f = r_evict 0 \<or> f = w_fetch 0 \<or> f = r_fetch 0"
  shows "writer_inv n s pc \<Longrightarrow> writer_inv n (f s) pc" "reader_inv n s pc' \<Longrightarrow> reader_inv n (f s) pc'"
proof -
  have lines: "smem (f s) i = smem s i" "wcache (f s) i = wcache s i" "rcache (f s) i = rcache s i" if "1 \<le> i" for i
    using assms that by (auto simp: w_evict_def r_evict_def w_fetch_def r_fetch_def cache_defs split: option.splits bool.splits)
  have bufs: "wbuf (f s) = wbuf s" "rbuf (f s) = rbuf s"
    using assms by (auto simp: w_evict_def r_evict_def w_fetch_def r_fetch_def)
  show "writer_inv n s pc \<Longrightarrow> writer_inv n (f s) pc" by (rule writer_inv_cong) (simp_all add: lines bufs)
  show "reader_inv n s pc' \<Longrightarrow> reader_inv n (f s) pc'" by (rule reader_inv_cong) (simp_all add: lines bufs)
qed

text \<open>Memory lines of the data change only while the writer is active.\<close>

lemma writer_dirty_active: "writer_inv n s (wpc s) \<Longrightarrow> 1 \<le> i \<Longrightarrow> wcache s i = Some (v, True) \<Longrightarrow> w_active (wpc s) \<and> (i \<le> n \<longrightarrow> v = wbuf s i)"
  by (cases "wpc s") (auto simp: held_def settled_def)

lemma not_both_active: "flag_inv s \<Longrightarrow> w_active (wpc s) \<Longrightarrow> \<not> r_active (rpc s) \<and> \<not> in_flight s"
  by (auto simp: flag_inv_def flag_ok_def in_flight_def flight_def)

lemma w_evict_data:
  assumes "share_inv n s" "1 \<le> i"
  shows "writer_inv n (w_evict i s) (wpc s)" "reader_inv n (w_evict i s) (rpc s)" "data_inv n (w_evict i s)"
proof -
  have inv: "flag_inv s" "writer_inv n s (wpc s)" "reader_inv n s (rpc s)" "data_inv n s" using assms(1) by (auto simp: share_inv_def)
  let ?s = "w_evict i s"
  have c: "wcache ?s j = (if j = i then None else wcache s j)" "rcache ?s = rcache s" "wbuf ?s = wbuf s" "rbuf ?s = rbuf s" "wpc ?s = wpc s"
    "sent ?s = sent s" "received ?s = received s" for j
    by (simp_all add: w_evict_def drop_line_def)
  have m: "smem ?s j = (if j = i \<and> (\<exists>v. wcache s i = Some (v, True)) then fst (the (wcache s i)) else smem s j)" for j
    by (auto simp: w_evict_def flush_mem_def split: option.splits bool.splits)
  have stable: "smem ?s = smem s" if "\<not> w_active (wpc s)"
    using writer_dirty_active [OF inv(2) assms(2)] that by (auto simp: m fun_eq_iff)
  show "writer_inv n ?s (wpc s)"
    using inv(2) assms(2) by (cases "wpc s") (auto simp: held_def settled_def c m split: if_splits)
  show "reader_inv n ?s (rpc s)"
  proof (cases "w_active (wpc s)")
    case True
    then have "\<not> r_active (rpc s)" using not_both_active [OF inv(1)] by simp
    then show ?thesis using inv(3) by (cases "rpc s") (auto simp: c)
  next
    case False
    then show ?thesis using inv(3) stable by (cases "rpc s") (auto simp: c up_to_date_def)
  qed
  have "in_flight ?s = in_flight s" using evict_flight(1) [OF inv(1)] .
  moreover have "smem ?s = smem s" if "in_flight s" using stable not_both_active [OF inv(1)] that by blast
  ultimately show "data_inv n ?s" using inv(4) by (auto simp: data_inv_def c m split: if_splits)
qed

text \<open>The other three: no memory line of the data changes.\<close>

lemma quiet_data:
  assumes "share_inv n s" "f = r_evict i \<or> f = w_fetch i \<or> f = r_fetch i" "1 \<le> i"
  shows "writer_inv n (f s) (wpc s)" "reader_inv n (f s) (rpc s)" "data_inv n (f s)"
proof -
  have inv: "flag_inv s" "writer_inv n s (wpc s)" "reader_inv n s (rpc s)" "data_inv n s" using assms(1) by (auto simp: share_inv_def)
  have clean: "rcache s i \<noteq> Some (v, True)" for v using inv(4) assms(3) by (simp add: data_inv_def)
  have mem: "smem (f s) = smem s"
    using assms(2) clean by (auto simp: w_fetch_def r_fetch_def r_evict_def flush_mem_def split: option.splits bool.splits)
  have same: "wbuf (f s) = wbuf s" "rbuf (f s) = rbuf s" "wpc (f s) = wpc s" "sent (f s) = sent s" "received (f s) = received s"
    using assms(2) by (auto simp: w_fetch_def r_fetch_def r_evict_def)
  have wc: "wcache (f s) j = wcache s j \<or> wcache s j = None \<and> wcache (f s) j = Some (smem s j, False)" for j
    using assms(2) by (auto simp: w_fetch_def r_fetch_def r_evict_def fetch_line_def split: option.splits if_splits)
  have rc: "rcache (f s) j = rcache s j \<or> rcache (f s) j = None \<or> rcache s j = None \<and> rcache (f s) j = Some (smem s j, False)" for j
    using assms(2) by (auto simp: w_fetch_def r_fetch_def r_evict_def fetch_line_def drop_line_def split: option.splits if_splits)
  have dirty: "wcache (f s) j = Some (v, True) \<longleftrightarrow> wcache s j = Some (v, True)" for j v using wc [of j] by auto
  have "settled (f s) j = settled s j" "held (f s) j = held s j" for j by (simp_all add: held_def settled_def mem same dirty)
  then show "writer_inv n (f s) (wpc s)" using inv(2) by (cases "wpc s") (simp_all add: dirty)
  have "up_to_date s j \<Longrightarrow> up_to_date (f s) j" for j using rc [of j] by (auto simp: up_to_date_def mem)
  then show "reader_inv n (f s) (rpc s)" using inv(3) by (cases "rpc s") (simp_all add: mem same)
  have "in_flight (f s) = in_flight s" using assms(2) evict_flight [OF inv(1)] by auto
  moreover have "wcache (f s) j = Some (v, False) \<Longrightarrow> wcache s j = Some (v, False) \<or> v = smem s j" for j v using wc [of j] by auto
  moreover have "rcache (f s) j = Some (v, True) \<Longrightarrow> rcache s j = Some (v, True)" for j v using rc [of j] by auto
  ultimately show "data_inv n (f s)" using inv(4) unfolding data_inv_def mem same by blast
qed

lemma flag_data:
  assumes "share_inv n s" "f = w_evict 0 \<or> f = r_evict 0 \<or> f = w_fetch 0 \<or> f = r_fetch 0"
  shows "data_inv n (f s)"
proof -
  have inv: "flag_inv s" "data_inv n s" using assms(1) by (auto simp: share_inv_def)
  have lines: "smem (f s) i = smem s i" "wcache (f s) i = wcache s i" "rcache (f s) i = rcache s i" if "1 \<le> i" for i
    using assms(2) that by (auto simp: w_evict_def r_evict_def w_fetch_def r_fetch_def cache_defs split: option.splits bool.splits)
  have same: "wbuf (f s) = wbuf s" "wpc (f s) = wpc s" "sent (f s) = sent s" "received (f s) = received s"
    using assms(2) by (auto simp: w_evict_def r_evict_def w_fetch_def r_fetch_def)
  have "in_flight (f s) = in_flight s" using assms(2) evict_flight [OF inv(1)] by auto
  moreover have "block_of_lines n (smem (f s)) = block_of_lines n (smem s)" by (rule block_of_lines_cong) (simp add: lines)
  ultimately show ?thesis using inv(2) by (simp add: data_inv_def same lines)
qed

text \<open>What the caches do of their own accord keeps the invariant.\<close>

lemma cache_step_inv:
  assumes "share_inv n s"
  shows "share_inv n (w_evict i s)" "share_inv n (r_evict i s)" "share_inv n (w_fetch i s)" "share_inv n (r_fetch i s)"
proof -
  note inv = assms [unfolded share_inv_def]
  have pcs: "wpc (f s) = wpc s" "rpc (f s) = rpc s" if "f = w_evict i \<or> f = r_evict i \<or> f = w_fetch i \<or> f = r_fetch i" for f
    using that by (auto simp: w_evict_def r_evict_def w_fetch_def r_fetch_def)
  have *: "share_inv n (f s)" if f: "f = w_evict i \<or> f = r_evict i \<or> f = w_fetch i \<or> f = r_fetch i" for f
  proof (cases "i = 0")
    case True
    then have f0: "f = w_evict 0 \<or> f = r_evict 0 \<or> f = w_fetch 0 \<or> f = r_fetch 0" using f by simp
    show ?thesis
      unfolding share_inv_def pcs [OF f]
      using f0 evict_flag [of s 0] flag_line_data [OF f0] flag_data [OF assms f0] inv by auto
  next
    case False
    then have i: "1 \<le> i" by simp
    show ?thesis
      unfolding share_inv_def pcs [OF f]
      using f evict_flag [of s i] w_evict_data [OF assms i] quiet_data [OF assms _ i] inv by (elim disjE) simp_all
  qed
  show "share_inv n (w_evict i s)" "share_inv n (r_evict i s)" "share_inv n (w_fetch i s)" "share_inv n (r_fetch i s)"
    by (rule *, simp)+
qed

lemma block_of_slices: "block_of_lines n (\<lambda>i. take 64 (drop (64 * (i - 1)) bs)) = take (64 * n) bs"
proof (induction n)
  case 0
  then show ?case by (simp add: block_of_lines_def)
next
  case (Suc n)
  have "take (64 * n + 64) bs = take (64 * n) bs @ take 64 (drop (64 * n) bs)" by (rule take_add)
  then show ?case using Suc by (simp add: block_of_lines_def add.commute)
qed

lemma filled_ok:
  assumes "filled n f" "0 < n" "64 * n < 2 ^ 32"
  shows "block_ok (block_of_lines n f)"
proof -
  obtain rnd crc where d: "calculate_crc32 (fill_buffer_random rnd (64 * n - 4)) (of_nat (64 * n - 4)) = Some crc"
    "f = (\<lambda>i. take 64 (drop (64 * (i - 1)) (fill_buffer_random rnd (64 * n - 4) @ le32 crc)))"
    using assms(1) by (auto simp: filled_def)
  have "block_of_lines n f = fill_buffer_random rnd (64 * n - 4) @ le32 crc"
    unfolding d(2) block_of_slices using assms(2) by simp
  then show ?thesis using sealed_block_ok [of "fill_buffer_random rnd (64 * n - 4)" crc] d(1) assms(3) by simp
qed

text \<open>Moving on in a program.\<close>

lemma wpc_inv:
  assumes "share_inv n s" "writer_inv n s pc" "flag_ok (smem s 0) (wcache s 0) (rcache s 0) (w_active pc) (r_active (rpc s))"
    and "pc \<noteq> W_fill \<Longrightarrow> block_ok (block_of_lines n (wbuf s))"
  shows "share_inv n (s\<lparr>wpc := pc\<rparr>)"
proof -
  let ?s = "s\<lparr>wpc := pc\<rparr>"
  have "writer_inv n ?s pc" by (rule writer_inv_cong [OF _ _ assms(2)]) simp_all
  moreover have "reader_inv n ?s (rpc s)" using assms(1) by (intro reader_inv_cong [of ?s s]) (simp_all add: share_inv_def)
  moreover have "in_flight ?s = in_flight s" by (simp add: in_flight_def)
  ultimately show ?thesis using assms(1,3,4) by (simp add: share_inv_def flag_inv_def data_inv_def)
qed

lemma rpc_inv:
  assumes "share_inv n s" "reader_inv n s pc" "flag_ok (smem s 0) (wcache s 0) (rcache s 0) (w_active (wpc s)) (r_active pc)"
  shows "share_inv n (s\<lparr>rpc := pc\<rparr>)"
proof -
  let ?s = "s\<lparr>rpc := pc\<rparr>"
  have "reader_inv n ?s pc" by (rule reader_inv_cong [OF _ _ assms(2)]) simp_all
  moreover have "writer_inv n ?s (wpc s)" using assms(1) by (intro writer_inv_cong [of ?s s]) (simp_all add: share_inv_def)
  moreover have "in_flight ?s = in_flight s" by (simp add: in_flight_def)
  ultimately show ?thesis using assms(1,3) by (simp add: share_inv_def flag_inv_def data_inv_def)
qed

lemma share_invD:
  assumes "share_inv n s"
  shows "flag_ok (smem s 0) (wcache s 0) (rcache s 0) (w_active (wpc s)) (r_active (rpc s))" "writer_inv n s (wpc s)"
    "reader_inv n s (rpc s)" "wpc s \<noteq> W_fill \<Longrightarrow> block_ok (block_of_lines n (wbuf s))"
  using assms by (auto simp: share_inv_def flag_inv_def data_inv_def)

lemma cache_fields [simp]:
  "wpc (w_evict i s) = wpc s" "wpc (w_fetch i s) = wpc s" "rpc (r_evict i s) = rpc s" "rpc (r_fetch i s) = rpc s"
  "rpc (w_evict i s) = rpc s" "rpc (w_fetch i s) = rpc s" "wpc (r_evict i s) = wpc s" "wpc (r_fetch i s) = wpc s"
  "wbuf (w_evict i s) = wbuf s" "wbuf (w_fetch i s) = wbuf s" "rbuf (r_evict i s) = rbuf s" "rbuf (r_fetch i s) = rbuf s"
  by (simp_all add: w_evict_def r_evict_def w_fetch_def r_fetch_def)

lemma writer_flush_inv:
  assumes "share_inv n s" "wpc s = W_flush_data k"
  shows "share_inv n ((w_evict k s)\<lparr>wpc := if k < n then W_flush_data (Suc k) else W_load_data\<rparr>)"
proof (rule wpc_inv)
  show inv: "share_inv n (w_evict k s)" by (rule cache_step_inv [OF assms(1)])
  have k: "1 \<le> k" "k \<le> n" "held s k" using share_invD(2) [OF assms(1)] assms(2) by auto
  have "settled (w_evict k s) k"
    using k(3) by (auto simp: held_def settled_def w_evict_def cache_defs split: option.splits bool.splits)
  then show "writer_inv n (w_evict k s) (if k < n then W_flush_data (Suc k) else W_load_data)"
    using share_invD(2) [OF inv] k(1,2) assms(2) by (auto simp: less_Suc_eq held_def settled_def)
      (metis (no_types) le_neq_implies_less not_le)+
  show "flag_ok (smem (w_evict k s) 0) (wcache (w_evict k s) 0) (rcache (w_evict k s) 0)
      (w_active (if k < n then W_flush_data (Suc k) else W_load_data)) (r_active (rpc (w_evict k s)))"
    using share_invD(1) [OF inv] assms(2) by simp
  show "block_ok (block_of_lines n (wbuf (w_evict k s)))" using share_invD(4) [OF inv] assms(2) by simp
qed

lemma writer_copy_inv:
  assumes "share_inv n s" "wpc s = W_copy k" "0 < n"
  shows "share_inv n (s\<lparr>wcache := store_line (wcache s) k (wbuf s k), wpc := if k < n then W_copy (Suc k) else W_flush_data 1\<rparr>)"
proof -
  have inv: "flag_inv s" "reader_inv n s (rpc s)" "data_inv n s" using assms(1) by (auto simp: share_inv_def)
  have w: "1 \<le> k" "k \<le> n" "\<forall>i. 1 \<le> i \<longrightarrow> i < k \<longrightarrow> held s i" "\<forall>i v. k \<le> i \<longrightarrow> wcache s i \<noteq> Some (v, True)"
    using share_invD(2) [OF assms(1)] assms(2) by auto
  let ?pc = "if k < n then W_copy (Suc k) else W_flush_data 1"
  let ?s = "s\<lparr>wcache := store_line (wcache s) k (wbuf s k), wpc := ?pc\<rparr>"
  have act: "w_active (wpc s)" "w_active ?pc" using assms(2) by simp_all
  have held: "held ?s i" if "1 \<le> i" "i \<le> k" for i
    using that w(3) by (cases "i = k") (auto simp: held_def settled_def store_line_def)
  have "writer_inv n ?s ?pc" using held w assms(3) by (auto simp: store_line_def)
  moreover have "reader_inv n ?s (rpc s)" by (rule reader_inv_cong [OF _ _ inv(2)]) simp_all
  moreover have "flag_inv ?s" using inv(1) w(1) act by (simp add: flag_inv_def store_line_def)
  moreover have "in_flight ?s = in_flight s" using w(1) by (simp add: in_flight_def store_line_def)
  then have "data_inv n ?s" using inv(3) assms(2) by (auto simp: data_inv_def store_line_def)
  ultimately show ?thesis by (simp add: share_inv_def)
qed

lemma writer_set_inv:
  assumes "share_inv n s" "wpc s = W_set"
  shows "share_inv n (s\<lparr>wcache := store_line (wcache s) 0 busy_flag, wpc := W_flush_flag, sent := sent s @ [block_of_lines n (wbuf s)]\<rparr>)"
proof -
  have inv: "flag_inv s" "reader_inv n s (rpc s)" "data_inv n s" "writer_inv n s W_set" using assms by (auto simp: share_inv_def)
  have free: "smem s 0 = free_flag" "\<not> in_flight s" using inv(1) assms(2) not_both_active [OF inv(1)] by (auto simp: flag_inv_def flag_ok_def)
  let ?s = "s\<lparr>wcache := store_line (wcache s) 0 busy_flag, wpc := W_flush_flag, sent := sent s @ [block_of_lines n (wbuf s)]\<rparr>"
  have "block_of_lines n (smem s) = block_of_lines n (wbuf s)" using inv(4) by (intro block_of_lines_cong) (simp add: settled_def)
  moreover have "in_flight ?s" by (simp add: in_flight_def flight_def store_line_def)
  ultimately have "data_inv n ?s" using inv(3) free(2) assms(2) by (simp add: data_inv_def store_line_def)
  moreover have "writer_inv n ?s W_flush_flag" using inv(4) by (simp add: store_line_def)
  moreover have "reader_inv n ?s (rpc s)" by (rule reader_inv_cong [OF _ _ inv(2)]) simp_all
  moreover have "flag_inv ?s" using inv(1) free(1) assms(2) by (auto simp: flag_inv_def flag_ok_def store_line_def)
  ultimately show ?thesis by (simp add: share_inv_def)
qed

lemma cached_flag:
  assumes "flag_ok m w r a b"
  shows "(case w of None \<Rightarrow> m | Some (v, _) \<Rightarrow> v) ! 0 = 0 \<Longrightarrow> flag_ok m (case w of None \<Rightarrow> Some (m, False) | Some x \<Rightarrow> Some x) r True b"
    "(case r of None \<Rightarrow> m | Some (v, _) \<Rightarrow> v) ! 0 = 0x10 \<Longrightarrow> flag_ok m w (case r of None \<Rightarrow> Some (m, False) | Some x \<Rightarrow> Some x) a True"
  using assms unfolding flag_ok_def by (elim conjE disjE; simp)+

lemma flag_ok_passive: "flag_ok m w r a b \<Longrightarrow> flag_ok m w r False b" "flag_ok m w r a b \<Longrightarrow> flag_ok m w r a False"
  by (auto simp: flag_ok_def)

lemma writer_step_inv:
  assumes "share_inv n s" "filled n f" "0 < n" "64 * n < 2 ^ 32"
  shows "share_inv n (writer_step n f s)"
proof -
  note D = share_invD [OF assms(1)]
  have go: "share_inv n (s'\<lparr>wpc := pc\<rparr>)"
    if "share_inv n s'" "writer_inv n s' pc" "\<not> w_active pc" "pc \<noteq> W_fill \<Longrightarrow> block_ok (block_of_lines n (wbuf s'))" for s' pc
    using wpc_inv [OF that(1,2) _ that(4)] flag_ok_passive(1) [OF share_invD(1) [OF that(1)]] that(3) by simp
  show ?thesis
  proof (cases "wpc s")
    case W_fill
    let ?s = "s\<lparr>wbuf := f, wpc := W_flush_meta\<rparr>"
    have "in_flight ?s = in_flight s" by (simp add: in_flight_def)
    moreover have "reader_inv n ?s (rpc s)" by (rule reader_inv_cong [OF _ _ D(3)]) simp_all
    ultimately have "share_inv n ?s"
      using assms(1) W_fill filled_ok [OF assms(2-4)] by (simp add: share_inv_def flag_inv_def data_inv_def)
    then show ?thesis using W_fill by (simp add: writer_step_def)
  next
    case W_flush_meta
    have "share_inv n ((w_evict 0 s)\<lparr>wpc := W_test\<rparr>)"
      using share_invD [OF cache_step_inv(1) [OF assms(1), of 0]] W_flush_meta by (intro go cache_step_inv(1) [OF assms(1)]) simp_all
    then show ?thesis using W_flush_meta by (simp add: writer_step_def w_evict_def)
  next
    case W_test
    let ?pc = "if cached_value (smem s) (wcache s) 0 ! 0 = 0x00 then W_copy 1 else W_fill"
    have inv: "share_inv n (w_fetch 0 s)" by (rule cache_step_inv [OF assms(1)])
    have "share_inv n ((w_fetch 0 s)\<lparr>wpc := ?pc\<rparr>)"
    proof (cases "cached_value (smem s) (wcache s) 0 ! 0 = 0x00")
      case True
      have "flag_ok (smem (w_fetch 0 s) 0) (wcache (w_fetch 0 s) 0) (rcache (w_fetch 0 s) 0) True (r_active (rpc s))"
        using cached_flag(1) [OF D(1)] True by (simp add: w_fetch_def evict_line cached_value_def)
      then show ?thesis using True share_invD [OF inv] W_test assms(3) by (intro wpc_inv [OF inv]) simp_all
    next
      case False
      then show ?thesis using share_invD [OF inv] W_test by (intro go [OF inv]) simp_all
    qed
    then show ?thesis using W_test by (simp add: writer_step_def w_fetch_def)
  next
    case (W_copy k)
    then show ?thesis using writer_copy_inv [OF assms(1) W_copy assms(3)] by (simp add: writer_step_def)
  next
    case (W_flush_data k)
    then show ?thesis using writer_flush_inv [OF assms(1) W_flush_data] by (simp add: writer_step_def w_evict_def)
  next
    case W_load_data
    have inv: "share_inv n (w_fetch n s)" by (rule cache_step_inv [OF assms(1)])
    have "share_inv n ((w_fetch n s)\<lparr>wpc := W_set\<rparr>)"
      using share_invD [OF inv] W_load_data by (intro wpc_inv [OF inv]) simp_all
    then show ?thesis using W_load_data by (simp add: writer_step_def w_fetch_def)
  next
    case W_set
    then show ?thesis using writer_set_inv [OF assms(1) W_set] by (simp add: writer_step_def)
  next
    case W_flush_flag
    have "share_inv n ((w_evict 0 s)\<lparr>wpc := W_load_flag\<rparr>)"
      using share_invD [OF cache_step_inv(1) [OF assms(1), of 0]] W_flush_flag by (intro go cache_step_inv(1) [OF assms(1)]) simp_all
    then show ?thesis using W_flush_flag by (simp add: writer_step_def w_evict_def)
  next
    case W_load_flag
    have "share_inv n ((w_fetch 0 s)\<lparr>wpc := W_fill\<rparr>)"
      using share_invD [OF cache_step_inv(3) [OF assms(1), of 0]] W_load_flag by (intro go cache_step_inv(3) [OF assms(1)]) simp_all
    then show ?thesis using W_load_flag by (simp add: writer_step_def w_fetch_def)
  qed
qed

lemma reader_flush_inv:
  assumes "share_inv n s" "rpc s = R_flush_data k" "0 < n"
  shows "share_inv n ((r_evict k s)\<lparr>rpc := if k < n then R_flush_data (Suc k) else R_copy 1\<rparr>)"
proof (rule rpc_inv)
  show inv: "share_inv n (r_evict k s)" by (rule cache_step_inv [OF assms(1)])
  have k: "1 \<le> k" "k \<le> n" using share_invD(3) [OF assms(1)] assms(2) by auto
  have "up_to_date (r_evict k s) k" by (simp add: up_to_date_def r_evict_def drop_line_def)
  then have "\<forall>i. 1 \<le> i \<longrightarrow> i \<le> k \<longrightarrow> up_to_date (r_evict k s) i" using share_invD(3) [OF inv] assms(2) by (simp add: le_less)
  then show "reader_inv n (r_evict k s) (if k < n then R_flush_data (Suc k) else R_copy 1)"
    using k assms(3) by (cases "k < n") (auto simp: less_Suc_eq_le)
  show "flag_ok (smem (r_evict k s) 0) (wcache (r_evict k s) 0) (rcache (r_evict k s) 0) (w_active (wpc (r_evict k s)))
      (r_active (if k < n then R_flush_data (Suc k) else R_copy 1))"
    using share_invD(1) [OF inv] assms(2) by simp
qed

lemma reader_copy_inv:
  assumes "share_inv n s" "rpc s = R_copy k"
  shows "share_inv n (s\<lparr>rcache := fetch_line (smem s) (rcache s) k, rbuf := (rbuf s)(k := cached_value (smem s) (rcache s) k),
    rpc := if k < n then R_copy (Suc k) else R_clear\<rparr>)"
proof -
  let ?pc = "if k < n then R_copy (Suc k) else R_clear"
  let ?t = "r_fetch k s"
  let ?s = "?t\<lparr>rbuf := (rbuf s)(k := smem s k)\<rparr>"
  have inv: "share_inv n ?t" by (rule cache_step_inv [OF assms(1)])
  have r: "1 \<le> k" "k \<le> n" "\<forall>i. 1 \<le> i \<longrightarrow> i \<le> n \<longrightarrow> up_to_date s i" using share_invD(3) [OF assms(1)] assms(2) by auto
  then have "up_to_date s k" by simp
  then have val: "cached_value (smem s) (rcache s) k = smem s k" by (auto simp: up_to_date_def cached_value_def)
  have t: "\<forall>i. 1 \<le> i \<longrightarrow> i \<le> n \<longrightarrow> up_to_date ?t i" "\<forall>i. 1 \<le> i \<longrightarrow> i < k \<longrightarrow> rbuf s i = smem s i" "smem ?t = smem s"
    using share_invD(3) [OF inv] share_invD(3) [OF assms(1)] assms(2) by (simp_all add: r_fetch_def)
  have "share_inv n (?s\<lparr>rpc := ?pc\<rparr>)"
  proof -
    have "reader_inv n ?s ?pc"
      using r t by (auto simp: up_to_date_def less_Suc_eq)
    then have "reader_inv n (?s\<lparr>rpc := ?pc\<rparr>) ?pc" by (rule reader_inv_cong [rotated 2]) simp_all
    moreover have "writer_inv n (?s\<lparr>rpc := ?pc\<rparr>) (wpc s)"
      using share_invD(2) [OF inv] by (intro writer_inv_cong [of "?s\<lparr>rpc := ?pc\<rparr>" ?t]) simp_all
    moreover have "in_flight (?s\<lparr>rpc := ?pc\<rparr>) = in_flight ?t" by (simp add: in_flight_def)
    ultimately show ?thesis using inv assms(2) by (simp add: share_inv_def flag_inv_def data_inv_def)
  qed
  then show ?thesis by (simp add: r_fetch_def val)
qed

lemma reader_clear_inv:
  assumes "share_inv n s" "rpc s = R_clear"
  shows "share_inv n (s\<lparr>rcache := store_line (rcache s) 0 free_flag, rpc := R_flush_flag, received := received s @ [block_of_lines n (rbuf s)]\<rparr>)"
proof -
  have inv: "flag_inv s" "writer_inv n s (wpc s)" "data_inv n s" "reader_inv n s R_clear" using assms by (auto simp: share_inv_def)
  have busy: "smem s 0 = busy_flag" "in_flight s" "wcache s 0 \<noteq> Some (busy_flag, True)"
    using inv(1) assms(2) by (auto simp: flag_inv_def flag_ok_def in_flight_def flight_def)
  let ?s = "s\<lparr>rcache := store_line (rcache s) 0 free_flag, rpc := R_flush_flag, received := received s @ [block_of_lines n (rbuf s)]\<rparr>"
  have same: "block_of_lines n (rbuf s) = block_of_lines n (smem s)" using inv(4) by (intro block_of_lines_cong) simp
  have "\<not> in_flight ?s" using busy(1,3) by (simp add: in_flight_def flight_def store_line_def)
  then have "data_inv n ?s" using inv(3) busy(2) same by (simp add: data_inv_def store_line_def)
  moreover have "reader_inv n ?s R_flush_flag" using inv(3) busy(2) same by (simp add: data_inv_def)
  moreover have "writer_inv n ?s (wpc s)" by (rule writer_inv_cong [OF _ _ inv(2)]) simp_all
  moreover have "flag_inv ?s" using inv(1) busy(1) assms(2) by (auto simp: flag_inv_def flag_ok_def store_line_def)
  ultimately show ?thesis by (simp add: share_inv_def)
qed

lemma reader_step_inv:
  assumes "share_inv n s" "0 < n"
  shows "share_inv n (reader_step n s)"
proof -
  note D = share_invD [OF assms(1)]
  have go: "share_inv n (s'\<lparr>rpc := pc\<rparr>)" if "share_inv n s'" "reader_inv n s' pc" "\<not> r_active pc" for s' pc
    using rpc_inv [OF that(1,2)] flag_ok_passive(2) [OF share_invD(1) [OF that(1)]] that(3) by simp
  have evict: "share_inv n ((r_evict 0 s)\<lparr>rpc := pc\<rparr>)" if "reader_inv n (r_evict 0 s) pc" "\<not> r_active pc" for pc
    using that by (rule go [OF cache_step_inv(2) [OF assms(1)]])
  show ?thesis
  proof (cases "rpc s")
    case R_flush_meta
    then show ?thesis using evict [of R_test] by (simp add: reader_step_def r_evict_def)
  next
    case R_test
    let ?pc = "if cached_value (smem s) (rcache s) 0 ! 0 = 0x10 then R_flush_data 1 else R_flush_meta"
    have inv: "share_inv n (r_fetch 0 s)" by (rule cache_step_inv [OF assms(1)])
    have "share_inv n ((r_fetch 0 s)\<lparr>rpc := ?pc\<rparr>)"
    proof (cases "cached_value (smem s) (rcache s) 0 ! 0 = 0x10")
      case True
      have "flag_ok (smem (r_fetch 0 s) 0) (wcache (r_fetch 0 s) 0) (rcache (r_fetch 0 s) 0) (w_active (wpc s)) True"
        using cached_flag(2) [OF D(1)] True by (simp add: r_fetch_def evict_line cached_value_def)
      then show ?thesis using True assms(2) by (intro rpc_inv [OF inv]) simp_all
    next
      case False
      then show ?thesis by (intro go [OF inv]) simp_all
    qed
    then show ?thesis using R_test by (simp add: reader_step_def r_fetch_def)
  next
    case (R_flush_data k)
    then show ?thesis using reader_flush_inv [OF assms(1) R_flush_data assms(2)] by (simp add: reader_step_def r_evict_def)
  next
    case (R_copy k)
    then show ?thesis using reader_copy_inv [OF assms(1) R_copy] by (simp add: reader_step_def)
  next
    case R_clear
    then show ?thesis using reader_clear_inv [OF assms(1) R_clear] by (simp add: reader_step_def)
  next
    case R_flush_flag
    then show ?thesis using evict [of R_load_flag] D(3) by (simp add: reader_step_def r_evict_def)
  next
    case R_load_flag
    have "share_inv n ((r_fetch 0 s)\<lparr>rpc := R_check\<rparr>)"
      using D(3) R_load_flag by (intro go [OF cache_step_inv(4) [OF assms(1)]]) simp_all
    then show ?thesis using R_load_flag by (simp add: reader_step_def r_fetch_def)
  next
    case R_check
    then show ?thesis using go [OF assms(1), of R_flush_meta] D(3) by (simp add: reader_step_def)
  next
    case R_failed
    then show ?thesis using D(3) by simp
  qed
qed

lemma share_start_inv: "share_start n s \<Longrightarrow> share_inv n s"
  by (auto simp: share_start_def share_inv_def flag_inv_def flag_ok_def data_inv_def in_flight_def flight_def)
    (metis (full_types) option.exhaust surj_pair)+

lemma share_reachable_inv:
  assumes "(share_step n)\<^sup>*\<^sup>* s s'" "share_inv n s" "0 < n" "64 * n < 2 ^ 32"
  shows "share_inv n s'"
  using assms(1,2)
proof (induction rule: rtranclp_induct)
  case (step s1 s2)
  then have inv: "share_inv n s1" by simp
  from step.hyps(2) show ?case
  proof cases
    case (writer f)
    then show ?thesis using writer_step_inv [OF inv _ assms(3,4)] by simp
  next
    case reader
    then show ?thesis using reader_step_inv [OF inv assms(3)] by simp
  qed (use cache_step_inv [OF inv] in \<open>simp_all add: w_evict_def r_evict_def w_fetch_def r_fetch_def\<close>)
qed

section \<open>Delivery\<close>

lemma share_inv_delivery:
  assumes "share_inv n s"
  shows "rpc s \<noteq> R_failed \<and> (\<forall>b \<in> set (received s). block_ok b) \<and> (sent s = received s \<or> (\<exists>b. sent s = received s @ [b] \<and> block_ok b))"
proof -
  have d: "\<forall>b \<in> set (sent s). block_ok b" "in_flight s \<longrightarrow> sent s = received s @ [block_of_lines n (smem s)]"
    "\<not> in_flight s \<longrightarrow> sent s = received s" using assms by (simp_all add: share_inv_def data_inv_def)
  have "rpc s \<noteq> R_failed" using share_invD(3) [OF assms] by auto
  then show ?thesis using d by (cases "in_flight s") auto
qed

text \<open>The lines of a buffer filled from \<open>rnd\<close>.\<close>

definition sealed_lines :: "nat \<Rightarrow> (nat \<Rightarrow> u64) \<Rightarrow> line_mem" where
  "sealed_lines n rnd = (let d = fill_buffer_random rnd (64 * n - 4) in (\<lambda>i. take 64 (drop (64 * (i - 1)) (d @ le32 (crc32_spec d)))))"

lemma filled_sealed:
  assumes "64 * n < 2 ^ 32"
  shows "filled n (sealed_lines n rnd)"
proof -
  let ?d = "fill_buffer_random rnd (64 * n - 4)"
  have "calculate_crc32 ?d (of_nat (64 * n - 4)) = Some (crc32_spec ?d)"
    using assms calculate_crc32_eq_spec [of "of_nat (64 * n - 4)" ?d] by (simp add: unat_ucast_of_nat)
  then show ?thesis by (auto simp: filled_def sealed_lines_def Let_def)
qed

lemma filled_exists: "64 * n < 2 ^ 32 \<Longrightarrow> \<exists>f. filled n f"
  by (blast intro: filled_sealed)

text \<open>A file whose flag and data are zero, and empty caches.\<close>

definition quiet_share :: share where
  "quiet_share = \<lparr>smem = (\<lambda>_. free_flag), wcache = (\<lambda>_. None), rcache = (\<lambda>_. None), wpc = W_fill, rpc = R_flush_meta,
    wbuf = (\<lambda>_. []), rbuf = (\<lambda>_. []), sent = [], received = []\<rparr>"

lemma quiet_share_start: "share_start n quiet_share"
  by (simp add: share_start_def quiet_share_def)

lemma writer_steps: "filled n f \<Longrightarrow> (share_step n)\<^sup>*\<^sup>* s ((writer_step n f ^^ k) s)"
  by (induction k) (auto intro: rtranclp.rtrancl_into_rtrancl share_step.writer)

lemma reader_steps: "(share_step n)\<^sup>*\<^sup>* s ((reader_step n ^^ k) s)"
  by (induction k) (auto intro: rtranclp.rtrancl_into_rtrancl share_step.reader)

lemma quiet_share_delivers: "received ((reader_step 1 ^^ 5) ((writer_step 1 f ^^ 8) quiet_share)) = [block_of_lines 1 f]"
  by (simp add: numeral_eq_Suc writer_step_def reader_step_def quiet_share_def cache_defs flag_line_def block_of_lines_def)

end
