(* ===== verification/Weak_Sharing.thy ===== *)
theory Weak_Sharing
  imports Meta_Sharing
begin

text \<open>
  The flag protocol of theory \<open>Meta_Sharing\<close> on hardware that keeps no more order than is documented for \<open>clflushopt\<close>: the
  instruction is ordered behind older stores to its own line and with fences, but neither with younger stores to other lines nor
  with younger loads. A flush that has been issued is therefore pending, and takes effect at any later moment, at the latest before the next fence of
  its host. \<open>cflush\<close> fences before its last flush and not behind it, \<open>cflushopt\<close> does not fence at all. The properties say what the protocol still guarantees,
  what it does not, and what fences would give.
\<close>

section \<open>The programs\<close>

record weak_share =
  ordered :: share
  wpend :: "nat set"
  rpend :: "nat set"

text \<open>The flushes of the two loops: the line, whether \<open>cflush\<close> fences before it, and where the program goes on.\<close>

fun writer_flush :: "nat \<Rightarrow> writer_pc \<Rightarrow> (nat \<times> bool \<times> writer_pc) option" where
  "writer_flush n W_flush_meta = Some (0, False, W_test)"
| "writer_flush n (W_flush_data i) = (if i < n then Some (i, False, W_flush_data (Suc i)) else Some (i, True, W_load_data))"
| "writer_flush n W_flush_flag = Some (0, True, W_load_flag)"
| "writer_flush n _ = None"

fun reader_flush :: "nat \<Rightarrow> reader_pc \<Rightarrow> (nat \<times> bool \<times> reader_pc) option" where
  "reader_flush n R_flush_meta = Some (0, False, R_test)"
| "reader_flush n (R_flush_data i) = (if i < n then Some (i, False, R_flush_data (Suc i)) else Some (i, False, R_copy 1))"
| "reader_flush n R_flush_flag = Some (0, True, R_load_flag)"
| "reader_flush n _ = None"

text \<open>
  A flush is issued and completed in two steps; every other instruction takes effect as in theory \<open>Meta_Sharing\<close>. With \<open>sync\<close> the flushing functions are
  the variants that the header compiles out (\<open>cflush_sync\<close> and \<open>cflushopt_sync\<close>): their fence comes last, so that every other instruction waits for the flushes
  before it. They do not load the last line; a load changes no more than a cache may do of its own accord.
\<close>

inductive weak_step :: "bool \<Rightarrow> nat \<Rightarrow> weak_share \<Rightarrow> weak_share \<Rightarrow> bool" for sync n where
  writer: "writer_flush n (wpc (ordered s)) = None \<Longrightarrow> (sync \<longrightarrow> wpend s = {}) \<Longrightarrow> filled n f \<Longrightarrow> weak_step sync n s (s\<lparr>ordered := writer_step n f (ordered s)\<rparr>)"
| writer_issues: "writer_flush n (wpc (ordered s)) = Some (i, fence, pc) \<Longrightarrow> (fence \<and> \<not> sync \<longrightarrow> wpend s = {}) \<Longrightarrow>
    weak_step sync n s (s\<lparr>ordered := (ordered s)\<lparr>wpc := pc\<rparr>, wpend := insert i (wpend s)\<rparr>)"
| writer_completes: "i \<in> wpend s \<Longrightarrow> weak_step sync n s (s\<lparr>ordered := w_evict i (ordered s), wpend := wpend s - {i}\<rparr>)"
| reader: "reader_flush n (rpc (ordered s)) = None \<Longrightarrow> (sync \<longrightarrow> rpend s = {}) \<Longrightarrow> weak_step sync n s (s\<lparr>ordered := reader_step n (ordered s)\<rparr>)"
| reader_issues: "reader_flush n (rpc (ordered s)) = Some (i, fence, pc) \<Longrightarrow> (fence \<and> \<not> sync \<longrightarrow> rpend s = {}) \<Longrightarrow>
    weak_step sync n s (s\<lparr>ordered := (ordered s)\<lparr>rpc := pc\<rparr>, rpend := insert i (rpend s)\<rparr>)"
| reader_completes: "i \<in> rpend s \<Longrightarrow> weak_step sync n s (s\<lparr>ordered := r_evict i (ordered s), rpend := rpend s - {i}\<rparr>)"
| caches: "f = w_evict i \<or> f = r_evict i \<or> f = w_fetch i \<or> f = r_fetch i \<Longrightarrow> weak_step sync n s (s\<lparr>ordered := f (ordered s)\<rparr>)"

section \<open>Programs whose flushes take effect at once\<close>

abbreviation weak :: "share \<Rightarrow> nat set \<Rightarrow> nat set \<Rightarrow> weak_share" where
  "weak s P Q \<equiv> \<lparr>ordered = s, wpend = P, rpend = Q\<rparr>"

lemma flush_then_go:
  "writer_flush n (wpc s) = Some (i, fence, pc) \<Longrightarrow> writer_step n f s = w_evict i (s\<lparr>wpc := pc\<rparr>)"
  "reader_flush n (rpc s) = Some (i, fence, pc') \<Longrightarrow> reader_step n s = r_evict i (s\<lparr>rpc := pc'\<rparr>)"
  by (cases "wpc s"; auto simp: writer_step_def w_evict_def split: if_splits)
     (cases "rpc s"; auto simp: reader_step_def r_evict_def split: if_splits)

lemma weak_writer: 
  assumes "filled n f"
  shows "(weak_step sync n)\<^sup>*\<^sup>* (weak s {} Q) (weak (writer_step n f s) {} Q)"
proof (cases "writer_flush n (wpc s)")
  case None
  then show ?thesis using weak_step.writer [where sync = sync and n = n and s = "weak s {} Q" and f = f] assms by simp
next
  case (Some x)
  then obtain i fence pc where x: "writer_flush n (wpc s) = Some (i, fence, pc)" by (cases x) auto
  have "weak_step sync n (weak s {} Q) (weak (s\<lparr>wpc := pc\<rparr>) {i} Q)"
    using weak_step.writer_issues [where sync = sync and n = n and s = "weak s {} Q" and i = i and fence = fence and pc = pc] x by simp
  moreover have "weak_step sync n (weak (s\<lparr>wpc := pc\<rparr>) {i} Q) (weak (writer_step n f s) {} Q)"
    using weak_step.writer_completes [where sync = sync and i = i and s = "weak (s\<lparr>wpc := pc\<rparr>) {i} Q" and n = n] flush_then_go(1) [OF x] by simp
  ultimately show ?thesis by (meson r_into_rtranclp rtranclp_trans)
qed

lemma weak_reader: "(weak_step sync n)\<^sup>*\<^sup>* (weak s P {}) (weak (reader_step n s) P {})"
proof (cases "reader_flush n (rpc s)")
  case None
  then show ?thesis using weak_step.reader [where sync = sync and n = n and s = "weak s P {}"] by simp
next
  case (Some x)
  then obtain i fence pc where x: "reader_flush n (rpc s) = Some (i, fence, pc)" by (cases x) auto
  have "weak_step sync n (weak s P {}) (weak (s\<lparr>rpc := pc\<rparr>) P {i})"
    using weak_step.reader_issues [where sync = sync and n = n and s = "weak s P {}" and i = i and fence = fence and pc = pc] x by simp
  moreover have "weak_step sync n (weak (s\<lparr>rpc := pc\<rparr>) P {i}) (weak (reader_step n s) P {})"
    using weak_step.reader_completes [where sync = sync and i = i and s = "weak (s\<lparr>rpc := pc\<rparr>) P {i}" and n = n] flush_then_go(2) [OF x] by simp
  ultimately show ?thesis by (meson r_into_rtranclp rtranclp_trans)
qed

lemma weak_writers: "filled n f \<Longrightarrow> (weak_step sync n)\<^sup>*\<^sup>* (weak s {} Q) (weak ((writer_step n f ^^ k) s) {} Q)"
  by (induction k) (auto intro: rtranclp_trans weak_writer)

lemma weak_readers: "(weak_step sync n)\<^sup>*\<^sup>* (weak s P {}) (weak ((reader_step n ^^ k) s) P {})"
  by (induction k) (auto intro: rtranclp_trans weak_reader)

text \<open>Every run of theory \<open>Meta_Sharing\<close> is one of these programs too.\<close>

lemma ordered_run_is_weak:
  assumes "(share_step n)\<^sup>*\<^sup>* s s'"
  shows "(weak_step sync n)\<^sup>*\<^sup>* (weak s {} {}) (weak s' {} {})"
  using assms
proof (induction rule: rtranclp_induct)
  case (step s1 s2)
  have "(weak_step sync n)\<^sup>*\<^sup>* (weak s1 {} {}) (weak s2 {} {})"
    using step.hyps(2)
  proof cases
    case (writer f)
    then show ?thesis using weak_writer [where n = n and f = f and s = s1 and Q = "{}"] by simp
  next
    case reader
    then show ?thesis using weak_reader [where n = n and s = s1 and P = "{}"] by simp
  next
    case (writer_evicts i)
    then show ?thesis using weak_step.caches [where sync = sync and f = "w_evict i" and i = i and n = n and s = "weak s1 {} {}"] by (simp add: w_evict_def r_into_rtranclp)
  next
    case (reader_evicts i)
    then show ?thesis using weak_step.caches [where sync = sync and f = "r_evict i" and i = i and n = n and s = "weak s1 {} {}"] by (simp add: r_evict_def r_into_rtranclp)
  next
    case (writer_fetches i)
    then show ?thesis using weak_step.caches [where sync = sync and f = "w_fetch i" and i = i and n = n and s = "weak s1 {} {}"] by (simp add: w_fetch_def r_into_rtranclp)
  next
    case (reader_fetches i)
    then show ?thesis using weak_step.caches [where sync = sync and f = "r_fetch i" and i = i and n = n and s = "weak s1 {} {}"] by (simp add: r_fetch_def r_into_rtranclp)
  qed
  then show ?case using step.IH by (rule rtranclp_trans [rotated])
qed simp

section \<open>What the missing fences allow\<close>

text \<open>A run with four single steps inside.\<close>

lemma run_with_steps:
  assumes "R\<^sup>*\<^sup>* a b" "R b c" "R c d" "R d e" "R e g" "R\<^sup>*\<^sup>* g h"
  shows "R\<^sup>*\<^sup>* a h"
  using assms by (meson rtranclp.rtrancl_into_rtrancl rtranclp_trans)

lemmas one_line_run = numeral_eq_Suc quiet_share_def writer_step_def reader_step_def cache_defs flag_line_def block_of_lines_def
  w_evict_def r_evict_def

text \<open>Both blocks published, the first one received, and the reader about to flush the data line for the second.\<close>

definition second_published :: "line_mem \<Rightarrow> line_mem \<Rightarrow> share" where
  "second_published f g = (reader_step 1 ^^ 2) ((writer_step 1 g ^^ 9) ((reader_step 1 ^^ 8) ((writer_step 1 f ^^ 9) quiet_share)))"

lemma second_published_facts:
  assumes "block_ok (block_of_lines 1 f)"
  shows "rpc (second_published f g) = R_flush_data 1" "rcache (second_published f g) 1 = Some (f 1, False)"
    "sent (second_published f g) = [block_of_lines 1 f, block_of_lines 1 g]" "received (second_published f g) = [block_of_lines 1 f]"
  using assms by (simp_all add: second_published_def one_line_run)

lemma second_published_reachable:
  assumes "filled 1 f" "filled 1 g"
  shows "(weak_step False 1)\<^sup>*\<^sup>* (weak quiet_share {} {}) (weak (second_published f g) {} {})"
  unfolding second_published_def
  using weak_writers [OF assms(1), of False quiet_share "{}" 9] weak_readers [of False 1 "(writer_step 1 f ^^ 9) quiet_share" "{}" 8]
    weak_writers [OF assms(2), of False "(reader_step 1 ^^ 8) ((writer_step 1 f ^^ 9) quiet_share)" "{}" 9]
    weak_readers [of False 1 "(writer_step 1 g ^^ 9) ((reader_step 1 ^^ 8) ((writer_step 1 f ^^ 9) quiet_share))" "{}" 2]
  by (meson rtranclp_trans)

lemma filled_block_ok: "filled 1 f \<Longrightarrow> block_ok (block_of_lines 1 f)"
  by (rule filled_ok) simp_all

lemma filled_from: "\<exists>f. filled 1 f \<and> f 1 ! 0 = ucast ((rnd :: nat \<Rightarrow> u64) 0)"
  using filled_sealed [of 1 rnd] by (intro exI [of _ "sealed_lines 1 rnd"]) (simp add: sealed_lines_def Let_def nth_append fill_buffer_random_def)

section \<open>What holds without the fences\<close>

text \<open>
  The handshake on the flag does not depend on when flushes take effect. What a data line can hold, anywhere, is what it held at the start, a line of a
  block sent so far, or, while the writer is at work, a line of its buffer.
\<close>

definition line_of :: "nat \<Rightarrow> bytes \<Rightarrow> bytes" where
  "line_of i b = take 64 (drop (64 * (i - 1)) b)"

definition line_values :: "share \<Rightarrow> nat \<Rightarrow> bytes set" where
  "line_values s i = {v. v = smem s i \<or> (\<exists>d. wcache s i = Some (v, d) \<or> rcache s i = Some (v, d))}"

definition known :: "share \<Rightarrow> bytes list \<Rightarrow> nat \<Rightarrow> bytes \<Rightarrow> bool" where
  "known s0 bs i v \<longleftrightarrow> v \<in> line_values s0 i \<or> (\<exists>b \<in> set bs. v = line_of i b)"

definition genuine :: "nat \<Rightarrow> share \<Rightarrow> bytes list \<Rightarrow> bytes \<Rightarrow> bool" where
  "genuine n s0 bs b \<longleftrightarrow> (\<exists>c. b = block_of_lines n c \<and> (\<forall>i. 1 \<le> i \<longrightarrow> i \<le> n \<longrightarrow> known s0 bs i (c i)))"

text \<open>The reader between taking a block and having checked it.\<close>

fun in_check :: "reader_pc \<Rightarrow> bool" where
  "in_check R_flush_flag = True"
| "in_check R_load_flag = True"
| "in_check R_check = True"
| "in_check R_failed = True"
| "in_check _ = False"

definition checks_inv :: "nat \<Rightarrow> share \<Rightarrow> bool" where
  "checks_inv n s \<longleftrightarrow>
    (if in_check (rpc s) then (\<exists>bs. received s = bs @ [block_of_lines n (rbuf s)] \<and> (\<forall>b \<in> set bs. block_ok b))
     else \<forall>b \<in> set (received s). block_ok b) \<and>
    (rpc s = R_failed \<longrightarrow> \<not> block_ok (block_of_lines n (rbuf s)))"

fun taken_lines :: "nat \<Rightarrow> reader_pc \<Rightarrow> nat set" where
  "taken_lines n (R_copy k) = {1..<k}"
| "taken_lines n R_clear = {1..n}"
| "taken_lines n _ = {}"

definition hand_inv :: "nat \<Rightarrow> share \<Rightarrow> share \<Rightarrow> bool" where
  "hand_inv n s0 s \<longleftrightarrow> flag_inv s \<and> (\<forall>k. wpc s = W_copy k \<longrightarrow> 1 \<le> k \<and> k \<le> n) \<and> (\<forall>k. rpc s = R_copy k \<longrightarrow> 1 \<le> k \<and> k \<le> n) \<and>
    (wpc s \<noteq> W_fill \<longrightarrow> filled n (wbuf s)) \<and>
    length (sent s) = length (received s) + (if in_flight s then 1 else 0) \<and>
    (\<forall>i. 1 \<le> i \<longrightarrow> (\<forall>v \<in> line_values s i. known s0 (sent s) i v \<or> w_active (wpc s) \<and> i \<le> n \<and> v = wbuf s i)) \<and>
    (\<forall>i \<in> taken_lines n (rpc s). known s0 (sent s) i (rbuf s i)) \<and>
    (\<forall>b \<in> set (received s). genuine n s0 (sent s) b) \<and> checks_inv n s"

lemma known_mono: "known s0 bs i v \<Longrightarrow> set bs \<subseteq> set bs' \<Longrightarrow> known s0 bs' i v"
  by (auto simp: known_def)

lemma genuine_mono: "genuine n s0 bs b \<Longrightarrow> set bs \<subseteq> set bs' \<Longrightarrow> genuine n s0 bs' b"
  unfolding genuine_def by (metis known_mono)

lemma cache_line_values:
  assumes "f = w_evict j \<or> f = r_evict j \<or> f = w_fetch j \<or> f = r_fetch j"
  shows "line_values (f s) i \<subseteq> line_values s i"
  using assms by (auto simp: line_values_def w_evict_def r_evict_def w_fetch_def r_fetch_def cache_defs all_bool_eq ex_bool_eq
    split: option.splits bool.splits if_splits)

lemma cached_line_value: "cached_value (smem s) (wcache s) i \<in> line_values s i" "cached_value (smem s) (rcache s) i \<in> line_values s i"
  by (auto simp: line_values_def cached_value_def split: option.splits)

lemma filled_line:
  assumes "filled n f" "1 \<le> i" "i \<le> n"
  shows "line_of i (block_of_lines n f) = f i"
proof -
  obtain d where d: "f = (\<lambda>i. take 64 (drop (64 * (i - 1)) d))" using assms(1) unfolding filled_def by blast
  have "64 * (i - 1) + 64 \<le> 64 * n" using assms(2,3) by simp
  then have m: "min 64 (64 * n - 64 * (i - 1)) = 64" by simp
  have "block_of_lines n f = take (64 * n) d" unfolding d by (rule block_of_slices)
  then have "line_of i (block_of_lines n f) = take 64 (take (64 * n - 64 * (i - 1)) (drop (64 * (i - 1)) d))" by (simp only: line_of_def drop_take)
  then show ?thesis using m by (simp only: take_take d)
qed

text \<open>What a cache does keeps it, and so does every move of a program that leaves lines, counts and checks alone.\<close>

lemma hand_cache:
  assumes "hand_inv n s0 s" "f = w_evict i \<or> f = r_evict i \<or> f = w_fetch i \<or> f = r_fetch i"
  shows "hand_inv n s0 (f s)"
proof -
  have flag: "flag_inv s" using assms(1) by (simp add: hand_inv_def)
  have same: "wpc (f s) = wpc s" "rpc (f s) = rpc s" "wbuf (f s) = wbuf s" "rbuf (f s) = rbuf s" "sent (f s) = sent s" "received (f s) = received s"
    using assms(2) by (auto simp: w_evict_def r_evict_def w_fetch_def r_fetch_def)
  have "flag_inv (f s)" "in_flight (f s) = in_flight s" using evict_flag [OF flag, of i] evict_flight [OF flag, of i] assms(2) by auto
  moreover have "\<forall>i. 1 \<le> i \<longrightarrow> (\<forall>v \<in> line_values (f s) i. known s0 (sent s) i v \<or> w_active (wpc s) \<and> i \<le> n \<and> v = wbuf s i)"
    using assms(1) cache_line_values [OF assms(2), of s] unfolding hand_inv_def by blast
  ultimately show ?thesis using assms(1) by (simp add: hand_inv_def checks_inv_def same)
qed

lemma hand_caches:
  assumes "hand_inv n s0 s"
  shows "hand_inv n s0 (w_evict i s)" "hand_inv n s0 (r_evict i s)" "hand_inv n s0 (w_fetch i s)" "hand_inv n s0 (r_fetch i s)"
  using hand_cache [OF assms, where i = i] by simp_all

lemma hand_wpc:
  assumes "hand_inv n s0 s" "w_active (wpc s) \<longrightarrow> w_active pc" "flag_ok (smem s 0) (wcache s 0) (rcache s 0) (w_active pc) (r_active (rpc s))"
    and "\<And>k. pc = W_copy k \<Longrightarrow> 1 \<le> k \<and> k \<le> n" "wpc s = W_fill \<Longrightarrow> pc = W_fill"
  shows "hand_inv n s0 (s\<lparr>wpc := pc\<rparr>)"
proof -
  have "line_values (s\<lparr>wpc := pc\<rparr>) = line_values s" by (simp add: line_values_def fun_eq_iff)
  moreover have "checks_inv n (s\<lparr>wpc := pc\<rparr>)" using assms(1) by (simp add: hand_inv_def checks_inv_def)
  moreover have "\<forall>i. 1 \<le> i \<longrightarrow> (\<forall>v \<in> line_values s i. known s0 (sent s) i v \<or> w_active pc \<and> i \<le> n \<and> v = wbuf s i)"
    using assms(1,2) unfolding hand_inv_def by blast
  moreover have "pc \<noteq> W_fill \<longrightarrow> filled n (wbuf s)" using assms(1,5) unfolding hand_inv_def by blast
  ultimately show ?thesis using assms(1,3,4) by (simp add: hand_inv_def flag_inv_def in_flight_def)
qed

lemma hand_rpc:
  assumes "hand_inv n s0 s" "flag_ok (smem s 0) (wcache s 0) (rcache s 0) (w_active (wpc s)) (r_active pc)"
    and "\<And>k. pc = R_copy k \<Longrightarrow> 1 \<le> k \<and> k \<le> n" "taken_lines n pc \<subseteq> taken_lines n (rpc s)" "in_check pc = in_check (rpc s)" "pc \<noteq> R_failed"
  shows "hand_inv n s0 (s\<lparr>rpc := pc\<rparr>)"
proof -
  have "checks_inv n (s\<lparr>rpc := pc\<rparr>)" using assms(1,5,6) by (simp add: hand_inv_def checks_inv_def)
  moreover have "line_values (s\<lparr>rpc := pc\<rparr>) = line_values s" by (simp add: line_values_def fun_eq_iff)
  ultimately show ?thesis using assms(1-4) by (auto simp: hand_inv_def flag_inv_def in_flight_def)
qed

lemma hand_flag: "hand_inv n s0 s \<Longrightarrow> flag_ok (smem s 0) (wcache s 0) (rcache s 0) (w_active (wpc s)) (r_active (rpc s))"
  by (simp add: hand_inv_def flag_inv_def)

lemma hand_writer_flush:
  assumes "hand_inv n s0 s" "writer_flush n (wpc s) = Some (i, fence, pc)"
  shows "hand_inv n s0 (s\<lparr>wpc := pc\<rparr>)"
  using hand_flag [OF assms(1)] assms(2)
  by (intro hand_wpc [OF assms(1)]) (cases "wpc s"; auto split: if_splits)+

lemma hand_reader_flush:
  assumes "hand_inv n s0 s" "reader_flush n (rpc s) = Some (i, fence, pc)" "0 < n"
  shows "hand_inv n s0 (s\<lparr>rpc := pc\<rparr>)"
  using hand_flag [OF assms(1)] assms(2,3)
  by (intro hand_rpc [OF assms(1)]) (cases "rpc s"; auto split: if_splits)+

text \<open>The writer.\<close>

lemma hand_writer_copy:
  assumes "hand_inv n s0 s" "wpc s = W_copy k" "pc = (if k < n then W_copy (Suc k) else W_flush_data 1)"
  shows "hand_inv n s0 (s\<lparr>wcache := store_line (wcache s) k (wbuf s k), wpc := pc\<rparr>)"
proof -
  let ?s = "s\<lparr>wcache := store_line (wcache s) k (wbuf s k), wpc := pc\<rparr>"
  have k: "1 \<le> k" "k \<le> n" using assms(1,2) by (simp_all add: hand_inv_def)
  have act: "w_active pc" "w_active (wpc s)" "pc \<noteq> W_fill" "wpc s \<noteq> W_fill" using assms(2,3) by auto
  have "v \<in> line_values s i \<or> i = k \<and> v = wbuf s k" if "v \<in> line_values ?s i" for i v
    using that by (auto simp: line_values_def store_line_def split: if_splits)
  then have "\<forall>i. 1 \<le> i \<longrightarrow> (\<forall>v \<in> line_values ?s i. known s0 (sent s) i v \<or> i \<le> n \<and> v = wbuf s i)"
    using assms(1) k by (fastforce simp: hand_inv_def)
  moreover have "flag_inv ?s" "in_flight ?s = in_flight s"
    using assms(1) k act by (simp_all add: hand_inv_def flag_inv_def in_flight_def store_line_def)
  moreover have "\<And>j. pc = W_copy j \<Longrightarrow> 1 \<le> j \<and> j \<le> n" using assms(3) k by (auto split: if_splits)
  ultimately show ?thesis using assms(1) act by (simp add: hand_inv_def checks_inv_def)
qed

lemma hand_writer_set:
  assumes "hand_inv n s0 s" "wpc s = W_set"
  shows "hand_inv n s0 (s\<lparr>wcache := store_line (wcache s) 0 busy_flag, wpc := W_flush_flag, sent := sent s @ [block_of_lines n (wbuf s)]\<rparr>)"
proof -
  let ?b = "block_of_lines n (wbuf s)"
  let ?s = "s\<lparr>wcache := store_line (wcache s) 0 busy_flag, wpc := W_flush_flag, sent := sent s @ [?b]\<rparr>"
  have inv: "flag_inv s" "filled n (wbuf s)" using assms by (simp_all add: hand_inv_def)
  have free: "smem s 0 = free_flag" "\<not> in_flight s" using inv(1) assms(2) not_both_active [OF inv(1)] by (auto simp: flag_inv_def flag_ok_def)
  have line: "line_of i ?b = wbuf s i" if "1 \<le> i" "i \<le> n" for i using filled_line [OF inv(2) that] .
  have "known s0 (sent ?s) i v" if "1 \<le> i" "v \<in> line_values ?s i" for i v
  proof -
    have "v \<in> line_values s i" using that by (simp add: line_values_def store_line_def)
    then have "known s0 (sent s) i v \<or> i \<le> n \<and> v = wbuf s i" using assms that(1) by (auto simp: hand_inv_def)
    then show ?thesis using line [OF that(1)] by (auto simp: known_def)
  qed
  moreover have "flag_inv ?s" using inv(1) free(1) assms(2) by (auto simp: flag_inv_def flag_ok_def store_line_def)
  moreover have "in_flight ?s" by (simp add: in_flight_def flight_def store_line_def)
  moreover have "genuine n s0 (sent ?s) b" if "b \<in> set (received s)" for b
    using assms(1) that genuine_mono [of n s0 "sent s" b "sent ?s"] by (simp add: hand_inv_def subset_iff)
  moreover have "known s0 (sent ?s) i (rbuf s i)" if "i \<in> taken_lines n (rpc s)" for i
    using assms(1) that known_mono [of s0 "sent s" i _ "sent ?s"] by (simp add: hand_inv_def subset_iff)
  ultimately show ?thesis using assms(1) free(2) inv(2) by (simp add: hand_inv_def checks_inv_def)
qed

lemma hand_writer:
  assumes "hand_inv n s0 s" "writer_flush n (wpc s) = None" "filled n f" "0 < n"
  shows "hand_inv n s0 (writer_step n f s)"
proof -
  note F = hand_flag [OF assms(1)]
  have go: "hand_inv n s0 (t\<lparr>wpc := pc\<rparr>)" if "hand_inv n s0 t" "\<not> w_active (wpc t)" "\<not> w_active pc" "wpc t \<noteq> W_fill" for t pc
    using hand_flag [OF that(1)] that by (intro hand_wpc [OF that(1)]) (cases pc; auto)+
  show ?thesis
  proof (cases "wpc s")
    case W_fill
    let ?s = "s\<lparr>wbuf := f, wpc := W_flush_meta\<rparr>"
    have "line_values ?s = line_values s" by (simp add: line_values_def fun_eq_iff)
    then have "hand_inv n s0 ?s"
      using assms(1,3) W_fill by (simp add: hand_inv_def flag_inv_def in_flight_def checks_inv_def)
    then show ?thesis using W_fill by (simp add: writer_step_def)
  next
    case W_test
    let ?pc = "if cached_value (smem s) (wcache s) 0 ! 0 = 0x00 then W_copy 1 else W_fill"
    have inv: "hand_inv n s0 (w_fetch 0 s)" by (rule hand_caches [OF assms(1)])
    have "flag_ok (smem (w_fetch 0 s) 0) (wcache (w_fetch 0 s) 0) (rcache (w_fetch 0 s) 0) (w_active ?pc) (r_active (rpc s))"
    proof (cases "cached_value (smem s) (wcache s) 0 ! 0 = 0x00")
      case True
      then show ?thesis using cached_flag(1) [OF F] by (simp add: w_fetch_def evict_line cached_value_def)
    next
      case False
      then show ?thesis using hand_flag [OF inv] W_test by simp
    qed
    then have "hand_inv n s0 ((w_fetch 0 s)\<lparr>wpc := ?pc\<rparr>)" using W_test assms(4) by (intro hand_wpc [OF inv]) (auto split: if_splits)
    then show ?thesis using W_test by (simp add: writer_step_def w_fetch_def)
  next
    case (W_copy k)
    then show ?thesis using hand_writer_copy [OF assms(1) W_copy refl] by (simp add: writer_step_def)
  next
    case W_load_data
    have inv: "hand_inv n s0 (w_fetch n s)" by (rule hand_caches [OF assms(1)])
    have "hand_inv n s0 ((w_fetch n s)\<lparr>wpc := W_set\<rparr>)" using hand_flag [OF inv] W_load_data by (intro hand_wpc [OF inv]) simp_all
    then show ?thesis using W_load_data by (simp add: writer_step_def w_fetch_def)
  next
    case W_set
    then show ?thesis using hand_writer_set [OF assms(1) W_set] by (simp add: writer_step_def)
  next
    case W_load_flag
    have "hand_inv n s0 (w_fetch 0 s)" by (rule hand_caches [OF assms(1)])
    from go [OF this, of W_fill] W_load_flag show ?thesis by (simp add: writer_step_def w_fetch_def)
  qed (use assms(2) in \<open>simp_all split: if_splits\<close>)
qed

text \<open>The reader.\<close>

lemma hand_reader_copy:
  assumes "hand_inv n s0 s" "rpc s = R_copy k" "pc = (if k < n then R_copy (Suc k) else R_clear)"
  shows "hand_inv n s0 (s\<lparr>rcache := fetch_line (smem s) (rcache s) k, rbuf := (rbuf s)(k := cached_value (smem s) (rcache s) k), rpc := pc\<rparr>)"
proof -
  let ?v = "cached_value (smem s) (rcache s) k"
  let ?t = "(r_fetch k s)\<lparr>rbuf := (rbuf s)(k := ?v), rpc := pc\<rparr>"
  have inv: "hand_inv n s0 (r_fetch k s)" by (rule hand_caches [OF assms(1)])
  have k: "1 \<le> k" "k \<le> n" using assms(1,2) by (simp_all add: hand_inv_def)
  have "\<not> w_active (wpc s)" using not_both_active [of s] assms(1,2) by (auto simp: hand_inv_def)
  then have v: "known s0 (sent s) k ?v" using assms(1) k(1) cached_line_value(2) [of s k] by (auto simp: hand_inv_def)
  have "known s0 (sent s) i (rbuf ?t i)" if "i \<in> taken_lines n pc" for i
    using that v assms k by (cases "i = k") (auto simp: hand_inv_def split: if_splits)
  moreover have "line_values ?t = line_values (r_fetch k s)" "flag_inv ?t = flag_inv (r_fetch k s)" "in_flight ?t = in_flight (r_fetch k s)"
    using assms(2,3) by (simp_all add: line_values_def fun_eq_iff flag_inv_def in_flight_def)
  moreover have "\<not> in_check pc" "pc \<noteq> R_failed" "\<And>j. pc = R_copy j \<Longrightarrow> 1 \<le> j \<and> j \<le> n" using assms(3) k by (auto split: if_splits)
  ultimately have "hand_inv n s0 ?t" using inv assms(2) by (simp add: hand_inv_def checks_inv_def r_fetch_def)
  then show ?thesis by (simp add: r_fetch_def)
qed

lemma hand_reader_clear:
  assumes "hand_inv n s0 s" "rpc s = R_clear"
  shows "hand_inv n s0 (s\<lparr>rcache := store_line (rcache s) 0 free_flag, rpc := R_flush_flag, received := received s @ [block_of_lines n (rbuf s)]\<rparr>)"
proof -
  let ?s = "s\<lparr>rcache := store_line (rcache s) 0 free_flag, rpc := R_flush_flag, received := received s @ [block_of_lines n (rbuf s)]\<rparr>"
  have inv: "flag_inv s" using assms(1) by (simp add: hand_inv_def)
  have busy: "smem s 0 = busy_flag" "in_flight s" "wcache s 0 \<noteq> Some (busy_flag, True)"
    using inv assms(2) by (auto simp: flag_inv_def flag_ok_def in_flight_def flight_def)
  have "flag_inv ?s" using inv busy(1) assms(2) by (auto simp: flag_inv_def flag_ok_def store_line_def)
  moreover have "\<not> in_flight ?s" using busy(1,3) by (simp add: in_flight_def flight_def store_line_def)
  moreover have "line_values ?s i = line_values s i" if "1 \<le> i" for i using that by (simp add: line_values_def store_line_def)
  moreover have "genuine n s0 (sent s) (block_of_lines n (rbuf s))" using assms by (auto simp: hand_inv_def genuine_def)
  ultimately show ?thesis using assms busy(2) by (simp add: hand_inv_def checks_inv_def)
qed

lemma hand_reader:
  assumes "hand_inv n s0 s" "reader_flush n (rpc s) = None" "0 < n"
  shows "hand_inv n s0 (reader_step n s)"
proof -
  note F = hand_flag [OF assms(1)]
  show ?thesis
  proof (cases "rpc s")
    case R_test
    let ?pc = "if cached_value (smem s) (rcache s) 0 ! 0 = 0x10 then R_flush_data 1 else R_flush_meta"
    have inv: "hand_inv n s0 (r_fetch 0 s)" by (rule hand_caches [OF assms(1)])
    have "flag_ok (smem (r_fetch 0 s) 0) (wcache (r_fetch 0 s) 0) (rcache (r_fetch 0 s) 0) (w_active (wpc s)) (r_active ?pc)"
    proof (cases "cached_value (smem s) (rcache s) 0 ! 0 = 0x10")
      case True
      then show ?thesis using cached_flag(2) [OF F] by (simp add: r_fetch_def evict_line cached_value_def)
    next
      case False
      then show ?thesis using hand_flag [OF inv] R_test by simp
    qed
    then have "hand_inv n s0 ((r_fetch 0 s)\<lparr>rpc := ?pc\<rparr>)" using R_test by (intro hand_rpc [OF inv]) (auto split: if_splits)
    then show ?thesis using R_test by (simp add: reader_step_def r_fetch_def)
  next
    case (R_copy k)
    then show ?thesis using hand_reader_copy [OF assms(1) R_copy refl] by (simp add: reader_step_def)
  next
    case R_clear
    then show ?thesis using hand_reader_clear [OF assms(1) R_clear] by (simp add: reader_step_def)
  next
    case R_load_flag
    have inv: "hand_inv n s0 (r_fetch 0 s)" by (rule hand_caches [OF assms(1)])
    have "hand_inv n s0 ((r_fetch 0 s)\<lparr>rpc := R_check\<rparr>)" using hand_flag [OF inv] R_load_flag by (intro hand_rpc [OF inv]) simp_all
    then show ?thesis using R_load_flag by (simp add: reader_step_def r_fetch_def)
  next
    case R_check
    let ?s = "s\<lparr>rpc := (if block_ok (block_of_lines n (rbuf s)) then R_flush_meta else R_failed)\<rparr>"
    have "line_values ?s = line_values s" by (simp add: line_values_def fun_eq_iff)
    then have "hand_inv n s0 ?s"
      using assms(1) R_check by (auto simp: hand_inv_def flag_inv_def in_flight_def checks_inv_def)
    then show ?thesis using R_check by (simp add: reader_step_def)
  next
    case R_failed
    then show ?thesis using assms(1) by (simp add: reader_step_def)
  qed (use assms(2) in \<open>simp_all split: if_splits\<close>)
qed

lemma hand_weak_step:
  assumes "weak_step sync n s s'" "hand_inv n s0 (ordered s)" "0 < n"
  shows "hand_inv n s0 (ordered s')"
  using assms(1)
proof cases
  case (writer f)
  then show ?thesis using hand_writer [OF assms(2) writer(2,4) assms(3)] by simp
next
  case (writer_issues i fence pc)
  then show ?thesis using hand_writer_flush [OF assms(2) writer_issues(2)] by simp
next
  case (writer_completes i)
  then show ?thesis using hand_caches [OF assms(2)] by simp
next
  case reader
  then show ?thesis using hand_reader [OF assms(2) reader(2) assms(3)] by simp
next
  case (reader_issues i fence pc)
  then show ?thesis using hand_reader_flush [OF assms(2) reader_issues(2) assms(3)] by simp
next
  case (reader_completes i)
  then show ?thesis using hand_caches [OF assms(2)] by simp
next
  case (caches f i)
  then show ?thesis using hand_cache [OF assms(2) caches(2)] by simp
qed

lemma hand_start: "share_start n s \<Longrightarrow> hand_inv n s s"
  using share_start_inv [of n s]
  by (auto simp: share_start_def share_inv_def hand_inv_def in_flight_def flight_def known_def checks_inv_def)

lemma hand_reachable:
  assumes "(weak_step sync n)\<^sup>*\<^sup>* (weak s0 {} {}) w" "share_start n s0" "0 < n"
  shows "hand_inv n s0 (ordered w)"
  using assms(1)
proof (induction rule: rtranclp_induct)
  case base
  then show ?case using hand_start [OF assms(2)] by simp
next
  case (step w1 w2)
  then show ?case using hand_weak_step [OF step.hyps(2) _ assms(3)] by blast
qed

lemma hand_inv_counts:
  assumes "hand_inv n s0 s"
  shows "\<not> (w_active (wpc s) \<and> r_active (rpc s))"
    "length (sent s) = length (received s) \<or> length (sent s) = Suc (length (received s)) \<and> \<not> w_active (wpc s)"
    "\<forall>b \<in> set (butlast (received s)). block_ok b" "\<not> in_check (rpc s) \<longrightarrow> (\<forall>b \<in> set (received s). block_ok b)"
proof -
  have flag: "flag_inv s" using assms by (simp add: hand_inv_def)
  then show "\<not> (w_active (wpc s) \<and> r_active (rpc s))" using not_both_active by blast
  show "length (sent s) = length (received s) \<or> length (sent s) = Suc (length (received s)) \<and> \<not> w_active (wpc s)"
    using assms not_both_active [OF flag] by (cases "in_flight s") (auto simp: hand_inv_def)
  show "\<forall>b \<in> set (butlast (received s)). block_ok b" "\<not> in_check (rpc s) \<longrightarrow> (\<forall>b \<in> set (received s). block_ok b)"
    using assms by (auto simp: hand_inv_def checks_inv_def split: if_splits dest: in_set_butlastD)
qed

text \<open>
  C26: What the flag protocol guarantees as the code is, with flushes that take effect late and in any order. In every interleaving of the two programs, their pending flushes and
  the caches, for any number of data lines: writer and reader are never both at work on the data; a block is sent only when the one before has been
  received, so that the blocks sent are as many as those received, or one more; every line of a block received is one that was in the file or a cache of a host at the start or the same
  line of a block sent before; and a block with a wrong checksum is never passed: all blocks received have the right one, except perhaps the last while it
  is being checked or has stopped the reader. That the blocks are those sent is not guaranteed, as the properties that follow show.
\<close>

theorem handshake_counts_blocks:
  assumes "share_start n s0" "(weak_step sync n)\<^sup>*\<^sup>* (weak s0 {} {}) w" "0 < n" "s = ordered w"
  shows "\<not> (w_active (wpc s) \<and> r_active (rpc s)) \<and>
    (length (sent s) = length (received s) \<or> length (sent s) = Suc (length (received s)) \<and> \<not> w_active (wpc s)) \<and>
    (\<forall>b \<in> set (received s). \<exists>c. b = block_of_lines n c \<and> (\<forall>i. 1 \<le> i \<longrightarrow> i \<le> n \<longrightarrow>
       c i = smem s0 i \<or> (\<exists>d. wcache s0 i = Some (c i, d) \<or> rcache s0 i = Some (c i, d)) \<or> (\<exists>x \<in> set (sent s). c i = line_of i x))) \<and>
    (\<forall>b \<in> set (butlast (received s)). block_ok b) \<and> (\<not> in_check (rpc s) \<longrightarrow> (\<forall>b \<in> set (received s). block_ok b))"
proof -
  have inv: "hand_inv n s0 s" using hand_reachable [OF assms(2,1,3)] assms(4) by simp
  have "b \<in> set (received s) \<Longrightarrow> genuine n s0 (sent s) b" for b using inv by (simp add: hand_inv_def)
  then show ?thesis using hand_inv_counts [OF inv] unfolding genuine_def known_def line_values_def by blast
qed

theorem handshake_counts_blocks_witness:
  "\<exists>s a b. (weak_step False 1)\<^sup>*\<^sup>* (weak quiet_share {} {}) s \<and> sent (ordered s) = [a, b] \<and> length (received (ordered s)) = 1 \<and> \<not> w_active (wpc (ordered s))"
proof -
  obtain f where f: "filled 1 f" using filled_exists [of 1] by auto
  let ?s = "weak (second_published f f) {} {}"
  note F = second_published_facts [OF filled_block_ok [OF f], of f]
  have run: "(weak_step False 1)\<^sup>*\<^sup>* (weak quiet_share {} {}) ?s" by (rule second_published_reachable [OF f f])
  from handshake_counts_blocks [OF quiet_share_start run _ refl] F(3,4) have "\<not> w_active (wpc (ordered ?s))" by simp
  then show ?thesis using run F(3,4) by (intro exI [of _ ?s]) auto
qed

text \<open>
  C29: Without a fence behind \<open>cflushopt\<close> the reader may copy a block it has already received. For all blocks of one line, there is a run in which the writer
  publishes one block and then another, and the reader receives the first one twice: its loads are served from the lines that the pending
  flushes have not yet dropped. The checksum is right, so that nothing notices.
\<close>

theorem unfenced_reader_repeats_block:
  assumes "filled 1 f" "filled 1 g"
  shows "\<exists>s. (weak_step False 1)\<^sup>*\<^sup>* (weak quiet_share {} {}) s \<and> sent (ordered s) = [block_of_lines 1 f, block_of_lines 1 g] \<and>
    received (ordered s) = [block_of_lines 1 f, block_of_lines 1 f] \<and> rpc (ordered s) = R_flush_meta"
proof -
  let ?s = "second_published f g"
  note F = second_published_facts [OF filled_block_ok [OF assms(1)], of g]
  let ?t = "(reader_step 1 ^^ 2) (?s\<lparr>rpc := R_copy 1\<rparr>)"
  let ?u = "(reader_step 1 ^^ 3) (r_evict 1 ?t)"
  have 1: "weak_step False 1 (weak ?s {} {}) (weak (?s\<lparr>rpc := R_copy 1\<rparr>) {} {1})"
    using weak_step.reader_issues [where sync = False and n = 1 and s = "weak ?s {} {}" and i = 1 and fence = False and pc = "R_copy 1"] F(1) by simp
  have 2: "weak_step False 1 (weak (?s\<lparr>rpc := R_copy 1\<rparr>) {} {1}) (weak (reader_step 1 (?s\<lparr>rpc := R_copy 1\<rparr>)) {} {1})"
    using weak_step.reader [where sync = False and n = 1 and s = "weak (?s\<lparr>rpc := R_copy 1\<rparr>) {} {1}"] by simp
  have 3: "weak_step False 1 (weak (reader_step 1 (?s\<lparr>rpc := R_copy 1\<rparr>)) {} {1}) (weak ?t {} {1})"
    using weak_step.reader [where sync = False and n = 1 and s = "weak (reader_step 1 (?s\<lparr>rpc := R_copy 1\<rparr>)) {} {1}"] by (simp add: reader_step_def numeral_2_eq_2)
  have 4: "weak_step False 1 (weak ?t {} {1}) (weak (r_evict 1 ?t) {} {})"
    using weak_step.reader_completes [where sync = False and i = 1 and s = "weak ?t {} {1}" and n = 1] by simp
  have run: "(weak_step False 1)\<^sup>*\<^sup>* (weak quiet_share {} {}) (weak ?u {} {})"
    by (rule run_with_steps [OF second_published_reachable [OF assms] 1 2 3 4 weak_readers])
  have "sent ?u = [block_of_lines 1 f, block_of_lines 1 g]" "received ?u = [block_of_lines 1 f, block_of_lines 1 f]" "rpc ?u = R_flush_meta"
    using F filled_block_ok [OF assms(1)]
    by (simp_all add: numeral_eq_Suc reader_step_def cache_defs r_evict_def block_of_lines_def split: option.splits)
  then show ?thesis using run by (intro exI [of _ "weak ?u {} {}"]) simp
qed

theorem unfenced_reader_repeats_block_witness:
  "\<exists>s a b. (weak_step False 1)\<^sup>*\<^sup>* (weak quiet_share {} {}) s \<and> a \<noteq> b \<and> sent (ordered s) = [a, b] \<and> received (ordered s) = [a, a]"
proof -
  obtain f g where "filled 1 f" "f 1 ! 0 = 0" "filled 1 g" "g 1 ! 0 = 1"
    using filled_from [of "\<lambda>_. 0"] filled_from [of "\<lambda>_. 1"] by auto
  then show ?thesis using unfenced_reader_repeats_block [of f g] by (fastforce simp: block_of_lines_def)
qed

text \<open>The writer has stored its block and the flag, and the flush of the last line is pending; the reader takes over when the flag is written back.\<close>

definition early_flag :: "line_mem \<Rightarrow> bytes \<Rightarrow> share" where
  "early_flag f v = w_evict 0 ((writer_step 1 f ^^ 2) (((writer_step 1 f ^^ 4) (quiet_share\<lparr>smem := (\<lambda>_. free_flag)(1 := v)\<rparr>))\<lparr>wpc := W_load_data\<rparr>))"

text \<open>
  C30: Without a fence behind the last flush of \<open>cflush\<close> the flag may overtake the data. For any old contents of a file with one data line, there is a run
  in which the writer publishes a block and the reader receives the old contents: the flag is stored, and written back by the
  cache, before the pending flush of the last data line takes effect. If the old contents have a wrong checksum, the assertion of the reader fails.
\<close>

theorem unfenced_flag_overtakes_data:
  assumes "filled 1 f"
  shows "\<exists>s. (weak_step False 1)\<^sup>*\<^sup>* (weak (quiet_share\<lparr>smem := (\<lambda>_. free_flag)(1 := v)\<rparr>) {} {}) s \<and> sent (ordered s) = [block_of_lines 1 f] \<and>
    received (ordered s) = [v] \<and> rpc (ordered s) = (if block_ok v then R_flush_meta else R_failed)"
proof -
  let ?start = "quiet_share\<lparr>smem := (\<lambda>_. free_flag)(1 := v)\<rparr>"
  let ?s = "(writer_step 1 f ^^ 4) ?start"
  let ?a = "?s\<lparr>wpc := W_load_data\<rparr>"
  let ?b = "(writer_step 1 f ^^ 2) ?a"
  let ?u = "(reader_step 1 ^^ 8) (early_flag f v)"
  have pc: "wpc ?s = W_flush_data 1" "wpc (writer_step 1 f ?a) = W_set" by (simp_all add: one_line_run)
  have 1: "weak_step False 1 (weak ?s {} {}) (weak ?a {1} {})"
    using weak_step.writer_issues [where sync = False and n = 1 and s = "weak ?s {} {}" and i = 1 and fence = True and pc = W_load_data] pc(1) by simp
  have 2: "weak_step False 1 (weak ?a {1} {}) (weak (writer_step 1 f ?a) {1} {})"
    using weak_step.writer [where sync = False and n = 1 and s = "weak ?a {1} {}" and f = f] assms by simp
  have 3: "weak_step False 1 (weak (writer_step 1 f ?a) {1} {}) (weak ?b {1} {})"
    using weak_step.writer [where sync = False and n = 1 and s = "weak (writer_step 1 f ?a) {1} {}" and f = f] assms pc(2) by (simp add: numeral_2_eq_2)
  have 4: "weak_step False 1 (weak ?b {1} {}) (weak (early_flag f v) {1} {})"
    using weak_step.caches [where sync = False and f = "w_evict 0" and i = 0 and n = 1 and s = "weak ?b {1} {}"] by (simp add: early_flag_def)
  have run: "(weak_step False 1)\<^sup>*\<^sup>* (weak ?start {} {}) (weak ?u {1} {})"
    by (rule run_with_steps [OF weak_writers [OF assms] 1 2 3 4 weak_readers])
  have "sent ?u = [block_of_lines 1 f]" "received ?u = [v]" "rpc ?u = (if block_ok v then R_flush_meta else R_failed)"
    by (simp_all add: early_flag_def one_line_run)
  then show ?thesis using run by (intro exI [of _ "weak ?u {1} {}"]) simp
qed

theorem unfenced_flag_overtakes_data_witness:
  "\<exists>s f. (weak_step False 1)\<^sup>*\<^sup>* (weak quiet_share {} {}) s \<and> sent (ordered s) = [block_of_lines 1 f] \<and> received (ordered s) = [free_flag] \<and>
     block_of_lines 1 f \<noteq> free_flag"
proof -
  obtain f where f: "filled 1 f" "f 1 ! 0 = 1" using filled_from [of "\<lambda>_. 1"] by auto
  have "quiet_share\<lparr>smem := (\<lambda>_. free_flag)(1 := free_flag)\<rparr> = quiet_share" by (simp add: quiet_share_def fun_upd_idem)
  moreover have "block_of_lines 1 f \<noteq> free_flag" using f(2) by (auto simp: block_of_lines_def)
  ultimately show ?thesis using unfenced_flag_overtakes_data [OF f(1), of free_flag] by auto
qed

section \<open>With the fences\<close>

text \<open>
  With \<open>sync\<close>, a program that has issued flushes of data lines is seen at the start of its flush loop until all of them have taken effect; the lines
  whose flush is complete are recorded beside it.
\<close>

fun writer_lag :: "writer_pc \<Rightarrow> writer_pc" where
  "writer_lag (W_flush_data k) = W_flush_data 1"
| "writer_lag W_load_data = W_flush_data 1"
| "writer_lag pc = pc"

fun reader_lag :: "reader_pc \<Rightarrow> reader_pc" where
  "reader_lag (R_flush_data k) = R_flush_data 1"
| "reader_lag (R_copy k) = (if k = 1 then R_flush_data 1 else R_copy k)"
| "reader_lag pc = pc"

definition lag :: "share \<Rightarrow> share" where
  "lag s = s\<lparr>wpc := writer_lag (wpc s), rpc := reader_lag (rpc s)\<rparr>"

fun writer_issued :: "nat \<Rightarrow> writer_pc \<Rightarrow> nat set" where
  "writer_issued n (W_flush_data k) = {1..<k}"
| "writer_issued n W_load_data = {1..n}"
| "writer_issued n _ = {}"

fun reader_issued :: "nat \<Rightarrow> reader_pc \<Rightarrow> nat set" where
  "reader_issued n (R_flush_data k) = {1..<k}"
| "reader_issued n (R_copy k) = (if k = 1 then {1..n} else {})"
| "reader_issued n _ = {}"

definition weak_inv :: "nat \<Rightarrow> share \<Rightarrow> nat set \<Rightarrow> nat set \<Rightarrow> bool" where
  "weak_inv n s P Q \<longleftrightarrow> share_inv n (lag s) \<and> (\<forall>k. wpc s = W_flush_data k \<longrightarrow> 1 \<le> k \<and> k \<le> n) \<and> (\<forall>k. rpc s = R_flush_data k \<longrightarrow> 1 \<le> k \<and> k \<le> n) \<and>
    (\<forall>i \<in> writer_issued n (wpc s) - P. settled s i) \<and> (\<forall>i \<in> reader_issued n (rpc s) - Q. up_to_date s i)"

lemma lag_fields [simp]:
  "smem (lag s) = smem s" "wcache (lag s) = wcache s" "rcache (lag s) = rcache s" "wbuf (lag s) = wbuf s" "rbuf (lag s) = rbuf s"
  "wpc (lag s) = writer_lag (wpc s)" "rpc (lag s) = reader_lag (rpc s)" "sent (lag s) = sent s" "received (lag s) = received s"
  by (simp_all add: lag_def)

lemma same_pc: "(t :: share)\<lparr>wpc := wpc t\<rparr> = t" "(t :: share)\<lparr>rpc := rpc t\<rparr> = t"
  by (cases t; simp)+

lemma active_lag: "w_active (writer_lag pc) = w_active pc" "r_active (reader_lag pc') = r_active pc'"
  by (cases pc; simp) (cases pc'; simp)

lemma issued_active: "i \<in> writer_issued n pc \<Longrightarrow> 1 \<le> i \<and> w_active pc \<and> writer_lag pc = W_flush_data 1"
  "i \<in> reader_issued n pc' \<Longrightarrow> 1 \<le> i \<and> r_active pc' \<and> reader_lag pc' = R_flush_data 1"
  by (cases pc; simp) (cases pc'; simp split: if_splits)

lemma lag_commutes:
  "f = w_evict i \<or> f = r_evict i \<or> f = w_fetch i \<or> f = r_fetch i \<Longrightarrow> lag (f s) = f (lag s)"
  by (auto simp: lag_def w_evict_def r_evict_def w_fetch_def r_fetch_def)

lemma weak_invD:
  assumes "weak_inv n s P Q"
  shows "share_inv n (lag s)" "i \<in> writer_issued n (wpc s) \<Longrightarrow> i \<notin> P \<Longrightarrow> settled s i" "i \<in> reader_issued n (rpc s) \<Longrightarrow> i \<notin> Q \<Longrightarrow> up_to_date s i"
  using assms by (auto simp: weak_inv_def)

text \<open>What a cache does leaves a completed line completed.\<close>

lemma reader_clean: "share_inv n s \<Longrightarrow> 1 \<le> i \<Longrightarrow> rcache s i \<noteq> Some (v, True)"
  by (simp add: share_inv_def data_inv_def)

lemma writer_clean: "share_inv n s \<Longrightarrow> r_active (rpc s) \<Longrightarrow> 1 \<le> i \<Longrightarrow> wcache s i \<noteq> Some (v, True)"
  using not_both_active [of s] writer_dirty_active [of n s i v] by (auto simp: share_inv_def)

lemma cache_keeps_lines:
  assumes "share_inv n (lag s)" "f = w_evict i \<or> f = r_evict i \<or> f = w_fetch i \<or> f = r_fetch i" "1 \<le> j"
  shows "settled s j \<Longrightarrow> settled (f s) j" "r_active (rpc s) \<Longrightarrow> up_to_date s j \<Longrightarrow> up_to_date (f s) j"
proof -
  have r: "\<forall>v. rcache s j \<noteq> Some (v, True)" using reader_clean [OF assms(1,3)] by simp
  have w: "\<forall>v. wcache s j \<noteq> Some (v, True)" if "r_active (rpc s)" using writer_clean [OF assms(1) _ assms(3)] that active_lag(2) by simp
  show "settled s j \<Longrightarrow> settled (f s) j"
    using assms(2) r by (auto simp: settled_def w_evict_def r_evict_def w_fetch_def r_fetch_def cache_defs split: option.splits bool.splits if_splits)
  show "r_active (rpc s) \<Longrightarrow> up_to_date s j \<Longrightarrow> up_to_date (f s) j"
    using assms(2) r w by (auto simp: up_to_date_def w_evict_def r_evict_def w_fetch_def r_fetch_def cache_defs split: option.splits bool.splits if_splits)
qed

lemma weak_cache_inv:
  assumes "weak_inv n s P Q" "f = w_evict i \<or> f = r_evict i \<or> f = w_fetch i \<or> f = r_fetch i"
  shows "weak_inv n (f s) P Q"
proof -
  note D = weak_invD [OF assms(1)]
  have "share_inv n (lag (f s))" using cache_step_inv [OF D(1)] lag_commutes [OF assms(2)] assms(2) by auto
  moreover have "wpc (f s) = wpc s" "rpc (f s) = rpc s" using assms(2) by (auto simp: w_evict_def r_evict_def w_fetch_def r_fetch_def)
  ultimately show ?thesis
    using assms(1) D(2,3) cache_keeps_lines [OF D(1) assms(2)] issued_active unfolding weak_inv_def by (metis DiffE)
qed

text \<open>A pending flush of a data line completes it.\<close>

lemma weak_complete_inv:
  assumes "weak_inv n s P Q"
  shows "weak_inv n (w_evict i s) (P - {i}) Q" "weak_inv n (r_evict i s) P (Q - {i})"
proof -
  note D = weak_invD [OF assms]
  have pcs: "wpc (w_evict i s) = wpc s" "rpc (w_evict i s) = rpc s" "wpc (r_evict i s) = wpc s" "rpc (r_evict i s) = rpc s"
    by (simp_all add: w_evict_def r_evict_def)
  have "settled (w_evict i s) i" if "i \<in> writer_issued n (wpc s)" "i \<le> n"
  proof -
    have "held s i" using share_invD(2) [OF D(1)] issued_active(1) [OF that(1)] that(2) by (simp add: held_def settled_def)
    then show ?thesis by (auto simp: held_def settled_def w_evict_def cache_defs split: option.splits bool.splits)
  qed
  moreover have "i \<le> n" if "i \<in> writer_issued n (wpc s)" for i using that assms by (cases "wpc s") (auto simp: weak_inv_def)
  ultimately show "weak_inv n (w_evict i s) (P - {i}) Q"
    using weak_cache_inv [OF assms, of "w_evict i"] pcs unfolding weak_inv_def by (metis Diff_iff insert_iff empty_iff)
  have "up_to_date (r_evict i s) i" by (simp add: up_to_date_def r_evict_def drop_line_def)
  then show "weak_inv n (r_evict i s) P (Q - {i})"
    using weak_cache_inv [OF assms, of "r_evict i"] pcs unfolding weak_inv_def by (metis Diff_iff insert_iff empty_iff)
qed

text \<open>Issuing a flush.\<close>

lemma weak_writer_issue_inv:
  assumes "weak_inv n s P Q" "writer_flush n (wpc s) = Some (i, fence, pc)"
  shows "weak_inv n (s\<lparr>wpc := pc\<rparr>) (insert i P) Q"
proof -
  note D = weak_invD [OF assms(1)]
  have lag: "lag (s\<lparr>wpc := pc\<rparr>) = (lag s)\<lparr>wpc := writer_lag pc\<rparr>" by (simp add: lag_def)
  have "share_inv n ((lag s)\<lparr>wpc := writer_lag pc\<rparr>)"
  proof (cases "writer_lag (wpc s) = W_flush_data 1")
    case True
    then have "writer_lag pc = wpc (lag s)" using assms(2) by (cases "wpc s") (auto split: if_splits)
    then show ?thesis using D(1) by (simp only: same_pc)
  next
    case False
    then have pc: "\<not> w_active (writer_lag pc)" "wpc s = W_flush_meta \<or> wpc s = W_flush_flag" "pc = W_test \<or> pc = W_load_flag"
      using assms(2) by (cases "wpc s"; auto split: if_splits)+
    show ?thesis
      using pc share_invD [OF D(1)] flag_ok_passive(1) by (intro wpc_inv [OF D(1)]) (auto simp: active_lag)
  qed
  moreover have "writer_issued n pc - insert i A \<subseteq> writer_issued n (wpc s) - A" for A
    using assms by (cases "wpc s") (auto simp: weak_inv_def split: if_splits)
  moreover have "1 \<le> k \<and> k \<le> n" if "pc = W_flush_data k" for k
    using assms that by (cases "wpc s") (auto simp: weak_inv_def split: if_splits)
  ultimately show ?thesis using assms(1) unfolding weak_inv_def lag by (simp add: settled_def up_to_date_def subset_iff) blast
qed

lemma weak_reader_issue_inv:
  assumes "weak_inv n s P Q" "reader_flush n (rpc s) = Some (i, fence, pc)"
  shows "weak_inv n (s\<lparr>rpc := pc\<rparr>) P (insert i Q)"
proof -
  note D = weak_invD [OF assms(1)]
  have lag: "lag (s\<lparr>rpc := pc\<rparr>) = (lag s)\<lparr>rpc := reader_lag pc\<rparr>" by (simp add: lag_def)
  have "share_inv n ((lag s)\<lparr>rpc := reader_lag pc\<rparr>)"
  proof (cases "\<exists>k. rpc s = R_flush_data k")
    case True
    then have "reader_lag pc = rpc (lag s)" using assms(2) by (auto split: if_splits)
    then show ?thesis using D(1) by (simp only: same_pc)
  next
    case False
    then have pc: "rpc s = R_flush_meta \<and> pc = R_test \<or> rpc s = R_flush_flag \<and> pc = R_load_flag"
      using assms(2) by (cases "rpc s"; auto)
    show ?thesis
      using pc share_invD [OF D(1)] flag_ok_passive(2) by (intro rpc_inv [OF D(1)]) (auto simp: active_lag)
  qed
  moreover have "reader_issued n pc - insert i A \<subseteq> reader_issued n (rpc s) - A" for A
    using assms by (cases "rpc s") (auto simp: weak_inv_def split: if_splits)
  moreover have "1 \<le> k \<and> k \<le> n" if "pc = R_flush_data k" for k
    using assms that by (cases "rpc s") (auto simp: weak_inv_def split: if_splits)
  ultimately show ?thesis using assms(1) unfolding weak_inv_def lag by (simp add: settled_def up_to_date_def subset_iff) blast
qed

text \<open>When all flushes are complete, a program is where it seems to be.\<close>

lemma drained_writer:
  assumes "weak_inv n s {} Q" "writer_flush n (wpc s) = None"
  shows "share_inv n ((lag s)\<lparr>wpc := wpc s\<rparr>)"
proof (cases "wpc s = W_load_data")
  case True
  note D = weak_invD [OF assms(1)]
  have "settled (lag s) i" if "1 \<le> i" "i \<le> n" for i using D(2) [of i] True that by (simp add: settled_def)
  moreover have "\<forall>i v. n < i \<longrightarrow> wcache s i \<noteq> Some (v, True)" using share_invD(2) [OF D(1)] True by simp
  ultimately have "writer_inv n (lag s) W_load_data" by (simp add: settled_def) (metis not_le)
  then show ?thesis using share_invD [OF D(1)] True by (intro wpc_inv [OF D(1)]) simp_all
next
  case False
  then have "writer_lag (wpc s) = wpc s" using assms(2) by (cases "wpc s") (auto split: if_splits)
  then show ?thesis using weak_invD(1) [OF assms(1)] by (simp add: lag_def)
qed

lemma drained_reader:
  assumes "weak_inv n s P {}" "reader_flush n (rpc s) = None" "0 < n"
  shows "share_inv n ((lag s)\<lparr>rpc := rpc s\<rparr>)"
proof (cases "rpc s = R_copy 1")
  case True
  note D = weak_invD [OF assms(1)]
  have "up_to_date (lag s) i" if "1 \<le> i" "i \<le> n" for i using D(3) [of i] True that by (simp add: up_to_date_def)
  then have "reader_inv n (lag s) (R_copy 1)" using assms(3) by simp
  then show ?thesis using share_invD [OF D(1)] True by (intro rpc_inv [OF D(1)]) simp_all
next
  case False
  then have "reader_lag (rpc s) = rpc s" using assms(2) by (cases "rpc s") (auto split: if_splits)
  then show ?thesis using weak_invD(1) [OF assms(1)] by (simp add: lag_def)
qed

lemma weak_writer_inv:
  assumes "weak_inv n s {} Q" "writer_flush n (wpc s) = None" "filled n f" "0 < n" "64 * n < 2 ^ 32"
  shows "weak_inv n (writer_step n f s) {} Q"
proof -
  let ?s = "writer_step n f s" and ?l = "(lag s)\<lparr>wpc := wpc s\<rparr>"
  have "lag ?s = writer_step n f ?l" "writer_issued n (wpc ?s) = {}" "smem ?s = smem s" "rcache ?s = rcache s" "rpc ?s = rpc s"
    "\<forall>k. wpc ?s = W_flush_data k \<longrightarrow> k = 1"
    using assms(2) by (cases "wpc s"; simp add: writer_step_def lag_def split: if_splits)+
  then show ?thesis
    using writer_step_inv [OF drained_writer [OF assms(1,2)] assms(3-5)] assms(1,4) by (auto simp: weak_inv_def up_to_date_def)
qed

lemma weak_reader_inv:
  assumes "weak_inv n s P {}" "reader_flush n (rpc s) = None" "0 < n"
  shows "weak_inv n (reader_step n s) P {}"
proof -
  let ?s = "reader_step n s" and ?l = "(lag s)\<lparr>rpc := rpc s\<rparr>"
  have "share_inv n (reader_step n ?l)" by (rule reader_step_inv [OF drained_reader [OF assms] assms(3)])
  moreover have "rpc s = R_copy k \<Longrightarrow> 1 \<le> k" for k using share_invD(3) [OF drained_reader [OF assms]] by simp
  then have "lag ?s = reader_step n ?l" "reader_issued n (rpc ?s) = {}" "smem ?s = smem s" "wcache ?s = wcache s" "wbuf ?s = wbuf s" "wpc ?s = wpc s"
    "\<forall>k. rpc ?s = R_flush_data k \<longrightarrow> k = 1"
    using assms(2) by (cases "rpc s"; simp add: reader_step_def lag_def split: if_splits)+
  ultimately show ?thesis using assms(1,3) by (auto simp: weak_inv_def settled_def)
qed

lemma weak_step_inv:
  assumes "weak_step True n s s'" "weak_inv n (ordered s) (wpend s) (rpend s)" "0 < n" "64 * n < 2 ^ 32"
  shows "weak_inv n (ordered s') (wpend s') (rpend s')"
  using assms(1)
proof cases
  case (writer f)
  then show ?thesis using weak_writer_inv [OF _ writer(2,4) assms(3,4)] assms(2) by simp
next
  case (writer_issues i fence pc)
  then show ?thesis using weak_writer_issue_inv [OF assms(2) writer_issues(2)] by simp
next
  case (writer_completes i)
  then show ?thesis using weak_complete_inv(1) [OF assms(2)] by simp
next
  case reader
  then show ?thesis using weak_reader_inv [OF _ reader(2) assms(3)] assms(2) by simp
next
  case (reader_issues i fence pc)
  then show ?thesis using weak_reader_issue_inv [OF assms(2) reader_issues(2)] by simp
next
  case (reader_completes i)
  then show ?thesis using weak_complete_inv(2) [OF assms(2)] by simp
next
  case (caches f i)
  then show ?thesis using weak_cache_inv [OF assms(2) caches(2)] by simp
qed

lemma weak_reachable_inv:
  assumes "(weak_step True n)\<^sup>*\<^sup>* s s'" "weak_inv n (ordered s) (wpend s) (rpend s)" "0 < n" "64 * n < 2 ^ 32"
  shows "weak_inv n (ordered s') (wpend s') (rpend s')"
  using assms(1,2) by induction (use weak_step_inv [OF _ _ assms(3,4)] in auto)

lemma share_start_weak:
  assumes "share_start n s"
  shows "weak_inv n s {} {}"
proof -
  have pcs: "wpc s = W_fill" "rpc s = R_flush_meta" using assms by (simp_all add: share_start_def)
  then have same: "lag s = s" by (cases s) (simp add: lag_def)
  show ?thesis unfolding weak_inv_def same using share_start_inv [OF assms] pcs by simp
qed

text \<open>
  C31: The variants of the flushing functions that the header compiles out make the protocol right on weakly ordered hardware. When every function ends with
  its full fence, then in every interleaving, whatever the order in which pending flushes take effect, the assertion of the reader never
  fails, every block received has the right checksum, and the blocks received are those published, in order, up to the last one.
\<close>

theorem fenced_flushes_deliver:
  assumes "share_start n s0" "(weak_step True n)\<^sup>*\<^sup>* (weak s0 {} {}) s" "0 < n" "64 * n < 2 ^ 32"
  shows "rpc (ordered s) \<noteq> R_failed \<and> (\<forall>b \<in> set (received (ordered s)). block_ok b) \<and>
    (sent (ordered s) = received (ordered s) \<or> (\<exists>b. sent (ordered s) = received (ordered s) @ [b] \<and> block_ok b))"
proof -
  have "weak_inv n (ordered s) (wpend s) (rpend s)"
    using weak_reachable_inv [OF assms(2) _ assms(3,4)] share_start_weak [OF assms(1)] by simp
  from share_inv_delivery [OF weak_invD(1) [OF this]] show ?thesis by auto
qed

theorem fenced_flushes_deliver_witness:
  "\<exists>s b. (weak_step True 1)\<^sup>*\<^sup>* (weak quiet_share {} {}) s \<and> received (ordered s) = [b] \<and> block_ok b"
proof -
  obtain f where f: "filled 1 f" using filled_exists [of 1] by auto
  let ?s = "(reader_step 1 ^^ 5) ((writer_step 1 f ^^ 8) quiet_share)"
  have run: "(weak_step True 1)\<^sup>*\<^sup>* (weak quiet_share {} {}) (weak ?s {} {})" by (rule rtranclp_trans [OF weak_writers [OF f] weak_readers])
  then have "\<forall>b \<in> set (received ?s). block_ok b" using fenced_flushes_deliver [OF quiet_share_start run] by simp
  then show ?thesis using run quiet_share_delivers [of f] by (intro exI [of _ "weak ?s {} {}"] exI [of _ "block_of_lines 1 f"]) simp
qed

end
