(* ===== verification/Dsa_Move.thy ===== *)
theory Dsa_Move
  imports Prelude "HOL-Library.Multiset"
begin

text \<open>
  Copying with the data streaming accelerator, \<^verbatim>\<open>cxl_memory_sharing/dsa_move.c\<close>. The functions of the DML library that drives
  the device are not part of the program: a model function returns the calls it makes, in order, and
  takes the status of the \<open>k\<close>-th call as an argument, 0 being \<open>DML_STATUS_OK\<close>. What a completed move job does to memory
  is the parameter of the locale \<open>dml_engine\<close>.
\<close>

section \<open>The code\<close>

definition DSA_JOB_NUM :: int where "DSA_JOB_NUM = 1"
definition DSA_MOVE_BLOCK :: u64 where "DSA_MOVE_BLOCK = 16384"

datatype dml_call =
  Get_size
| Init_job nat
| Submit nat u64 u64 u64
| Wait_job nat
| Finalize_job nat

type_synonym dml_status = "nat \<Rightarrow> u32"

text \<open>
  \<open>init_dsa\<close>: \<open>array\<close> tells whether the array of jobs could be allocated, \<open>alloc i\<close> is the address \<open>malloc\<close> returns for job
  \<open>i\<close> (0 on failure; the library is called with it all the same). The result is the array, or \<open>None\<close> for \<open>NULL\<close>.
\<close>

primrec init_jobs :: "dml_status \<Rightarrow> (nat \<Rightarrow> nat) \<Rightarrow> nat list \<Rightarrow> nat list \<Rightarrow> dml_call list \<Rightarrow> bool \<times> nat list \<times> dml_call list" where
  "init_jobs st alloc [] job tr = (True, job, tr)"
| "init_jobs st alloc (i # is) job tr =
    (let tr' = tr @ [Init_job (alloc i)] in
     if st (length tr) \<noteq> 0 then (False, job, tr') else init_jobs st alloc is (job[i := alloc i]) tr')"

definition init_dsa :: "dml_status \<Rightarrow> bool \<Rightarrow> (nat \<Rightarrow> nat) \<Rightarrow> nat \<Rightarrow> (nat list option \<times> dml_call list) outcome" where
  "init_dsa st array alloc job_num =
    (if st 0 \<noteq> 0 then Done (None, [Get_size])
     else if \<not> array \<and> 0 < job_num then Undefined
     else (case init_jobs st alloc [0..<job_num] (replicate job_num 0) [Get_size] of
             (True, job, tr) \<Rightarrow> Done (Some job, tr)
           | (False, job, tr) \<Rightarrow> Done (None, tr @ map Finalize_job (filter (\<lambda>p. p \<noteq> 0) job))))"

text \<open>The variables of \<open>dsa_move_data\<close> and the calls made so far.\<close>

record mover =
  source :: u64
  dest :: u64
  src_size :: u64
  trace :: "dml_call list"

definition submit_job :: "dml_status \<Rightarrow> nat \<Rightarrow> u64 \<Rightarrow> mover \<Rightarrow> bool \<times> mover" where
  "submit_job st i n s = (st (length (trace s)) = 0, s\<lparr>trace := trace s @ [Submit i (source s) (dest s) n]\<rparr>)"

definition advance :: "u64 \<Rightarrow> mover \<Rightarrow> mover" where
  "advance block_size s =
    s\<lparr>source := source s + block_size, dest := dest s + block_size, src_size := src_size s - block_size\<rparr>"

text \<open>\<open>Inl\<close> is the jump to the error label.\<close>

primrec submit_round :: "dml_status \<Rightarrow> u64 \<Rightarrow> nat list \<Rightarrow> mover \<Rightarrow> mover + mover" where
  "submit_round st block_size [] s = Inr s"
| "submit_round st block_size (i # is) s =
    (case submit_job st i block_size s of
       (False, s') \<Rightarrow> Inl s'
     | (True, s') \<Rightarrow> submit_round st block_size is (advance block_size s'))"

primrec wait_jobs :: "dml_status \<Rightarrow> nat list \<Rightarrow> mover \<Rightarrow> mover + mover" where
  "wait_jobs st [] s = Inr s"
| "wait_jobs st (i # is) s =
    (let s' = s\<lparr>trace := trace s @ [Wait_job i]\<rparr> in
     if st (length (trace s)) \<noteq> 0 then Inl s' else wait_jobs st is s')"

definition full_round :: "dml_status \<Rightarrow> u64 \<Rightarrow> nat \<Rightarrow> mover \<Rightarrow> mover + mover" where
  "full_round st block_size job_num s =
    (case submit_round st block_size [0..<job_num] s of Inl s' \<Rightarrow> Inl s' | Inr s' \<Rightarrow> wait_jobs st [0..<job_num] s')"

text \<open>The outer loop; \<open>None\<close> when it does not end.\<close>

partial_function (option) full_rounds :: "dml_status \<Rightarrow> u64 \<Rightarrow> nat \<Rightarrow> u64 \<Rightarrow> mover \<Rightarrow> (mover + mover) option" where
  "full_rounds st block_size job_num max_move s =
    (if max_move < src_size s then
       (case full_round st block_size job_num s of
          Inl s' \<Rightarrow> Some (Inl s')
        | Inr s' \<Rightarrow> full_rounds st block_size job_num max_move s')
     else Some (Inr s))"

declare full_rounds.simps [code]

function last_blocks :: "dml_status \<Rightarrow> u64 \<Rightarrow> nat \<Rightarrow> nat \<Rightarrow> mover \<Rightarrow> mover + (nat \<times> mover)" where
  "last_blocks st block_size job_num i s =
    (if i < job_num \<and> block_size < src_size s then
       (case submit_job st i block_size s of
          (False, s') \<Rightarrow> Inl s'
        | (True, s') \<Rightarrow>
            (let s' = advance block_size s' in
             if src_size s' < block_size then Inr (i + 1, s') else last_blocks st block_size job_num (i + 1) s'))
     else Inr (i, s))"
  by pat_completeness auto

termination last_blocks
  by (relation "measure (\<lambda>(_, _, job_num, i, _). job_num - i)") auto

declare last_blocks.simps [simp del]

text \<open>The last part of the range; \<open>jobs[i]\<close> behind the end of the array is undefined.\<close>

definition last_part :: "dml_status \<Rightarrow> nat \<Rightarrow> nat \<Rightarrow> mover \<Rightarrow> (mover + (nat \<times> mover)) outcome" where
  "last_part st job_num i s =
    (if 0 < src_size s then
       (if i < job_num then
          (case submit_job st i (src_size s) s of (False, s') \<Rightarrow> Done (Inl s') | (True, s') \<Rightarrow> Done (Inr (i + 1, s')))
        else Undefined)
     else Done (Inr (i, s)))"

definition finalize_jobs :: "nat \<Rightarrow> mover \<Rightarrow> dml_call list" where
  "finalize_jobs job_num s = trace s @ map Finalize_job [0..<job_num]"

text \<open>What is left after the outer loop: whether it went through, and the calls made.\<close>

definition move_rest :: "dml_status \<Rightarrow> u64 \<Rightarrow> nat \<Rightarrow> mover \<Rightarrow> (bool \<times> dml_call list) outcome" where
  "move_rest st block_size job_num s =
    (case last_blocks st block_size job_num 0 s of
       Inl s \<Rightarrow> Done (False, finalize_jobs job_num s)
     | Inr (i, s) \<Rightarrow>
        (case last_part st job_num i s of
           Done (Inr (used_job_num, s)) \<Rightarrow>
             (case wait_jobs st [0..<used_job_num] s of
                Inl s \<Rightarrow> Done (False, finalize_jobs job_num s)
              | Inr s \<Rightarrow> Done (True, trace s))
         | Done (Inl s) \<Rightarrow> Done (False, finalize_jobs job_num s)
         | Aborted \<Rightarrow> Aborted
         | Undefined \<Rightarrow> Undefined))"

text \<open>
  \<open>dsa_move_data\<close>. Its caller cannot tell whether it went through, because the function returns nothing.
  A negative \<open>job_num\<close> runs no loop, but is converted for \<open>max_move\<close>.
\<close>

definition dsa_move_data :: "dml_status \<Rightarrow> int \<Rightarrow> u64 \<Rightarrow> u64 \<Rightarrow> u64 \<Rightarrow> u64 \<Rightarrow> (bool \<times> dml_call list) outcome option" where
  "dsa_move_data st job_num src dst len block_size =
    map_option (\<lambda>r. case r of Inl s \<Rightarrow> Done (False, finalize_jobs (nat job_num) s) | Inr s \<Rightarrow> move_rest st block_size (nat job_num) s)
      (full_rounds st block_size (nat job_num) (block_size * of_int job_num)
        \<lparr>source = src, dest = dst, src_size = len, trace = []\<rparr>)"

section \<open>What the calls amount to\<close>

text \<open>The moves submitted, as source, destination and length; and the jobs under way after the calls, if no job was submitted twice or waited for in vain.\<close>

fun move_of :: "dml_call \<Rightarrow> (nat \<times> nat \<times> nat) list" where
  "move_of (Submit _ s d n) = [(unat s, unat d, unat n)]"
| "move_of _ = []"

definition moves :: "dml_call list \<Rightarrow> (nat \<times> nat \<times> nat) list" where
  "moves tr = concat (map move_of tr)"

fun job_turn :: "nat \<Rightarrow> dml_call \<Rightarrow> nat set \<Rightarrow> nat set option" where
  "job_turn n (Submit i _ _ _) busy = (if i < n \<and> i \<notin> busy then Some (insert i busy) else None)"
| "job_turn n (Wait_job i) busy = (if i \<in> busy then Some (busy - {i}) else None)"
| "job_turn n _ busy = None"

definition jobs_busy :: "nat \<Rightarrow> dml_call list \<Rightarrow> nat set option" where
  "jobs_busy n tr = foldl (\<lambda>busy c. Option.bind busy (job_turn n c)) (Some {}) tr"

text \<open>Moves that cover a range piece by piece, in order.\<close>

fun tiles :: "nat \<Rightarrow> nat \<Rightarrow> nat \<Rightarrow> (nat \<times> nat \<times> nat) list \<Rightarrow> bool" where
  "tiles s d n [] \<longleftrightarrow> n = 0"
| "tiles s d n ((s', d', l) # ms) \<longleftrightarrow> s' = s \<and> d' = d \<and> 0 < l \<and> l \<le> n \<and> tiles (s + l) (d + l) (n - l) ms"

lemma tiles_snoc: "tiles s d n ms \<Longrightarrow> 0 < l \<Longrightarrow> tiles s d (n + l) (ms @ [(s + n, d + n, l)])"
proof (induction ms arbitrary: s d n)
  case (Cons m ms)
  obtain s' d' k where m: "m = (s', d', k)" by (cases m)
  have "tiles (s + k) (d + k) (n - k + l) (ms @ [(s + k + (n - k), d + k + (n - k), l)])"
    using Cons.prems m by (intro Cons.IH) auto
  moreover have "k \<le> n" using Cons.prems m by simp
  ultimately show ?case using Cons.prems m by simp
qed simp

lemma tiles_within: "(s', d', l) \<in> set ms \<Longrightarrow> tiles s d n ms \<Longrightarrow> \<exists>k. s' = s + k \<and> d' = d + k \<and> k + l \<le> n"
proof (induction ms arbitrary: s d n)
  case (Cons x ms)
  obtain a b i where x: "x = (a, b, i)" by (cases x)
  show ?case
  proof (cases "(s', d', l) = x")
    case True
    then show ?thesis using Cons.prems(2) x by (intro exI [of _ 0]) auto
  next
    case False
    then obtain k where "s' = s + i + k" "d' = d + i + k" "k + l \<le> n - i" using Cons x by fastforce
    then show ?thesis using Cons.prems(2) x by (intro exI [of _ "i + k"]) auto
  qed
qed simp

lemma tiles_cover: "tiles s d n ms \<Longrightarrow> (\<exists>(s', d', l) \<in> set ms. d' \<le> a \<and> a < d' + l) \<longleftrightarrow> d \<le> a \<and> a < d + n"
proof (induction ms arbitrary: s d n)
  case (Cons x ms)
  obtain b c i where x: "x = (b, c, i)" by (cases x)
  then have t: "c = d" "0 < i" "i \<le> n" "tiles (s + i) (d + i) (n - i) ms" using Cons.prems by auto
  from Cons.IH [OF t(4)] show ?case using t(1-3) x by auto
qed simp

definition trace_ok :: "dml_status \<Rightarrow> nat \<Rightarrow> nat \<Rightarrow> nat \<Rightarrow> nat \<Rightarrow> nat set \<Rightarrow> dml_call list \<Rightarrow> bool" where
  "trace_ok st n src dst k busy tr \<longleftrightarrow>
    tiles src dst k (moves tr) \<and> jobs_busy n tr = Some busy \<and> (\<forall>j < length tr. st j = 0)"

definition vars_ok :: "nat \<Rightarrow> nat \<Rightarrow> nat \<Rightarrow> nat \<Rightarrow> mover \<Rightarrow> bool" where
  "vars_ok src dst len k s \<longleftrightarrow> source s = of_nat (src + k) \<and> dest s = of_nat (dst + k) \<and> src_size s = of_nat (len - k) \<and>
    k \<le> len \<and> src + len < 2 ^ 64 \<and> dst + len < 2 ^ 64"

definition same_vars :: "mover \<Rightarrow> mover \<Rightarrow> bool" where
  "same_vars s s' \<longleftrightarrow> source s' = source s \<and> dest s' = dest s \<and> src_size s' = src_size s"

text \<open>The state at a jump to the error label: the last call is the first one that failed.\<close>

definition call_failed :: "dml_status \<Rightarrow> mover \<Rightarrow> bool" where
  "call_failed st s \<longleftrightarrow> trace s \<noteq> [] \<and> st (length (trace s) - 1) \<noteq> 0 \<and> (\<forall>j < length (trace s) - 1. st j = 0)"

lemma trace_ok_submit:
  assumes "trace_ok st n src dst k busy tr" "i < n" "i \<notin> busy" "0 < l" "st (length tr) = 0"
    and "src + k < 2 ^ 64" "dst + k < 2 ^ 64" "l < 2 ^ 64"
  shows "trace_ok st n src dst (k + l) (insert i busy) (tr @ [Submit i (of_nat (src + k)) (of_nat (dst + k)) (of_nat l)])"
  using assms by (auto simp: trace_ok_def moves_def jobs_busy_def less_Suc_eq tiles_snoc unsigned_of_nat take_bit_nat_eq_self simp del: of_nat_add)

lemma trace_ok_wait:
  assumes "trace_ok st n src dst k busy tr" "i \<in> busy" "st (length tr) = 0"
  shows "trace_ok st n src dst k (busy - {i}) (tr @ [Wait_job i])"
  using assms by (auto simp: trace_ok_def moves_def jobs_busy_def less_Suc_eq)

lemma call_failed_snoc: "trace_ok st n src dst k busy (trace s) \<Longrightarrow> st (length (trace s)) \<noteq> 0 \<Longrightarrow> call_failed st (s\<lparr>trace := trace s @ [c]\<rparr>)"
  by (simp add: call_failed_def trace_ok_def)

lemma vars_ok_advance:
  assumes "vars_ok src dst len k s" "same_vars s s'" "k + unat bs \<le> len"
  shows "vars_ok src dst len (k + unat bs) (advance bs s')"
proof -
  have "len - k = len - (k + unat bs) + unat bs" using assms(3) by simp
  then have "(of_nat (len - k) :: u64) = of_nat (len - (k + unat bs)) + of_nat (unat bs)" by (metis of_nat_add)
  then have "(of_nat (len - k) :: u64) - bs = of_nat (len - (k + unat bs))" by (simp del: of_nat_diff)
  then show ?thesis using assms by (simp add: vars_ok_def advance_def same_vars_def add.assoc del: of_nat_diff)
qed

lemma wait_jobs_ok:
  assumes "trace_ok st n src dst k busy (trace s)" "distinct is" "set is \<subseteq> busy"
  shows "case wait_jobs st is s of
      Inl s' \<Rightarrow> call_failed st s'
    | Inr s' \<Rightarrow> trace_ok st n src dst k (busy - set is) (trace s') \<and> same_vars s s'"
  using assms
proof (induction "is" arbitrary: s busy)
  case Nil
  then show ?case by (simp add: same_vars_def)
next
  case (Cons i "is")
  let ?s = "s\<lparr>trace := trace s @ [Wait_job i]\<rparr>"
  show ?case
  proof (cases "st (length (trace s)) = 0")
    case True
    have "trace_ok st n src dst k (busy - {i}) (trace ?s)" using trace_ok_wait [OF Cons.prems(1) _ True, of i] Cons.prems(3) by simp
    moreover have "distinct is" "set is \<subseteq> busy - {i}" using Cons.prems(2,3) by auto
    moreover have "busy - {i} - set is = busy - set (i # is)" by auto
    ultimately show ?thesis using Cons.IH [of "busy - {i}" ?s] True by (auto simp: same_vars_def split: sum.splits)
  next
    case False
    then show ?thesis using call_failed_snoc [OF Cons.prems(1)] by simp
  qed
qed

lemma submit_job_ok:
  assumes "trace_ok st n src dst k busy (trace s)" "vars_ok src dst len k s" "i < n" "i \<notin> busy" "0 < unat l" "k + unat l \<le> len"
  shows "case submit_job st i l s of
      (False, s') \<Rightarrow> call_failed st s'
    | (True, s') \<Rightarrow> trace_ok st n src dst (k + unat l) (insert i busy) (trace s') \<and> same_vars s s'"
proof (cases "st (length (trace s)) = 0")
  case True
  have "src + k < 2 ^ 64" "dst + k < 2 ^ 64" "unat l < 2 ^ 64" using assms(2,6) by (auto simp: vars_ok_def)
  from trace_ok_submit [OF assms(1,3,4,5) True this] show ?thesis
    using True assms(2) by (auto simp: submit_job_def vars_ok_def same_vars_def simp del: of_nat_add)
next
  case False
  then show ?thesis using call_failed_snoc [OF assms(1)] by (simp add: submit_job_def)
qed

lemma unat_src_size: "vars_ok src dst len k s \<Longrightarrow> unat (src_size s) = len - k"
  by (auto simp: vars_ok_def unsigned_of_nat take_bit_nat_eq_self_iff simp del: of_nat_diff)

lemma vars_ok_cong: "vars_ok src dst len k s \<Longrightarrow> same_vars s s' \<Longrightarrow> vars_ok src dst len k s'"
  by (simp add: vars_ok_def same_vars_def)

lemma submit_round_ok:
  assumes "trace_ok st n src dst k busy (trace s)" "vars_ok src dst len k s" "0 < unat bs" "k + length is * unat bs \<le> len"
    and "distinct is" "set is \<subseteq> {..<n}" "set is \<inter> busy = {}"
  shows "case submit_round st bs is s of
      Inl s' \<Rightarrow> call_failed st s'
    | Inr s' \<Rightarrow> trace_ok st n src dst (k + length is * unat bs) (busy \<union> set is) (trace s') \<and> vars_ok src dst len (k + length is * unat bs) s'"
  using assms
proof (induction "is" arbitrary: s k busy)
  case (Cons i "is")
  have i: "i < n" "i \<notin> busy" "k + unat bs \<le> len" using Cons.prems by auto
  obtain b s' where sub: "submit_job st i bs s = (b, s')" by fastforce
  note ok = submit_job_ok [OF Cons.prems(1,2) i(1,2) Cons.prems(3) i(3), unfolded sub]
  show ?case
  proof (cases b)
    case True
    let ?s = "advance bs s'"
    have t: "trace_ok st n src dst (k + unat bs) (insert i busy) (trace ?s)" "vars_ok src dst len (k + unat bs) ?s"
      using ok True vars_ok_advance [OF Cons.prems(2) _ i(3)] by (simp_all add: advance_def)
    have "case submit_round st bs is ?s of
        Inl s' \<Rightarrow> call_failed st s'
      | Inr s' \<Rightarrow> trace_ok st n src dst (k + unat bs + length is * unat bs) (insert i busy \<union> set is) (trace s') \<and>
          vars_ok src dst len (k + unat bs + length is * unat bs) s'"
      by (rule Cons.IH [OF t]) (use Cons.prems in auto)
    then show ?thesis using sub True by (auto split: sum.splits simp: add.assoc)
  next
    case False
    then show ?thesis using sub ok by simp
  qed
qed simp

lemma full_round_ok:
  assumes "trace_ok st n src dst k {} (trace s)" "vars_ok src dst len k s" "0 < unat bs" "k + n * unat bs \<le> len"
  shows "case full_round st bs n s of
      Inl s' \<Rightarrow> call_failed st s'
    | Inr s' \<Rightarrow> trace_ok st n src dst (k + n * unat bs) {} (trace s') \<and> vars_ok src dst len (k + n * unat bs) s'"
proof -
  have sub: "case submit_round st bs [0..<n] s of
      Inl s' \<Rightarrow> call_failed st s'
    | Inr s' \<Rightarrow> trace_ok st n src dst (k + n * unat bs) {..<n} (trace s') \<and> vars_ok src dst len (k + n * unat bs) s'"
    using submit_round_ok [OF assms(1-3), of "[0..<n]"] assms(4) by (auto simp: atLeast0LessThan split: sum.splits)
  then show ?thesis
  proof (cases "submit_round st bs [0..<n] s")
    case (Inr s')
    then show ?thesis
      using sub wait_jobs_ok [of st n src dst "k + n * unat bs" "{..<n}" s' "[0..<n]"] vars_ok_cong [of src dst len _ s']
      by (auto simp: full_round_def atLeast0LessThan split: sum.splits)
  qed (simp add: full_round_def)
qed

text \<open>The outer loop ends: every round takes a positive number of bytes off the rest.\<close>

lemma full_rounds_ok:
  assumes "trace_ok st n src dst k {} (trace s)" "vars_ok src dst len k s" "0 < unat bs" "0 < n" "unat mx = n * unat bs"
  shows "\<exists>r. full_rounds st bs n mx s = Some r \<and>
    (case r of Inl s' \<Rightarrow> call_failed st s'
     | Inr s' \<Rightarrow> (\<exists>k'. trace_ok st n src dst k' {} (trace s') \<and> vars_ok src dst len k' s' \<and> len - k' \<le> n * unat bs))"
  using assms(1,2)
proof (induction "len - k" arbitrary: k s rule: less_induct)
  case less
  have size: "unat (src_size s) = len - k" by (rule unat_src_size [OF less.prems(2)])
  show ?case
  proof (cases "mx < src_size s")
    case False
    then have "len - k \<le> n * unat bs" using size assms(5) by (simp add: word_less_nat_alt)
    then show ?thesis using False less.prems by (subst full_rounds.simps) auto
  next
    case True
    then have more: "n * unat bs < len - k" using size assms(5) by (simp add: word_less_nat_alt)
    then have ok: "case full_round st bs n s of
        Inl s' \<Rightarrow> call_failed st s'
      | Inr s' \<Rightarrow> trace_ok st n src dst (k + n * unat bs) {} (trace s') \<and> vars_ok src dst len (k + n * unat bs) s'"
      by (intro full_round_ok [OF less.prems assms(3)]) simp
    show ?thesis
    proof (cases "full_round st bs n s")
      case (Inl s')
      then show ?thesis using True ok by (subst full_rounds.simps) simp
    next
      case (Inr s')
      have "0 < n * unat bs" using assms(3,4) by simp
      then have "len - (k + n * unat bs) < len - k" using more by linarith
      from less.hyps [OF this, of s'] show ?thesis using True ok Inr by (subst full_rounds.simps) simp
    qed
  qed
qed

lemma last_blocks_ok:
  assumes "trace_ok st n src dst k {..<i} (trace s)" "vars_ok src dst len k s" "0 < unat bs" "i \<le> n"
    and "len - k \<le> (n - i) * unat bs"
  shows "case last_blocks st bs n i s of
      Inl s' \<Rightarrow> call_failed st s'
    | Inr (i', s') \<Rightarrow> (\<exists>k'. trace_ok st n src dst k' {..<i'} (trace s') \<and> vars_ok src dst len k' s' \<and>
        i' \<le> n \<and> len - k' \<le> unat bs \<and> (k' < len \<longrightarrow> i' < n))"
  using assms
proof (induction "n - i" arbitrary: i s k)
  case 0
  then show ?case by (subst last_blocks.simps) auto
next
  case (Suc x)
  have size: "unat (src_size s) = len - k" by (rule unat_src_size [OF Suc.prems(2)])
  have i: "i < n" "i \<notin> {..<i}" using Suc.hyps(2) by auto
  show ?case
  proof (cases "bs < src_size s")
    case False
    then have "len - k \<le> unat bs" using size by (simp add: word_less_nat_alt)
    then show ?thesis using False i Suc.prems by (subst last_blocks.simps) auto
  next
    case True
    then have more: "unat bs < len - k" using size by (simp add: word_less_nat_alt)
    then have k: "k + unat bs \<le> len" by simp
    obtain b s' where sub: "submit_job st i bs s = (b, s')" by fastforce
    note ok = submit_job_ok [OF Suc.prems(1,2) i Suc.prems(3) k, unfolded sub]
    show ?thesis
    proof (cases b)
      case False
      then show ?thesis using ok sub True i by (subst last_blocks.simps) simp
    next
      case b: True
      let ?s = "advance bs s'"
      have t: "trace_ok st n src dst (k + unat bs) {..<Suc i} (trace ?s)" "vars_ok src dst len (k + unat bs) ?s"
        using ok b vars_ok_advance [OF Suc.prems(2) _ k] by (simp_all add: advance_def lessThan_Suc)
      have "len - k \<le> unat bs + (n - Suc i) * unat bs" using Suc.prems(5) i by (metis Suc_diff_Suc mult_Suc)
      then have rest: "len - (k + unat bs) \<le> (n - Suc i) * unat bs" by simp
      have size': "unat (src_size ?s) = len - (k + unat bs)" by (rule unat_src_size [OF t(2)])
      show ?thesis
      proof (cases "src_size ?s < bs")
        case True
        have "k + unat bs < len \<longrightarrow> Suc i < n" using rest by (cases "n - Suc i") auto
        moreover have "len - (k + unat bs) \<le> unat bs" using True size' by (simp add: word_less_nat_alt)
        ultimately show ?thesis using True sub b \<open>bs < src_size s\<close> i t by (subst last_blocks.simps) (auto simp: Let_def)
      next
        case False
        have "x = n - Suc i" "Suc i \<le> n" using Suc.hyps(2) by auto
        from Suc.hyps(1) [OF this(1) t Suc.prems(3) this(2) rest] show ?thesis
          using False sub b \<open>bs < src_size s\<close> i by (subst last_blocks.simps) (simp add: Let_def)
      qed
    qed
  qed
qed

lemma last_part_ok:
  assumes "trace_ok st n src dst k {..<i} (trace s)" "vars_ok src dst len k s" "k < len \<longrightarrow> i < n"
  shows "case last_part st n i s of
      Done (Inl s') \<Rightarrow> call_failed st s'
    | Done (Inr (i', s')) \<Rightarrow> trace_ok st n src dst len {..<i'} (trace s')
    | _ \<Rightarrow> False"
proof -
  have size: "unat (src_size s) = len - k" by (rule unat_src_size [OF assms(2)])
  have k: "k \<le> len" using assms(2) by (simp add: vars_ok_def)
  show ?thesis
  proof (cases "0 < src_size s")
    case True
    then have "k < len" "0 < unat (src_size s)" using size by (auto simp: word_less_nat_alt)
    then have "i < n" "i \<notin> {..<i}" "k + unat (src_size s) \<le> len" using assms(3) size by auto
    from submit_job_ok [OF assms(1,2) this(1,2) \<open>0 < unat (src_size s)\<close> this(3)]
    show ?thesis using True \<open>i < n\<close> size k by (auto simp: last_part_def lessThan_Suc split: bool.splits)
  next
    case False
    then have "k = len" using size k by (simp add: word_less_nat_alt)
    then show ?thesis using False assms(1) by (simp add: last_part_def)
  qed
qed

definition move_ok :: "dml_status \<Rightarrow> nat \<Rightarrow> nat \<Rightarrow> nat \<Rightarrow> nat \<Rightarrow> bool \<times> dml_call list \<Rightarrow> bool" where
  "move_ok st n src dst len r \<longleftrightarrow>
    (case r of
       (True, tr) \<Rightarrow> trace_ok st n src dst len {} tr
     | (False, tr) \<Rightarrow> (\<exists>s. call_failed st s \<and> tr = finalize_jobs n s))"

lemma move_failed: "call_failed st s \<Longrightarrow> move_ok st n src dst len (False, finalize_jobs n s)"
  by (auto simp: move_ok_def)

lemma move_rest_ok:
  assumes "trace_ok st n src dst k {} (trace s)" "vars_ok src dst len k s" "len - k \<le> n * unat bs" "0 < unat bs"
  shows "\<exists>r. move_rest st bs n s = Done r \<and> move_ok st n src dst len r"
proof (cases "last_blocks st bs n 0 s")
  case (Inl s2)
  then show ?thesis using last_blocks_ok [of st n src dst k 0 s len bs] assms move_failed by (simp add: move_rest_def)
next
  case (Inr q)
  obtain i s2 where q: "q = (i, s2)" by (cases q)
  obtain k2 where k2: "trace_ok st n src dst k2 {..<i} (trace s2)" "vars_ok src dst len k2 s2" "k2 < len \<longrightarrow> i < n"
    using last_blocks_ok [of st n src dst k 0 s len bs] assms Inr q by auto
  note last = last_part_ok [OF k2]
  show ?thesis
  proof (cases "last_part st n i s2")
    case (Done x)
    show ?thesis
    proof (cases x)
      case (Inl s3)
      then show ?thesis using last Done Inr q move_failed by (simp add: move_rest_def)
    next
      case Inr3: (Inr y)
      obtain u s3 where y: "y = (u, s3)" by (cases y)
      have "trace_ok st n src dst len {..<u} (trace s3)" using last Done Inr3 y by simp
      from wait_jobs_ok [OF this, of "[0..<u]"] show ?thesis using Done Inr Inr3 q y move_failed
        by (cases "wait_jobs st [0..<u] s3") (auto simp: move_rest_def move_ok_def atLeast_upt)
    qed
  qed (use last in auto)
qed

lemma dsa_move_data_ok:
  assumes "0 < job_num" "0 < unat bs" "nat job_num * unat bs < 2 ^ 64"
    and "unat src + unat len < 2 ^ 64" "unat dst + unat len < 2 ^ 64"
  shows "\<exists>r. dsa_move_data st job_num src dst len bs = Some (Done r) \<and> move_ok st (nat job_num) (unat src) (unat dst) (unat len) r"
proof -
  let ?n = "nat job_num" and ?s0 = "\<lparr>source = src, dest = dst, src_size = len, trace = []\<rparr>"
  have "bs * of_int job_num = of_nat (unat bs * ?n)" using assms(1) by simp
  then have "unat (bs * of_int job_num) = ?n * unat bs"
    using assms(3) by (simp add: unsigned_of_nat take_bit_nat_eq_self_iff mult.commute del: of_nat_mult)
  moreover have "trace_ok st ?n (unat src) (unat dst) 0 {} (trace ?s0)" by (simp add: trace_ok_def moves_def jobs_busy_def)
  moreover have "vars_ok (unat src) (unat dst) (unat len) 0 ?s0" using assms by (simp add: vars_ok_def)
  ultimately obtain r where r: "full_rounds st bs ?n (bs * of_int job_num) ?s0 = Some r"
    "case r of Inl s' \<Rightarrow> call_failed st s'
     | Inr s' \<Rightarrow> (\<exists>k'. trace_ok st ?n (unat src) (unat dst) k' {} (trace s') \<and> vars_ok (unat src) (unat dst) (unat len) k' s' \<and>
         unat len - k' \<le> ?n * unat bs)"
    using full_rounds_ok [of st ?n "unat src" "unat dst" 0 ?s0 "unat len" bs "bs * of_int job_num"] assms(1,2) by auto
  show ?thesis
    using r assms(2) move_rest_ok move_failed by (cases r) (fastforce simp: dsa_move_data_def)+
qed

section \<open>The device\<close>

text \<open>A completed move between ranges that do not overlap copies the bytes and changes nothing else.\<close>

locale dml_engine =
  fixes move :: "nat \<times> nat \<times> nat \<Rightarrow> (nat \<Rightarrow> u8) \<Rightarrow> (nat \<Rightarrow> u8)"
  assumes move_copies: "s + l \<le> d \<or> d + l \<le> s \<Longrightarrow> move (s, d, l) m a = (if d \<le> a \<and> a < d + l then m (s + (a - d)) else m a)"
begin

text \<open>Pieces of one copy may be moved in any order, because no piece writes what another reads.\<close>

lemma fold_move:
  assumes "s + n \<le> d \<or> d + n \<le> s" "\<And>s' d' l. (s', d', l) \<in> set ms \<Longrightarrow> \<exists>k. s' = s + k \<and> d' = d + k \<and> k + l \<le> n"
  shows "fold move ms m a = (if \<exists>(s', d', l) \<in> set ms. d' \<le> a \<and> a < d' + l then m (s + (a - d)) else m a)"
  using assms(2)
proof (induction ms arbitrary: m)
  case (Cons x ms)
  obtain s' d' l where x: "x = (s', d', l)" by (cases x)
  obtain k where k: "s' = s + k" "d' = d + k" "k + l \<le> n" using Cons.prems [of s' d' l] x by auto
  have one: "move x m a' = (if d' \<le> a' \<and> a' < d' + l then m (s' + (a' - d')) else m a')" for a'
    unfolding x using assms(1) k by (intro move_copies) auto
  have rest: "fold move ms (move x m) a =
      (if \<exists>(s', d', l) \<in> set ms. d' \<le> a \<and> a < d' + l then move x m (s + (a - d)) else move x m a)"
    using Cons.prems by (intro Cons.IH) auto
  show ?case
  proof (cases "\<exists>(s', d', l) \<in> set ms. d' \<le> a \<and> a < d' + l")
    case True
    then obtain s1 d1 l1 where t: "(s1, d1, l1) \<in> set ms" "d1 \<le> a" "a < d1 + l1" by auto
    then obtain k1 where "d1 = d + k1" "k1 + l1 \<le> n" using Cons.prems [of s1 d1 l1] by auto
    then have "d \<le> a" "a - d < n" using t by auto
    then have "move x m (s + (a - d)) = m (s + (a - d))" using one assms(1) k by auto
    then show ?thesis using rest True by (auto simp: x)
  next
    case False
    have "d' \<le> a \<Longrightarrow> s' + (a - d') = s + (a - d)" using k by simp
    then show ?thesis using rest False one [of a] by (auto simp: x)
  qed
qed simp

lemma tiles_move:
  assumes "tiles s d n ms" "s + n \<le> d \<or> d + n \<le> s" "mset ms' = mset ms"
  shows "fold move ms' m a = (if d \<le> a \<and> a < d + n then m (s + (a - d)) else m a)"
proof -
  have "set ms' = set ms" using assms(3) by (rule mset_eq_setD)
  moreover have "\<exists>k. s' = s + k \<and> d' = d + k \<and> k + l \<le> n" if "(s', d', l) \<in> set ms" for s' d' l
    using that assms(1) by (rule tiles_within)
  ultimately have "fold move ms' m a = (if \<exists>(s', d', l) \<in> set ms. d' \<le> a \<and> a < d' + l then m (s + (a - d)) else m a)"
    using fold_move [OF assms(2), of ms'] by simp
  then show ?thesis using tiles_cover [OF assms(1), of a] by simp
qed

end

text \<open>The move operation as the library documents it, on a flat memory.\<close>

definition mem_move :: "nat \<times> nat \<times> nat \<Rightarrow> (nat \<Rightarrow> u8) \<Rightarrow> (nat \<Rightarrow> u8)" where
  "mem_move = (\<lambda>(s, d, l) m a. if d \<le> a \<and> a < d + l then m (s + (a - d)) else m a)"

interpretation mem: dml_engine mem_move
  by unfold_locales (simp add: mem_move_def)

section \<open>Set-up of the jobs\<close>

lemma init_jobs_run:
  assumes "length job = n" "\<And>i. i < length tr \<Longrightarrow> st i = 0" "length tr = Suc k" "k + m = n"
  shows "(\<forall>j < m. st (Suc k + j) = 0) \<and>
      init_jobs st alloc [k..<n] job tr = (True, take k job @ map alloc [k..<n], tr @ map (\<lambda>i. Init_job (alloc i)) [k..<n]) \<or>
    (\<exists>j < m. st (Suc k + j) \<noteq> 0 \<and> init_jobs st alloc [k..<n] job tr =
      (False, take k job @ map alloc [k..<k + j] @ drop (k + j) job, tr @ map (\<lambda>i. Init_job (alloc i)) [k..<Suc (k + j)]))"
  using assms
proof (induction m arbitrary: k job tr)
  case (Suc m)
  have up: "[k..<n] = k # [Suc k..<n]" using Suc.prems(4) by (simp add: upt_conv_Cons)
  show ?case
  proof (cases "st (Suc k) = 0")
    case False
    then have "init_jobs st alloc [k..<n] job tr = (False, job, tr @ [Init_job (alloc k)])" using up Suc.prems(3) by simp
    then show ?thesis using False by (intro disjI2 exI [of _ 0]) simp
  next
    case True
    let ?job = "job[k := alloc k]" and ?tr = "tr @ [Init_job (alloc k)]"
    have step: "init_jobs st alloc [k..<n] job tr = init_jobs st alloc [Suc k..<n] ?job ?tr"
      using up True Suc.prems(3) by simp
    have k: "k < length job" using Suc.prems(1,4) by simp
    have take: "take (Suc k) ?job = take k job @ [alloc k]" using k by (simp add: take_Suc_conv_app_nth)
    have zero: "(\<forall>j < Suc m. st (Suc k + j) = 0) \<longleftrightarrow> (\<forall>j < m. st (Suc (Suc k) + j) = 0)"
      using True by (auto simp: less_Suc_eq_0_disj)
    have IH: "(\<forall>j < m. st (Suc (Suc k) + j) = 0) \<and> init_jobs st alloc [Suc k..<n] ?job ?tr =
        (True, take (Suc k) ?job @ map alloc [Suc k..<n], ?tr @ map (\<lambda>i. Init_job (alloc i)) [Suc k..<n]) \<or>
      (\<exists>j < m. st (Suc (Suc k) + j) \<noteq> 0 \<and> init_jobs st alloc [Suc k..<n] ?job ?tr =
        (False, take (Suc k) ?job @ map alloc [Suc k..<Suc k + j] @ drop (Suc k + j) ?job,
          ?tr @ map (\<lambda>i. Init_job (alloc i)) [Suc k..<Suc (Suc k + j)]))"
      by (rule Suc.IH) (use Suc.prems True in \<open>auto simp: less_Suc_eq\<close>)
    then show ?thesis
    proof (elim disjE conjE exE)
      assume "\<forall>j < m. st (Suc (Suc k) + j) = 0" "init_jobs st alloc [Suc k..<n] ?job ?tr =
        (True, take (Suc k) ?job @ map alloc [Suc k..<n], ?tr @ map (\<lambda>i. Init_job (alloc i)) [Suc k..<n])"
      then show ?thesis unfolding step zero take using up by (intro disjI1) simp
    next
      fix j assume j: "j < m" "st (Suc (Suc k) + j) \<noteq> 0" "init_jobs st alloc [Suc k..<n] ?job ?tr =
        (False, take (Suc k) ?job @ map alloc [Suc k..<Suc k + j] @ drop (Suc k + j) ?job,
          ?tr @ map (\<lambda>i. Init_job (alloc i)) [Suc k..<Suc (Suc k + j)])"
      have "[k..<k + Suc j] = k # [Suc k..<Suc k + j]" "[k..<Suc (k + Suc j)] = k # [Suc k..<Suc (Suc k + j)]"
        by (simp_all add: upt_conv_Cons)
      then show ?thesis unfolding step using j take by (intro disjI2 exI [of _ "Suc j"]) simp
    qed
  qed
qed simp

text \<open>
  \<open>init_dsa\<close> sets up all jobs or none. With memory for the array and the jobs it returns the array with every job initialised
  when all calls succeed; otherwise it returns \<open>NULL\<close> after the first call that fails, and the jobs initialised
  before are finalized, each once and in order.
\<close>

theorem init_dsa_all_or_nothing:
  assumes "\<And>i. alloc i \<noteq> 0"
  shows "(\<forall>k \<le> n. st k = 0) \<and> init_dsa st True alloc n =
      Done (Some (map alloc [0..<n]), Get_size # map (\<lambda>i. Init_job (alloc i)) [0..<n]) \<or>
    st 0 \<noteq> 0 \<and> init_dsa st True alloc n = Done (None, [Get_size]) \<or>
    (\<exists>j < n. st 0 = 0 \<and> st (Suc j) \<noteq> 0 \<and> init_dsa st True alloc n =
      Done (None, Get_size # map (\<lambda>i. Init_job (alloc i)) [0..<Suc j] @ map (\<lambda>i. Finalize_job (alloc i)) [0..<j]))"
proof (cases "st 0 = 0")
  case True
  have zero: "(\<forall>k \<le> n. st k = 0) \<longleftrightarrow> (\<forall>j < n. st (Suc j) = 0)" using True by (metis Suc_le_eq le_SucE less_Suc_eq_le not0_implies_Suc zero_less_Suc)
  have keep: "filter ((<) 0) (map alloc xs) = map alloc xs" for xs using assms by (induction xs) auto
  have "(\<forall>j < n. st (Suc j) = 0) \<and> init_jobs st alloc [0..<n] (replicate n 0) [Get_size] =
      (True, map alloc [0..<n], Get_size # map (\<lambda>i. Init_job (alloc i)) [0..<n]) \<or>
    (\<exists>j < n. st (Suc j) \<noteq> 0 \<and> init_jobs st alloc [0..<n] (replicate n 0) [Get_size] =
      (False, map alloc [0..<j] @ replicate (n - j) 0, Get_size # map (\<lambda>i. Init_job (alloc i)) [0..<Suc j]))"
    using init_jobs_run [of "replicate n 0" n "[Get_size]" st 0 n alloc] True by simp
  then show ?thesis
  proof (elim disjE conjE exE)
    fix j assume "j < n" "st (Suc j) \<noteq> 0" "init_jobs st alloc [0..<n] (replicate n 0) [Get_size] =
      (False, map alloc [0..<j] @ replicate (n - j) 0, Get_size # map (\<lambda>i. Init_job (alloc i)) [0..<Suc j])"
    then show ?thesis using True by (intro disjI2 exI [of _ j]) (simp add: init_dsa_def keep comp_def)
  qed (use True zero in \<open>simp add: init_dsa_def\<close>)
qed (simp add: init_dsa_def)

section \<open>Copying\<close>

text \<open>With no jobs or empty blocks the outer loop makes no progress.\<close>

lemma full_rounds_stuck:
  assumes "full_rounds st bs n mx s = Some r"
  shows "n = 0 \<longrightarrow> mx = 0 \<longrightarrow> src_size s = 0"
  using assms
  by (rule full_rounds.raw_induct [where P = "\<lambda>st bs n mx s r. n = 0 \<longrightarrow> mx = 0 \<longrightarrow> src_size s = 0", rotated])
    (auto simp: full_round_def word_gt_0 split: if_splits)

lemma dsa_move_data_without_jobs: "0 < len \<Longrightarrow> dsa_move_data st 0 src dst len bs = None"
  using full_rounds_stuck [of st bs 0 0 "\<lparr>source = src, dest = dst, src_size = len, trace = []\<rparr>"]
  by (cases "full_rounds st bs 0 0 \<lparr>source = src, dest = dst, src_size = len, trace = []\<rparr>") (auto simp: dsa_move_data_def)

text \<open>
  C34: \<open>dsa_move_data\<close> copies the range. With at least one job, blocks that are not empty and ranges inside the address space it returns; it
  never indexes behind the array of jobs. When every call succeeds, each job is submitted only
  when it is free and waited for before the return, the moves cover the range piece by piece, and whatever the
  order in which the device completes them, the destination holds the source and nothing else has
  changed. When a call fails, no further job is submitted and all jobs are finalized, used or not.
\<close>

theorem dsa_move_data_copies:
  assumes "dml_engine move" "0 < job_num" "0 < unat bs" "nat job_num * unat bs < 2 ^ 64"
    and "unat src + unat len < 2 ^ 64" "unat dst + unat len < 2 ^ 64" "unat src + unat len \<le> unat dst \<or> unat dst + unat len \<le> unat src"
  shows "\<exists>ok tr. dsa_move_data st job_num src dst len bs = Some (Done (ok, tr)) \<and>
    (if ok then (\<forall>j < length tr. st j = 0) \<and> tiles (unat src) (unat dst) (unat len) (moves tr) \<and> jobs_busy (nat job_num) tr = Some {} \<and>
       (\<forall>ms m a. mset ms = mset (moves tr) \<longrightarrow>
         fold move ms m a = (if unat dst \<le> a \<and> a < unat dst + unat len then m (unat src + (a - unat dst)) else m a))
     else (\<exists>calls. tr = calls @ map Finalize_job [0..<nat job_num] \<and> calls \<noteq> [] \<and> st (length calls - 1) \<noteq> 0 \<and>
       (\<forall>j < length calls - 1. st j = 0)))"
proof -
  obtain ok tr where r: "dsa_move_data st job_num src dst len bs = Some (Done (ok, tr))"
    "move_ok st (nat job_num) (unat src) (unat dst) (unat len) (ok, tr)"
    using dsa_move_data_ok [OF assms(2-6)] by force
  show ?thesis
  proof (cases ok)
    case True
    then have t: "trace_ok st (nat job_num) (unat src) (unat dst) (unat len) {} tr" using r(2) by (simp add: move_ok_def)
    then show ?thesis using r True dml_engine.tiles_move [OF assms(1) _ assms(7)] unfolding trace_ok_def by auto
  next
    case False
    then show ?thesis using r by (auto simp: move_ok_def finalize_jobs_def call_failed_def)
  qed
qed

theorem dsa_move_data_copies_witness:
  "\<exists>ok tr. dsa_move_data (\<lambda>_. 0) DSA_JOB_NUM 0x10000000 0x20000000 0x800000 DSA_MOVE_BLOCK = Some (Done (ok, tr)) \<and> ok \<and>
    tiles 0x10000000 0x20000000 0x800000 (moves tr) \<and>
    (\<forall>m a. fold mem_move (moves tr) m a = (if 0x20000000 \<le> a \<and> a < 0x20800000 then m (0x10000000 + (a - 0x20000000)) else m a))"
  using dsa_move_data_copies [OF mem.dml_engine_axioms, where job_num = DSA_JOB_NUM and bs = DSA_MOVE_BLOCK and src = "0x10000000" and len = "0x800000"
      and dst = "0x20000000" and st = "\<lambda>_. 0"]
  by (auto simp: DSA_JOB_NUM_def DSA_MOVE_BLOCK_def split: if_splits)

end
