(* ===== verification/Dsa_Sharing.thy ===== *)
theory Dsa_Sharing
  imports Weak_Sharing Dsa_Move
begin

text \<open>
  The protocol of theory \<open>Meta_Sharing\<close> when the data are copied by the accelerator, \<^verbatim>\<open>cxl_memory_sharing/dsa_meta_write.c\<close> and
  \<^verbatim>\<open>dsa_meta_read.c\<close>. The flag is handled by the same code; between, \<open>dsa_move_data\<close> moves the block.

  A move job writes to memory, and the copy of the line in the cache of its own host is dropped; it
  reads through the cache of its host. The lines of a move are moved in any order, interleaved with everything else,
  and the program goes on once the lines of all jobs it waited for are there. Both programs ignore
  how the move ended: after a failed call they go on as well.

  Flushes of the two programs take effect late, as in theory \<open>Weak_Sharing\<close>; the run with a failed call needs only the order of the program.
\<close>

section \<open>The programs\<close>

text \<open>Where the buffer and the data are mapped in each program, and the call results that are possible.\<close>

record dsa_setup =
  w_dram :: nat
  w_data :: nat
  r_dram :: nat
  r_data :: nat
  possible :: "dml_status \<Rightarrow> bool"

record dsa_share =
  base :: share
  moved :: "nat set"
  loaded :: "nat set"

text \<open>The lines of the block at \<open>dst\<close> that moves write: every byte is in one of them.\<close>

definition lines_written :: "nat \<Rightarrow> dml_call list \<Rightarrow> nat set" where
  "lines_written dst tr = {i. 1 \<le> i \<and> (\<forall>j < 64. \<exists>(s, d, l) \<in> set (moves tr). d \<le> dst + 64 * (i - 1) + j \<and> dst + 64 * (i - 1) + j < d + l)}"

text \<open>The call of \<open>dsa_move_data\<close> in the writer and in the reader, which moves the block in one piece.\<close>

definition writer_move :: "dsa_setup \<Rightarrow> nat \<Rightarrow> dml_status \<Rightarrow> (bool \<times> dml_call list) outcome option" where
  "writer_move cfg n st = dsa_move_data st DSA_JOB_NUM (of_nat (w_dram cfg)) (of_nat (w_data cfg)) (of_nat (64 * n)) DSA_MOVE_BLOCK"

definition reader_move :: "dsa_setup \<Rightarrow> nat \<Rightarrow> dml_status \<Rightarrow> (bool \<times> dml_call list) outcome option" where
  "reader_move cfg n st = dsa_move_data st DSA_JOB_NUM (of_nat (r_data cfg)) (of_nat (r_dram cfg)) (of_nat (64 * n)) (of_nat (64 * n))"

text \<open>A step of the loop of the writer and of the reader; the lines of a move are one step each. First with flushes that take effect at once.\<close>

inductive dsa_write_step :: "dsa_setup \<Rightarrow> nat \<Rightarrow> dsa_share \<Rightarrow> dsa_share \<Rightarrow> bool" for cfg n where
  writer: "filled n f \<Longrightarrow> (\<forall>k. wpc (base s) \<noteq> W_copy k) \<Longrightarrow> dsa_write_step cfg n s (s\<lparr>base := writer_step n f (base s), moved := {}\<rparr>)"
| write_line: "wpc (base s) = W_copy k \<Longrightarrow> 1 \<le> i \<Longrightarrow> i \<le> n \<Longrightarrow>
    dsa_write_step cfg n s (s\<lparr>base := (base s)\<lparr>smem := (smem (base s))(i := wbuf (base s) i), wcache := drop_line (wcache (base s)) i\<rparr>,
      moved := insert i (moved s)\<rparr>)"
| write_done: "wpc (base s) = W_copy k \<Longrightarrow> possible cfg st \<Longrightarrow> writer_move cfg n st = Some (Done (ok, tr)) \<Longrightarrow>
    (ok \<longrightarrow> lines_written (w_data cfg) tr \<subseteq> moved s) \<Longrightarrow> dsa_write_step cfg n s (s\<lparr>base := (base s)\<lparr>wpc := W_set\<rparr>, moved := {}\<rparr>)"

inductive dsa_read_step :: "dsa_setup \<Rightarrow> nat \<Rightarrow> dsa_share \<Rightarrow> dsa_share \<Rightarrow> bool" for cfg n where
  reader: "(\<forall>k. rpc (base s) \<noteq> R_copy k) \<Longrightarrow> dsa_read_step cfg n s (s\<lparr>base := reader_step n (base s), loaded := {}\<rparr>)"
| read_line: "rpc (base s) = R_copy k \<Longrightarrow> 1 \<le> i \<Longrightarrow> i \<le> n \<Longrightarrow>
    dsa_read_step cfg n s (s\<lparr>base := (base s)\<lparr>rbuf := (rbuf (base s))(i := cached_value (smem (base s)) (rcache (base s)) i)\<rparr>,
      loaded := insert i (loaded s)\<rparr>)"
| read_done: "rpc (base s) = R_copy k \<Longrightarrow> possible cfg st \<Longrightarrow> reader_move cfg n st = Some (Done (ok, tr)) \<Longrightarrow>
    (ok \<longrightarrow> lines_written (r_dram cfg) tr \<subseteq> loaded s) \<Longrightarrow> dsa_read_step cfg n s (s\<lparr>base := (base s)\<lparr>rpc := R_clear\<rparr>, loaded := {}\<rparr>)"

inductive dsa_step :: "dsa_setup \<Rightarrow> nat \<Rightarrow> dsa_share \<Rightarrow> dsa_share \<Rightarrow> bool" for cfg n where
  by_writer: "dsa_write_step cfg n s s' \<Longrightarrow> dsa_step cfg n s s'"
| by_reader: "dsa_read_step cfg n s s' \<Longrightarrow> dsa_step cfg n s s'"
| cache: "f = w_evict i \<or> f = r_evict i \<or> f = w_fetch i \<or> f = r_fetch i \<Longrightarrow> dsa_step cfg n s (s\<lparr>base := f (base s)\<rparr>)"

lemmas dsa_steps = dsa_write_step.intros [THEN dsa_step.by_writer] dsa_read_step.intros [THEN dsa_step.by_reader]

text \<open>
  With flushes that take effect late. The instructions of the programs outside their moves, the pending flushes and the caches are those of theory \<open>Weak_Sharing\<close>; a move reads
  through the cache of its host, from which a pending flush has not dropped its line yet. With \<open>sync\<close> the reader waits for its flushes before it submits a job.
\<close>

record weak_dsa =
  code :: weak_share
  written :: "nat set"
  fetched :: "nat set"

inductive weak_dsa_step :: "bool \<Rightarrow> dsa_setup \<Rightarrow> nat \<Rightarrow> weak_dsa \<Rightarrow> weak_dsa \<Rightarrow> bool" for sync cfg n where
  code: "weak_step sync n (code s) c \<Longrightarrow> (\<forall>k. wpc (ordered (code s)) = W_copy k \<longrightarrow> wpc (ordered c) = W_copy k) \<Longrightarrow>
    (\<forall>k. rpc (ordered (code s)) = R_copy k \<longrightarrow> rpc (ordered c) = R_copy k) \<Longrightarrow> weak_dsa_step sync cfg n s (s\<lparr>code := c\<rparr>)"
| write_line: "b = ordered (code s) \<Longrightarrow> wpc b = W_copy k \<Longrightarrow> 1 \<le> i \<Longrightarrow> i \<le> n \<Longrightarrow>
    weak_dsa_step sync cfg n s (s\<lparr>code := (code s)\<lparr>ordered := b\<lparr>smem := (smem b)(i := wbuf b i), wcache := drop_line (wcache b) i\<rparr>\<rparr>,
      written := insert i (written s)\<rparr>)"
| write_done: "b = ordered (code s) \<Longrightarrow> wpc b = W_copy k \<Longrightarrow> possible cfg st \<Longrightarrow> writer_move cfg n st = Some (Done (ok, tr)) \<Longrightarrow>
    (ok \<longrightarrow> lines_written (w_data cfg) tr \<subseteq> written s) \<Longrightarrow>
    weak_dsa_step sync cfg n s (s\<lparr>code := (code s)\<lparr>ordered := b\<lparr>wpc := W_set\<rparr>\<rparr>, written := {}\<rparr>)"
| read_line: "b = ordered (code s) \<Longrightarrow> rpc b = R_copy k \<Longrightarrow> (sync \<longrightarrow> rpend (code s) = {}) \<Longrightarrow> 1 \<le> i \<Longrightarrow> i \<le> n \<Longrightarrow>
    weak_dsa_step sync cfg n s (s\<lparr>code := (code s)\<lparr>ordered := b\<lparr>rbuf := (rbuf b)(i := cached_value (smem b) (rcache b) i)\<rparr>\<rparr>,
      fetched := insert i (fetched s)\<rparr>)"
| read_done: "b = ordered (code s) \<Longrightarrow> rpc b = R_copy k \<Longrightarrow> (sync \<longrightarrow> rpend (code s) = {}) \<Longrightarrow> possible cfg st \<Longrightarrow> reader_move cfg n st = Some (Done (ok, tr)) \<Longrightarrow>
    (ok \<longrightarrow> lines_written (r_dram cfg) tr \<subseteq> fetched s) \<Longrightarrow>
    weak_dsa_step sync cfg n s (s\<lparr>code := (code s)\<lparr>ordered := b\<lparr>rpc := R_clear\<rparr>\<rparr>, fetched := {}\<rparr>)"

definition weak_dsa_of :: "share \<Rightarrow> weak_dsa" where
  "weak_dsa_of s = \<lparr>code = weak s {} {}, written = {}, fetched = {}\<rparr>"

text \<open>The main functions before their loops; an array of jobs that is \<open>NULL\<close> is used by the first move.\<close>

definition dsa_write_main :: "dml_status \<Rightarrow> bool \<Rightarrow> (nat \<Rightarrow> nat) \<Rightarrow> nat \<Rightarrow> bool \<Rightarrow> bool \<Rightarrow> main_run" where
  "dsa_write_main st array job_alloc argc mapped alloc =
    (if argc \<noteq> 2 then Returns 0
     else if \<not> mapped then Faults
     else (case init_dsa st array job_alloc (nat DSA_JOB_NUM) of
             Done (Some jobs, _) \<Rightarrow> if alloc then Enters_loop else Faults_in_loop
           | Done (None, _) \<Rightarrow> Faults_in_loop
           | _ \<Rightarrow> Faults))"

definition dsa_read_main :: "dml_status \<Rightarrow> bool \<Rightarrow> (nat \<Rightarrow> nat) \<Rightarrow> nat \<Rightarrow> bool \<Rightarrow> bool \<Rightarrow> main_run" where
  "dsa_read_main st array job_alloc argc mapped alloc =
    (if argc \<noteq> 2 then Returns 0
     else (case init_dsa st array job_alloc (nat DSA_JOB_NUM) of
             Done (Some jobs, _) \<Rightarrow> if mapped \<and> alloc then Enters_loop else Faults_in_loop
           | Done (None, _) \<Rightarrow> Faults_in_loop
           | _ \<Rightarrow> Faults))"

section \<open>The invariant\<close>

fun dsa_wpc :: "writer_pc \<Rightarrow> bool" where
  "dsa_wpc (W_copy k) \<longleftrightarrow> k = 1"
| "dsa_wpc (W_flush_data k) \<longleftrightarrow> False"
| "dsa_wpc W_load_data \<longleftrightarrow> False"
| "dsa_wpc _ \<longleftrightarrow> True"

fun dsa_rpc :: "reader_pc \<Rightarrow> bool" where
  "dsa_rpc (R_copy k) \<longleftrightarrow> k = 1"
| "dsa_rpc _ \<longleftrightarrow> True"

definition dsa_inv :: "nat \<Rightarrow> weak_dsa \<Rightarrow> bool" where
  "dsa_inv n s \<longleftrightarrow> (let b = ordered (code s) in weak_inv n b (wpend (code s)) (rpend (code s)) \<and> dsa_wpc (wpc b) \<and> dsa_rpc (rpc b) \<and>
    (\<forall>i \<in> written s. wpc b = W_copy 1 \<and> 1 \<le> i \<and> smem b i = wbuf b i) \<and>
    (\<forall>i \<in> fetched s. rpc b = R_copy 1 \<and> 1 \<le> i \<and> rbuf b i = smem b i))"

text \<open>No data line is ever dirty.\<close>

lemma dsa_clean:
  assumes "weak_inv n s P Q" "dsa_wpc (wpc s)" "1 \<le> i"
  shows "wcache s i \<noteq> Some (v, True)" "rcache s i \<noteq> Some (v, True)"
proof -
  have inv: "share_inv n (lag s)" by (rule weak_invD(1) [OF assms(1)])
  have "writer_lag (wpc s) = wpc s" using assms(2) by (cases "wpc s") simp_all
  then show "wcache s i \<noteq> Some (v, True)" using share_invD(2) [OF inv] assms(2,3) by (cases "wpc s") simp_all
  show "rcache s i \<noteq> Some (v, True)" using reader_clean [OF inv assms(3)] by simp
qed

lemma cache_frame:
  assumes "weak_inv n s P Q" "dsa_wpc (wpc s)" "f = w_evict i \<or> f = r_evict i \<or> f = w_fetch i \<or> f = r_fetch i"
  shows "(\<forall>j. 1 \<le> j \<longrightarrow> smem (f s) j = smem s j) \<and> wbuf (f s) = wbuf s \<and> rbuf (f s) = rbuf s \<and> wpc (f s) = wpc s \<and> rpc (f s) = rpc s"
proof -
  have "\<forall>j v. 1 \<le> j \<longrightarrow> wcache s j \<noteq> Some (v, True)" "\<forall>j v. 1 \<le> j \<longrightarrow> rcache s j \<noteq> Some (v, True)"
    using dsa_clean [OF assms(1,2)] by auto
  then show ?thesis
    using assms(3) by (auto simp: w_evict_def r_evict_def w_fetch_def r_fetch_def flush_mem_def split: option.splits bool.splits)
qed

lemma writer_frame:
  assumes "dsa_wpc (wpc s)" "\<forall>k. wpc s \<noteq> W_copy k"
  shows "1 \<le> j \<Longrightarrow> smem (writer_step n f s) j = smem s j" "rbuf (writer_step n f s) = rbuf s" "rpc (writer_step n f s) = rpc s"
    "dsa_wpc (wpc (writer_step n f s))"
  using assms by (cases "wpc s"; simp add: writer_step_def flush_mem_def split: option.splits bool.splits prod.splits)+

lemma reader_frame:
  assumes "weak_inv n s P Q" "dsa_wpc (wpc s)" "\<forall>k. rpc s \<noteq> R_copy k"
  shows "1 \<le> j \<Longrightarrow> smem (reader_step n s) j = smem s j" "wbuf (reader_step n s) = wbuf s" "wpc (reader_step n s) = wpc s"
    "dsa_rpc (rpc (reader_step n s))"
  using assms(3) dsa_clean(2) [OF assms(1,2)]
  by (cases "rpc s"; auto simp: reader_step_def flush_mem_def split: option.splits bool.splits)+

lemma write_line_inv:
  assumes "share_inv n s" "wpc s = W_copy 1" "1 \<le> i"
  shows "share_inv n (s\<lparr>smem := (smem s)(i := wbuf s i), wcache := drop_line (wcache s) i\<rparr>)"
proof -
  let ?s = "s\<lparr>smem := (smem s)(i := wbuf s i), wcache := drop_line (wcache s) i\<rparr>"
  have inv: "flag_inv s" "data_inv n s" "reader_inv n s (rpc s)" "writer_inv n s (W_copy 1)" using assms by (simp_all add: share_inv_def)
  have idle: "\<not> r_active (rpc s)" "\<not> in_flight s" using not_both_active [OF inv(1)] assms(2) by auto
  have "flag_inv ?s" "in_flight ?s = in_flight s" using inv(1) assms(3) by (simp_all add: flag_inv_def in_flight_def drop_line_def)
  moreover have "reader_inv n ?s (rpc s)" using inv(3) idle(1) by (cases "rpc s") simp_all
  moreover have "writer_inv n ?s (W_copy 1)" using inv(4) by (simp add: drop_line_def)
  moreover have "data_inv n ?s" using inv(2) calculation(2) idle(2) by (auto simp: data_inv_def drop_line_def)
  ultimately show ?thesis using assms(2) by (simp add: share_inv_def)
qed

lemma write_done_inv:
  assumes "share_inv n s" "wpc s = W_copy 1" "\<And>i. 1 \<le> i \<Longrightarrow> i \<le> n \<Longrightarrow> smem s i = wbuf s i"
  shows "share_inv n (s\<lparr>wpc := W_set\<rparr>)"
proof (rule wpc_inv [OF assms(1)])
  show "writer_inv n s W_set" using share_invD(2) [OF assms(1)] assms(2,3) by (simp add: settled_def)
  show "flag_ok (smem s 0) (wcache s 0) (rcache s 0) (w_active W_set) (r_active (rpc s))" using share_invD(1) [OF assms(1)] assms(2) by simp
  show "block_ok (block_of_lines n (wbuf s))" using share_invD(4) [OF assms(1)] assms(2) by simp
qed

lemma read_line_inv:
  assumes "share_inv n s" "rpc s = R_flush_data 1"
  shows "share_inv n (s\<lparr>rbuf := (rbuf s)(i := v)\<rparr>)"
proof -
  let ?s = "s\<lparr>rbuf := (rbuf s)(i := v)\<rparr>"
  have "reader_inv n ?s (R_flush_data 1)" using share_invD(3) [OF assms(1)] assms(2) by (simp add: up_to_date_def)
  moreover have "writer_inv n ?s (wpc s)" using share_invD(2) [OF assms(1)] by (rule writer_inv_cong [rotated 2]) simp_all
  moreover have "in_flight ?s = in_flight s" by (simp add: in_flight_def)
  ultimately show ?thesis using assms by (simp add: share_inv_def flag_inv_def data_inv_def)
qed

lemma read_value: "share_inv n s \<Longrightarrow> rpc s = R_copy 1 \<Longrightarrow> 1 \<le> i \<Longrightarrow> i \<le> n \<Longrightarrow> cached_value (smem s) (rcache s) i = smem s i"
  using share_invD(3) [of n s] by (force simp: up_to_date_def cached_value_def)

lemma read_done_inv:
  assumes "share_inv n s" "rpc s = R_copy 1" "\<And>i. 1 \<le> i \<Longrightarrow> i \<le> n \<Longrightarrow> rbuf s i = smem s i"
  shows "share_inv n (s\<lparr>rpc := R_clear\<rparr>)"
  by (rule rpc_inv [OF assms(1)]) (use share_invD(1) [OF assms(1)] assms(2,3) in simp_all)

section \<open>The moves\<close>

text \<open>Addresses that fit: the block and the buffer lie inside the address space.\<close>

definition setup_ok :: "dsa_setup \<Rightarrow> nat \<Rightarrow> bool" where
  "setup_ok cfg n \<longleftrightarrow> 0 < n \<and> 64 * n < 2 ^ 32 \<and> (\<forall>a \<in> {w_dram cfg, w_data cfg, r_dram cfg, r_data cfg}. a + 64 * n < 2 ^ 64)"

lemma tiles_lines:
  assumes "tiles src dst (64 * n) (moves tr)"
  shows "lines_written dst tr = {1..n}"
proof -
  have "(\<forall>j < 64. dst + 64 * (i - 1) + j < dst + 64 * n) \<longleftrightarrow> i \<le> n" if "1 \<le> i" for i
    using that by (auto simp: algebra_simps dest: spec [of _ 0])
  then show ?thesis using tiles_cover [OF assms] by (auto simp: lines_written_def)
qed

lemma complete_move:
  assumes "dsa_move_data st DSA_JOB_NUM (of_nat src) (of_nat dst) (of_nat (64 * n)) bs = Some (Done (ok, tr))" "\<forall>k. st k = 0"
    and "src + 64 * n < 2 ^ 64" "dst + 64 * n < 2 ^ 64" "0 < unat bs"
  shows "ok \<and> lines_written dst tr = {1..n}"
proof -
  have u: "unat (of_nat src :: u64) = src" "unat (of_nat dst :: u64) = dst" "unat (of_nat (64 * n) :: u64) = 64 * n"
    using assms(3,4) by (simp_all add: unsigned_of_nat take_bit_nat_eq_self_iff del: of_nat_mult)
  have "move_ok st (nat DSA_JOB_NUM) src dst (64 * n) (ok, tr)"
    using dsa_move_data_ok [of DSA_JOB_NUM bs "of_nat src" "of_nat (64 * n)" "of_nat dst" st] assms unsigned_less [of bs]
    unfolding u by (simp add: DSA_JOB_NUM_def)
  then show ?thesis using assms(2) tiles_lines by (cases ok) (auto simp: move_ok_def call_failed_def trace_ok_def)
qed

lemma dsa_block_sizes: "setup_ok cfg n \<Longrightarrow> 0 < unat (of_nat (64 * n) :: u64)" "0 < unat DSA_MOVE_BLOCK"
  by (auto simp: setup_ok_def DSA_MOVE_BLOCK_def unsigned_of_nat take_bit_nat_eq_self simp del: of_nat_mult)

section \<open>Preservation\<close>

lemma dsa_invD:
  assumes "dsa_inv n s" "b = ordered (code s)"
  shows "weak_inv n b (wpend (code s)) (rpend (code s))" "dsa_wpc (wpc b)" "dsa_rpc (rpc b)"
    "i \<in> written s \<Longrightarrow> wpc b = W_copy 1 \<and> 1 \<le> i \<and> smem b i = wbuf b i" "i \<in> fetched s \<Longrightarrow> rpc b = R_copy 1 \<and> 1 \<le> i \<and> rbuf b i = smem b i"
  using assms by (simp_all add: dsa_inv_def Let_def)

lemma dsa_invI:
  assumes "ordered (code s) = b" "weak_inv n b (wpend (code s)) (rpend (code s))" "dsa_wpc (wpc b)" "dsa_rpc (rpc b)"
    and "\<And>i. i \<in> written s \<Longrightarrow> wpc b = W_copy 1 \<and> 1 \<le> i \<and> smem b i = wbuf b i"
    and "\<And>i. i \<in> fetched s \<Longrightarrow> rpc b = R_copy 1 \<and> 1 \<le> i \<and> rbuf b i = smem b i"
  shows "dsa_inv n s"
  using assms by (simp add: dsa_inv_def)

text \<open>The instructions outside the moves.\<close>

definition same_data :: "share \<Rightarrow> share \<Rightarrow> bool" where
  "same_data b c \<longleftrightarrow> (\<forall>i. 1 \<le> i \<longrightarrow> smem c i = smem b i) \<and> (wpc b = W_copy 1 \<longrightarrow> wpc c = W_copy 1 \<and> wbuf c = wbuf b) \<and>
    (rpc b = R_copy 1 \<longrightarrow> rpc c = R_copy 1 \<and> rbuf c = rbuf b) \<and> dsa_wpc (wpc c) \<and> dsa_rpc (rpc c)"

lemma code_step_data:
  assumes "weak_step sync n s s'" "weak_inv n (ordered s) P Q" "dsa_wpc (wpc (ordered s))" "dsa_rpc (rpc (ordered s))"
    and "\<forall>k. wpc (ordered s) = W_copy k \<longrightarrow> wpc (ordered s') = W_copy k" "\<forall>k. rpc (ordered s) = R_copy k \<longrightarrow> rpc (ordered s') = R_copy k"
  shows "same_data (ordered s) (ordered s')"
proof -
  let ?b = "ordered s"
  have cache: "same_data ?b (f ?b)" if "f = w_evict i \<or> f = r_evict i \<or> f = w_fetch i \<or> f = r_fetch i" for f i
    using cache_frame [OF assms(2,3) that] assms(3,4) by (simp add: same_data_def)
  from assms(1) show ?thesis
  proof cases
    case (writer f)
    have "\<forall>k. wpc ?b \<noteq> W_copy k"
    proof (intro allI notI)
      fix k assume k: "wpc ?b = W_copy k"
      then have "wpc (writer_step n f ?b) = W_copy k" using assms(5) writer(1) by simp
      then show False using k by (simp add: writer_step_def split: if_splits)
    qed
    then show ?thesis using writer_frame [OF assms(3), where n = n and f = f] assms(4) writer(1) by (simp add: same_data_def)
  next
    case (writer_issues i fence pc)
    then show ?thesis using assms(3,4) by (cases "wpc ?b") (auto simp: same_data_def)
  next
    case (writer_completes i)
    then show ?thesis using cache [of "w_evict i" i] by simp
  next
    case reader
    have "\<forall>k. rpc ?b \<noteq> R_copy k"
    proof (intro allI notI)
      fix k assume k: "rpc ?b = R_copy k"
      then have "rpc (reader_step n ?b) = R_copy k" using assms(6) reader(1) by simp
      then show False using k by (simp add: reader_step_def split: if_splits)
    qed
    then show ?thesis using reader_frame [OF assms(2,3)] assms(3) reader(1) by (simp add: same_data_def)
  next
    case (reader_issues i fence pc)
    then show ?thesis using assms(3,4) by (cases "rpc ?b") (auto simp: same_data_def split: if_splits)
  next
    case (reader_completes i)
    then show ?thesis using cache [of "r_evict i" i] by simp
  next
    case (caches f i)
    then show ?thesis using cache [of f i] by simp
  qed
qed

text \<open>The moves.\<close>

lemma weak_write_line:
  assumes "weak_inv n b P Q" "wpc b = W_copy 1" "1 \<le> i"
  shows "weak_inv n (b\<lparr>smem := (smem b)(i := wbuf b i), wcache := drop_line (wcache b) i\<rparr>) P Q" "\<not> r_active (rpc b)"
proof -
  have inv: "share_inv n (lag b)" by (rule weak_invD(1) [OF assms(1)])
  have "share_inv n ((lag b)\<lparr>smem := (smem b)(i := wbuf b i), wcache := drop_line (wcache b) i\<rparr>)"
    using write_line_inv [OF inv _ assms(3)] assms(2) by simp
  moreover have "(lag b)\<lparr>smem := (smem b)(i := wbuf b i), wcache := drop_line (wcache b) i\<rparr> =
      lag (b\<lparr>smem := (smem b)(i := wbuf b i), wcache := drop_line (wcache b) i\<rparr>)" by (simp add: lag_def)
  moreover have idle: "\<not> r_active (rpc b)"
    using not_both_active [of "lag b"] share_inv_def [of n "lag b"] inv assms(2) by (simp add: active_lag)
  then have "reader_issued n (rpc b) = {}" using issued_active(2) by blast
  ultimately show "weak_inv n (b\<lparr>smem := (smem b)(i := wbuf b i), wcache := drop_line (wcache b) i\<rparr>) P Q" "\<not> r_active (rpc b)"
    using assms(1,2) idle by (simp_all add: weak_inv_def)
qed

lemma weak_write_done:
  assumes "weak_inv n b P Q" "wpc b = W_copy 1" "\<And>i. 1 \<le> i \<Longrightarrow> i \<le> n \<Longrightarrow> smem b i = wbuf b i"
  shows "weak_inv n (b\<lparr>wpc := W_set\<rparr>) P Q"
proof -
  have "share_inv n ((lag b)\<lparr>wpc := W_set\<rparr>)"
    using write_done_inv [OF weak_invD(1) [OF assms(1)]] assms(2,3) by simp
  moreover have "(lag b)\<lparr>wpc := W_set\<rparr> = lag (b\<lparr>wpc := W_set\<rparr>)" by (simp add: lag_def)
  ultimately show ?thesis using assms(1) by (simp add: weak_inv_def up_to_date_def)
qed

lemma weak_read_line:
  assumes "weak_inv n b P {}" "rpc b = R_copy 1" "1 \<le> i" "i \<le> n"
  shows "weak_inv n (b\<lparr>rbuf := (rbuf b)(i := v)\<rparr>) P {}" "cached_value (smem b) (rcache b) i = smem b i"
proof -
  have "share_inv n ((lag b)\<lparr>rbuf := (rbuf b)(i := v)\<rparr>)" using read_line_inv [OF weak_invD(1) [OF assms(1)], of i v] assms(2) by simp
  moreover have "(lag b)\<lparr>rbuf := (rbuf b)(i := v)\<rparr> = lag (b\<lparr>rbuf := (rbuf b)(i := v)\<rparr>)" by (simp add: lag_def)
  ultimately show "weak_inv n (b\<lparr>rbuf := (rbuf b)(i := v)\<rparr>) P {}" using assms(1) by (simp add: weak_inv_def up_to_date_def settled_def)
  have "share_inv n ((lag b)\<lparr>rpc := R_copy 1\<rparr>)" using drained_reader [OF assms(1)] assms(2-4) by simp
  then show "cached_value (smem b) (rcache b) i = smem b i" using read_value [of n _ i] assms(3,4) by fastforce
qed

lemma weak_read_done:
  assumes "weak_inv n b P {}" "rpc b = R_copy 1" "\<And>i. 1 \<le> i \<Longrightarrow> i \<le> n \<Longrightarrow> rbuf b i = smem b i" "0 < n"
  shows "weak_inv n (b\<lparr>rpc := R_clear\<rparr>) P {}"
proof -
  have "share_inv n ((lag b)\<lparr>rpc := R_copy 1\<rparr>)" using drained_reader [OF assms(1)] assms(2,4) by simp
  from read_done_inv [OF this] have "share_inv n ((lag b)\<lparr>rpc := R_clear\<rparr>)" using assms(3) by simp
  moreover have "(lag b)\<lparr>rpc := R_clear\<rparr> = lag (b\<lparr>rpc := R_clear\<rparr>)" by (simp add: lag_def)
  ultimately show ?thesis using assms(1) by (simp add: weak_inv_def settled_def)
qed

lemma dsa_step_inv:
  assumes "weak_dsa_step True cfg n s s'" "dsa_inv n s" "setup_ok cfg n" "\<And>st. possible cfg st \<Longrightarrow> \<forall>k. st k = 0"
  shows "dsa_inv n s'"
proof -
  let ?b = "ordered (code s)"
  note D = dsa_invD [OF assms(2) refl]
  have n: "0 < n" "64 * n < 2 ^ 32" using assms(3) by (auto simp: setup_ok_def)
  from assms(1) show ?thesis
  proof cases
    case (code c)
    have "weak_inv n (ordered c) (wpend c) (rpend c)" by (rule weak_step_inv [OF code(2) D(1) n])
    moreover have "same_data ?b (ordered c)" by (rule code_step_data [OF code(2) D(1-3) code(3,4)])
    ultimately show ?thesis unfolding code(1) using D(4,5) by (intro dsa_invI [OF refl]) (auto simp: same_data_def)
  next
    case (write_line b k i)
    then have k: "wpc ?b = W_copy 1" using D(2) by simp
    have "fetched s = {}" using weak_write_line(2) [OF D(1) k write_line(4)] D(5) by auto
    then show ?thesis unfolding write_line(1,2)
      using weak_write_line(1) [OF D(1) k write_line(4)] D(2-4) k write_line(4) by (intro dsa_invI [OF refl]) auto
  next
    case (write_done b k st ok tr)
    then have k: "wpc ?b = W_copy 1" using D(2) by simp
    have "ok \<and> lines_written (w_data cfg) tr = {1..n}"
      using complete_move [OF write_done(5) [unfolded writer_move_def] assms(4) [OF write_done(4)]] assms(3) dsa_block_sizes
      by (simp add: setup_ok_def)
    then have "\<And>i. 1 \<le> i \<Longrightarrow> i \<le> n \<Longrightarrow> smem ?b i = wbuf ?b i" using write_done(6) D(4) by fastforce
    from weak_write_done [OF D(1) k this] show ?thesis unfolding write_done(1,2)
      using D(3,5) by (intro dsa_invI [OF refl]) auto
  next
    case (read_line b k i)
    then have k: "rpc ?b = R_copy 1" and Q: "rpend (code s) = {}" using D(3) by simp_all
    show ?thesis unfolding read_line(1,2)
      using weak_read_line [OF D(1) [unfolded Q] k read_line(5,6)] D(2-5) k read_line(5) Q by (intro dsa_invI [OF refl]) auto
  next
    case (read_done b k st ok tr)
    then have k: "rpc ?b = R_copy 1" and Q: "rpend (code s) = {}" using D(3) by simp_all
    have "ok \<and> lines_written (r_dram cfg) tr = {1..n}"
      using complete_move [OF read_done(6) [unfolded reader_move_def] assms(4) [OF read_done(5)]] assms(3) dsa_block_sizes(1) [OF assms(3)]
      by (simp add: setup_ok_def)
    then have "\<And>i. 1 \<le> i \<Longrightarrow> i \<le> n \<Longrightarrow> rbuf ?b i = smem ?b i" using read_done(7) D(5) by fastforce
    from weak_read_done [OF D(1) [unfolded Q] k this n(1)] show ?thesis unfolding read_done(1,2)
      using D(2,4) Q by (intro dsa_invI [OF refl]) auto
  qed
qed

lemma dsa_reachable_inv:
  assumes "(weak_dsa_step True cfg n)\<^sup>*\<^sup>* (weak_dsa_of s0) s" "share_start n s0" "setup_ok cfg n" "\<And>st. possible cfg st \<Longrightarrow> \<forall>k. st k = 0"
  shows "dsa_inv n s"
  using assms(1)
proof (induction rule: rtranclp_induct)
  case base
  have "wpc s0 = W_fill" "rpc s0 = R_flush_meta" using assms(2) by (auto simp: share_start_def)
  then show ?case using share_start_weak [OF assms(2)] by (simp add: weak_dsa_of_def dsa_inv_def)
next
  case (step s1 s2)
  then show ?case using dsa_step_inv [OF step.hyps(2) step.IH assms(3,4)] by simp
qed

section \<open>Programs whose flushes take effect at once\<close>

text \<open>Every run of these is a run with late flushes too.\<close>

definition tidy :: "dsa_share \<Rightarrow> bool" where
  "tidy s \<longleftrightarrow> (moved s \<noteq> {} \<longrightarrow> (\<exists>k. wpc (base s) = W_copy k)) \<and> (loaded s \<noteq> {} \<longrightarrow> (\<exists>k. rpc (base s) = R_copy k))"

definition late :: "dsa_share \<Rightarrow> weak_dsa" where
  "late s = \<lparr>code = weak (base s) {} {}, written = moved s, fetched = loaded s\<rparr>"

lemma late_writer:
  assumes "\<forall>k. wpc b \<noteq> W_copy k" "filled n f" "code s = weak b {} Q"
  shows "(weak_dsa_step sync cfg n)\<^sup>*\<^sup>* s (s\<lparr>code := weak (writer_step n f b) {} Q\<rparr>)"
proof (cases "writer_flush n (wpc b)")
  case None
  have "rpc (writer_step n f b) = rpc b" by (cases "wpc b"; simp add: writer_step_def)
  then have "weak_dsa_step sync cfg n s (s\<lparr>code := weak (writer_step n f b) {} Q\<rparr>)"
    using weak_dsa_step.code [of sync n s "weak (writer_step n f b) {} Q" cfg] weak_step.writer [where sync = sync and n = n and s = "weak b {} Q" and f = f] None assms
    by simp
  then show ?thesis by blast
next
  case (Some x)
  then obtain i fence pc where x: "writer_flush n (wpc b) = Some (i, fence, pc)" by (cases x) auto
  let ?c = "weak (b\<lparr>wpc := pc\<rparr>) {i} Q" and ?d = "weak (writer_step n f b) {} Q"
  have "weak_dsa_step sync cfg n s (s\<lparr>code := ?c\<rparr>)"
    using weak_dsa_step.code [of sync n s ?c cfg] weak_step.writer_issues [where sync = sync and n = n and s = "weak b {} Q" and i = i and fence = fence and pc = pc]
      x assms by simp
  moreover have "weak_step sync n ?c ?d"
    using weak_step.writer_completes [where sync = sync and i = i and s = ?c and n = n] flush_then_go(1) [OF x] by simp
  then have "weak_dsa_step sync cfg n (s\<lparr>code := ?c\<rparr>) (s\<lparr>code := ?d\<rparr>)"
    using weak_dsa_step.code [of sync n "s\<lparr>code := ?c\<rparr>" ?d cfg] flush_then_go(1) [OF x] by (simp add: w_evict_def)
  ultimately show ?thesis by (meson r_into_rtranclp rtranclp_trans)
qed

lemma late_reader:
  assumes "\<forall>k. rpc b \<noteq> R_copy k" "code s = weak b P {}"
  shows "(weak_dsa_step sync cfg n)\<^sup>*\<^sup>* s (s\<lparr>code := weak (reader_step n b) P {}\<rparr>)"
proof (cases "reader_flush n (rpc b)")
  case None
  have "wpc (reader_step n b) = wpc b" by (cases "rpc b"; simp add: reader_step_def)
  then have "weak_dsa_step sync cfg n s (s\<lparr>code := weak (reader_step n b) P {}\<rparr>)"
    using weak_dsa_step.code [of sync n s "weak (reader_step n b) P {}" cfg] weak_step.reader [where sync = sync and n = n and s = "weak b P {}"] None assms
    by simp
  then show ?thesis by blast
next
  case (Some x)
  then obtain i fence pc where x: "reader_flush n (rpc b) = Some (i, fence, pc)" by (cases x) auto
  let ?c = "weak (b\<lparr>rpc := pc\<rparr>) P {i}" and ?d = "weak (reader_step n b) P {}"
  have "weak_dsa_step sync cfg n s (s\<lparr>code := ?c\<rparr>)"
    using weak_dsa_step.code [of sync n s ?c cfg] weak_step.reader_issues [where sync = sync and n = n and s = "weak b P {}" and i = i and fence = fence and pc = pc]
      x assms by simp
  moreover have "weak_step sync n ?c ?d"
    using weak_step.reader_completes [where sync = sync and i = i and s = ?c and n = n] flush_then_go(2) [OF x] by simp
  then have "weak_dsa_step sync cfg n (s\<lparr>code := ?c\<rparr>) (s\<lparr>code := ?d\<rparr>)"
    using weak_dsa_step.code [of sync n "s\<lparr>code := ?c\<rparr>" ?d cfg] flush_then_go(2) [OF x] by (simp add: r_evict_def)
  ultimately show ?thesis by (meson r_into_rtranclp rtranclp_trans)
qed

lemma dsa_step_tidy: "dsa_step cfg n s s' \<Longrightarrow> tidy s \<Longrightarrow> tidy s'"
proof (induction rule: dsa_step.induct)
  case (by_writer s s')
  then show ?case
  proof (induction rule: dsa_write_step.induct)
    case (writer f s)
    have "rpc (writer_step n f (base s)) = rpc (base s)" by (cases "wpc (base s)"; simp add: writer_step_def)
    then show ?case using writer by (simp add: tidy_def)
  qed (simp_all add: tidy_def)
next
  case (by_reader s s')
  then show ?case
  proof (induction rule: dsa_read_step.induct)
    case (reader s)
    have "wpc (reader_step n (base s)) = wpc (base s)" by (cases "rpc (base s)"; simp add: reader_step_def)
    then show ?case using reader by (simp add: tidy_def)
  qed (simp_all add: tidy_def)
next
  case (cache f i s)
  then show ?case by (auto simp: tidy_def w_evict_def r_evict_def w_fetch_def r_fetch_def)
qed

lemma dsa_step_late:
  assumes "dsa_step cfg n s s'" "tidy s"
  shows "(weak_dsa_step sync cfg n)\<^sup>*\<^sup>* (late s) (late s')"
  using assms(1)
proof cases
  case by_writer
  then show ?thesis
  proof cases
    case (writer f)
    then have "moved s = {}" using assms(2) by (auto simp: tidy_def)
    then show ?thesis using late_writer [OF writer(3,2), of "late s"] writer(1) by (simp add: late_def)
  next
    case (write_line k i)
    then show ?thesis using weak_dsa_step.write_line [of _ "late s" k i n sync cfg] by (auto simp: late_def)
  next
    case (write_done k st ok tr)
    then show ?thesis using weak_dsa_step.write_done [of _ "late s" k cfg st n ok tr sync] by (auto simp: late_def)
  qed
next
  case by_reader
  then show ?thesis
  proof cases
    case reader
    then have "loaded s = {}" using assms(2) by (auto simp: tidy_def)
    then show ?thesis using late_reader [OF reader(2), of "late s"] reader(1) by (simp add: late_def)
  next
    case (read_line k i)
    then show ?thesis using weak_dsa_step.read_line [of _ "late s" k sync i n cfg] by (auto simp: late_def)
  next
    case (read_done k st ok tr)
    then show ?thesis using weak_dsa_step.read_done [of _ "late s" k sync cfg st n ok tr] by (auto simp: late_def)
  qed
next
  case (cache f i)
  have "weak_step sync n (weak (base s) {} {}) (weak (f (base s)) {} {})"
    using weak_step.caches [OF cache(2), where sync = sync and n = n and s = "weak (base s) {} {}"] by simp
  moreover have "wpc (f (base s)) = wpc (base s)" "rpc (f (base s)) = rpc (base s)"
    using cache(2) by (auto simp: w_evict_def r_evict_def w_fetch_def r_fetch_def)
  ultimately have "weak_dsa_step sync cfg n (late s) (late s')"
    using weak_dsa_step.code [of sync n "late s" "weak (f (base s)) {} {}" cfg] cache(1) by (simp add: late_def)
  then show ?thesis by blast
qed

lemma dsa_run_is_weak:
  assumes "(dsa_step cfg n)\<^sup>*\<^sup>* s s'" "tidy s"
  shows "(weak_dsa_step sync cfg n)\<^sup>*\<^sup>* (late s) (late s') \<and> tidy s'"
  using assms
proof (induction rule: rtranclp_induct)
  case (step s1 s2)
  then show ?case using dsa_step_late [OF step.hyps(2)] dsa_step_tidy [OF step.hyps(2)] by (meson rtranclp_trans)
qed simp

section \<open>Properties\<close>

text \<open>Runs of one program between its moves.\<close>

lemma dsa_writer_run:
  assumes "filled n f" "moved s = {}"
  shows "(\<And>j c. j < k \<Longrightarrow> wpc ((writer_step n f ^^ j) (base s)) \<noteq> W_copy c) \<Longrightarrow>
    (dsa_step cfg n)\<^sup>*\<^sup>* s (s\<lparr>base := (writer_step n f ^^ k) (base s)\<rparr>)"
proof (induction k)
  case (Suc k)
  let ?s = "s\<lparr>base := (writer_step n f ^^ k) (base s)\<rparr>"
  have "dsa_step cfg n ?s (?s\<lparr>base := writer_step n f (base ?s), moved := {}\<rparr>)"
    using Suc.prems assms(1) by (intro dsa_steps(1)) auto
  moreover have "?s\<lparr>base := writer_step n f (base ?s), moved := {}\<rparr> = s\<lparr>base := (writer_step n f ^^ Suc k) (base s)\<rparr>"
    using assms(2) by simp
  ultimately show ?case using Suc by (auto intro: rtranclp.rtrancl_into_rtrancl)
qed simp

lemma dsa_reader_run:
  assumes "loaded s = {}"
  shows "(\<And>j c. j < k \<Longrightarrow> rpc ((reader_step n ^^ j) (base s)) \<noteq> R_copy c) \<Longrightarrow>
    (dsa_step cfg n)\<^sup>*\<^sup>* s (s\<lparr>base := (reader_step n ^^ k) (base s)\<rparr>)"
proof (induction k)
  case (Suc k)
  let ?s = "s\<lparr>base := (reader_step n ^^ k) (base s)\<rparr>"
  have "dsa_step cfg n ?s (?s\<lparr>base := reader_step n (base ?s), loaded := {}\<rparr>)"
    using Suc.prems by (intro dsa_steps(4)) auto
  moreover have "?s\<lparr>base := reader_step n (base ?s), loaded := {}\<rparr> = s\<lparr>base := (reader_step n ^^ Suc k) (base s)\<rparr>"
    using assms by simp
  ultimately show ?case using Suc by (auto intro: rtranclp.rtrancl_into_rtrancl)
qed simp

text \<open>A file of one data line \<open>v\<close>, and the states of one transfer of it.\<close>

definition one_line :: "bytes \<Rightarrow> share" where
  "one_line v = quiet_share\<lparr>smem := (\<lambda>_. free_flag)(1 := v)\<rparr>"

definition sending :: "line_mem \<Rightarrow> bytes \<Rightarrow> share" where
  "sending f v = (writer_step 1 f ^^ 3) (one_line v)"

definition receiving :: "line_mem \<Rightarrow> bytes \<Rightarrow> share" where
  "receiving f v = (reader_step 1 ^^ 3) ((writer_step 1 f ^^ 2) ((sending f v)\<lparr>wpc := W_set\<rparr>))"

definition received_one :: "line_mem \<Rightarrow> bytes \<Rightarrow> share" where
  "received_one f v = (receiving f v)\<lparr>rbuf := (\<lambda>_. [])(1 := v), rpc := R_clear\<rparr>"

lemmas one_line_defs = numeral_eq_Suc one_line_def quiet_share_def sending_def receiving_def received_one_def writer_step_def
  reader_step_def cache_defs

lemma lt_SucE: "j < Suc k \<Longrightarrow> (j = k \<Longrightarrow> P) \<Longrightarrow> (j < k \<Longrightarrow> P) \<Longrightarrow> P"
  by (auto simp: less_Suc_eq)

lemma one_line_start: "share_start 1 (one_line v)"
  by (simp add: share_start_def one_line_def quiet_share_def)

lemma one_line_facts:
  "j < 3 \<Longrightarrow> wpc ((writer_step 1 f ^^ j) (one_line v)) \<noteq> W_copy c" "wpc (sending f v) = W_copy 1"
  "j < 2 \<Longrightarrow> wpc ((writer_step 1 f ^^ j) ((sending f v)\<lparr>wpc := W_set\<rparr>)) \<noteq> W_copy c"
  "j < 3 \<Longrightarrow> rpc ((reader_step 1 ^^ j) ((writer_step 1 f ^^ 2) ((sending f v)\<lparr>wpc := W_set\<rparr>))) \<noteq> R_copy c"
  "rpc (receiving f v) = R_copy 1" "cached_value (smem (receiving f v)) (rcache (receiving f v)) 1 = v" "rbuf (receiving f v) = (\<lambda>_. [])"
  "(sending f v)\<lparr>smem := (smem (sending f v))(1 := wbuf (sending f v) 1), wcache := drop_line (wcache (sending f v)) 1\<rparr> = sending f (f 1)"
  by (auto simp: one_line_defs fun_eq_iff elim!: lt_SucE)

text \<open>One transfer: the reader receives the line written if the move of the writer went through, and otherwise what was in memory.\<close>

lemma dsa_transfer:
  assumes "setup_ok cfg 1" "filled 1 f" "possible cfg st" "writer_move cfg 1 st = Some (Done (ok, tr))"
    and "ok \<Longrightarrow> lines_written (w_data cfg) tr \<subseteq> {1}" "possible cfg st'" "reader_move cfg 1 st' = Some (Done (True, tr'))"
    and "lines_written (r_dram cfg) tr' \<subseteq> {1}"
  shows "(dsa_step cfg 1)\<^sup>*\<^sup>* \<lparr>base = one_line v, moved = {}, loaded = {}\<rparr>
    \<lparr>base = received_one f (if ok then f 1 else v), moved = {}, loaded = {}\<rparr>"
proof -
  let ?S = "\<lambda>b M L. \<lparr>base = b, moved = M, loaded = L\<rparr>"
  let ?u = "if ok then f 1 else v"
  let ?R = "(dsa_step cfg 1)\<^sup>*\<^sup>*"
  have 1: "?R (?S (one_line v) {} {}) (?S (sending f v) {} {})"
    using dsa_writer_run [OF assms(2), of "?S (one_line v) {} {}" 3 cfg] one_line_facts(1) by (simp add: sending_def)
  have line: "dsa_step cfg 1 (?S (sending f v) {} {}) (?S (sending f (f 1)) {1} {})"
    using dsa_steps(2) [of "?S (sending f v) {} {}" 1 1 1 cfg] by (simp add: one_line_facts(2,8) del: One_nat_def)
  have finish: "dsa_step cfg 1 (?S (sending f x) M {}) (?S ((sending f x)\<lparr>wpc := W_set\<rparr>) {} {})" if "ok \<Longrightarrow> M = {1}" for x M
    using dsa_steps(3) [of "?S (sending f x) M {}" 1 cfg st 1 ok tr] assms(3-5) that by (simp add: one_line_facts(2))
  have 2: "?R (?S (sending f v) {} {}) (?S ((sending f ?u)\<lparr>wpc := W_set\<rparr>) {} {})"
    using line finish [of "{1}" "f 1"] finish [of "{}" v] by (cases ok) (auto intro: rtranclp.rtrancl_into_rtrancl)
  have 3: "?R (?S ((sending f ?u)\<lparr>wpc := W_set\<rparr>) {} {}) (?S ((writer_step 1 f ^^ 2) ((sending f ?u)\<lparr>wpc := W_set\<rparr>)) {} {})"
    using dsa_writer_run [OF assms(2), of "?S ((sending f ?u)\<lparr>wpc := W_set\<rparr>) {} {}" 2 cfg] one_line_facts(3) by simp
  have 4: "?R (?S ((writer_step 1 f ^^ 2) ((sending f ?u)\<lparr>wpc := W_set\<rparr>)) {} {}) (?S (receiving f ?u) {} {})"
    using dsa_reader_run [of "?S ((writer_step 1 f ^^ 2) ((sending f ?u)\<lparr>wpc := W_set\<rparr>)) {} {}" 3 1 cfg] one_line_facts(4)
    by (simp add: receiving_def)
  have 5: "dsa_step cfg 1 (?S (receiving f ?u) {} {}) (?S ((receiving f ?u)\<lparr>rbuf := (\<lambda>_. [])(1 := ?u)\<rparr>) {} {1})"
    using dsa_steps(5) [of "?S (receiving f ?u) {} {}" 1 1 1 cfg] by (simp add: one_line_facts(5-7) del: One_nat_def split del: if_split)
  have 6: "dsa_step cfg 1 (?S ((receiving f ?u)\<lparr>rbuf := (\<lambda>_. [])(1 := ?u)\<rparr>) {} {1}) (?S (received_one f ?u) {} {})"
    using dsa_steps(6) [of "?S ((receiving f ?u)\<lparr>rbuf := (\<lambda>_. [])(1 := ?u)\<rparr>) {} {1}" 1 cfg st' 1 True tr'] assms(6-8)
    by (simp add: one_line_facts(5) received_one_def)
  from 1 2 3 4 5 6 show ?thesis by (meson rtranclp_trans rtranclp.rtrancl_into_rtrancl)
qed

lemma complete_moves:
  assumes "setup_ok cfg n" "\<forall>k. st k = 0"
  obtains tr tr' where "writer_move cfg n st = Some (Done (True, tr))" "lines_written (w_data cfg) tr = {1..n}"
    "reader_move cfg n st = Some (Done (True, tr'))" "lines_written (r_dram cfg) tr' = {1..n}"
proof -
  have u: "unat (of_nat a :: u64) = a" if "a \<in> {w_dram cfg, w_data cfg, r_dram cfg, r_data cfg, 64 * n}" for a
    using that assms(1) by (auto simp: setup_ok_def unsigned_of_nat take_bit_nat_eq_self_iff simp del: of_nat_mult)
  have fit: "a + 64 * n < 2 ^ 64" if "a \<in> {w_dram cfg, w_data cfg, r_dram cfg, r_data cfg}" for a using that assms(1) by (auto simp: setup_ok_def)
  obtain ok tr where w: "writer_move cfg n st = Some (Done (ok, tr))"
    using dsa_move_data_ok [of DSA_JOB_NUM DSA_MOVE_BLOCK "of_nat (w_dram cfg)" "of_nat (64 * n)" "of_nat (w_data cfg)" st] u fit
      dsa_block_sizes(2) unsigned_less [of DSA_MOVE_BLOCK] by (auto simp: writer_move_def DSA_JOB_NUM_def simp del: of_nat_mult)
  obtain ok' tr' where r: "reader_move cfg n st = Some (Done (ok', tr'))"
    using dsa_move_data_ok [of DSA_JOB_NUM "of_nat (64 * n)" "of_nat (r_data cfg)" "of_nat (64 * n)" "of_nat (r_dram cfg)" st] u fit
      dsa_block_sizes(1) [OF assms(1)] unsigned_less [of "of_nat (64 * n) :: u64"] by (auto simp: reader_move_def DSA_JOB_NUM_def simp del: of_nat_mult)
  show ?thesis
    using that w r complete_move [OF w [unfolded writer_move_def] assms(2)] complete_move [OF r [unfolded reader_move_def] assms(2)]
      fit dsa_block_sizes(1) [OF assms(1)] dsa_block_sizes(2) by simp
qed

text \<open>
  C35: Blocks moved by the accelerator arrive whole, once and in order, with the variants of the flushing functions that the header compiles out, which wait for their flushes. While no call of the library fails,
  for blocks of up to 4 GB and addresses inside the address space, in every interleaving of the two programs, the lines their jobs move, the flushes, which take effect late and in any order, and the
  caches, the assertion of the reader never fails, every block received has the right checksum, and the blocks received are those sent, in order, up to the
  last one that may be on its way.
\<close>

theorem dsa_blocks_arrive_intact:
  assumes "share_start n s0" "(weak_dsa_step True cfg n)\<^sup>*\<^sup>* (weak_dsa_of s0) s" "setup_ok cfg n" "\<And>st. possible cfg st \<Longrightarrow> \<forall>k. st k = 0" "b = ordered (code s)"
  shows "rpc b \<noteq> R_failed \<and> (\<forall>x \<in> set (received b). block_ok x) \<and> (sent b = received b \<or> (\<exists>x. sent b = received b @ [x] \<and> block_ok x))"
proof -
  have "share_inv n (lag b)" using dsa_invD(1) [OF dsa_reachable_inv [OF assms(2,1,3,4)] assms(5)] by (rule weak_invD(1))
  from share_inv_delivery [OF this] show ?thesis by auto
qed

definition sample_setup :: "(dml_status \<Rightarrow> bool) \<Rightarrow> dsa_setup" where
  "sample_setup P = \<lparr>w_dram = 0x10000, w_data = 0x20040, r_dram = 0x10000, r_data = 0x20040, possible = P\<rparr>"

lemma sample_setup_ok: "setup_ok (sample_setup P) 1"
  by (simp add: setup_ok_def sample_setup_def)

theorem dsa_blocks_arrive_intact_witness:
  "\<exists>s x. (weak_dsa_step True (sample_setup (\<lambda>st. \<forall>k. st k = 0)) 1)\<^sup>*\<^sup>* (weak_dsa_of (one_line free_flag)) s \<and> received (ordered (code s)) = [x] \<and> block_ok x"
proof -
  let ?cfg = "sample_setup (\<lambda>st. \<forall>k. st k = 0)" and ?start = "\<lparr>base = one_line free_flag, moved = {}, loaded = {}\<rparr>"
  obtain f where f: "filled 1 f" using filled_exists [of 1] by auto
  let ?s = "\<lparr>base = received_one f (f 1), moved = {}, loaded = {}\<rparr>"
  let ?t = "\<lparr>base = reader_step 1 (received_one f (f 1)), moved = {}, loaded = {}\<rparr>"
  obtain tr tr' where "writer_move ?cfg 1 (\<lambda>_. 0) = Some (Done (True, tr))" "lines_written (w_data ?cfg) tr = {1..1}"
    "reader_move ?cfg 1 (\<lambda>_. 0) = Some (Done (True, tr'))" "lines_written (r_dram ?cfg) tr' = {1..1}"
    using complete_moves [OF sample_setup_ok, of "\<lambda>_. 0"] by auto
  then have "(dsa_step ?cfg 1)\<^sup>*\<^sup>* ?start ?s"
    using dsa_transfer [OF sample_setup_ok f, of "\<lambda>st. \<forall>k. st k = 0" "\<lambda>_. 0" True tr "\<lambda>_. 0" tr'] by (simp add: sample_setup_def)
  moreover have "dsa_step ?cfg 1 ?s ?t" using dsa_steps(4) [of ?s ?cfg 1] by (simp add: received_one_def)
  ultimately have "(dsa_step ?cfg 1)\<^sup>*\<^sup>* ?start ?t" by (rule rtranclp.rtrancl_into_rtrancl)
  then have run: "(weak_dsa_step True ?cfg 1)\<^sup>*\<^sup>* (weak_dsa_of (one_line free_flag)) (late ?t)"
    using dsa_run_is_weak [of ?cfg 1 ?start ?t True] by (simp add: late_def weak_dsa_of_def tidy_def)
  from dsa_blocks_arrive_intact [OF one_line_start run sample_setup_ok _ refl] have "\<forall>x \<in> set (received (ordered (code (late ?t)))). block_ok x"
    by (simp add: sample_setup_def)
  moreover have "received (ordered (code (late ?t))) = [block_of_lines 1 (\<lambda>_. f 1)]"
    by (simp add: late_def one_line_defs block_of_lines_def)
  ultimately show ?thesis using run by (intro exI [of _ "late ?t"]) auto
qed

text \<open>
  C36: A failed move is published as if it had gone through. When the submission of a job can fail, the writer
  still sets the flag, and the reader receives the contents that were in memory before: from any contents of a one-line file with a wrong checksum there is a
  run in which the assertion of the reader fails, although the reader's own move succeeds.
\<close>

theorem dsa_failure_is_published:
  assumes "setup_ok cfg 1" "possible cfg st" "st 0 \<noteq> 0" "possible cfg (\<lambda>_. 0)" "\<not> block_ok v" "length v = 64"
  shows "\<exists>s. (dsa_step cfg 1)\<^sup>*\<^sup>* \<lparr>base = one_line v, moved = {}, loaded = {}\<rparr> s \<and> rpc (base s) = R_failed"
proof -
  let ?S = "\<lambda>b. \<lparr>base = b, moved = {}, loaded = {}\<rparr>"
  obtain f where f: "filled 1 f" using filled_exists [of 1] by auto
  have rounds: "full_rounds st DSA_MOVE_BLOCK 1 DSA_MOVE_BLOCK s = Some (Inr s)" if "src_size s = 64" for s
    using that by (subst full_rounds.simps) (simp add: DSA_MOVE_BLOCK_def)
  have blocks: "last_blocks st DSA_MOVE_BLOCK 1 0 s = Inr (0, s)" if "src_size s = 64" for s
    using that by (subst last_blocks.simps) (simp add: DSA_MOVE_BLOCK_def)
  obtain tr where w: "writer_move cfg 1 st = Some (Done (False, tr))"
    using assms(3) by (simp add: writer_move_def dsa_move_data_def DSA_JOB_NUM_def rounds [simplified] move_rest_def blocks [simplified]
        last_part_def submit_job_def)
  obtain tr' where r: "reader_move cfg 1 (\<lambda>_. 0) = Some (Done (True, tr'))" "lines_written (r_dram cfg) tr' = {1..1}"
    by (rule complete_moves [OF assms(1), of "\<lambda>_. 0"]) simp_all
  have run: "(dsa_step cfg 1)\<^sup>*\<^sup>* (?S (one_line v)) (?S (received_one f v))"
    using dsa_transfer [OF assms(1) f assms(2) w _ assms(4) r(1), of v] r(2) by simp
  have "rpc ((reader_step 1 ^^ j) (received_one f v)) \<noteq> R_copy c" if "j < 4" for j c
    using that by (auto simp: one_line_defs elim!: lt_SucE)
  then have "(dsa_step cfg 1)\<^sup>*\<^sup>* (?S (received_one f v)) (?S ((reader_step 1 ^^ 4) (received_one f v)))"
    using dsa_reader_run [of "?S (received_one f v)" 4 1 cfg] by simp
  moreover have "rpc ((reader_step 1 ^^ 4) (received_one f v)) = R_failed"
    using assms(5) by (simp add: one_line_defs block_of_lines_def)
  ultimately show ?thesis using run by (intro exI [of _ "?S ((reader_step 1 ^^ 4) (received_one f v))"]) auto
qed

theorem dsa_failure_is_published_witness:
  "\<exists>v s. (dsa_step (sample_setup (\<lambda>_. True)) 1)\<^sup>*\<^sup>* \<lparr>base = one_line v, moved = {}, loaded = {}\<rparr> s \<and> rpc (base s) = R_failed"
proof -
  let ?d = "replicate 60 (0 :: u8)"
  have "\<not> (block_ok (?d @ le32 0) \<and> block_ok (?d @ le32 1))"
    by (auto simp: block_ok_def load32_le32 calculate_crc32_eq_spec)
  then obtain c where "\<not> block_ok (?d @ le32 c)" by blast
  then show ?thesis
    using dsa_failure_is_published [OF sample_setup_ok [of "\<lambda>_. True"], where st = "\<lambda>_. 1" and v = "?d @ le32 c"]
    by (auto simp: sample_setup_def)
qed

end
