(* ===== verification/Lock_Sharing.thy ===== *)
theory Lock_Sharing
  imports Meta_Sharing Lock_Service
begin

text \<open>
  Sharing under locks: the programs \<^verbatim>\<open>cxl_memory_sharing/lock_write.c\<close> and \<^verbatim>\<open>lock_read.c\<close>, any number of each, on hosts whose caches are not
  coherent, together with the lock service they talk to (theory \<open>Lock_Service\<close>, on the hash table of theory \<open>Hash_KV\<close>).
  The file is an array of blocks of \<open>w\<close> lines each; a client locks a random block, writes it or
  reads it, and releases the lock. Caches behave as in theory \<open>Meta_Sharing\<close>, one for each client and block, and flushes take effect late as
  in theory \<open>Weak_Sharing\<close>: \<open>unflushed\<close> are those a client has issued and that are not complete.
\<close>

section \<open>The programs\<close>

text \<open>Where a client is while it holds its lock: a writer stores the lines, writes them back and reloads the last one; a reader
  drops the lines from its cache, loads them and compares the checksum.\<close>

datatype job = Store_lines nat | Write_back nat | Reload | Invalidate nat | Load_lines nat | Compare | Finished

text \<open>\<open>latest\<close> records the contents of the last complete write of a block, \<open>mismatch\<close> whether a reader has reported an error.\<close>

record lock_share =
  locks :: "(HashTable option \<times> node_heap) lock_sys"
  fmem :: "u32 \<Rightarrow> line_mem"
  fcache :: "nat \<Rightarrow> u32 \<Rightarrow> line_cache"
  job :: "nat \<Rightarrow> job"
  buf :: "nat \<Rightarrow> line_mem"
  unflushed :: "nat \<Rightarrow> (u32 \<times> nat) set"
  latest :: "u32 \<Rightarrow> line_mem option"
  mismatch :: bool

definition set_cache :: "nat \<Rightarrow> u32 \<Rightarrow> line_cache \<Rightarrow> lock_share \<Rightarrow> lock_share" where
  "set_cache i u c s = s\<lparr>fcache := (fcache s)(i := (fcache s i)(u := c))\<rparr>"

definition set_job :: "nat \<Rightarrow> job \<Rightarrow> lock_share \<Rightarrow> lock_share" where
  "set_job i j s = s\<lparr>job := (job s)(i := j)\<rparr>"

definition flush_block_line :: "nat \<Rightarrow> u32 \<Rightarrow> nat \<Rightarrow> lock_share \<Rightarrow> lock_share" where
  "flush_block_line i u k s =
    set_cache i u (drop_line (fcache s i u) k) (s\<lparr>fmem := (fmem s)(u := flush_mem (fmem s u) (fcache s i u) k)\<rparr>)"

definition fetch_block_line :: "nat \<Rightarrow> u32 \<Rightarrow> nat \<Rightarrow> lock_share \<Rightarrow> lock_share" where
  "fetch_block_line i u k s = set_cache i u (fetch_line (fmem s u) (fcache s i u) k) s"

definition issue_flush :: "nat \<Rightarrow> u32 \<Rightarrow> nat \<Rightarrow> lock_share \<Rightarrow> lock_share" where
  "issue_flush i u k s = s\<lparr>unflushed := (unflushed s)(i := insert (u, k) (unflushed s i))\<rparr>"

definition complete_flush :: "nat \<Rightarrow> u32 \<Rightarrow> nat \<Rightarrow> lock_share \<Rightarrow> lock_share" where
  "complete_flush i u k s = (flush_block_line i u k s)\<lparr>unflushed := (unflushed s)(i := unflushed s i - {(u, k)})\<rparr>"

text \<open>The test of the reader, with the stored checksum read from the shared file.\<close>

definition crc_matches :: "nat \<Rightarrow> line_mem \<Rightarrow> bytes \<Rightarrow> bool" where
  "crc_matches w data line \<longleftrightarrow>
    calculate_crc32 (block_of_lines w data) (of_nat (64 * w - 4)) = Some (load32 (drop 60 line))"

definition write_turn :: "nat \<Rightarrow> nat \<Rightarrow> u32 \<Rightarrow> lock_share \<Rightarrow> lock_share" where
  "write_turn w i u s =
    (case job s i of
       Store_lines k \<Rightarrow> set_job i (if k < w then Store_lines (Suc k) else Write_back 1)
         (set_cache i u (store_line (fcache s i u) k (buf s i k)) s)
     | Write_back k \<Rightarrow> set_job i (if k < w then Write_back (Suc k) else Reload) (issue_flush i u k s)
     | Reload \<Rightarrow> set_job i Finished ((fetch_block_line i u w s)\<lparr>latest := (latest s)(u \<mapsto> buf s i)\<rparr>)
     | _ \<Rightarrow> s)"

definition read_turn :: "nat \<Rightarrow> nat \<Rightarrow> u32 \<Rightarrow> lock_share \<Rightarrow> lock_share" where
  "read_turn w i u s =
    (case job s i of
       Invalidate k \<Rightarrow> set_job i (if k < w then Invalidate (Suc k) else Load_lines 1) (issue_flush i u k s)
     | Load_lines k \<Rightarrow> set_job i (if k < w then Load_lines (Suc k) else Compare)
         ((fetch_block_line i u k s)\<lparr>buf := (buf s)(i := (buf s i)(k := cached_value (fmem s u) (fcache s i u) k))\<rparr>)
     | Compare \<Rightarrow> set_job i Finished
         ((fetch_block_line i u w s)\<lparr>mismatch := mismatch s \<or> \<not> crc_matches w (buf s i) (cached_value (fmem s u) (fcache s i u) w)\<rparr>)
     | _ \<Rightarrow> s)"

text \<open>
  Whether a client waits for its flushes before its next turn: as the code is, \<open>cflush\<close> fences before the flush of the last line, and nowhere
  else; with \<open>sync\<close>, the variants that the header compiles out, every turn that is not a flush waits.
\<close>

definition fenced_turn :: "bool \<Rightarrow> nat \<Rightarrow> job \<Rightarrow> bool" where
  "fenced_turn sync w j \<longleftrightarrow> (if sync then case j of Write_back _ \<Rightarrow> False | Invalidate _ \<Rightarrow> False | _ \<Rightarrow> True else j = Write_back w)"

text \<open>
  A step of the locking protocol: a client that asks for a write lock has filled its buffer with \<open>f\<close>, one that is granted a lock starts its
  work, and one that releases has finished; only a client that ends may leave its work undone.
\<close>

definition after_lock :: "line_mem \<Rightarrow> (HashTable option \<times> node_heap) lock_sys \<Rightarrow> lock_share \<Rightarrow> lock_share" where
  "after_lock f S' s = s\<lparr>locks := S',
     job := (\<lambda>i. case (cl (locks s) i, cl S' i) of
        (Waiting _ _, Holding t _) \<Rightarrow> if t = WRITE_LOCK then Store_lines 1 else Invalidate 1
      | _ \<Rightarrow> job s i),
     buf := (\<lambda>i. case (cl (locks s) i, cl S' i) of (Idle, Waiting t _) \<Rightarrow> if t = WRITE_LOCK then f else buf s i | _ \<Rightarrow> buf s i)\<rparr>"

inductive lock_share_step :: "bool \<Rightarrow> nat \<Rightarrow> nat \<Rightarrow> nat \<Rightarrow> lock_share \<Rightarrow> lock_share \<Rightarrow> bool" for sync n qmax w where
  locking: "table_step n qmax (locks s) S' \<Longrightarrow> filled w f \<Longrightarrow>
    (\<forall>i t u. cl S' i = Waiting t u \<longrightarrow> (\<exists>r. u = of_nat (random_select_block r))) \<Longrightarrow>
    (\<forall>i t u. cl (locks s) i = Holding t u \<longrightarrow> cl S' i \<noteq> Holding t u \<longrightarrow> job s i = Finished \<or> cl S' i = Gone) \<Longrightarrow>
    lock_share_step sync n qmax w s (after_lock f S' s)"
| writing: "i < n \<Longrightarrow> cl (locks s) i = Holding WRITE_LOCK u \<Longrightarrow> (fenced_turn sync w (job s i) \<longrightarrow> unflushed s i = {}) \<Longrightarrow>
    lock_share_step sync n qmax w s (write_turn w i u s)"
| reading: "i < n \<Longrightarrow> cl (locks s) i = Holding READ_LOCK u \<Longrightarrow> (fenced_turn sync w (job s i) \<longrightarrow> unflushed s i = {}) \<Longrightarrow>
    lock_share_step sync n qmax w s (read_turn w i u s)"
| completing: "(u, k) \<in> unflushed s i \<Longrightarrow> lock_share_step sync n qmax w s (complete_flush i u k s)"
| evicting: "lock_share_step sync n qmax w s (flush_block_line i u k s)"
| fetching: "lock_share_step sync n qmax w s (fetch_block_line i u k s)"

definition lock_share_start :: "lock_share \<Rightarrow> bool" where
  "lock_share_start s \<longleftrightarrow> locks s = lock_sys_init new_table \<and> (\<forall>i u k v. fcache s i u k \<noteq> Some (v, True)) \<and> (\<forall>i. unflushed s i = {}) \<and> \<not> mismatch s"

definition lock_mmap_size :: u32 where
  "lock_mmap_size = 8 * 1024 * 1024 * of_nat BLOCK_NUM + 64"

text \<open>The main functions before their loops. The connection comes first; \<open>socket_connect\<close> exits itself when it fails, so that the tests of its result are never true.\<close>

definition lock_write_main :: "int outcome \<Rightarrow> nat \<Rightarrow> bool \<Rightarrow> bool \<Rightarrow> main_run" where
  "lock_write_main connected argc mapped alloc =
    (if argc \<noteq> 2 then Returns 0
     else (case connected of
             Done sock \<Rightarrow> if sock < 0 then Returns 1 else if mapped \<and> alloc then Enters_loop else Faults_in_loop
           | _ \<Rightarrow> Returns 1))"

definition lock_read_main :: "int outcome \<Rightarrow> nat \<Rightarrow> bool \<Rightarrow> bool \<Rightarrow> main_run" where
  "lock_read_main connected argc mapped alloc =
    (if argc \<noteq> 2 then Returns 0
     else (case connected of
             Done sock \<Rightarrow> if sock = -1 then Returns 1 else if mapped \<and> alloc then Enters_loop else Faults_in_loop
           | _ \<Rightarrow> Returns 1))"

lemma lock_mmap_holds: "BLOCK_NUM * (8 * 1024 * 1024) \<le> unat lock_mmap_size" "unat lock_mmap_size < 2 ^ 31"
  by (simp_all add: lock_mmap_size_def BLOCK_NUM_def)

lemma lock_mains_agree:
  assumes "connected = socket_connect s p c"
  shows "lock_write_main connected = lock_read_main connected"
  using assms by (auto simp: lock_write_main_def lock_read_main_def socket_connect_def fun_eq_iff)

section \<open>The invariant\<close>

definition same_lines :: "nat \<Rightarrow> line_mem \<Rightarrow> line_mem \<Rightarrow> bool" where
  "same_lines w f g \<longleftrightarrow> (\<forall>k. 1 \<le> k \<longrightarrow> k \<le> w \<longrightarrow> f k = g k)"

text \<open>Memory holds the last complete write of the block.\<close>

definition up_to_date_mem :: "nat \<Rightarrow> lock_share \<Rightarrow> u32 \<Rightarrow> bool" where
  "up_to_date_mem w s u \<longleftrightarrow> (\<exists>f. latest s u = Some f \<and> filled w f \<and> same_lines w (fmem s u) f)"

definition coherent :: "lock_share \<Rightarrow> nat \<Rightarrow> u32 \<Rightarrow> nat \<Rightarrow> bool" where
  "coherent s i u k \<longleftrightarrow> fcache s i u k = None \<or> fcache s i u k = Some (fmem s u k, False)"

definition stored :: "lock_share \<Rightarrow> nat \<Rightarrow> u32 \<Rightarrow> nat \<Rightarrow> bool" where
  "stored s i u k \<longleftrightarrow> fcache s i u k = Some (buf s i k, True) \<or> fmem s u k = buf s i k"

text \<open>The lines of a block whose flush is issued and complete.\<close>

definition flushed :: "lock_share \<Rightarrow> nat \<Rightarrow> u32 \<Rightarrow> nat \<Rightarrow> bool" where
  "flushed s i u k \<longleftrightarrow> (u, k) \<notin> unflushed s i"

fun write_inv :: "nat \<Rightarrow> lock_share \<Rightarrow> nat \<Rightarrow> u32 \<Rightarrow> job \<Rightarrow> bool" where
  "write_inv w s i u (Store_lines j) \<longleftrightarrow> 1 \<le> j \<and> j \<le> w \<and> (\<forall>k. 1 \<le> k \<longrightarrow> k < j \<longrightarrow> stored s i u k)"
| "write_inv w s i u (Write_back j) \<longleftrightarrow> 1 \<le> j \<and> j \<le> w \<and> (\<forall>k. 1 \<le> k \<longrightarrow> k \<le> w \<longrightarrow> stored s i u k \<and> (k < j \<longrightarrow> flushed s i u k \<longrightarrow> fmem s u k = buf s i k))"
| "write_inv w s i u Reload \<longleftrightarrow> (\<forall>k. 1 \<le> k \<longrightarrow> k \<le> w \<longrightarrow> stored s i u k \<and> (flushed s i u k \<longrightarrow> fmem s u k = buf s i k))"
| "write_inv w s i u Finished \<longleftrightarrow> up_to_date_mem w s u"
| "write_inv w s i u _ \<longleftrightarrow> False"

fun read_inv :: "nat \<Rightarrow> lock_share \<Rightarrow> nat \<Rightarrow> u32 \<Rightarrow> job \<Rightarrow> bool" where
  "read_inv w s i u (Invalidate j) \<longleftrightarrow> 1 \<le> j \<and> j \<le> w \<and> (\<forall>k. 1 \<le> k \<longrightarrow> k < j \<longrightarrow> flushed s i u k \<longrightarrow> coherent s i u k)"
| "read_inv w s i u (Load_lines j) \<longleftrightarrow> 1 \<le> j \<and> j \<le> w \<and> (\<forall>k. 1 \<le> k \<longrightarrow> k \<le> w \<longrightarrow> flushed s i u k \<longrightarrow> coherent s i u k) \<and>
     (\<forall>k. 1 \<le> k \<longrightarrow> k < j \<longrightarrow> buf s i k = fmem s u k)"
| "read_inv w s i u Compare \<longleftrightarrow> (\<forall>k. 1 \<le> k \<longrightarrow> k \<le> w \<longrightarrow> flushed s i u k \<longrightarrow> coherent s i u k) \<and> same_lines w (buf s i) (fmem s u)"
| "read_inv w s i u Finished \<longleftrightarrow> True"
| "read_inv w s i u _ \<longleftrightarrow> False"

definition client_job_inv :: "nat \<Rightarrow> lock_share \<Rightarrow> nat \<Rightarrow> lock_type \<Rightarrow> u32 \<Rightarrow> bool" where
  "client_job_inv w s i t u \<longleftrightarrow> (if t = WRITE_LOCK then write_inv w s i u (job s i) else read_inv w s i u (job s i))"

text \<open>A dirty line belongs to a writer at work, with the contents of its buffer.\<close>

fun may_be_dirty :: "nat \<Rightarrow> (nat \<Rightarrow> bool) \<Rightarrow> job \<Rightarrow> nat \<Rightarrow> bool" where
  "may_be_dirty w compl (Store_lines j) k \<longleftrightarrow> 1 \<le> k \<and> k < j"
| "may_be_dirty w compl (Write_back j) k \<longleftrightarrow> 1 \<le> k \<and> k \<le> w \<and> (k < j \<longrightarrow> \<not> compl k)"
| "may_be_dirty w compl Reload k \<longleftrightarrow> 1 \<le> k \<and> k \<le> w \<and> \<not> compl k"
| "may_be_dirty w compl _ k \<longleftrightarrow> False"

definition dirty_ok :: "nat \<Rightarrow> nat \<Rightarrow> lock_share \<Rightarrow> nat \<Rightarrow> u32 \<Rightarrow> bool" where
  "dirty_ok n w s i u \<longleftrightarrow> (\<forall>k v. fcache s i u k = Some (v, True) \<longrightarrow>
     i < n \<and> cl (locks s) i = Holding WRITE_LOCK u \<and> may_be_dirty w (flushed s i u) (job s i) k \<and> v = buf s i k)"

definition client_buffer_ok :: "nat \<Rightarrow> client \<Rightarrow> line_mem \<Rightarrow> bool" where
  "client_buffer_ok w c b \<longleftrightarrow>
    (case c of Idle \<Rightarrow> True | Gone \<Rightarrow> True | Waiting t u \<Rightarrow> unat u < BLOCK_NUM \<and> (t = WRITE_LOCK \<longrightarrow> filled w b)
     | Holding t u \<Rightarrow> unat u < BLOCK_NUM \<and> (t = WRITE_LOCK \<longrightarrow> filled w b))"

definition lock_share_inv :: "nat \<Rightarrow> nat \<Rightarrow> nat \<Rightarrow> (long \<Rightarrow> lock_state) \<Rightarrow> lock_share \<Rightarrow> bool" where
  "lock_share_inv n qmax w L s \<longleftrightarrow> lock_sys_ok (kv_holds Map.empty) n qmax L (locks s) \<and>
    (\<forall>i u. dirty_ok n w s i u) \<and> (\<forall>i. client_buffer_ok w (cl (locks s) i) (buf s i)) \<and>
    (\<forall>i t u. i < n \<longrightarrow> cl (locks s) i = Holding t u \<longrightarrow> client_job_inv w s i t u) \<and>
    (\<forall>u. unat u < BLOCK_NUM \<longrightarrow> at_rest n L (locks s) (block_of u) \<longrightarrow> up_to_date_mem w s u) \<and> \<not> mismatch s"

section \<open>Preservation\<close>

lemma block_of_inject:
  assumes "unat u < BLOCK_NUM" "unat v < BLOCK_NUM" "block_of u = block_of v"
  shows "u = v"
proof -
  have t: "take_bit 30 x = x" if "unat x < BLOCK_NUM" for x :: u32
  proof -
    have "unat (take_bit 30 x) = unat x" using that by (simp add: unsigned_take_bit_eq take_bit_nat_eq_self_iff BLOCK_NUM_def)
    then show ?thesis by (rule unsigned_word_eqI)
  qed
  have "(ucast u :: u64) = ucast v" using assms t by (simp add: block_of_def)
  then have "unat (ucast u :: u64) = unat (ucast v :: u64)" by simp
  then have "unat u = unat v" by (simp add: unat_ucast_u32_u64)
  then show ?thesis by (rule unsigned_word_eqI)
qed

lemma selected_block: "u = of_nat (random_select_block r) \<Longrightarrow> unat (u :: u32) < BLOCK_NUM"
  using random_select_block_less [of r] by (auto simp: unsigned_of_nat intro: le_less_trans [OF take_bit_nat_less_eq_self])

lemma writer_not_at_rest:
  assumes "lock_sys_ok holds n qmax L S" "i < n" "holds_lock S i WRITE_LOCK b"
  shows "\<not> at_rest n L S b"
proof -
  have "block_ok S n b (L b)" using assms(1) by (simp add: lock_sys_ok_def)
  moreover have own: "owns_lock S i WRITE_LOCK b" using assms(3) by (simp add: owns_lock_def)
  ultimately have "L b = Writer" using assms(2) tokens_zero [of S b n i WRITE_LOCK] by (cases "L b") (auto simp: Lock_Service.block_ok_def)
  then show ?thesis using own assms(2) by (auto simp: at_rest_def)
qed

lemma client_job_inv_cong:
  assumes "job s' i = job s i" "buf s' i = buf s i" "fcache s' i u = fcache s i u" "fmem s' u = fmem s u" "latest s' u = latest s u"
    "unflushed s' i = unflushed s i"
  shows "client_job_inv w s' i t u \<longleftrightarrow> client_job_inv w s i t u"
  using assms by (cases "job s i") (simp_all add: client_job_inv_def up_to_date_mem_def coherent_def stored_def flushed_def)

lemma client_job_inv_mono:
  assumes "job s' = job s" "buf s' = buf s" "fmem s' = fmem s" "latest s' = latest s" "unflushed s' = unflushed s"
    and "\<And>k. stored s i u k \<Longrightarrow> stored s' i u k" "\<And>k. coherent s i u k \<Longrightarrow> coherent s' i u k"
  shows "client_job_inv w s i t u \<Longrightarrow> client_job_inv w s' i t u"
  using assms by (cases "t = WRITE_LOCK"; cases "job s i") (simp_all add: client_job_inv_def up_to_date_mem_def flushed_def)

text \<open>A client that acts on the block it holds.\<close>

lemma client_acts:
  assumes inv: "lock_share_inv n qmax w L s" and i: "i < n" "cl (locks s) i = Holding t u"
    and same: "locks s' = locks s" "\<not> mismatch s'"
      "\<And>j. j \<noteq> i \<Longrightarrow> job s' j = job s j \<and> buf s' j = buf s j \<and> fcache s' j = fcache s j \<and> unflushed s' j = unflushed s j"
      "\<And>v. v \<noteq> u \<Longrightarrow> fcache s' i v = fcache s i v \<and> fmem s' v = fmem s v \<and> latest s' v = latest s v"
      "t = READ_LOCK \<Longrightarrow> fmem s' u = fmem s u \<and> latest s' u = latest s u"
    and new: "client_job_inv w s' i t u" "dirty_ok n w s' i u" "t = WRITE_LOCK \<Longrightarrow> filled w (buf s' i)"
  shows "lock_share_inv n qmax w L s'"
proof -
  note I = inv [unfolded lock_share_inv_def]
  have ok: "lock_sys_ok (kv_holds Map.empty) n qmax L (locks s)" using I by simp
  have t: "t = READ_LOCK \<or> t = WRITE_LOCK" using ok i by (fastforce simp: lock_sys_ok_def client_ok_def)
  have holds: "holds_lock (locks s) i t (block_of u)" using i(2) by (simp add: holds_lock_def)
  have "client_job_inv w s' j t' v" if j: "j < n" "cl (locks s) j = Holding t' v" for j t' v
  proof (cases "j = i")
    case True
    then show ?thesis using j i new(1) by simp
  next
    case False
    have "t = READ_LOCK" if "v = u"
      using lock_sys_ok_exclusion [OF ok i(1) j(1) False [symmetric]] holds t that j(2) by (auto simp: holds_lock_def)
    then have "fmem s' v = fmem s v \<and> latest s' v = latest s v" using same(4,5) by (cases "v = u") auto
    then show ?thesis using client_job_inv_cong [of s' j s v w t'] same(3) [OF False] I j by simp
  qed
  moreover have "dirty_ok n w s' j v" for j v
  proof (cases "j = i")
    case True
    show ?thesis
    proof (cases "v = u")
      case False
      have old: "dirty_ok n w s i v" using I by simp
      have "fcache s i v k \<noteq> Some (x, True)" for k x using old i(2) False by (auto simp: dirty_ok_def)
      then show ?thesis using same(4) [OF False] True by (simp add: dirty_ok_def)
    qed (use new(2) True in simp)
  next
    case False
    have "dirty_ok n w s j v" using I by simp
    moreover have "flushed s' j v = flushed s j v" using same(3) [OF False] by (simp add: flushed_def fun_eq_iff)
    ultimately show ?thesis using same(1) same(3) [OF False] by (simp add: dirty_ok_def)
  qed
  moreover have "up_to_date_mem w s' v" if "unat v < BLOCK_NUM" "at_rest n L (locks s) (block_of v)" for v
  proof -
    have "t = READ_LOCK" if "v = u" using writer_not_at_rest [OF ok i(1)] holds t that \<open>at_rest n L (locks s) (block_of v)\<close> by auto
    then have "fmem s' v = fmem s v \<and> latest s' v = latest s v" using same(4,5) by (cases "v = u") auto
    moreover have "up_to_date_mem w s v" using I that by blast
    ultimately show ?thesis by (simp add: up_to_date_mem_def)
  qed
  moreover have "client_buffer_ok w (cl (locks s) j) (buf s' j)" for j
  proof -
    have "client_buffer_ok w (cl (locks s) j) (buf s j)" using I by simp
    then show ?thesis using same(3) [of j] new(3) i(2) by (cases "j = i") (auto simp: client_buffer_ok_def)
  qed
  ultimately show ?thesis using ok same(1,2) unfolding lock_share_inv_def by auto
qed

lemmas turn_defs = set_cache_def set_job_def flush_block_line_def fetch_block_line_def issue_flush_def cache_defs

lemma lock_share_invD:
  assumes "lock_share_inv n qmax w L s"
  shows "lock_sys_ok (kv_holds Map.empty) n qmax L (locks s)" "dirty_ok n w s i u" "\<not> mismatch s"
    "client_buffer_ok w (cl (locks s) i) (buf s i)" "i < n \<Longrightarrow> cl (locks s) i = Holding t u \<Longrightarrow> client_job_inv w s i t u"
    "unat u < BLOCK_NUM \<Longrightarrow> at_rest n L (locks s) (block_of u) \<Longrightarrow> up_to_date_mem w s u"
  using assms by (auto simp: lock_share_inv_def)

text \<open>Flushing a line: dirty lines go to memory, and every client keeps what it relies on.\<close>

lemma evict_inv:
  assumes inv: "lock_share_inv n qmax w L s"
  shows "lock_share_inv n qmax w L (flush_block_line i u k s)"
proof -
  let ?s = "flush_block_line i u k s"
  have d: "dirty_ok n w s i u" by (rule lock_share_invD [OF inv])
  show ?thesis
  proof (cases "\<exists>v. fcache s i u k = Some (v, True)")
    case True
    then have i: "i < n" "cl (locks s) i = Holding WRITE_LOCK u" "may_be_dirty w (flushed s i u) (job s i) k" "fcache s i u k = Some (buf s i k, True)"
      using d by (auto simp: dirty_ok_def)
    have w: "write_inv w s i u (job s i)" using lock_share_invD(5) [OF inv i(1,2)] by (simp add: client_job_inv_def)
    have "filled w (buf s i)" using lock_share_invD(4) [OF inv, of i] i(2) by (simp add: client_buffer_ok_def)
    moreover have fl: "flushed ?s = flushed s" by (simp add: flushed_def turn_defs fun_eq_iff)
    have f: "fmem ?s u l = (if l = k then buf s i k else fmem s u l)" "fcache ?s i u l = (if l = k then None else fcache s i u l)" "buf ?s = buf s" for l
      using i(4) by (simp_all add: turn_defs)
    have "write_inv w ?s i u (job s i)"
      using w i(3,4) by (cases "job s i") (auto simp: stored_def fl f)
    moreover have "dirty_ok n w ?s i u" using d unfolding dirty_ok_def fl by (auto simp: turn_defs)
    ultimately show ?thesis
      using lock_share_invD(3) [OF inv] by (intro client_acts [OF inv i(1,2)]) (auto simp: turn_defs client_job_inv_def)
  next
    case False
    then have mem: "fmem ?s = fmem s" by (auto simp: turn_defs split: option.splits)
    have c: "fcache ?s j v l = (if j = i \<and> v = u \<and> l = k then None else fcache s j v l)" for j v l by (auto simp: turn_defs)
    have same: "locks ?s = locks s" "buf ?s = buf s" "job ?s = job s" "latest ?s = latest s" "mismatch ?s = mismatch s"
      "unflushed ?s = unflushed s" by (simp_all add: turn_defs)
    have fl: "flushed ?s = flushed s" by (simp add: flushed_def same fun_eq_iff)
    have "client_job_inv w s j t v \<Longrightarrow> client_job_inv w ?s j t v" for j t v
      by (rule client_job_inv_mono) (use False in \<open>auto simp: mem same c stored_def coherent_def\<close>)
    moreover have "dirty_ok n w s j v \<Longrightarrow> dirty_ok n w ?s j v" for j v by (auto simp: dirty_ok_def fl same c)
    ultimately show ?thesis using inv by (auto simp: lock_share_inv_def same mem up_to_date_mem_def)
  qed
qed

lemma fetch_inv:
  assumes inv: "lock_share_inv n qmax w L s"
  shows "lock_share_inv n qmax w L (fetch_block_line i u k s)"
proof -
  let ?s = "fetch_block_line i u k s"
  have c: "fcache ?s j v l = (if j = i \<and> v = u \<and> l = k \<and> fcache s i u k = None then Some (fmem s u k, False) else fcache s j v l)" for j v l
    by (auto simp: turn_defs split: option.splits)
  have same: "locks ?s = locks s" "buf ?s = buf s" "job ?s = job s" "latest ?s = latest s" "mismatch ?s = mismatch s" "fmem ?s = fmem s"
    "unflushed ?s = unflushed s" by (simp_all add: turn_defs)
  have fl: "flushed ?s = flushed s" by (simp add: flushed_def same fun_eq_iff)
  have "client_job_inv w s j t v \<Longrightarrow> client_job_inv w ?s j t v" for j t v
    by (rule client_job_inv_mono) (auto simp: same c stored_def coherent_def)
  moreover have "dirty_ok n w s j v \<Longrightarrow> dirty_ok n w ?s j v" for j v by (auto simp: dirty_ok_def fl same c)
  ultimately show ?thesis using inv by (auto simp: lock_share_inv_def same up_to_date_mem_def)
qed

text \<open>A flush that completes: the line has left the cache, so that it is where its client relies on it.\<close>

lemma complete_inv:
  assumes inv: "lock_share_inv n qmax w L s"
  shows "lock_share_inv n qmax w L (complete_flush i u k s)"
proof -
  let ?e = "flush_block_line i u k s"
  let ?s = "complete_flush i u k s"
  have E: "lock_share_inv n qmax w L ?e" by (rule evict_inv [OF inv])
  have gone: "fcache ?e i u k = None" by (simp add: turn_defs)
  have same: "locks ?s = locks ?e" "buf ?s = buf ?e" "job ?s = job ?e" "latest ?s = latest ?e" "mismatch ?s = mismatch ?e" "fmem ?s = fmem ?e"
    "fcache ?s = fcache ?e" by (simp_all add: complete_flush_def)
  have fl: "flushed ?s j v l \<longleftrightarrow> flushed ?e j v l \<or> j = i \<and> v = u \<and> l = k" for j v l
    by (auto simp: flushed_def complete_flush_def flush_block_line_def set_cache_def)
  have "stored ?s j v l = stored ?e j v l" "coherent ?s j v l = coherent ?e j v l" for j v l by (simp_all add: stored_def coherent_def same)
  moreover have "stored ?e i u k \<Longrightarrow> fmem ?e u k = buf ?e i k" "coherent ?e i u k" using gone by (simp_all add: stored_def coherent_def)
  ultimately have "client_job_inv w ?e j t v \<Longrightarrow> client_job_inv w ?s j t v" for j t v
    by (cases "t = WRITE_LOCK"; cases "job ?e j") (auto simp: client_job_inv_def same fl up_to_date_mem_def)
  moreover have "may_be_dirty w (flushed ?s j v) (job ?e j) l"
    if "fcache ?e j v l = Some (x, True)" "may_be_dirty w (flushed ?e j v) (job ?e j) l" for j v l x
    using that gone by (cases "job ?e j") (auto simp: fl)
  then have "dirty_ok n w ?e j v \<Longrightarrow> dirty_ok n w ?s j v" for j v by (simp add: dirty_ok_def same)
  ultimately show ?thesis using E unfolding lock_share_inv_def same up_to_date_mem_def by blast
qed

lemma write_turn_inv:
  assumes inv: "lock_share_inv n qmax w L s" and i: "i < n" "cl (locks s) i = Holding WRITE_LOCK u" and w: "0 < w"
    and fence: "fenced_turn True w (job s i) \<longrightarrow> unflushed s i = {}"
  shows "lock_share_inv n qmax w L (write_turn w i u s)"
proof -
  let ?s = "write_turn w i u s"
  have J: "write_inv w s i u (job s i)" using lock_share_invD(5) [OF inv i] by (simp add: client_job_inv_def)
  have fill: "filled w (buf s i)" using lock_share_invD(4) [OF inv, of i] i(2) by (simp add: client_buffer_ok_def)
  have d: "dirty_ok n w s i u" by (rule lock_share_invD [OF inv])
  have go: ?thesis if "write_inv w ?s i u (job ?s i)" "dirty_ok n w ?s i u"
    using that fill lock_share_invD(3) [OF inv] J
    by (intro client_acts [OF inv i]) (cases "job s i"; simp add: client_job_inv_def write_turn_def turn_defs)+
  show ?thesis
  proof (cases "job s i")
    case (Store_lines k)
    then have k: "1 \<le> k" "k \<le> w" "\<And>l. 1 \<le> l \<Longrightarrow> l < k \<Longrightarrow> stored s i u l" using J by auto
    have st: "stored ?s i u l" if "1 \<le> l" "l \<le> k" for l
      using k(3) [OF that(1)] that by (cases "l = k") (auto simp: write_turn_def Store_lines turn_defs stored_def)
    have "write_inv w ?s i u (job ?s i)" using st k w by (auto simp: write_turn_def Store_lines set_job_def)
    moreover have "dirty_ok n w ?s i u" using d k i
      by (auto simp: dirty_ok_def write_turn_def Store_lines turn_defs intro: less_SucI less_imp_le_nat)
    ultimately show ?thesis by (rule go)
  next
    case (Write_back k)
    have same: "fmem ?s = fmem s" "buf ?s = buf s" "fcache ?s = fcache s" "locks ?s = locks s"
      "job ?s i = (if k < w then Write_back (Suc k) else Reload)" "unflushed ?s i = insert (u, k) (unflushed s i)"
      by (simp_all add: write_turn_def Write_back set_job_def issue_flush_def)
    have fl: "flushed ?s i u l \<longleftrightarrow> flushed s i u l \<and> l \<noteq> k" for l by (auto simp: flushed_def same)
    have st: "stored ?s i u l = stored s i u l" for l by (simp add: stored_def same)
    have "write_inv w ?s i u (job ?s i)"
      using J unfolding Write_back same(5) by (auto simp: fl st same less_Suc_eq)
    moreover have "may_be_dirty w (flushed ?s i u) (job ?s i) l" if "may_be_dirty w (flushed s i u) (Write_back k) l" for l
      using that by (auto simp: fl same less_Suc_eq)
    then have "dirty_ok n w ?s i u" using d by (simp add: dirty_ok_def same(1-4) Write_back)
    ultimately show ?thesis by (rule go)
  next
    case Reload
    then have all: "flushed s i u k" for k using fence by (simp add: fenced_turn_def flushed_def)
    then have "same_lines w (fmem s u) (buf s i)" using J Reload by (simp add: same_lines_def)
    then have "write_inv w ?s i u (job ?s i)" using Reload fill by (auto simp: write_turn_def turn_defs up_to_date_mem_def)
    moreover have "dirty_ok n w ?s i u" using d all by (auto simp: dirty_ok_def write_turn_def Reload turn_defs split: option.splits)
    ultimately show ?thesis by (rule go)
  qed (use J inv in \<open>simp_all add: write_turn_def\<close>)
qed

lemma crc_matches_filled:
  assumes "filled w f" "0 < w" "64 * w < 2 ^ 32" "same_lines w g f"
  shows "crc_matches w g (f w)"
proof -
  obtain rnd crc where d: "calculate_crc32 (fill_buffer_random rnd (64 * w - 4)) (of_nat (64 * w - 4)) = Some crc"
    "f = (\<lambda>i. take 64 (drop (64 * (i - 1)) (fill_buffer_random rnd (64 * w - 4) @ le32 crc)))"
    using assms(1) by (auto simp: filled_def)
  let ?b = "fill_buffer_random rnd (64 * w - 4) @ le32 crc"
  have b: "block_of_lines w g = ?b"
  proof -
    have "block_of_lines w g = block_of_lines w f" using assms(4) by (intro block_of_lines_cong) (simp add: same_lines_def)
    then show ?thesis unfolding d(2) block_of_slices using assms(2) by simp
  qed
  have "f w = drop (64 * (w - 1)) ?b" unfolding d(2) using assms(2) by (simp add: diff_mult_distrib2)
  then have "drop 60 (f w) = drop (60 + 64 * (w - 1)) ?b" by (simp only: drop_drop)
  also have "60 + 64 * (w - 1) = 64 * w - 4" using assms(2) by simp
  finally have last: "drop 60 (f w) = le32 crc" by simp
  have "Rw_Info.block_ok ?b" using sealed_block_ok [of "fill_buffer_random rnd (64 * w - 4)" crc] d(1) assms(3) by simp
  then show ?thesis using assms(2) b last by (simp add: crc_matches_def Rw_Info.block_ok_def)
qed

lemma read_turn_inv:
  assumes inv: "lock_share_inv n qmax w L s" and i: "i < n" "cl (locks s) i = Holding READ_LOCK u" and w: "0 < w" "64 * w < 2 ^ 32"
    and fence: "fenced_turn True w (job s i) \<longrightarrow> unflushed s i = {}"
  shows "lock_share_inv n qmax w L (read_turn w i u s)"
proof -
  let ?s = "read_turn w i u s"
  have J: "read_inv w s i u (job s i)" using lock_share_invD(5) [OF inv i] by (simp add: client_job_inv_def)
  have clean: "fcache s i u k \<noteq> Some (v, True)" for k v using lock_share_invD(2) [OF inv, of i u] i(2) by (auto simp: dirty_ok_def)
  have fm: "fmem ?s = fmem s" by (cases "job s i") (simp_all add: read_turn_def set_job_def set_cache_def issue_flush_def fetch_block_line_def)
  have dirty: "dirty_ok n w ?s i u"
    using clean by (cases "job s i") (auto simp: dirty_ok_def read_turn_def turn_defs split: option.splits)
  have go: ?thesis if "read_inv w ?s i u (job ?s i)" "\<not> mismatch ?s"
    using that dirty fm J
    by (intro client_acts [OF inv i]) (cases "job s i"; simp add: client_job_inv_def read_turn_def turn_defs)+
  have ok: "\<not> mismatch s" by (rule lock_share_invD(3) [OF inv])
  have fetched: "coherent (fetch_block_line i u k s) i u l" if "coherent s i u l" for k l
    using that by (auto simp: coherent_def turn_defs split: option.splits)
  show ?thesis
  proof (cases "job s i")
    case (Invalidate k)
    have same: "fmem ?s = fmem s" "fcache ?s = fcache s" "job ?s i = (if k < w then Invalidate (Suc k) else Load_lines 1)"
      "unflushed ?s i = insert (u, k) (unflushed s i)"
      by (simp_all add: read_turn_def Invalidate set_job_def issue_flush_def)
    have "read_inv w ?s i u (job ?s i)"
      using J w(1) unfolding Invalidate same(3) by (auto simp: flushed_def coherent_def same less_Suc_eq)
    then show ?thesis using ok by (intro go) (simp_all add: read_turn_def Invalidate turn_defs)
  next
    case (Load_lines k)
    then have "flushed s i u l" for l using fence by (simp add: fenced_turn_def flushed_def)
    then have k: "1 \<le> k" "k \<le> w" "\<And>l. 1 \<le> l \<Longrightarrow> l \<le> w \<Longrightarrow> coherent s i u l" "\<And>l. 1 \<le> l \<Longrightarrow> l < k \<Longrightarrow> buf s i l = fmem s u l"
      using J Load_lines by auto
    have v: "cached_value (fmem s u) (fcache s i u) k = fmem s u k" using k(3) [of k] k(1,2) by (auto simp: coherent_def cached_value_def)
    have co: "coherent ?s i u l" if "1 \<le> l" "l \<le> w" for l
      using fetched [OF k(3) [OF that], of k] by (simp add: read_turn_def Load_lines coherent_def set_job_def fetch_block_line_def set_cache_def)
    have bf: "buf ?s i l = fmem ?s u l" if "1 \<le> l" "l \<le> k" for l
      using k(4) [OF that(1)] that v fm by (cases "l = k") (simp_all add: read_turn_def Load_lines set_job_def)
    have "read_inv w ?s i u (if k < w then Load_lines (Suc k) else Compare)" using co bf k(1,2) by (auto simp: same_lines_def)
    then show ?thesis using ok by (intro go) (simp_all add: read_turn_def Load_lines set_job_def fetch_block_line_def set_cache_def)
  next
    case Compare
    then have "flushed s i u l" for l using fence by (simp add: fenced_turn_def flushed_def)
    then have c: "coherent s i u w" "same_lines w (buf s i) (fmem s u)" using J w(1) Compare by auto
    have "holds_lock (locks s) i READ_LOCK (block_of u)" using i(2) by (simp add: holds_lock_def)
    then have "at_rest n L (locks s) (block_of u)" by (rule reader_at_rest [OF lock_share_invD(1) [OF inv] i(1)])
    moreover have "unat u < BLOCK_NUM" using lock_share_invD(4) [OF inv, of i] i(2) by (simp add: client_buffer_ok_def)
    ultimately obtain f where f: "filled w f" "same_lines w (fmem s u) f" using lock_share_invD(6) [OF inv] by (auto simp: up_to_date_mem_def)
    have "cached_value (fmem s u) (fcache s i u) w = f w"
      using c(1) f(2) w(1) by (auto simp: coherent_def cached_value_def same_lines_def)
    moreover have "same_lines w (buf s i) f" using c(2) f(2) by (simp add: same_lines_def)
    ultimately have "crc_matches w (buf s i) (cached_value (fmem s u) (fcache s i u) w)" using crc_matches_filled [OF f(1) w] by simp
    then show ?thesis using ok by (intro go) (simp_all add: read_turn_def Compare set_job_def fetch_block_line_def set_cache_def)
  qed (use J inv in \<open>simp_all add: read_turn_def\<close>)
qed

lemma client_moves:
  assumes "lock_sys_step get put fresh n qmax S S'" "\<not> faulty S'"
  shows "cl S' i = cl S i \<or> cl S i = Idle \<and> (\<exists>t u. cl S' i = Waiting t u) \<or>
    (\<exists>t u. cl S i = Waiting t u \<and> cl S' i = Holding t u) \<or> (\<exists>t u. cl S i = Holding t u \<and> cl S' i = Idle)"
  using assms by (cases rule: lock_sys_step.cases) (auto split: if_splits)

lemma lock_turn_inv:
  assumes inv: "lock_share_inv n qmax w L s" and step: "table_step n qmax (locks s) S'" and f: "filled w f"
    and u: "\<forall>i t u. cl S' i = Waiting t u \<longrightarrow> unat u < BLOCK_NUM"
    and fin: "\<forall>i t u. cl (locks s) i = Holding t u \<longrightarrow> cl S' i \<noteq> Holding t u \<longrightarrow> job s i = Finished \<or> cl S' i = Gone"
    and good: "\<not> faulty S'"
    and bound: "n * (qmax + 1) + 1 < 2 ^ 61" and w: "0 < w"
  shows "\<exists>L'. lock_share_inv n qmax w L' (after_lock f S' s)"
proof -
  let ?s = "after_lock f S' s"
  obtain L' where L': "lock_sys_ok (kv_holds Map.empty) n qmax L' S'"
    "\<And>b. at_rest n L' S' b \<Longrightarrow> at_rest n L (locks s) b \<or> (\<exists>i<n. holds_lock (locks s) i WRITE_LOCK b \<and> \<not> holds_lock S' i WRITE_LOCK b)"
    using ht.lock_sys_step_ok [OF step lock_share_invD(1) [OF inv] bound good] by blast
  note moves = client_moves [OF step good]
  have stays: "cl S' i \<noteq> Gone" if "cl (locks s) i = Holding t v" for i t v using moves [of i] that by auto
  have same: "locks ?s = S'" "fmem ?s = fmem s" "fcache ?s = fcache s" "latest ?s = latest s" "mismatch ?s = mismatch s" "unflushed ?s = unflushed s"
    by (simp_all add: after_lock_def)
  have fl: "flushed ?s = flushed s" by (simp add: flushed_def fun_eq_iff same)
  have kept: "job ?s i = job s i \<and> buf ?s i = buf s i" if "cl (locks s) i = Holding t v" for i t v
    using that by (simp add: after_lock_def)
  have "client_job_inv w ?s i t v" if i: "i < n" "cl S' i = Holding t v" for i t v
  proof (cases "cl (locks s) i = Holding t v")
    case True
    then show ?thesis using client_job_inv_cong [of ?s i s v w t] kept [OF True] lock_share_invD(5) [OF inv i(1)] same by simp
  next
    case False
    then have "cl (locks s) i = Waiting t v" using moves [of i] i(2) by auto
    then show ?thesis using i(2) w by (simp add: client_job_inv_def after_lock_def)
  qed
  moreover have "dirty_ok n w ?s i v" for i v
  proof -
    have old: "dirty_ok n w s i v" by (rule lock_share_invD(2) [OF inv])
    show ?thesis
      unfolding dirty_ok_def
    proof (intro allI impI)
      fix k x assume "fcache ?s i v k = Some (x, True)"
      then have d: "i < n" "cl (locks s) i = Holding WRITE_LOCK v" "may_be_dirty w (flushed s i v) (job s i) k" "x = buf s i k"
        using old by (auto simp: dirty_ok_def same)
      then have "cl S' i = Holding WRITE_LOCK v" using fin stays [OF d(2)] by fastforce
      then show "i < n \<and> cl (locks ?s) i = Holding WRITE_LOCK v \<and> may_be_dirty w (flushed ?s i v) (job ?s i) k \<and> x = buf ?s i k"
        using d kept [OF d(2)] same by (simp add: fl)
    qed
  qed
  moreover have "client_buffer_ok w (cl S' i) (buf ?s i)" for i
  proof -
    have "client_buffer_ok w (cl (locks s) i) (buf s i)" by (rule lock_share_invD(4) [OF inv])
    then show ?thesis using moves [of i] u f by (auto simp: client_buffer_ok_def after_lock_def split: client.splits)
  qed
  moreover have "up_to_date_mem w s v" if v: "unat v < BLOCK_NUM" "at_rest n L' S' (block_of v)" for v
    using L'(2) [OF v(2)]
  proof
    assume "\<exists>i<n. holds_lock (locks s) i WRITE_LOCK (block_of v) \<and> \<not> holds_lock S' i WRITE_LOCK (block_of v)"
    then obtain i v' where i: "i < n" "cl (locks s) i = Holding WRITE_LOCK v'" "block_of v' = block_of v" "cl S' i \<noteq> Holding WRITE_LOCK v'"
      by (auto simp: holds_lock_def)
    have "unat v' < BLOCK_NUM" using lock_share_invD(4) [OF inv, of i] i(2) by (simp add: client_buffer_ok_def)
    then have "v' = v" using block_of_inject v(1) i(3) by blast
    moreover have "job s i = Finished" using fin i stays [OF i(2)] by blast
    ultimately show ?thesis using lock_share_invD(5) [OF inv i(1,2)] by (simp add: client_job_inv_def)
  qed (rule lock_share_invD(6) [OF inv v(1)])
  ultimately have "lock_share_inv n qmax w L' ?s"
    using L'(1) lock_share_invD(3) [OF inv] unfolding lock_share_inv_def same up_to_date_mem_def by auto
  then show ?thesis by blast
qed

lemma lock_share_step_inv:
  assumes "lock_share_step True n qmax w s s'" "lock_share_inv n qmax w L s" "n * (qmax + 1) + 1 < 2 ^ 61" "0 < w" "64 * w < 2 ^ 32"
    and good: "\<not> faulty (locks s')"
  shows "\<exists>L'. lock_share_inv n qmax w L' s'"
  using assms(1)
proof cases
  case (locking S' f)
  have "\<forall>i t u. cl S' i = Waiting t u \<longrightarrow> unat u < BLOCK_NUM" using locking(4) selected_block by blast
  moreover have "\<not> faulty S'" using good locking(1) by (simp add: after_lock_def)
  ultimately show ?thesis using lock_turn_inv [OF assms(2) locking(2,3) _ locking(5) _ assms(3,4)] locking(1) by simp
qed (use write_turn_inv [OF assms(2) _ _ assms(4)] read_turn_inv [OF assms(2) _ _ assms(4,5)] complete_inv [OF assms(2)]
    evict_inv [OF assms(2)] fetch_inv [OF assms(2)] in blast)+

lemma lock_share_step_faulty: "lock_share_step sync n qmax w s s' \<Longrightarrow> faulty (locks s) \<Longrightarrow> faulty (locks s')"
proof (induction rule: lock_share_step.induct)
  case (locking s S' f)
  then show ?case using lock_sys_step_faulty by (simp add: after_lock_def)
next
  case (writing i s u)
  then show ?case by (cases "job s i") (simp_all add: write_turn_def turn_defs)
next
  case (reading i s u)
  then show ?case by (cases "job s i") (simp_all add: read_turn_def turn_defs)
qed (simp_all add: turn_defs complete_flush_def)

lemma lock_share_reachable_inv:
  assumes "(lock_share_step True n qmax w)\<^sup>*\<^sup>* s s'" "lock_share_start s" "n * (qmax + 1) + 1 < 2 ^ 61" "0 < w" "64 * w < 2 ^ 32"
    "\<not> faulty (locks s')"
  shows "\<exists>L. lock_share_inv n qmax w L s'"
  using assms(1,6)
proof (induction rule: rtranclp_induct)
  case base
  have s: "locks s = lock_sys_init new_table" "\<And>i u k v. fcache s i u k \<noteq> Some (v, True)" "\<not> mismatch s"
    using assms(2) by (auto simp: lock_share_start_def)
  have "lock_share_inv n qmax w (\<lambda>_. Unwritten) s"
    using ht.lock_sys_init_ok [OF new_table_holds, of n qmax] s
    by (simp add: lock_share_inv_def dirty_ok_def client_buffer_ok_def at_rest_def) (simp add: lock_sys_init_def)
  then show ?case by blast
next
  case (step s1 s2)
  then have "\<not> faulty (locks s1)" using lock_share_step_faulty by blast
  then show ?case using lock_share_step_inv [OF step.hyps(2) _ assms(3-5) step.prems] step.IH by blast
qed

section \<open>A run of one client\<close>

definition solo :: "HashTable option \<times> node_heap \<Rightarrow> client \<Rightarrow> u32 list \<Rightarrow> u32 list \<Rightarrow> (HashTable option \<times> node_heap) lock_sys" where
  "solo s c q r = \<lparr>srv = s, cl = (\<lambda>_. Idle)(0 := c), req = (\<lambda>_. [])(0 := q), rsp = (\<lambda>_. [])(0 := r), faulty = False\<rparr>"

lemma solo_steps:
  "t = READ_LOCK \<or> t = WRITE_LOCK \<Longrightarrow> table_step 1 1 (solo s Idle [] []) (solo s (Waiting t u) [lock_request u t] [])"
  "table_step 1 1 (solo s (Waiting t u) [] [1]) (solo s (Holding t u) [] [])"
  "table_step 1 1 (solo s (Holding t u) [] []) (solo s Idle [lock_request u RELEASE_LOCK] [])"
  using lock_sys_step.request [of 0 1 "solo s Idle [] []" t 1 kv_get kv_set kv_fresh u]
    lock_sys_step.granted [of 0 1 "solo s (Waiting t u) [] [1]" t u 1 "[]" kv_get kv_set kv_fresh 1]
    lock_sys_step.release [of 0 1 "solo s (Holding t u) [] []" t u 1 kv_get kv_set kv_fresh]
  by (simp_all add: solo_def releaselock_def)

lemma solo_serve:
  assumes "kv_holds Map.empty s m" "lock_table L m" "t \<noteq> ERROR_LOCK" "\<And>k. L (block_of u) \<noteq> Readers k"
  obtains s' m' where
    "\<And>c. table_step 1 1 (solo s c [lock_request u t] [])
       (solo s' c [] (case snd (lock_spec t (L (block_of u))) of None \<Rightarrow> [] | Some ok \<Rightarrow> [reply_word ok]))"
    "kv_holds Map.empty s' m'" "lock_table (L(block_of u := fst (lock_spec t (L (block_of u))))) m'"
proof -
  let ?x = "lock_request u t" and ?a = "Some (first_free s)"
  have a: "kv_fresh s ?a" using first_free_fresh [of "snd s" "fst s"] assms(1) by (simp add: kv_holds_def)
  have b: "msg_block ?x = block_of u" "msg_indicator ?x = lock_code t" by (simp_all add: message_simps)
  obtain s' m' where r: "handle_lock kv_get kv_set s ?a ?x = Done (s', map_option reply_word (snd (lock_spec t (L (block_of u)))))"
    "kv_holds Map.empty s' m'" "lock_table (L(block_of u := fst (lock_spec t (L (block_of u))))) m'"
    using ht.handle_lock_refines [OF assms(1,2) a _ b(2) assms(3)] b(1) assms(4) by auto
  have "table_step 1 1 (solo s c [?x] []) (solo s' c [] (case snd (lock_spec t (L (block_of u))) of None \<Rightarrow> [] | Some ok \<Rightarrow> [reply_word ok]))" for c
    using lock_sys_step.serve [of 0 1 "solo s c [?x] []" ?x "[]" kv_fresh ?a kv_get kv_set s' _ 1] a r(1)
    by (cases "snd (lock_spec t (L (block_of u)))") (simp_all add: solo_def)
  then show ?thesis using r(2,3) that by blast
qed

definition solo_share :: "(HashTable option \<times> node_heap) lock_sys \<Rightarrow> job \<Rightarrow> line_mem \<Rightarrow> (bytes \<times> bool) option \<Rightarrow> bytes \<Rightarrow> line_mem option \<Rightarrow> lock_share" where
  "solo_share S j b c v f = \<lparr>locks = S, fmem = (\<lambda>_ _. [])(1 := (\<lambda>_. [])(1 := v)), fcache = (\<lambda>_ _ _. None)(0 := (\<lambda>_ _. None)(1 := (\<lambda>_. None)(1 := c))),
     job = (\<lambda>_. Finished)(0 := j), buf = (\<lambda>_ _. [])(0 := b), unflushed = (\<lambda>_. {}), latest = (\<lambda>_. None)(1 := f), mismatch = False\<rparr>"

lemma solo_locking:
  assumes "table_step 1 1 (solo s c q r) (solo s' c' q' r')" "filled 1 f" "\<And>t u. c' = Waiting t u \<Longrightarrow> u = 1"
    and "\<And>t u. c = Holding t u \<Longrightarrow> c' \<noteq> Holding t u \<Longrightarrow> j = Finished"
    and "j' = (case (c, c') of (Waiting _ _, Holding t _) \<Rightarrow> if t = WRITE_LOCK then Store_lines 1 else Invalidate 1 | _ \<Rightarrow> j)"
    and "b' = (case (c, c') of (Idle, Waiting t _) \<Rightarrow> if t = WRITE_LOCK then f else b | _ \<Rightarrow> b)"
  shows "lock_share_step True 1 1 1 (solo_share (solo s c q r) j b x v g) (solo_share (solo s' c' q' r') j' b' x v g)"
proof -
  let ?s = "solo_share (solo s c q r) j b x v g"
  have "(1 :: u32) = of_nat (random_select_block 1)" by (simp add: random_select_block_def BLOCK_NUM_def)
  then have "lock_share_step True 1 1 1 ?s (after_lock f (solo s' c' q' r') ?s)"
    using assms(1-4) by (intro lock_share_step.locking) (auto simp: solo_share_def solo_def)
  moreover have "after_lock f (solo s' c' q' r') ?s = solo_share (solo s' c' q' r') j' b' x v g"
    unfolding assms(5,6) after_lock_def solo_share_def solo_def
    by (auto simp: fun_eq_iff split: client.splits)
  ultimately show ?thesis by simp
qed

text \<open>A flush turn and the completion of its flush.\<close>

definition flushing :: "job \<Rightarrow> lock_share \<Rightarrow> lock_share" where
  "flushing j s = (issue_flush 0 1 1 s)\<lparr>job := (job s)(0 := j)\<rparr>"

lemma solo_complete: "lock_share_step True 1 1 1 (flushing j s) (complete_flush 0 1 1 (flushing j s))"
  by (rule lock_share_step.completing) (simp add: flushing_def issue_flush_def)

lemma solo_write:
  assumes S_def: "S = solo s (Holding WRITE_LOCK 1) [] []"
  shows "(lock_share_step True 1 1 1)\<^sup>*\<^sup>* (solo_share S (Store_lines 1) b x v g) (solo_share S Finished b (Some (b 1, False)) (b 1) (Some b))"
proof -
  have turn: "lock_share_step True 1 1 1 z (write_turn 1 0 1 z)" if "locks z = S" "fenced_turn True 1 (job z 0) \<longrightarrow> unflushed z 0 = {}" for z
    using that by (intro lock_share_step.writing) (simp_all add: S_def solo_def)
  let ?a = "solo_share S (Store_lines 1) b x v g" and ?b = "solo_share S (Write_back 1) b (Some (b 1, True)) v g"
    and ?c = "solo_share S Reload b None (b 1) g"
  have "write_turn 1 0 1 ?a = ?b" "write_turn 1 0 1 ?b = flushing Reload ?b" "complete_flush 0 1 1 (flushing Reload ?b) = ?c"
    "write_turn 1 0 1 ?c = solo_share S Finished b (Some (b 1, False)) (b 1) (Some b)"
    by (auto simp: write_turn_def solo_share_def turn_defs flushing_def complete_flush_def fun_eq_iff)
  then show ?thesis
    using turn [of ?a] turn [of ?b] solo_complete [of Reload ?b] turn [of ?c]
    by (simp add: solo_share_def fenced_turn_def)
qed

lemma solo_read:
  assumes S_def: "S = solo s (Holding READ_LOCK 1) [] []"
  shows "(lock_share_step True 1 1 1)\<^sup>*\<^sup>* (solo_share S (Invalidate 1) b (Some (v, False)) v g) (solo_share S Compare (b(1 := v)) (Some (v, False)) v g)"
proof -
  have turn: "lock_share_step True 1 1 1 z (read_turn 1 0 1 z)" if "locks z = S" "fenced_turn True 1 (job z 0) \<longrightarrow> unflushed z 0 = {}" for z
    using that by (intro lock_share_step.reading) (simp_all add: S_def solo_def)
  let ?a = "solo_share S (Invalidate 1) b (Some (v, False)) v g" and ?b = "solo_share S (Load_lines 1) b None v g"
  have "read_turn 1 0 1 ?a = flushing (Load_lines 1) ?a" "complete_flush 0 1 1 (flushing (Load_lines 1) ?a) = ?b"
    "read_turn 1 0 1 ?b = solo_share S Compare (b(1 := v)) (Some (v, False)) v g"
    by (auto simp: read_turn_def solo_share_def turn_defs flushing_def complete_flush_def fun_eq_iff)
  then show ?thesis
    using turn [of ?a] solo_complete [of "Load_lines 1" ?a] turn [of ?b]
    by (simp add: solo_share_def fenced_turn_def)
qed

text \<open>A client that writes block 1 and reads it again.\<close>

definition solo_start :: lock_share where
  "solo_start = solo_share (lock_sys_init new_table) Finished (\<lambda>_. []) None [] None"

lemma solo_start_ok: "lock_share_start solo_start"
  by (simp add: lock_share_start_def solo_start_def solo_share_def)

lemma solo_acquire:
  assumes "kv_holds Map.empty s m" "lock_table L m" "filled 1 f" "t = READ_LOCK \<or> t = WRITE_LOCK" "\<And>k. L (block_of 1) \<noteq> Readers k"
    and "snd (lock_spec t (L (block_of 1))) = Some True"
  obtains s' m' where "(lock_share_step True 1 1 1)\<^sup>*\<^sup>* (solo_share (solo s Idle [] []) Finished b x v g)
      (solo_share (solo s' (Holding t 1) [] []) (if t = WRITE_LOCK then Store_lines 1 else Invalidate 1) (if t = WRITE_LOCK then f else b) x v g)"
    "kv_holds Map.empty s' m'" "lock_table (L(block_of 1 := fst (lock_spec t (L (block_of 1))))) m'"
proof -
  obtain s' m' where s': "\<And>c. table_step 1 1 (solo s c [lock_request 1 t] []) (solo s' c [] [1])"
    "kv_holds Map.empty s' m'" "lock_table (L(block_of 1 := fst (lock_spec t (L (block_of 1))))) m'"
    by (rule solo_serve [OF assms(1,2), of t 1]) (use assms(4-6) in \<open>auto simp: reply_word_def\<close>)
  let ?b = "if t = WRITE_LOCK then f else b"
  have "lock_share_step True 1 1 1 (solo_share (solo s Idle [] []) Finished b x v g)
      (solo_share (solo s (Waiting t 1) [lock_request 1 t] []) Finished ?b x v g)"
    by (rule solo_locking [OF solo_steps(1) [OF assms(4)] assms(3)]) auto
  moreover have "lock_share_step True 1 1 1 (solo_share (solo s (Waiting t 1) [lock_request 1 t] []) Finished ?b x v g)
      (solo_share (solo s' (Waiting t 1) [] [1]) Finished ?b x v g)"
    by (rule solo_locking [OF s'(1) assms(3)]) auto
  moreover have "lock_share_step True 1 1 1 (solo_share (solo s' (Waiting t 1) [] [1]) Finished ?b x v g)
      (solo_share (solo s' (Holding t 1) [] []) (if t = WRITE_LOCK then Store_lines 1 else Invalidate 1) ?b x v g)"
    by (rule solo_locking [OF solo_steps(2) assms(3)]) auto
  ultimately have "(lock_share_step True 1 1 1)\<^sup>*\<^sup>* (solo_share (solo s Idle [] []) Finished b x v g)
      (solo_share (solo s' (Holding t 1) [] []) (if t = WRITE_LOCK then Store_lines 1 else Invalidate 1) ?b x v g)"
    by (meson converse_rtranclp_into_rtranclp rtranclp.rtrancl_refl)
  then show ?thesis using s'(2,3) that by blast
qed

lemma solo_release:
  assumes "kv_holds Map.empty s m" "lock_table L m" "filled 1 f" "L (block_of 1) = Writer"
  obtains s' m' where "(lock_share_step True 1 1 1)\<^sup>*\<^sup>* (solo_share (solo s (Holding t 1) [] []) Finished b x v g)
      (solo_share (solo s' Idle [] []) Finished b x v g)"
    "kv_holds Map.empty s' m'" "lock_table (L(block_of 1 := Free)) m'"
proof -
  obtain s' m' where s': "\<And>c. table_step 1 1 (solo s c [lock_request 1 RELEASE_LOCK] []) (solo s' c [] [])"
    "kv_holds Map.empty s' m'" "lock_table (L(block_of 1 := Free)) m'"
    by (rule solo_serve [OF assms(1,2), of RELEASE_LOCK 1]) (use assms(4) in auto)
  have "lock_share_step True 1 1 1 (solo_share (solo s (Holding t 1) [] []) Finished b x v g)
      (solo_share (solo s Idle [lock_request 1 RELEASE_LOCK] []) Finished b x v g)"
    by (rule solo_locking [OF solo_steps(3) assms(3)]) auto
  moreover have "lock_share_step True 1 1 1 (solo_share (solo s Idle [lock_request 1 RELEASE_LOCK] []) Finished b x v g)
      (solo_share (solo s' Idle [] []) Finished b x v g)"
    by (rule solo_locking [OF s'(1) assms(3)]) auto
  ultimately have "(lock_share_step True 1 1 1)\<^sup>*\<^sup>* (solo_share (solo s (Holding t 1) [] []) Finished b x v g)
      (solo_share (solo s' Idle [] []) Finished b x v g)"
    by (meson converse_rtranclp_into_rtranclp rtranclp.rtrancl_refl)
  then show ?thesis using s'(2,3) that by blast
qed

lemma solo_run:
  "\<exists>s f. (lock_share_step True 1 1 1)\<^sup>*\<^sup>* solo_start s \<and> cl (locks s) 0 = Holding READ_LOCK 1 \<and> job s 0 = Compare \<and> latest s 1 = Some f \<and>
     \<not> faulty (locks s)"
proof -
  obtain f where f: "filled 1 f" using filled_exists [of 1] by auto
  let ?R = "(lock_share_step True 1 1 1)\<^sup>*\<^sup>*"
  have init: "lock_sys_init new_table = solo new_table Idle [] []" by (auto simp: lock_sys_init_def solo_def)
  have L0: "lock_table (\<lambda>_. Unwritten) Map.empty" by (simp add: lock_table_def)
  obtain s1 m1 where 1: "?R solo_start (solo_share (solo s1 (Holding WRITE_LOCK 1) [] []) (Store_lines 1) f None [] None)"
    "kv_holds Map.empty s1 m1" "lock_table ((\<lambda>_. Unwritten)(block_of 1 := Writer)) m1"
    by (rule solo_acquire [OF new_table_holds L0 f, of WRITE_LOCK "\<lambda>_. []" None "[]" None]) (auto simp: solo_start_def init)
  have 2: "?R (solo_share (solo s1 (Holding WRITE_LOCK 1) [] []) (Store_lines 1) f None [] None)
      (solo_share (solo s1 (Holding WRITE_LOCK 1) [] []) Finished f (Some (f 1, False)) (f 1) (Some f))"
    by (rule solo_write [OF refl])
  obtain s3 m3 where 3: "?R (solo_share (solo s1 (Holding WRITE_LOCK 1) [] []) Finished f (Some (f 1, False)) (f 1) (Some f))
      (solo_share (solo s3 Idle [] []) Finished f (Some (f 1, False)) (f 1) (Some f))"
    "kv_holds Map.empty s3 m3" "lock_table ((\<lambda>_. Unwritten)(block_of 1 := Writer, block_of 1 := Free)) m3"
    by (rule solo_release [OF 1(2,3) f, of WRITE_LOCK f "Some (f 1, False)" "f 1" "Some f"]) auto
  obtain s4 where 4: "?R (solo_share (solo s3 Idle [] []) Finished f (Some (f 1, False)) (f 1) (Some f))
      (solo_share (solo s4 (Holding READ_LOCK 1) [] []) (Invalidate 1) f (Some (f 1, False)) (f 1) (Some f))"
    by (rule solo_acquire [OF 3(2,3) f, of READ_LOCK f "Some (f 1, False)" "f 1" "Some f"]) auto
  have 5: "?R (solo_share (solo s4 (Holding READ_LOCK 1) [] []) (Invalidate 1) f (Some (f 1, False)) (f 1) (Some f))
      (solo_share (solo s4 (Holding READ_LOCK 1) [] []) Compare (f(1 := f 1)) (Some (f 1, False)) (f 1) (Some f))"
    by (rule solo_read [OF refl])
  let ?s = "solo_share (solo s4 (Holding READ_LOCK 1) [] []) Compare (f(1 := f 1)) (Some (f 1, False)) (f 1) (Some f)"
  have "?R solo_start ?s" using 1(1) 2 3(1) 4 5 by (meson rtranclp_trans)
  then show ?thesis by (intro exI [of _ ?s] exI [of _ f]) (simp add: solo_share_def solo_def)
qed

section \<open>Properties\<close>

text \<open>
  C33: Under its lock a reader sees the last complete write, with the variants of the flushing functions that the header compiles out, which wait for their flushes.
  In every interleaving of any number of readers and writers with the lock service, its messages, the flushes that take effect late and in any order, and the caches of the hosts, as long as
  no call of the lock service or its clients has failed and no client has gone, no reader reports a checksum error; and a reader that has loaded its block
  has, line for line, what the last writer of that block wrote, with the right checksum. The contents of the file at the start
  do not matter, because the service admits no reader to a block before its first writer.
\<close>

theorem locked_reads_are_latest:
  assumes "lock_share_start s0" "(lock_share_step True n qmax w)\<^sup>*\<^sup>* s0 s" "\<not> faulty (locks s)" "n * (qmax + 1) + 1 < 2 ^ 61" "0 < w" "64 * w < 2 ^ 32"
    and "i < n" "cl (locks s) i = Holding READ_LOCK u" "job s i = Compare"
  shows "\<not> mismatch s \<and> Rw_Info.block_ok (block_of_lines w (buf s i)) \<and>
    (\<exists>f. latest s u = Some f \<and> (\<forall>k. 1 \<le> k \<longrightarrow> k \<le> w \<longrightarrow> buf s i k = f k))"
proof -
  obtain L where inv: "lock_share_inv n qmax w L s" using lock_share_reachable_inv [OF assms(2,1,4-6,3)] by blast
  have "holds_lock (locks s) i READ_LOCK (block_of u)" using assms(8) by (simp add: holds_lock_def)
  then have "at_rest n L (locks s) (block_of u)" by (rule reader_at_rest [OF lock_share_invD(1) [OF inv] assms(7)])
  moreover have "unat u < BLOCK_NUM" using lock_share_invD(4) [OF inv, of i] assms(8) by (simp add: client_buffer_ok_def)
  ultimately obtain f where f: "latest s u = Some f" "filled w f" "same_lines w (fmem s u) f"
    using lock_share_invD(6) [OF inv] by (auto simp: up_to_date_mem_def)
  have "same_lines w (buf s i) (fmem s u)" using lock_share_invD(5) [OF inv assms(7,8)] assms(9) by (simp add: client_job_inv_def)
  then have b: "\<And>k. 1 \<le> k \<Longrightarrow> k \<le> w \<Longrightarrow> buf s i k = f k" using f(3) by (simp add: same_lines_def)
  then have "block_of_lines w (buf s i) = block_of_lines w f" by (rule block_of_lines_cong)
  then show ?thesis using filled_ok [OF f(2) assms(5,6)] lock_share_invD(3) [OF inv] f(1) b by auto
qed

theorem locked_reads_are_latest_witness:
  "\<exists>s f. (lock_share_step True 1 1 1)\<^sup>*\<^sup>* solo_start s \<and> latest s 1 = Some f \<and> buf s 0 1 = f 1 \<and> \<not> mismatch s"
proof -
  obtain s f where s: "(lock_share_step True 1 1 1)\<^sup>*\<^sup>* solo_start s" "cl (locks s) 0 = Holding READ_LOCK 1" "job s 0 = Compare" "latest s 1 = Some f"
    "\<not> faulty (locks s)" using solo_run by blast
  then show ?thesis using locked_reads_are_latest [OF solo_start_ok s(1,5) _ _ _ _ s(2,3)] by auto
qed

end
