(* ===== verification/Pmem_Writers.thy ===== *)
theory Pmem_Writers
  imports Rw_Info
begin

text \<open>
  The programs that fill persistent memory: \<^verbatim>\<open>rand_namespace/rand_namespace.cpp\<close>, which overwrites a whole namespace with random
  bytes, and \<^verbatim>\<open>cpi_of_sfence/cpi_of_sfence.cpp\<close>, which measures non-temporal copies with and without a fence.
  Memory is a function from addresses to bytes; the results of \<open>rand\<close>, \<open>pthread_create\<close> and \<open>pmem_map_file\<close> are arguments. A non-temporal copy has the effect of \<open>memcpy\<close>.
\<close>

section \<open>Filling a namespace\<close>

type_synonym flat_mem = "nat \<Rightarrow> u8"

definition put_bytes :: "nat \<Rightarrow> bytes \<Rightarrow> flat_mem \<Rightarrow> flat_mem" where
  "put_bytes a bs m = (\<lambda>x. if a \<le> x \<and> x < a + length bs then bs ! (x - a) else m x)"

definition get_bytes :: "nat \<Rightarrow> nat \<Rightarrow> flat_mem \<Rightarrow> bytes" where
  "get_bytes a n m = map (\<lambda>i. m (a + i)) [0..<n]"

text \<open>\<open>generate_rand\<close>: whole integers only; a tail shorter than an integer stays as it is.\<close>

definition generate_rand :: "(nat \<Rightarrow> u32) \<Rightarrow> nat \<Rightarrow> nat \<Rightarrow> flat_mem \<Rightarrow> flat_mem" where
  "generate_rand rnd addr len m = fold (\<lambda>i. put_bytes (addr + 4 * i) (le32 (rnd i))) [0..<len div 4] m"

text \<open>
  \<open>thread_gen_rand\<close> with its single thread; \<open>created\<close> is the result of \<open>pthread_create\<close>. The parameter \<open>thread\<close> is not used.
\<close>

definition thread_gen_rand :: "bool \<Rightarrow> (nat \<Rightarrow> u32) \<Rightarrow> int \<Rightarrow> nat \<Rightarrow> nat \<Rightarrow> flat_mem \<Rightarrow> flat_mem" where
  "thread_gen_rand created rnd thread buf buf_size m =
    (let threads = 1; gen_len = buf_size div threads in if created then generate_rand rnd (buf + 0 * gen_len) gen_len m else m)"

record buf_write =
  bw_base :: nat
  size_of_4k :: nat
  buf_4k :: bytes

text \<open>The copies of one writer thread, as destination and contents.\<close>

definition thread_write_buffer :: "buf_write \<Rightarrow> (nat \<times> bytes) list" where
  "thread_write_buffer b = map (\<lambda>k. (bw_base b + 4096 * k, buf_4k b)) [0..<size_of_4k b]"

text \<open>The share of thread \<open>i\<close> of the two in \<open>write_4k_num\<close>, and the copies of both in some interleaving.\<close>

definition writer_share :: "nat \<Rightarrow> nat \<Rightarrow> bytes \<Rightarrow> nat \<Rightarrow> buf_write" where
  "writer_share base n buf i =
    \<lparr>bw_base = base + i * (n div 2), size_of_4k = (if i = 2 - 1 then n - i * n div 2 else n div 2), buf_4k = buf\<rparr>"

definition write_4k_num :: "nat \<Rightarrow> nat \<Rightarrow> bytes \<Rightarrow> (nat \<times> bytes) list set" where
  "write_4k_num base n buf = shuffles (thread_write_buffer (writer_share base n buf 0)) (thread_write_buffer (writer_share base n buf 1))"

definition run_copies :: "(nat \<times> bytes) list \<Rightarrow> flat_mem \<Rightarrow> flat_mem" where
  "run_copies ws m = fold (\<lambda>(a, bs). put_bytes a bs) ws m"

text \<open>
  The loop of \<open>main\<close> over the files of one pass: \<open>maps\<close> are the results of \<open>pmem_map_file\<close>, the address and length of a mapping or \<open>None\<close>, which
  ends the pass. The value is the calls of \<open>write_4k_num\<close>; a name that does not fit its buffer of 32 bytes is written behind it. With no
  result left the pass still runs.
\<close>

definition file_name :: "string \<Rightarrow> nat \<Rightarrow> string" where
  "file_name mountpointer i = mountpointer @ ''/tmpfile'' @ print_nat i"

primrec namespace_pass :: "string \<Rightarrow> (nat \<times> nat) option list \<Rightarrow> nat \<Rightarrow> (nat \<times> nat) list outcome option" where
  "namespace_pass mountpointer [] i = None"
| "namespace_pass mountpointer (r # rs) i =
    (if length (file_name mountpointer i) + 1 \<le> 32 then
       (case r of
          None \<Rightarrow> Some (Done [])
        | Some (dest, mapped_len) \<Rightarrow>
            map_option (\<lambda>x. case x of Done ws \<Rightarrow> Done ((dest, mapped_len div 4096) # ws) | Aborted \<Rightarrow> Aborted | Undefined \<Rightarrow> Undefined)
              (namespace_pass mountpointer rs (i + 1)))
     else Some Undefined)"

definition namespace_main :: "string list \<Rightarrow> (nat \<Rightarrow> (nat \<times> nat) option list) \<Rightarrow> (nat \<times> nat) list outcome option list" where
  "namespace_main argv maps = (if length argv \<noteq> 2 then [] else map (\<lambda>j. namespace_pass (argv ! 1) (maps j) 0) [0..<3])"

section \<open>Copies with and without a fence\<close>

definition WRITE_BUFFER :: int where "WRITE_BUFFER = 1024 * 1024 * 1024"

datatype nt_event = Nt_copy nat nat | Nt_fence

definition write_buffer :: "nat \<Rightarrow> nat \<Rightarrow> int \<Rightarrow> nt_event list" where
  "write_buffer dest n sfence = Nt_copy dest n # (if sfence \<noteq> 0 then [Nt_fence] else [])"

text \<open>
  \<open>main\<close> of the measurement: a block size of 0 divides by zero, for a negative one \<open>malloc\<close> fails
  and \<open>memset\<close> writes through a null pointer. \<open>dest\<close> is the mapping, \<open>None\<close> when the file cannot be mapped.
\<close>

definition cpi_main :: "string list \<Rightarrow> nat option \<Rightarrow> nt_event list outcome" where
  "cpi_main argv dest =
    (if length argv \<noteq> 5 then Done []
     else
       (let blocksize = atoi (argv ! 2); repeat = atoi (argv ! 3); sfence = atoi (argv ! 4) in
        if blocksize \<le> 0 then Undefined
        else if 32 < length (argv ! 1 @ ''/tmpfile'') + 1 then Undefined
        else
          (let buf_num = nat (WRITE_BUFFER div blocksize) in
           case dest of
             None \<Rightarrow> Done []
           | Some d \<Rightarrow> Done (concat (map (\<lambda>j. concat (map (\<lambda>i. write_buffer (d + i * nat blocksize) (nat blocksize) sfence) [0..<buf_num])) [0..<nat repeat])))))"

section \<open>Lemmas\<close>

lemma put_bytes_le32: "put_bytes a (le32 w) m x = (if a \<le> x \<and> x < a + 4 then le32 w ! (x - a) else m x)"
  by (simp add: put_bytes_def)

text \<open>What a sequence of copies of the same buffer leaves in memory.\<close>

lemma run_copies_snoc: "run_copies (ws @ [(a, bs)]) m = put_bytes a bs (run_copies ws m)"
  by (simp add: run_copies_def)

lemma run_copies_outside:
  assumes "\<And>a bs. (a, bs) \<in> set ws \<Longrightarrow> \<not> (a \<le> x \<and> x < a + length bs)"
  shows "run_copies ws m x = m x"
  using assms
proof (induction ws rule: rev_induct)
  case Nil
  then show ?case by (simp add: run_copies_def)
next
  case (snoc w ws)
  obtain a bs where w: "w = (a, bs)" by (cases w)
  then have "\<not> (a \<le> x \<and> x < a + length bs)" using snoc.prems [of a bs] by simp
  moreover have "run_copies ws m x = m x" using snoc.prems by (intro snoc.IH) simp
  ultimately show ?case unfolding w run_copies_snoc put_bytes_def by auto
qed

lemma run_copies_inside:
  assumes "\<And>a bs. (a, bs) \<in> set ws \<Longrightarrow> bs = buf" "(a, buf) \<in> set ws" "a \<le> x" "x < a + length buf"
  shows "run_copies ws m x \<in> set buf"
  using assms(1,2)
proof (induction ws rule: rev_induct)
  case (snoc w ws)
  obtain a' b where "w = (a', b)" by (cases w)
  then have w: "w = (a', buf)" using snoc.prems(1) [of a' b] by simp
  show ?case
  proof (cases "a' \<le> x \<and> x < a' + length buf")
    case True
    then show ?thesis unfolding w run_copies_snoc put_bytes_def by auto
  next
    case False
    then have "(a, buf) \<in> set ws" using snoc.prems(2) w assms(3,4) by auto
    moreover have "c = buf" if "(b, c) \<in> set ws" for b c using snoc.prems(1) [of b c] that by simp
    ultimately have "run_copies ws m x \<in> set buf" by (intro snoc.IH)
    then show ?thesis unfolding w run_copies_snoc put_bytes_def using False by auto
  qed
qed simp

lemma writer_share_copies:
  "(a, bs) \<in> set (thread_write_buffer (writer_share base n buf i)) \<longleftrightarrow>
    bs = buf \<and> (\<exists>k < (if i = 1 then n - n div 2 else n div 2). a = base + i * (n div 2) + 4096 * k)"
  by (auto simp: thread_write_buffer_def writer_share_def)

lemma shuffled_copies:
  assumes "ws \<in> write_4k_num base n buf"
  shows "(a, bs) \<in> set ws \<longleftrightarrow> bs = buf \<and> ((\<exists>k < n div 2. a = base + 4096 * k) \<or> (\<exists>k < n - n div 2. a = base + n div 2 + 4096 * k))"
  using set_shuffles [OF assms [unfolded write_4k_num_def]] writer_share_copies [of a bs base n buf 0] writer_share_copies [of a bs base n buf 1]
  by auto

text \<open>
  Half of every file is never overwritten. The second writer thread of \<open>write_4k_num\<close> starts \<open>n / 2\<close> bytes, not pages, behind the
  first. Whatever the interleaving of the two, after writing \<open>n\<close> pages of \<open>4096\<close> bytes the bytes that came from the random buffer
  are exactly the first \<open>n / 2 + 4096 * (n - n / 2)\<close> ones; all others keep their old contents.
\<close>

theorem namespace_half_unwritten:
  assumes "ws \<in> write_4k_num base n buf" "length buf = 4096" "2 \<le> n"
  shows "if base \<le> x \<and> x < base + n div 2 + 4096 * (n - n div 2) then run_copies ws m x \<in> set buf else run_copies ws m x = m x"
proof (cases "base \<le> x \<and> x < base + n div 2 + 4096 * (n - n div 2)")
  case True
  note ws = shuffled_copies [OF assms(1)]
  have "\<exists>a. (a, buf) \<in> set ws \<and> a \<le> x \<and> x < a + 4096"
  proof (cases "base + n div 2 \<le> x")
    case T: True
    let ?k = "(x - (base + n div 2)) div 4096"
    have "x - (base + n div 2) < 4096 * (n - n div 2)" using True T by linarith
    then have "?k < n - n div 2" by (simp add: less_mult_imp_div_less mult.commute)
    moreover have "base + n div 2 + 4096 * ?k \<le> x" "x < base + n div 2 + 4096 * ?k + 4096" using T by linarith+
    ultimately show ?thesis by (intro exI [of _ "base + n div 2 + 4096 * ?k"]) (auto simp: ws)
  next
    case False
    let ?k = "(x - base) div 4096"
    have "x - base < n div 2" using True False by linarith
    then have "?k < n div 2" by (metis div_le_dividend le_less_trans)
    moreover have "base + 4096 * ?k \<le> x" "x < base + 4096 * ?k + 4096" using True by linarith+
    ultimately show ?thesis by (intro exI [of _ "base + 4096 * ?k"]) (auto simp: ws)
  qed
  then obtain a where "(a, buf) \<in> set ws" "a \<le> x" "x < a + length buf" using assms(2) by auto
  then have "run_copies ws m x \<in> set buf" using ws by (intro run_copies_inside) auto
  then show ?thesis using True by simp
next
  case False
  have "run_copies ws m x = m x"
  proof (rule run_copies_outside)
    fix a bs assume "(a, bs) \<in> set ws"
    then have "bs = buf" "base \<le> a" "a + 4096 \<le> base + n div 2 + 4096 * (n - n div 2)"
      using shuffled_copies [OF assms(1), of a bs] by auto
    then show "\<not> (a \<le> x \<and> x < a + length bs)" using False assms(2) by auto
  qed
  then show ?thesis using False by auto
qed

lemma in_sequence: "xs @ ys \<in> shuffles xs ys"
  by (induction xs) (auto simp: Cons_in_shuffles_leftI)

theorem namespace_half_unwritten_witness:
  "\<exists>ws. ws \<in> write_4k_num 0 262144 (replicate 4096 1) \<and> run_copies ws (\<lambda>_. 0) 537001983 \<in> {1} \<and> run_copies ws (\<lambda>_. 0) 537001984 = 0"
proof -
  let ?b = "replicate 4096 (1 :: u8)"
  obtain ws where ws: "ws \<in> write_4k_num 0 262144 ?b" unfolding write_4k_num_def using in_sequence by blast
  then show ?thesis
    using namespace_half_unwritten [OF ws, of 537001983 "\<lambda>_. 0"] namespace_half_unwritten [OF ws, of 537001984 "\<lambda>_. 0"]
    by (intro exI [of _ ws]) simp
qed

text \<open>The random buffer: whole integers in order, nothing else changed.\<close>

lemma generate_rand_fills:
  "generate_rand rnd addr len m x =
    (if addr \<le> x \<and> x < addr + 4 * (len div 4) then le32 (rnd ((x - addr) div 4)) ! ((x - addr) mod 4) else m x)"
proof -
  have "fold (\<lambda>i. put_bytes (addr + 4 * i) (le32 (rnd i))) [0..<k] m x =
      (if addr \<le> x \<and> x < addr + 4 * k then le32 (rnd ((x - addr) div 4)) ! ((x - addr) mod 4) else m x)" for k
  proof (induction k)
    case (Suc k)
    show ?case
    proof (cases "addr + 4 * k \<le> x \<and> x < addr + 4 * k + 4")
      case True
      define r where "r = x - (addr + 4 * k)"
      then have r: "x - addr = r + 4 * k" "r < 4" using True by auto
      then have "(x - addr) div 4 = k" "(x - addr) mod 4 = r" "x - (addr + 4 * k) = r" by auto
      then show ?thesis using True by (simp add: put_bytes_le32)
    next
      case False
      then show ?thesis using Suc by (auto simp: put_bytes_le32)
    qed
  qed auto
  then show ?thesis by (simp add: generate_rand_def)
qed

lemma namespace_pass_overflows:
  "22 < length mountpointer \<Longrightarrow> rs \<noteq> [] \<Longrightarrow> namespace_pass mountpointer rs i = Some Undefined"
proof -
  have "print_nat i \<noteq> []" by (subst print_nat.simps) simp
  then have "1 \<le> length (print_nat i)" by (cases "print_nat i") auto
  then show "22 < length mountpointer \<Longrightarrow> rs \<noteq> [] \<Longrightarrow> namespace_pass mountpointer rs i = Some Undefined"
    by (cases rs) (auto simp: file_name_def)
qed

text \<open>The copies of the measurement stay inside the mapping of one gigabyte.\<close>

lemma cpi_main_in_bounds:
  assumes "cpi_main argv (Some d) = Done es" "Nt_copy a n \<in> set es"
  shows "d \<le> a \<and> a + n \<le> d + nat WRITE_BUFFER \<and> 0 < n"
proof -
  define bs where "bs = atoi (argv ! 2)"
  have "0 < bs" "\<exists>i < nat (WRITE_BUFFER div bs). a = d + i * nat bs \<and> n = nat bs"
    using assms by (auto simp: cpi_main_def bs_def Let_def write_buffer_def split: if_splits)
  then obtain i where i: "i < nat (WRITE_BUFFER div bs)" "a = d + i * nat bs" "n = nat bs" by blast
  have "(int i + 1) * bs \<le> WRITE_BUFFER div bs * bs" using i(1) \<open>0 < bs\<close> by (intro mult_right_mono) auto
  also have "\<dots> \<le> WRITE_BUFFER" using \<open>0 < bs\<close> by (simp add: minus_mod_eq_div_mult [symmetric])
  finally have "int (i * nat bs + nat bs) \<le> WRITE_BUFFER" using \<open>0 < bs\<close> by (simp add: algebra_simps)
  then have "i * nat bs + nat bs \<le> nat WRITE_BUFFER" by (metis nat_int nat_mono)
  then show ?thesis using i(2,3) \<open>0 < bs\<close> by simp
qed

end
