(* ===== verification/Sharing_Mem.thy ===== *)
theory Sharing_Mem
  imports Pmem_Writers
begin

text \<open>
  The single-host test \<^verbatim>\<open>cxl_memory_sharing/sharing_mem.c\<close>: it maps a file twice, through two mount points, fills a random block through the first
  mapping and checks it through the second. Memory is flat and the caches of one host are coherent, so only addresses matter. The addresses that \<open>mmap\<close>
  returns and the random numbers are arguments.
\<close>

section \<open>The code\<close>

definition SHARE_BLOCK :: nat where "SHARE_BLOCK = 8 * 1024 * 1024"

definition share_mmap_size :: u32 where "share_mmap_size = 8 * 1024 * 1024 * of_nat BLOCK_NUM + 64"

definition align_64 :: "u64 \<Rightarrow> u64" where
  "align_64 a = a AND NOT (FLUSH_ALIGN - 1)"

text \<open>\<open>start\<close> and \<open>start1\<close> from the two results of \<open>mmap\<close>; the second assignment aligns the first address once more.\<close>

definition mappings :: "u64 \<Rightarrow> u64 \<Rightarrow> u64 \<times> u64" where
  "mappings addr addr1 = (let addr = align_64 addr; addr1 = align_64 addr in (addr, addr1))"

text \<open>\<open>i * total_size\<close> in unsigned and \<open>i * BLOCK_SIZE\<close> in signed 32-bit arithmetic.\<close>

definition unsigned_offset :: "nat \<Rightarrow> u32" where
  "unsigned_offset i = of_nat i * of_nat SHARE_BLOCK"

definition signed_offset :: "nat \<Rightarrow> int option" where
  "signed_offset i = (let o1 = int i * 8; o2 = o1 * 1024; o3 = o2 * 1024 in if o1 < 2 ^ 31 \<and> o2 < 2 ^ 31 \<and> o3 < 2 ^ 31 then Some o3 else None)"

text \<open>
  One turn of the loop: the block number from \<open>r\<close>, the random bytes \<open>rnd\<close>. The value is the new memory and whether an error is
  printed; \<open>None\<close> is a flush that does not end, or a signed overflow.
\<close>

definition sharing_turn :: "u64 \<Rightarrow> u64 \<Rightarrow> nat \<Rightarrow> (nat \<Rightarrow> u64) \<Rightarrow> flat_mem \<Rightarrow> (flat_mem \<times> bool) option" where
  "sharing_turn addr addr1 r rnd m =
    (let (start, start1) = mappings addr addr1; i = random_select_block r; a = start + ucast (unsigned_offset i) in
     Option.bind (signed_offset i) (\<lambda>off.
     Option.bind (fill_block_data rnd a SHARE_BLOCK) (\<lambda>(bs, _, _).
       let m = put_bytes (unat a) bs m; a1 = start1 + of_int off in
       Option.bind (cflushopt a1 (of_nat SHARE_BLOCK)) (\<lambda>_.
       let data = get_bytes (unat a1) SHARE_BLOCK m in
       map_option (\<lambda>crc32. (m, crc32 \<noteq> load32 (get_bytes (unat a1 + SHARE_BLOCK - 4) 4 m))) (calculate_crc32 data (of_nat (SHARE_BLOCK - 4)))))))"

section \<open>Properties\<close>

lemma align_64_idem: "align_64 (align_64 a) = align_64 a"
  by (simp add: align_64_def and.assoc)

text \<open>The mapping through the second mount point is never used.\<close>

lemma mappings_alias: "mappings addr addr1 = (align_64 addr, align_64 addr)"
  by (simp add: mappings_def align_64_idem Let_def)

lemma block_offsets:
  "signed_offset (random_select_block r) = Some (int (random_select_block r * SHARE_BLOCK))"
  "unat (unsigned_offset (random_select_block r)) = random_select_block r * SHARE_BLOCK"
  "random_select_block r * SHARE_BLOCK + SHARE_BLOCK \<le> unat share_mmap_size"
proof -
  let ?i = "random_select_block r"
  have i: "?i \<le> 254" using random_select_block_less [of r] by (simp add: BLOCK_NUM_def)
  have "unat (of_nat (?i * SHARE_BLOCK) :: u32) = ?i * SHARE_BLOCK"
    using i by (simp add: SHARE_BLOCK_def unsigned_of_nat take_bit_nat_eq_self_iff del: of_nat_mult)
  then show "unat (unsigned_offset ?i) = ?i * SHARE_BLOCK" by (simp add: unsigned_offset_def)
  show "signed_offset ?i = Some (int (?i * SHARE_BLOCK))" using i by (simp add: signed_offset_def SHARE_BLOCK_def)
  show "?i * SHARE_BLOCK + SHARE_BLOCK \<le> unat share_mmap_size" using i by (simp add: share_mmap_size_def SHARE_BLOCK_def BLOCK_NUM_def)
qed

text \<open>
  Block addresses do not overflow. For every block number the program can draw, the signed and the unsigned 32-bit computation of the offset
  agree with the exact product, and the block lies inside the mapping, whose size fits 32 bits as well.
\<close>

theorem block_offsets_fit:
  "signed_offset (random_select_block r) = Some (int (random_select_block r * SHARE_BLOCK)) \<and>
   unat (unsigned_offset (random_select_block r)) = random_select_block r * SHARE_BLOCK \<and>
   random_select_block r * SHARE_BLOCK + SHARE_BLOCK \<le> unat share_mmap_size"
  using block_offsets [of r] by simp

lemma get_put_bytes: "length bs = n \<Longrightarrow> get_bytes a n (put_bytes a bs m) = bs"
  by (auto simp: get_bytes_def put_bytes_def intro: nth_equalityI)

lemma get_put_tail: "k \<le> length bs \<Longrightarrow> get_bytes (a + (length bs - k)) k (put_bytes a bs m) = drop (length bs - k) bs"
  by (rule nth_equalityI) (simp_all add: get_bytes_def put_bytes_def, linarith)

lemma fill_block_data_returns:
  assumes "64 \<le> unat a" "unat a + n + 64 \<le> 2 ^ 64" "4 \<le> n" "n < 2 ^ 32"
  shows "\<exists>bs fl crc. fill_block_data rnd a n = Some (bs, fl, crc) \<and> cflushopt a (of_nat n) \<noteq> None"
proof -
  have n: "unat (of_nat n :: u64) = n" using assms(4) by (simp add: unsigned_of_nat take_bit_nat_eq_self_iff)
  have "0 < unat (of_nat n :: u64)" "unat a + unat (of_nat n :: u64) + 64 \<le> 2 ^ 64" using assms n by auto
  from flush_lines [OF assms(1) this] have "cflush a (of_nat n) \<noteq> None" "cflushopt a (of_nat n) \<noteq> None" by auto
  moreover have "calculate_crc32 (fill_buffer_random rnd (n - 4)) (of_nat (n - 4)) \<noteq> None"
  proof -
    have "unat (ucast (of_nat (n - 4) :: u64) :: u32) = n - 4" using assms(4) by (simp add: unat_ucast_of_nat)
    then show ?thesis by (simp add: calculate_crc32_eq_spec)
  qed
  ultimately show ?thesis by (auto simp: fill_block_data_def)
qed

text \<open>
  The test only checks a block against itself. The address of the second mapping is overwritten with the first one, so the result of a turn does not depend
  on the second \<open>mmap\<close>; and wherever the file is mapped inside the address space, no turn prints an error, even if the two mount points
  show different files.
\<close>

theorem sharing_mem_checks_itself:
  assumes "64 \<le> unat (align_64 addr)" "unat (align_64 addr) + unat share_mmap_size \<le> 2 ^ 64"
  shows "\<exists>m'. sharing_turn addr addr1 r rnd m = Some (m', False)"
proof -
  let ?i = "random_select_block r" and ?n = SHARE_BLOCK
  let ?a = "align_64 addr + ucast (unsigned_offset ?i)"
  note off = block_offsets [of r]
  have n: "4 \<le> ?n" "?n < 2 ^ 32" by (simp_all add: SHARE_BLOCK_def)
  have mm: "unat share_mmap_size = 255 * ?n + 64" by (simp add: share_mmap_size_def SHARE_BLOCK_def BLOCK_NUM_def)
  have "?i \<le> 254" using random_select_block_less [of r] by (simp add: BLOCK_NUM_def)
  then have io: "?i * ?n + ?n \<le> 255 * ?n" by (simp add: SHARE_BLOCK_def)
  have u: "ucast (unsigned_offset ?i) = (of_nat (?i * ?n) :: u64)"
    using off(2) by (metis of_nat_unat)
  have s1: "align_64 addr + of_int (int (?i * ?n)) = ?a" unfolding u by simp
  have "unat ?a = unat (align_64 addr) + ?i * ?n"
  proof -
    have "?a = of_nat (unat (align_64 addr) + ?i * ?n)" unfolding u by simp
    moreover have "unat (align_64 addr) + ?i * ?n < 2 ^ 64" using assms(2) mm io n(1) by linarith
    ultimately show ?thesis by (simp only: unsigned_of_nat) (simp add: take_bit_nat_eq_self_iff)
  qed
  then have a: "64 \<le> unat ?a" "unat ?a + ?n + 64 \<le> 2 ^ 64" using assms mm io by linarith+
  obtain bs fl crc where f: "fill_block_data rnd ?a ?n = Some (bs, fl, crc)" "cflushopt ?a (of_nat ?n) \<noteq> None"
    using fill_block_data_returns [OF a n] by blast
  have b: "Rw_Info.block_ok bs" "length bs = ?n" using fill_block_data_ok [OF f(1) n] by auto
  let ?m = "put_bytes (unat ?a) bs m"
  have rd: "get_bytes (unat ?a) ?n ?m = bs" "get_bytes (unat ?a + ?n - 4) 4 ?m = drop (?n - 4) bs"
    using get_put_bytes [OF b(2)] get_put_tail [of 4 bs "unat ?a" m] b(2) n(1) by (simp_all add: add_diff_assoc)
  have "calculate_crc32 bs (of_nat (?n - 4)) = Some (load32 (drop (?n - 4) bs))" using b unfolding block_ok_def by (simp del: of_nat_diff)
  then show ?thesis
    using f rd off(1) by (auto simp: sharing_turn_def mappings_alias s1 [simplified] Let_def simp del: of_nat_diff)
qed

theorem sharing_mem_checks_itself_witness: "\<exists>m'. sharing_turn 0x100000 0x200000 7 (\<lambda>i. of_nat i) (\<lambda>_. 0) = Some (m', False)"
  using sharing_mem_checks_itself [of "0x100000" "0x200000" 7 "\<lambda>i. of_nat i" "\<lambda>_. 0"]
  by (simp add: align_64_def FLUSH_ALIGN_def share_mmap_size_def BLOCK_NUM_def)

end
