(* ===== verification/Micro_Benchmarks.thy ===== *)
theory Micro_Benchmarks
  imports Rw_Info
begin

text \<open>
  Two small measuring programs: \<^verbatim>\<open>atomic_after_clwb_sfence/reproduce.c\<close>, which writes and flushes pages of persistent memory with an atomic
  increment before or after a pause, and \<^verbatim>\<open>pmem_space_management/memory_mode_test.c\<close>, which allocates and frees blocks of random sizes. Instructions are
  recorded in program order; results of \<open>rand_r\<close> and \<open>malloc\<close> are arguments.
\<close>

section \<open>Flushed pages and an atomic increment\<close>

definition page_size :: nat where "page_size = 4 * 1024"
definition page_count :: nat where "page_count = 1024"
definition DATA_SIZE :: nat where "DATA_SIZE = 4096"

datatype bench_event = Copy_data u64 nat | Clwb u64 | Fence | Atomic_add | Pause

text \<open>The macros the program is compiled with.\<close>

record build =
  LOCK_BEFORE_PAUSE :: bool
  LOCK_WITHOUT_PAUSE :: bool
  LOCK_AFTER_PAUSE :: bool

definition flush_clwb :: "u64 \<Rightarrow> u64 \<Rightarrow> bench_event list option" where
  "flush_clwb addr len = map_option (\<lambda>(fs, _). map Clwb fs) (flush_loop (addr AND NOT (FLUSH_ALIGN - 1)) (addr + len))"

definition atmoic_add :: "bool \<Rightarrow> bench_event list" where
  "atmoic_add b = (if b then [Atomic_add] else [])"

text \<open>The innermost loop body for one page.\<close>

definition page_turn :: "build \<Rightarrow> u64 \<Rightarrow> nat \<Rightarrow> nat \<Rightarrow> bench_event list option" where
  "page_turn cfg buffer off i =
    (let ptr = buffer + of_nat (page_size * i) + of_nat off in
     map_option (\<lambda>fl. [Copy_data ptr DATA_SIZE] @ fl @ [Fence] @ atmoic_add (LOCK_BEFORE_PAUSE cfg) @
         (if LOCK_WITHOUT_PAUSE cfg then [] else replicate 10 Pause) @ atmoic_add (LOCK_AFTER_PAUSE cfg))
       (flush_clwb ptr (of_nat DATA_SIZE)))"

primrec page_turns :: "build \<Rightarrow> u64 \<Rightarrow> (nat \<times> nat) list \<Rightarrow> bench_event list option" where
  "page_turns cfg buffer [] = Some []"
| "page_turns cfg buffer (p # ps) =
    Option.bind (page_turn cfg buffer (fst p) (snd p)) (\<lambda>es. map_option ((@) es) (page_turns cfg buffer ps))"

text \<open>The three loops of \<open>main\<close>: the offsets in a page go up in steps of the data size.\<close>

definition page_visits :: "(nat \<times> nat) list" where
  "page_visits = concat (replicate 300
     (concat (map (\<lambda>k. map (\<lambda>i. (k * DATA_SIZE, i)) [0..<page_count]) [0..<(page_size - DATA_SIZE) div DATA_SIZE + 1])))"

definition reproduce_main :: "build \<Rightarrow> u64 \<Rightarrow> bench_event list option" where
  "reproduce_main cfg buffer = page_turns cfg buffer page_visits"

section \<open>Allocation in memory mode\<close>

definition ALLOC_NUM :: nat where "ALLOC_NUM = 16384"
definition LOOP :: nat where "LOOP = 10000"
definition MAX_BLOCK :: nat where "MAX_BLOCK = 16"
definition THREAD_NUM :: int where "THREAD_NUM = 32"

record alloc_state =
  sum_bytes :: u64
  fail :: u64
  freed :: "nat option list"

definition alloc_len :: "nat \<Rightarrow> nat" where
  "alloc_len r = 2 ^ (r mod MAX_BLOCK)"

definition alloc_turn :: "nat \<times> nat option \<Rightarrow> alloc_state \<Rightarrow> alloc_state" where
  "alloc_turn = (\<lambda>(r, p) s. case p of
      Some _ \<Rightarrow> s\<lparr>sum_bytes := sum_bytes s + of_nat (alloc_len r)\<rparr>
    | None \<Rightarrow> s\<lparr>fail := fail s + 1\<rparr>)"

text \<open>One round: \<open>ALLOC_NUM\<close> allocations with their random numbers and results, then all pointers freed in order.\<close>

definition alloc_round :: "(nat \<times> nat option) list \<Rightarrow> alloc_state \<Rightarrow> alloc_state" where
  "alloc_round rps s = (let s = fold alloc_turn rps s in s\<lparr>freed := freed s @ map snd rps\<rparr>)"

definition memory_alloc :: "(nat \<times> nat option) list list \<Rightarrow> u64 \<times> u64 \<times> nat option list" where
  "memory_alloc rounds =
    (let s = fold alloc_round rounds \<lparr>sum_bytes = 0, fail = 0, freed = []\<rparr> in (sum_bytes s div 1024 div 1024, fail s, freed s))"

text \<open>The number of threads that \<open>main\<close> starts for its argument.\<close>

definition thread_count :: "int \<Rightarrow> nat" where
  "thread_count tn = nat (if THREAD_NUM < tn then THREAD_NUM else tn)"

text \<open>\<open>main\<close>: how many threads it starts and joins, where \<open>create i\<close> tells whether \<open>pthread_create\<close> succeeds; a failure ends it at once.\<close>

definition memory_main :: "string list \<Rightarrow> (nat \<Rightarrow> bool) \<Rightarrow> nat \<times> nat" where
  "memory_main argv create =
    (if length argv \<noteq> 2 then (0, 0)
     else
       (let tn = thread_count (atoi (argv ! 1)); started = length (takeWhile create [0..<tn]) in
        (started, if started = tn then tn else 0)))"

section \<open>Every page is durable before the increment\<close>

text \<open>Lines stored and not yet written back, and lines written back and not yet fenced.\<close>

fun cache_event :: "bench_event \<Rightarrow> nat set \<times> nat set \<Rightarrow> nat set \<times> nat set" where
  "cache_event (Copy_data a n) (d, p) = (d \<union> range_lines (unat a) n, p - range_lines (unat a) n)"
| "cache_event (Clwb u) (d, p) = (d - {unat u}, if unat u \<in> d then insert (unat u) p else p)"
| "cache_event Fence (d, p) = (d, {})"
| "cache_event Atomic_add s = s"
| "cache_event Pause s = s"

text \<open>Whether all stores are durable at every atomic increment and every pause.\<close>

fun durable_run :: "bench_event list \<Rightarrow> nat set \<times> nat set \<Rightarrow> bool" where
  "durable_run [] s \<longleftrightarrow> s = ({}, {})"
| "durable_run (e # es) s \<longleftrightarrow> (e = Atomic_add \<or> e = Pause \<longrightarrow> s = ({}, {})) \<and> durable_run es (cache_event e s)"

lemma clwb_all: "unat ` set fs = d \<Longrightarrow> durable_run (map Clwb fs @ Fence # es) (d, p) \<longleftrightarrow> durable_run es ({}, {})"
proof -
  have "durable_run (map Clwb fs @ Fence # es) (d, p) \<longleftrightarrow> durable_run es (d - unat ` set fs, {})" for d p
  proof (induction fs arbitrary: d p)
    case (Cons f fs)
    have "d - {unat f} - unat ` set fs = d - unat ` set (f # fs)" by auto
    then show ?case using Cons by simp
  qed simp
  then show "unat ` set fs = d \<Longrightarrow> ?thesis" by simp
qed

lemma quiet_events: "set es \<subseteq> {Atomic_add, Pause} \<Longrightarrow> durable_run (es @ rest) ({}, {}) \<longleftrightarrow> durable_run rest ({}, {})"
  by (induction es) auto

lemma flush_clwb_lines:
  assumes "64 \<le> unat addr" "0 < unat len" "unat addr + unat len + 64 \<le> 2 ^ 64"
  obtains fs where "flush_clwb addr len = Some (map Clwb fs)" "unat ` set fs = range_lines (unat addr) (unat len)"
proof -
  obtain us where us: "set us = range_lines (unat addr) (unat len)" "cflushopt addr len = Some (map (\<lambda>u. Clflushopt (of_nat u)) us)"
    using flush_lines [OF assms] by blast
  then obtain fs x where fs: "flush_loop (addr AND NOT (FLUSH_ALIGN - 1)) (addr + len) = Some (fs, x)"
    "map Clflushopt fs = map (\<lambda>u. Clflushopt (of_nat u)) us" by (auto simp: cflushopt_def)
  have "fs = map of_nat us" using fs(2) by (auto simp: list_eq_iff_nth_eq dest!: map_eq_imp_length_eq)
  moreover have "unat (of_nat u :: u64) = u" if "u \<in> set us" for u
    using that us(1) assms(3) by (auto simp: range_lines_def unsigned_of_nat take_bit_nat_eq_self_iff)
  ultimately have "unat ` set fs = set us" by force
  then show ?thesis using that fs(1) us(1) by (simp add: flush_clwb_def)
qed

definition adds :: "bench_event list \<Rightarrow> nat" where
  "adds es = length (filter (\<lambda>e. e = Atomic_add) es)"

definition adds_per_page :: "build \<Rightarrow> nat" where
  "adds_per_page cfg = (if LOCK_BEFORE_PAUSE cfg then 1 else 0) + (if LOCK_AFTER_PAUSE cfg then 1 else 0)"

lemma page_turn_durable:
  assumes "64 \<le> unat buffer" "unat buffer + page_size * page_count + 64 \<le> 2 ^ 64" "off = 0" "i < page_count"
  obtains es where "page_turn cfg buffer off i = Some es" "\<And>rest. durable_run (es @ rest) ({}, {}) \<longleftrightarrow> durable_run rest ({}, {})"
    "adds es = adds_per_page cfg"
proof -
  let ?ptr = "buffer + of_nat (page_size * i) + of_nat off"
  have i: "page_size * i + page_size \<le> page_size * page_count" using assms(4) by (simp add: page_size_def page_count_def)
  have "?ptr = of_nat (unat buffer + page_size * i)" using assms(3) by simp
  moreover have "unat buffer + page_size * i < 2 ^ 64" using assms(2) i by (simp add: page_size_def)
  ultimately have p: "unat ?ptr = unat buffer + page_size * i" by (simp only: unsigned_of_nat) (simp add: take_bit_nat_eq_self_iff)
  have d: "unat (of_nat DATA_SIZE :: u64) = DATA_SIZE" "DATA_SIZE = page_size" "0 < DATA_SIZE" by (simp_all add: DATA_SIZE_def page_size_def)
  obtain fs where fs: "flush_clwb ?ptr (of_nat DATA_SIZE) = Some (map Clwb fs)" "unat ` set fs = range_lines (unat ?ptr) DATA_SIZE"
    by (rule flush_clwb_lines [of ?ptr "of_nat DATA_SIZE"]) (use assms p d i in auto)
  define tl where "tl = atmoic_add (LOCK_BEFORE_PAUSE cfg) @ (if LOCK_WITHOUT_PAUSE cfg then [] else replicate 10 Pause) @ atmoic_add (LOCK_AFTER_PAUSE cfg)"
  let ?es = "Copy_data ?ptr DATA_SIZE # map Clwb fs @ Fence # tl"
  have tl: "set tl \<subseteq> {Atomic_add, Pause}" by (auto simp: tl_def atmoic_add_def)
  have "durable_run (?es @ rest) ({}, {}) \<longleftrightarrow> durable_run rest ({}, {})" for rest
    using clwb_all [OF fs(2), of "tl @ rest" "{}"] quiet_events [OF tl, of rest] by simp
  moreover have "adds ?es = adds_per_page cfg"
    by (auto simp: adds_def adds_per_page_def tl_def atmoic_add_def filter_map comp_def)
  moreover have "page_turn cfg buffer off i = Some ?es" using fs(1) by (simp add: page_turn_def tl_def Let_def)
  ultimately show ?thesis using that by blast
qed

lemma page_turns_durable:
  assumes "64 \<le> unat buffer" "unat buffer + page_size * page_count + 64 \<le> 2 ^ 64"
  shows "(\<And>p. p \<in> set ps \<Longrightarrow> fst p = 0 \<and> snd p < page_count) \<Longrightarrow>
    \<exists>es. page_turns cfg buffer ps = Some es \<and> durable_run es ({}, {}) \<and> adds es = length ps * adds_per_page cfg"
proof (induction ps)
  case Nil
  then show ?case by (simp add: adds_def)
next
  case (Cons p ps)
  obtain es where es: "page_turns cfg buffer ps = Some es" "durable_run es ({}, {})" "adds es = length ps * adds_per_page cfg"
    using Cons.IH Cons.prems by auto
  have "fst p = 0" "snd p < page_count" using Cons.prems [of p] by auto
  then obtain e1 where "page_turn cfg buffer (fst p) (snd p) = Some e1" "durable_run (e1 @ es) ({}, {}) \<longleftrightarrow> durable_run es ({}, {})"
    "adds e1 = adds_per_page cfg" by (rule page_turn_durable [OF assms, of _ _ cfg]) blast
  then show ?case using es by (intro exI [of _ "e1 @ es"]) (simp add: adds_def)
qed

text \<open>
  Every page is durable before the increment and the pause. Wherever the file is mapped inside the address space, the program ends, and at each
  atomic increment and each pause all lines stored so far have been written back and fenced; the counter
  is incremented once per page for each of the two macros that is set.
\<close>

theorem pages_durable_before_increment:
  assumes "64 \<le> unat buffer" "unat buffer + page_size * page_count + 64 \<le> 2 ^ 64"
  shows "\<exists>es. reproduce_main cfg buffer = Some es \<and> durable_run es ({}, {}) \<and> adds es = 300 * page_count * adds_per_page cfg"
proof -
  let ?one = "concat (map (\<lambda>k. map (\<lambda>i. (k * DATA_SIZE, i)) [0..<page_count]) [0..<(page_size - DATA_SIZE) div DATA_SIZE + 1])"
  have one: "?one = map (\<lambda>i. (0, i)) [0..<page_count]" by (simp add: page_size_def DATA_SIZE_def)
  have mem: "p \<in> set (concat (replicate k xs)) \<Longrightarrow> p \<in> set xs" "length (concat (replicate k xs)) = k * length xs" for p k and xs :: "(nat \<times> nat) list"
    by (induction k) auto
  have "length page_visits = 300 * page_count" unfolding page_visits_def mem(2) one by simp
  moreover have "fst p = 0 \<and> snd p < page_count" if "p \<in> set page_visits" for p
    using mem(1) [OF that [unfolded page_visits_def]] unfolding one by auto
  ultimately show ?thesis using page_turns_durable [OF assms, of page_visits cfg] by (simp add: reproduce_main_def)
qed

theorem pages_durable_before_increment_witness:
  "\<exists>es. reproduce_main \<lparr>LOCK_BEFORE_PAUSE = False, LOCK_WITHOUT_PAUSE = False, LOCK_AFTER_PAUSE = True\<rparr> 0x100000 = Some es \<and>
     durable_run es ({}, {}) \<and> adds es = 307200"
  using pages_durable_before_increment [of "0x100000" "\<lparr>LOCK_BEFORE_PAUSE = False, LOCK_WITHOUT_PAUSE = False, LOCK_AFTER_PAUSE = True\<rparr>"]
  by (simp add: page_size_def page_count_def adds_per_page_def)

section \<open>Accounting of the allocations\<close>

lemma alloc_len_bounds: "1 \<le> alloc_len r" "alloc_len r \<le> 32768"
proof -
  have "r mod 16 \<le> 15" by simp
  then have "(2 :: nat) ^ (r mod 16) \<le> 2 ^ 15" by (intro power_increasing) simp_all
  then show "1 \<le> alloc_len r" "alloc_len r \<le> 32768" by (simp_all add: alloc_len_def MAX_BLOCK_def)
qed

definition allocated :: "(nat \<times> nat option) list \<Rightarrow> nat" where
  "allocated rps = sum_list (map (\<lambda>(r, p). if p = None then 0 else alloc_len r) rps)"

definition failures :: "(nat \<times> nat option) list \<Rightarrow> nat" where
  "failures rps = length (filter (\<lambda>(r, p). p = None) rps)"

lemma alloc_turns:
  "fold alloc_turn rps s = s\<lparr>sum_bytes := sum_bytes s + of_nat (allocated rps), fail := fail s + of_nat (failures rps)\<rparr>"
proof (induction rps arbitrary: s)
  case (Cons x rps)
  obtain r p where x: "x = (r, p)" by (cases x)
  then show ?case using Cons by (cases p) (simp_all add: alloc_turn_def allocated_def failures_def)
qed (simp add: allocated_def failures_def)

lemma alloc_rounds:
  "fold alloc_round rounds s = s\<lparr>sum_bytes := sum_bytes s + of_nat (allocated (concat rounds)), fail := fail s + of_nat (failures (concat rounds)),
     freed := freed s @ map snd (concat rounds)\<rparr>"
proof (induction rounds arbitrary: s)
  case (Cons r rounds)
  then show ?case by (simp add: alloc_round_def Let_def alloc_turns) (simp add: allocated_def failures_def)
qed (simp add: allocated_def failures_def)

lemma allocated_le: "allocated rps \<le> 32768 * length rps"
  unfolding allocated_def
proof (induction rps)
  case (Cons x rps)
  then show ?case using alloc_len_bounds(2) [of "fst x"] by (cases x) (auto intro: add_mono)
qed simp

text \<open>The totals do not wrap around, and what was allocated is freed, each block once.\<close>

theorem memory_alloc_accounts:
  assumes "length rounds = LOOP" "\<And>r. r \<in> set rounds \<Longrightarrow> length r = ALLOC_NUM"
  shows "\<exists>mb f fr. memory_alloc rounds = (mb, f, fr) \<and> unat mb = allocated (concat rounds) div 1048576 \<and>
    unat f = failures (concat rounds) \<and> fr = map snd (concat rounds)"
proof -
  have "length (concat rs) = ALLOC_NUM * length rs" if "\<And>r. r \<in> set rs \<Longrightarrow> length r = ALLOC_NUM" for rs :: "(nat \<times> nat option) list list"
    using that by (induction rs) auto
  then have n: "length (concat rounds) = ALLOC_NUM * LOOP" using assms by simp
  have "allocated (concat rounds) < 2 ^ 64" using allocated_le [of "concat rounds"] unfolding n by (simp add: ALLOC_NUM_def LOOP_def)
  moreover have "failures (concat rounds) < 2 ^ 64"
    using length_filter_le [of "\<lambda>(r, p). p = None" "concat rounds"] unfolding n failures_def by (simp add: ALLOC_NUM_def LOOP_def)
  ultimately show ?thesis
    by (simp add: memory_alloc_def alloc_rounds unat_div unsigned_of_nat take_bit_nat_eq_self flip: div_mult2_eq)
qed

lemma thread_count_le: "thread_count tn \<le> 32"
  by (auto simp: thread_count_def THREAD_NUM_def nat_le_iff)

text \<open>No thread is started outside the array, and without a failure every thread is joined.\<close>

lemma memory_main_threads:
  assumes "memory_main argv create = (started, joined)"
  shows "started \<le> 32 \<and> ((\<forall>i. create i) \<longrightarrow> joined = started)"
proof -
  have all: "takeWhile create xs = xs" if "\<forall>i. create i" for xs using that by (induction xs) auto
  have "length (takeWhile create [0..<n]) \<le> n" "(\<forall>i. create i) \<longrightarrow> length (takeWhile create [0..<n]) = n" for n
    using length_takeWhile_le [of create "[0..<n]"] all [of "[0..<n]"] by (simp, metis length_upt minus_nat.diff_0)
  note this [of "thread_count (atoi (argv ! 1))"]
  then show ?thesis using assms thread_count_le [of "atoi (argv ! 1)"] by (auto simp: memory_main_def Let_def split: if_splits intro: le_trans)
qed

end
