(* ===== verification/Sharing_Start.thy ===== *)
theory Sharing_Start
  imports Weak_Sharing
begin

text \<open>
  Starting the writer of the flag protocol, \<^verbatim>\<open>cxl_memory_sharing/meta_write.c\<close>: the instructions of its main function before the loop clear the flag, while
  the reader and the caches are already running. The accelerated writer \<^verbatim>\<open>dsa_meta_write.c\<close> starts with the same instructions. Flushes take
  effect late, as in theory \<open>Weak_Sharing\<close>, with the functions as they are compiled or with the fenced variants; for the run that tears a block the order of the program is enough.
\<close>

section \<open>The start\<close>

text \<open>
  The instructions of the writer before its loop: \<open>memset\<close> of the flag, and the flush and load of \<open>cflush\<close>. The reader and the caches do
  not wait for them. First with flushes that take effect at once.
\<close>

datatype start_pc = S_store | S_flush | S_load | S_loop

inductive boot_step :: "nat \<Rightarrow> start_pc \<times> share \<Rightarrow> start_pc \<times> share \<Rightarrow> bool" for n where
  store: "boot_step n (S_store, s) (S_flush, s\<lparr>wcache := store_line (wcache s) 0 free_flag\<rparr>)"
| flush: "boot_step n (S_flush, s) (S_load, w_evict 0 s)"
| load: "boot_step n (S_load, s) (S_loop, w_fetch 0 s)"
| reader: "boot_step n (pc, s) (pc, reader_step n s)"
| caches: "f = w_evict i \<or> f = r_evict i \<or> f = w_fetch i \<or> f = r_fetch i \<Longrightarrow> boot_step n (pc, s) (pc, f s)"
| loop: "share_step n s s' \<Longrightarrow> boot_step n (S_loop, s) (S_loop, s')"

text \<open>A writer process that starts, while the memory, the caches and the reader are as they are.\<close>

definition boot :: "share \<Rightarrow> start_pc \<times> share" where
  "boot s = (S_store, s\<lparr>wpc := W_fill\<rparr>)"

text \<open>
  With flushes that take effect late. \<open>cflush\<close> of one line fences, flushes and loads; with \<open>sync\<close> it waits for the flush. The other steps are those of the
  loops, of pending flushes and of the caches; the writer enters its loop at the end only.
\<close>

inductive weak_boot_step :: "bool \<Rightarrow> nat \<Rightarrow> start_pc \<times> weak_share \<Rightarrow> start_pc \<times> weak_share \<Rightarrow> bool" for sync n where
  store: "weak_boot_step sync n (S_store, w) (S_flush, w\<lparr>ordered := (ordered w)\<lparr>wcache := store_line (wcache (ordered w)) 0 free_flag\<rparr>\<rparr>)"
| flush: "(\<not> sync \<longrightarrow> wpend w = {}) \<Longrightarrow> weak_boot_step sync n (S_flush, w) (S_load, w\<lparr>wpend := insert 0 (wpend w)\<rparr>)"
| load: "(sync \<longrightarrow> wpend w = {}) \<Longrightarrow> weak_boot_step sync n (S_load, w) (S_loop, w\<lparr>ordered := w_fetch 0 (ordered w)\<rparr>)"
| others: "weak_step sync n w w' \<Longrightarrow> wpc (ordered w') = wpc (ordered w) \<Longrightarrow> weak_boot_step sync n (pc, w) (pc, w')"
| loop: "weak_step sync n w w' \<Longrightarrow> weak_boot_step sync n (S_loop, w) (S_loop, w')"

text \<open>A flush that the old process has issued and that is still pending may take effect later, as a line that the cache drops of its own accord.\<close>

definition weak_boot :: "weak_share \<Rightarrow> start_pc \<times> weak_share" where
  "weak_boot w = (S_store, weak ((ordered w)\<lparr>wpc := W_fill\<rparr>) {} (rpend w))"

section \<open>Starting keeps what the loops keep\<close>

text \<open>Until the flag has been written back the writer holds it dirty; with a free flag in memory this makes no difference.\<close>

definition cleaned :: "share \<Rightarrow> share" where
  "cleaned s = (if wcache s 0 = Some (free_flag, True) then s\<lparr>wcache := (wcache s)(0 \<mapsto> (free_flag, False))\<rparr> else s)"

lemma cleaned_fields [simp]:
  "smem (cleaned s) = smem s" "rcache (cleaned s) = rcache s" "wpc (cleaned s) = wpc s" "rpc (cleaned s) = rpc s"
  "sent (cleaned s) = sent s" "received (cleaned s) = received s"
  by (simp_all add: cleaned_def)

lemma cleaned_id: "flag_inv s \<Longrightarrow> cleaned s = s"
  by (auto simp: cleaned_def flag_inv_def flag_ok_def)

lemma cleaned_pcs: "cleaned (s\<lparr>wpc := pc\<rparr>) = (cleaned s)\<lparr>wpc := pc\<rparr>" "cleaned (s\<lparr>rpc := pc'\<rparr>) = (cleaned s)\<lparr>rpc := pc'\<rparr>"
  by (simp_all add: cleaned_def)

lemma cleaned_commutes:
  "cleaned (r_evict i s) = r_evict i (cleaned s)" "cleaned (r_fetch i s) = r_fetch i (cleaned s)"
  "cleaned (w_fetch i s) = w_fetch i (cleaned s)" "flag_inv (cleaned s) \<Longrightarrow> cleaned (w_evict i s) = w_evict i (cleaned s)"
  "cleaned (reader_step n s) = reader_step n (cleaned s)"
proof -
  note defs = cleaned_def r_evict_def w_evict_def r_fetch_def w_fetch_def cache_defs
  show "cleaned (r_evict i s) = r_evict i (cleaned s)" "cleaned (r_fetch i s) = r_fetch i (cleaned s)"
    by (simp_all add: cleaned_def r_evict_def r_fetch_def)
  show "cleaned (w_fetch i s) = w_fetch i (cleaned s)"
    by (cases "wcache s i"; cases "i = 0") (auto simp: defs fun_upd_twist)
  have "(smem s)(0 := free_flag) = smem s" if "flag_inv (cleaned s)" "wcache s 0 = Some (free_flag, True)"
    using that by (auto simp: cleaned_def flag_inv_def flag_ok_def)
  then show "flag_inv (cleaned s) \<Longrightarrow> cleaned (w_evict i s) = w_evict i (cleaned s)"
    by (cases "i = 0"; cases "wcache s i") (auto simp: defs fun_upd_twist)
  show "cleaned (reader_step n s) = reader_step n (cleaned s)"
    by (cases "rpc s") (simp_all add: cleaned_def reader_step_def)
qed

lemma cleaned_writer: "writer_flush n (wpc s) = None \<Longrightarrow> 0 < n \<Longrightarrow> (\<forall>k. wpc s = W_copy k \<longrightarrow> 1 \<le> k) \<Longrightarrow> cleaned (writer_step n f s) = writer_step n f (cleaned s)"
  by (cases "wpc s"; cases "wcache s 0"; cases "wcache s n")
    (auto simp: cleaned_def writer_step_def cache_defs fun_upd_twist split: if_splits)

definition clean_flag :: "weak_share \<Rightarrow> weak_share" where
  "clean_flag w = w\<lparr>ordered := cleaned (ordered w)\<rparr>"

lemma clean_flag_fields [simp]: "ordered (clean_flag w) = cleaned (ordered w)" "wpend (clean_flag w) = wpend w" "rpend (clean_flag w) = rpend w"
  by (simp_all add: clean_flag_def)

lemma clean_flag_step:
  assumes "weak_step sync n w w'" "flag_inv (cleaned (ordered w))" "0 < n" "\<forall>k. wpc (ordered w) = W_copy k \<longrightarrow> 1 \<le> k"
  shows "weak_step sync n (clean_flag w) (clean_flag w')"
  using assms(1)
proof cases
  case (writer f)
  then show ?thesis using weak_step.writer [where sync = sync and n = n and f = f and s = "clean_flag w"] cleaned_writer [OF writer(2) assms(3,4)]
    by (simp add: clean_flag_def)
next
  case (writer_issues i fence pc)
  then show ?thesis using weak_step.writer_issues [where sync = sync and n = n and s = "clean_flag w" and i = i and fence = fence and pc = pc]
    by (cases w) (simp add: clean_flag_def cleaned_pcs)
next
  case (writer_completes i)
  then show ?thesis using weak_step.writer_completes [where sync = sync and n = n and s = "clean_flag w" and i = i] cleaned_commutes(4) [OF assms(2)]
    by (cases w) (simp add: clean_flag_def)
next
  case reader
  then show ?thesis using weak_step.reader [where sync = sync and n = n and s = "clean_flag w"] by (simp add: clean_flag_def cleaned_commutes)
next
  case (reader_issues i fence pc)
  then show ?thesis using weak_step.reader_issues [where sync = sync and n = n and s = "clean_flag w" and i = i and fence = fence and pc = pc]
    by (cases w) (simp add: clean_flag_def cleaned_pcs)
next
  case (reader_completes i)
  then show ?thesis using weak_step.reader_completes [where sync = sync and n = n and s = "clean_flag w" and i = i]
    by (cases w) (simp add: clean_flag_def cleaned_commutes)
next
  case (caches f i)
  then have "cleaned (f (ordered w)) = f (cleaned (ordered w))" using cleaned_commutes(1-3) cleaned_commutes(4) [OF assms(2)] by blast
  then show ?thesis using caches weak_step.caches [where sync = sync and n = n and f = f and i = i and s = "clean_flag w"] by (simp add: clean_flag_def)
qed

text \<open>With a free flag in memory neither the reader nor a cache changes it.\<close>

lemma free_flag_stays:
  assumes "flag_inv (cleaned s)" "smem s 0 = free_flag" "wcache s 0 \<noteq> Some (busy_flag, True)"
  shows "smem (reader_step n s) 0 = free_flag" "f = w_evict i \<or> f = r_evict i \<or> f = w_fetch i \<or> f = r_fetch i \<Longrightarrow> smem (f s) 0 = free_flag"
proof -
  have ok: "flag_ok (smem s 0) (wcache (cleaned s) 0) (rcache s 0) (w_active (wpc s)) (r_active (rpc s))"
    using assms(1) by (simp add: flag_inv_def)
  then have r: "rcache s 0 \<noteq> Some (v, True)" "\<not> r_active (rpc s)" for v using assms(2) by (auto simp: flag_ok_def)
  have w: "wcache s 0 = Some (v, True) \<Longrightarrow> v = free_flag" for v
    using ok assms(2,3) by (auto simp: flag_ok_def cleaned_def split: if_splits)
  show "smem (reader_step n s) 0 = free_flag"
    using r assms(2) by (cases "rpc s") (auto simp: reader_step_def cache_defs split: option.splits bool.splits)
  show "f = w_evict i \<or> f = r_evict i \<or> f = w_fetch i \<or> f = r_fetch i \<Longrightarrow> smem (f s) 0 = free_flag"
    using r(1) w assms(2) by (auto simp: w_evict_def r_evict_def w_fetch_def r_fetch_def cache_defs split: option.splits bool.splits)
qed

text \<open>What holds of the writer before its loop, and no step of the others changes.\<close>

definition flag_free :: "share \<Rightarrow> bool" where
  "flag_free s \<longleftrightarrow> wpc s = W_fill \<and> smem s 0 = free_flag \<and> wcache s 0 \<noteq> Some (busy_flag, True)"

lemma cache_flag_free:
  assumes "flag_free s" "flag_inv (cleaned s)" "f = w_evict i \<or> f = r_evict i \<or> f = w_fetch i \<or> f = r_fetch i"
  shows "flag_free (f s)"
proof -
  have "smem (f s) 0 = free_flag" using assms(1) free_flag_stays(2) [OF assms(2) _ _ assms(3)] by (simp add: flag_free_def)
  moreover have "wpc (f s) = wpc s \<and> (wcache (f s) 0 = wcache s 0 \<or> wcache (f s) 0 = None \<or> wcache (f s) 0 = Some (smem s 0, False))"
    using assms(3) by (auto simp: w_evict_def r_evict_def w_fetch_def r_fetch_def drop_line_def fetch_line_def split: option.splits)
  ultimately show ?thesis using assms(1) by (auto simp: flag_free_def)
qed

lemma others_flag_free:
  assumes "weak_step sync n w w'" "wpc (ordered w') = wpc (ordered w)" "flag_free (ordered w)" "flag_inv (cleaned (ordered w))"
  shows "flag_free (ordered w')"
  using assms(1)
proof cases
  case (writer f)
  then show ?thesis using assms(2,3) by (simp add: flag_free_def writer_step_def)
next
  case (writer_issues i fence pc)
  then show ?thesis using assms(3) by (simp add: flag_free_def)
next
  case (writer_completes i)
  then show ?thesis using cache_flag_free [OF assms(3,4), of "w_evict i" i] by simp
next
  case reader
  have "wcache (reader_step n s) = wcache s" "wpc (reader_step n s) = wpc s" for s by (cases "rpc s"; simp add: reader_step_def)+
  then show ?thesis using assms(3) free_flag_stays(1) [OF assms(4)] reader by (simp add: flag_free_def)
next
  case (reader_issues i fence pc)
  then show ?thesis using assms(3) by (simp add: flag_free_def)
next
  case (reader_completes i)
  then show ?thesis using cache_flag_free [OF assms(3,4), of "r_evict i" i] by simp
next
  case (caches f i)
  then show ?thesis using cache_flag_free [OF assms(3,4) caches(2)] by simp
qed

text \<open>An invariant of the loops that a start does not disturb.\<close>

locale restart_safe =
  fixes sync :: bool and n :: nat and J :: "weak_share \<Rightarrow> bool"
  assumes lines: "J w \<Longrightarrow> 0 < n"
    and step: "weak_step sync n w w' \<Longrightarrow> J w \<Longrightarrow> J w'"
    and flag: "J w \<Longrightarrow> flag_inv (ordered w)"
    and copies: "J w \<Longrightarrow> wpc (ordered w) = W_copy k \<Longrightarrow> 1 \<le> k"
    and flush_flag: "J w \<Longrightarrow> J (w\<lparr>wpend := insert 0 (wpend w)\<rparr>)"
    and fresh: "J w \<Longrightarrow> \<not> w_active (wpc (ordered w)) \<Longrightarrow> J (weak ((ordered w)\<lparr>wpc := W_fill\<rparr>) {} (rpend w))"
begin

lemma clean_step: "weak_step sync n w w' \<Longrightarrow> J (clean_flag w) \<Longrightarrow> J (clean_flag w')"
  using step clean_flag_step [of sync n w w'] lines [of "clean_flag w"] flag [of "clean_flag w"] copies [of "clean_flag w"] by simp

lemma boot_step_keeps:
  assumes "weak_boot_step sync n (pc, w) (pc', w')" "J (clean_flag w)" "pc \<noteq> S_loop \<longrightarrow> flag_free (ordered w)"
  shows "J (clean_flag w') \<and> (pc' \<noteq> S_loop \<longrightarrow> flag_free (ordered w'))"
proof -
  have fl: "flag_inv (cleaned (ordered w))" using flag [OF assms(2)] by simp
  from assms(1) show ?thesis
  proof cases
    case store
    let ?s = "ordered w"
    have ff: "flag_free ?s" using store assms(3) by simp
    then have "\<forall>v. wcache (cleaned ?s) 0 \<noteq> Some (v, True)"
      using fl by (auto simp: flag_free_def flag_inv_def flag_ok_def cleaned_def split: if_splits)
    then have eq: "cleaned (ordered w') = w_fetch 0 (w_evict 0 (cleaned ?s))"
      using store ff by (auto simp: flag_free_def cleaned_def w_fetch_def w_evict_def cache_defs split: option.splits bool.splits)
    have "weak_step sync n (clean_flag w) ((clean_flag w)\<lparr>ordered := w_evict 0 (cleaned ?s)\<rparr>)"
      using weak_step.caches [where f = "w_evict 0" and i = 0 and s = "clean_flag w"] by simp
    moreover have "weak_step sync n ((clean_flag w)\<lparr>ordered := w_evict 0 (cleaned ?s)\<rparr>) (clean_flag w')"
      using weak_step.caches [where f = "w_fetch 0" and i = 0 and s = "(clean_flag w)\<lparr>ordered := w_evict 0 (cleaned ?s)\<rparr>"] eq store by (simp add: clean_flag_def)
    ultimately have "J (clean_flag w')" using step assms(2) by blast
    then show ?thesis using ff store by (simp add: flag_free_def store_line_def)
  next
    case flush
    then show ?thesis using flush_flag [OF assms(2)] assms(3) by (cases w) (simp add: clean_flag_def)
  next
    case load
    have "weak_step sync n w w'" unfolding load using weak_step.caches [where f = "w_fetch 0" and i = 0] by blast
    then show ?thesis using clean_step assms(2) load by simp
  next
    case others
    then show ?thesis using clean_step assms(2,3) others_flag_free [OF others(2,3) _ fl] by simp
  next
    case loop
    then show ?thesis using clean_step assms(2) by simp
  qed
qed

lemma started_keeps:
  assumes "J w" "\<not> w_active (wpc (ordered w))" "smem (ordered w) 0 = free_flag" "wcache (ordered w) 0 \<noteq> Some (busy_flag, True)"
    and "(weak_boot_step sync n)\<^sup>*\<^sup>* (weak_boot w) (pc, v)"
  shows "J (clean_flag v)"
proof -
  let ?w = "weak ((ordered w)\<lparr>wpc := W_fill\<rparr>) {} (rpend w)"
  have w: "J ?w" using fresh assms(1,2) by blast
  then have "cleaned (ordered ?w) = ordered ?w" using flag cleaned_id by blast
  then have "clean_flag ?w = ?w" by (simp add: clean_flag_def)
  then have start: "J (clean_flag ?w)" "flag_free (ordered ?w)" using w assms(3,4) by (simp_all add: flag_free_def)
  have "J (clean_flag (snd b)) \<and> (fst b \<noteq> S_loop \<longrightarrow> flag_free (ordered (snd b)))" if "(weak_boot_step sync n)\<^sup>*\<^sup>* (weak_boot w) b" for b
    using that
  proof (induction rule: rtranclp_induct)
    case base
    then show ?case using start by (simp add: weak_boot_def)
  next
    case (step b1 b2)
    then show ?case using boot_step_keeps [of "fst b1" "snd b1" "fst b2" "snd b2"] by simp
  qed
  from this [OF assms(5)] show ?thesis by simp
qed

end

text \<open>Both invariants of the loops are such.\<close>

lemma passive_start:
  assumes "weak_inv n s P Q" "\<not> w_active (wpc s)"
  shows "weak_inv n (s\<lparr>wpc := W_fill\<rparr>) {} Q"
proof -
  note D = weak_invD [OF assms(1)]
  have lag: "lag (s\<lparr>wpc := W_fill\<rparr>) = (lag s)\<lparr>wpc := W_fill\<rparr>" by (simp add: lag_def)
  have "\<not> w_active (wpc (lag s))" using assms(2) by (simp add: active_lag)
  then have "share_inv n (lag (s\<lparr>wpc := W_fill\<rparr>))"
    unfolding lag using flag_ok_passive(1) [OF share_invD(1) [OF D(1)]] share_invD(2) [OF D(1)]
    by (intro wpc_inv [OF D(1)]) (cases "wpc (lag s)"; simp)+
  then show ?thesis using assms(1) by (simp add: weak_inv_def up_to_date_def)
qed

interpretation unfenced: restart_safe sync n "\<lambda>w. 0 < n \<and> hand_inv n s0 (ordered w)"
proof unfold_locales
  fix w w' k
  show "0 < n \<and> hand_inv n s0 (ordered w')" if "weak_step sync n w w'" "0 < n \<and> hand_inv n s0 (ordered w)"
    using hand_weak_step that by blast
  show "flag_inv (ordered w)" if "0 < n \<and> hand_inv n s0 (ordered w)" using that by (simp add: hand_inv_def)
  show "1 \<le> k" if "0 < n \<and> hand_inv n s0 (ordered w)" "wpc (ordered w) = W_copy k" using that by (simp add: hand_inv_def)
  show "0 < n \<and> hand_inv n s0 (ordered (weak ((ordered w)\<lparr>wpc := W_fill\<rparr>) {} (rpend w)))"
    if "0 < n \<and> hand_inv n s0 (ordered w)" "\<not> w_active (wpc (ordered w))"
    using that flag_ok_passive(1) [OF hand_flag, of n s0 "ordered w"] hand_wpc [of n s0 "ordered w" W_fill] by simp
qed simp_all

interpretation fenced: restart_safe True n "\<lambda>w. 0 < n \<and> 64 * n < 2 ^ 32 \<and> weak_inv n (ordered w) (wpend w) (rpend w)"
proof unfold_locales
  let ?J = "\<lambda>w. 0 < n \<and> 64 * n < 2 ^ 32 \<and> weak_inv n (ordered w) (wpend w) (rpend w)"
  fix w w' k
  show "?J w'" if "weak_step True n w w'" "?J w" using weak_step_inv that by blast
  show "flag_inv (ordered w)" if "?J w"
    using that weak_invD(1) [of n "ordered w" "wpend w" "rpend w"] share_invD(1) [of n "lag (ordered w)"] by (simp add: flag_inv_def active_lag)
  show "1 \<le> k" if "?J w" "wpc (ordered w) = W_copy k"
    using that weak_invD(1) [of n "ordered w" "wpend w" "rpend w"] share_invD(2) [of n "lag (ordered w)"] by simp
  show "?J (w\<lparr>wpend := insert 0 (wpend w)\<rparr>)" if "?J w" using that issued_active(1) by (fastforce simp: weak_inv_def)
  show "?J (weak ((ordered w)\<lparr>wpc := W_fill\<rparr>) {} (rpend w))" if "?J w" "\<not> w_active (wpc (ordered w))" using passive_start that by auto
qed simp

section \<open>Properties\<close>

text \<open>
  C27: A writer may be started again whenever nothing is on its way. From any state that the programs reach in which the flag in memory is zero, all blocks published have been
  received and the writer is not copying, a new writer process that clears the flag first and then runs together with the reader, from its first instruction on, with flushes that
  take effect late and in any order, keeps the guarantees of the protocol: as the code is, writer and reader are never both at work on the data, the blocks published are as many as those
  received or one more, and no block with a wrong checksum is passed; with the variants of the flushing functions that the header compiles out, the assertion
  of the reader never fails and the blocks received are those published, in order, up to the last one.
\<close>

theorem idle_restart_is_safe:
  assumes "share_start n s0" "(weak_step sync n)\<^sup>*\<^sup>* (weak s0 {} {}) w" "0 < n" "64 * n < 2 ^ 32"
    and "smem (ordered w) 0 = free_flag" "sent (ordered w) = received (ordered w)" "\<not> w_active (wpc (ordered w))"
    and "(weak_boot_step sync n)\<^sup>*\<^sup>* (weak_boot w) (pc, v)" "t = ordered v"
  shows "\<not> (w_active (wpc t) \<and> r_active (rpc t)) \<and>
    (length (sent t) = length (received t) \<or> length (sent t) = Suc (length (received t)) \<and> \<not> w_active (wpc t)) \<and>
    (\<forall>b \<in> set (butlast (received t)). block_ok b) \<and> (\<not> in_check (rpc t) \<longrightarrow> (\<forall>b \<in> set (received t). block_ok b)) \<and>
    (sync \<longrightarrow> rpc t \<noteq> R_failed \<and> (\<forall>b \<in> set (received t). block_ok b) \<and> (sent t = received t \<or> (\<exists>b. sent t = received t @ [b] \<and> block_ok b)))"
proof -
  have inv: "hand_inv n s0 (ordered w)" by (rule hand_reachable [OF assms(2) assms(1,3)])
  then have dirty: "wcache (ordered w) 0 \<noteq> Some (busy_flag, True)"
    using assms(6) by (auto simp: hand_inv_def in_flight_def flight_def split: if_splits)
  have "hand_inv n s0 (cleaned t)"
    using unfenced.started_keeps [OF _ assms(7,5) dirty assms(8)] inv assms(3,9) by simp
  from hand_inv_counts [OF this]
  have counts: "\<not> (w_active (wpc t) \<and> r_active (rpc t))" "length (sent t) = length (received t) \<or> length (sent t) = Suc (length (received t)) \<and> \<not> w_active (wpc t)"
    "\<forall>b \<in> set (butlast (received t)). block_ok b" "\<not> in_check (rpc t) \<longrightarrow> (\<forall>b \<in> set (received t). block_ok b)" by simp_all
  have "share_inv n (lag (cleaned t))" if sync
  proof -
    have "weak_inv n (ordered w) (wpend w) (rpend w)"
      using weak_reachable_inv [OF _ _ assms(3,4)] assms(2) share_start_weak [OF assms(1)] that by simp
    then have "weak_inv n (cleaned t) (wpend v) (rpend v)"
      using fenced.started_keeps [OF _ assms(7,5) dirty] assms(3,4,8,9) that by simp
    then show ?thesis by (rule weak_invD(1))
  qed
  from share_inv_delivery [OF this]
  have "sync \<Longrightarrow> rpc t \<noteq> R_failed \<and> (\<forall>b \<in> set (received t). block_ok b) \<and> (sent t = received t \<or> (\<exists>b. sent t = received t @ [b] \<and> block_ok b))" by auto
  then show ?thesis using counts by blast
qed

text \<open>Runs of one program and of the start of the writer.\<close>

lemma boot_writers: "filled n f \<Longrightarrow> (boot_step n)\<^sup>*\<^sup>* (S_loop, s) (S_loop, (writer_step n f ^^ k) s)"
  by (induction k) (auto intro: rtranclp.rtrancl_into_rtrancl boot_step.loop share_step.writer)

lemma boot_readers: "(boot_step n)\<^sup>*\<^sup>* (pc, s) (pc, (reader_step n ^^ k) s)"
  by (induction k) (auto intro: rtranclp.rtrancl_into_rtrancl boot_step.reader)

definition cleared :: "share \<Rightarrow> share" where
  "cleared s = w_fetch 0 (w_evict 0 (s\<lparr>wpc := W_fill, wcache := store_line (wcache s) 0 free_flag\<rparr>))"

lemma boot_clears: "(boot_step n)\<^sup>*\<^sup>* (boot s) (S_loop, cleared s)"
proof -
  have "boot_step n (boot s) (S_flush, s\<lparr>wpc := W_fill, wcache := store_line (wcache s) 0 free_flag\<rparr>)"
    using boot_step.store [of n "s\<lparr>wpc := W_fill\<rparr>"] by (simp add: boot_def)
  then show ?thesis unfolding cleared_def by (blast intro: rtranclp.rtrancl_into_rtrancl r_into_rtranclp boot_step.flush boot_step.load)
qed

text \<open>The start with flushes that take effect at once is one of the runs.\<close>

lemma weak_boot_clears: "(weak_boot_step sync n)\<^sup>*\<^sup>* (weak_boot (weak s {} {})) (S_loop, weak (cleared s) {} {})"
proof -
  let ?s = "s\<lparr>wpc := W_fill, wcache := store_line (wcache s) 0 free_flag\<rparr>"
  have 1: "weak_boot_step sync n (weak_boot (weak s {} {})) (S_flush, weak ?s {} {})"
    using weak_boot_step.store [where w = "weak (s\<lparr>wpc := W_fill\<rparr>) {} {}"] by (simp add: weak_boot_def)
  have 2: "weak_boot_step sync n (S_flush, weak ?s {} {}) (S_load, weak ?s {0} {})"
    using weak_boot_step.flush [where w = "weak ?s {} {}" and sync = sync] by simp
  have "weak_step sync n (weak ?s {0} {}) (weak (w_evict 0 ?s) {} {})"
    using weak_step.writer_completes [where i = 0 and s = "weak ?s {0} {}"] by simp
  then have 3: "weak_boot_step sync n (S_load, weak ?s {0} {}) (S_load, weak (w_evict 0 ?s) {} {})"
    by (rule weak_boot_step.others) (simp add: w_evict_def)
  have "weak_boot_step sync n (S_load, weak (w_evict 0 ?s) {} {}) (S_loop, weak (cleared s) {} {})"
    using weak_boot_step.load [where w = "weak (w_evict 0 ?s) {} {}" and sync = sync] by (simp add: cleared_def)
  then show ?thesis using 1 2 3 by (meson rtranclp.rtrancl_into_rtrancl rtranclp.rtrancl_refl)
qed

lemma weak_boot_loop: "(weak_step sync n)\<^sup>*\<^sup>* w w' \<Longrightarrow> (weak_boot_step sync n)\<^sup>*\<^sup>* (S_loop, w) (S_loop, w')"
  by (induction rule: rtranclp_induct) (auto intro: rtranclp.rtrancl_into_rtrancl weak_boot_step.loop)

theorem idle_restart_is_safe_witness:
  "\<exists>t b. (weak_boot_step True 1)\<^sup>*\<^sup>* (weak_boot (weak quiet_share {} {})) (S_loop, t) \<and> received (ordered t) = [b] \<and> block_ok b"
proof -
  obtain f where f: "filled 1 f" using filled_exists [of 1] by auto
  let ?t = "(reader_step 1 ^^ 5) ((writer_step 1 f ^^ 8) (cleared quiet_share))"
  have run: "(weak_boot_step True 1)\<^sup>*\<^sup>* (weak_boot (weak quiet_share {} {})) (S_loop, weak ?t {} {})"
    by (rule rtranclp_trans [OF weak_boot_clears weak_boot_loop [OF rtranclp_trans [OF weak_writers [OF f] weak_readers]]])
  have "\<forall>b \<in> set (received ?t). block_ok b"
    using idle_restart_is_safe [OF quiet_share_start rtranclp.rtrancl_refl _ _ _ _ _ run refl] by (simp add: quiet_share_def)
  moreover have "received ?t = [block_of_lines 1 f]"
    by (simp add: numeral_eq_Suc cleared_def w_fetch_def w_evict_def writer_step_def reader_step_def quiet_share_def cache_defs flag_line_def block_of_lines_def)
  ultimately show ?thesis using run by (intro exI [of _ "weak ?t {} {}"] exI [of _ "block_of_lines 1 f"]) simp
qed

text \<open>A transfer of a block of two lines that is cut in the middle: the reader has copied the first line when a new writer starts.\<close>

definition half_copied :: "line_mem \<Rightarrow> share" where
  "half_copied f = (reader_step 2 ^^ 5) ((writer_step 2 f ^^ 11) quiet_share)"

definition torn_copy :: "line_mem \<Rightarrow> line_mem \<Rightarrow> share" where
  "torn_copy f g = (reader_step 2 ^^ 5) ((writer_step 2 g ^^ 7) (cleared (half_copied f)))"

lemmas restart_run = numeral_eq_Suc quiet_share_def half_copied_def torn_copy_def cleared_def writer_step_def reader_step_def cache_defs flag_line_def
  block_of_lines_def w_evict_def w_fetch_def

lemma half_copied_facts:
  "smem (half_copied f) = (\<lambda>_. free_flag)(1 := f 1, 2 := f 2, 0 := busy_flag)" "wcache (half_copied f) 0 = Some (busy_flag, False)"
  "wcache (half_copied f) 1 = None"
  "wcache (half_copied f) 2 = Some (f 2, False)" "rcache (half_copied f) 0 = Some (busy_flag, False)" "rcache (half_copied f) 2 = None"
  "rpc (half_copied f) = R_copy 2" "rbuf (half_copied f) = (\<lambda>_. [])(1 := f 1)" "received (half_copied f) = []"
  by (simp_all add: restart_run fun_eq_iff)

lemma torn_copy_facts: "rpc (torn_copy f g) = (if block_ok (f 1 @ g 2) then R_flush_meta else R_failed)" "received (torn_copy f g) = [f 1 @ g 2]"
  using half_copied_facts [of f]
  by (simp_all add: numeral_eq_Suc torn_copy_def cleared_def writer_step_def reader_step_def cache_defs flag_line_def block_of_lines_def w_evict_def w_fetch_def)

text \<open>
  C28: A writer that is started again during a transfer tears the block. When a new writer clears the flag while the reader is copying a block of two lines,
  there is a run in which the reader receives the first line of the old block and the second of the new one, and if these do not have the right
  checksum its assertion fails.
\<close>

theorem restart_tears_block:
  assumes "filled 2 f" "filled 2 g" "\<not> block_ok (f 1 @ g 2)"
  shows "\<exists>s t. (share_step 2)\<^sup>*\<^sup>* quiet_share s \<and> (boot_step 2)\<^sup>*\<^sup>* (boot s) (S_loop, t) \<and> received t = [f 1 @ g 2] \<and> rpc t = R_failed"
proof (intro exI conjI)
  show "(share_step 2)\<^sup>*\<^sup>* quiet_share (half_copied f)"
    unfolding half_copied_def by (rule rtranclp_trans [OF writer_steps [OF assms(1)] reader_steps])
  show "(boot_step 2)\<^sup>*\<^sup>* (boot (half_copied f)) (S_loop, torn_copy f g)"
    unfolding torn_copy_def by (rule rtranclp_trans [OF boot_clears rtranclp_trans [OF boot_writers [OF assms(2)] boot_readers]])
  show "received (torn_copy f g) = [f 1 @ g 2]" "rpc (torn_copy f g) = R_failed" using torn_copy_facts [of f g] assms(3) by simp_all
qed

theorem restart_tears_block_witness:
  "\<exists>s t. (share_step 2)\<^sup>*\<^sup>* quiet_share s \<and> (boot_step 2)\<^sup>*\<^sup>* (boot s) (S_loop, t) \<and> rpc t = R_failed"
proof -
  let ?f = "sealed_lines 2 (\<lambda>_. 0)" and ?g = "sealed_lines 2 (\<lambda>i. if i = 0 then 1 else 0)"
  let ?a = "replicate 124 (0 :: u8)" and ?b = "1 # replicate 123 (0 :: u8)"
  have d: "fill_buffer_random (\<lambda>_. 0) 124 = ?a" "fill_buffer_random (\<lambda>i. if i = 0 then 1 else 0) 124 = ?b"
    by (simp_all add: fill_buffer_random_def list_eq_iff_nth_eq nth_Cons' del: upt_Suc)
  have torn: "?f 1 @ ?g 2 = ?a @ le32 (crc32_spec ?b)"
    by (simp add: sealed_lines_def Let_def d drop_Cons' flip: replicate_add)
  have ab: "?a = [] @ [0] @ replicate 123 0" "?b = [] @ [1] @ replicate 123 0" by (simp_all flip: replicate_Suc)
  have "crc32_spec ?a \<noteq> crc32_spec ?b" unfolding ab by (rule crc32_spec_burst) simp_all
  moreover have "length ?a < 2 ^ 32" by simp
  ultimately have "\<not> block_ok (?a @ le32 (crc32_spec ?b))" by (simp only: block_ok_le32 not_False_eq_True)
  then show ?thesis using restart_tears_block [of ?f ?g] filled_sealed [of 2] torn by auto
qed

end
