(* ===== verification/Wal_Acc.thy ===== *)
theory Wal_Acc
  imports Prelude "HOL-Library.Sublist"
begin

text \<open>
  The measuring program of the write-ahead guard, \<^verbatim>\<open>wal_accel/wal_acc.c\<close>: it generates log records, appends each of them a hundred times with
  an \<open>fdatasync\<close> behind, and reads the head of the file again. The random numbers after \<open>srand (t)\<close> are the sequence \<open>rnd t\<close>.
\<close>

section \<open>The code\<close>

record timespec =
  tv_sec :: int
  tv_nsec :: int

text \<open>The result is converted to 64 bits without sign.\<close>

definition ntime_since :: "timespec \<Rightarrow> timespec \<Rightarrow> u64" where
  "ntime_since s e =
    (let sec = tv_sec e - tv_sec s; nsec = tv_nsec e - tv_nsec s;
         (sec, nsec) = (if 0 < sec \<and> nsec < 0 then (sec - 1, nsec + 1000000000) else (sec, nsec)) in
     if sec < 0 \<or> sec = 0 \<and> nsec < 0 then 0 else of_int (nsec + sec * 1000000000))"

definition LOG_NUM :: nat where "LOG_NUM = 10000"

definition allChar :: string where
  "allChar = ''0123456789abcdefghijklmnopqrstuvwxyzABCDEFGHIJKLMNOPQRSTUVWXYZ''"

text \<open>
  \<open>generateString\<close> at time \<open>t\<close>: the characters before the terminating null, and how many random numbers it took since it called \<open>srand\<close>.
\<close>

definition generateString :: "(nat \<Rightarrow> nat \<Rightarrow> nat) \<Rightarrow> nat \<Rightarrow> nat \<Rightarrow> string \<times> nat" where
  "generateString rnd t len = (map (\<lambda>cnt. allChar ! (rnd t cnt mod 62)) [0..<len], len)"

text \<open>
  \<open>gen_log\<close>: \<open>clock i\<close> is the time at which record \<open>i\<close> is generated; the state is the seed and the position in its sequence.
\<close>

primrec gen_logs :: "(nat \<Rightarrow> nat \<Rightarrow> nat) \<Rightarrow> (nat \<Rightarrow> nat) \<Rightarrow> nat list \<Rightarrow> nat \<Rightarrow> nat \<Rightarrow> string list" where
  "gen_logs rnd clock [] seed pos = []"
| "gen_logs rnd clock (i # is) seed pos =
    (let sz = rnd seed pos mod (250 - 50 + 1) + 50;
         (dest, used) = generateString rnd (clock i) sz in
     dest # gen_logs rnd clock is (clock i) used)"

definition gen_log :: "(nat \<Rightarrow> nat \<Rightarrow> nat) \<Rightarrow> nat \<Rightarrow> (nat \<Rightarrow> nat) \<Rightarrow> string list" where
  "gen_log rnd t clock = gen_logs rnd clock [0..<LOG_NUM] t 0"

text \<open>The calls of \<open>main\<close> on the file: the records in turn, a hundred times over.\<close>

datatype wal_call = Wal_write string | Wal_fdatasync

definition wal_writes :: "string list \<Rightarrow> wal_call list" where
  "wal_writes logs = concat (replicate 100 (concat (map (\<lambda>l. [Wal_write l, Wal_fdatasync]) logs)))"

text \<open>What the last \<open>printf\<close> prints of a buffer: the characters up to a null; \<open>None\<close> when there is none and it reads behind the buffer.\<close>

definition print_buffer :: "char list \<Rightarrow> string option" where
  "print_buffer b = (if CHR 0x00 \<in> set b then Some (takeWhile (\<lambda>c. c \<noteq> CHR 0x00) b) else None)"

section \<open>Time\<close>

text \<open>
  \<open>ntime_since\<close> is the time between two moments in nanoseconds, and 0 when they are in the wrong order, for all normalised times whose
  difference fits 64 bits.
\<close>

theorem ntime_since_exact:
  assumes "0 \<le> tv_nsec s" "tv_nsec s < 1000000000" "0 \<le> tv_nsec e" "tv_nsec e < 1000000000"
    and "tv_sec e * 1000000000 + tv_nsec e - (tv_sec s * 1000000000 + tv_nsec s) < 2 ^ 64"
  shows "int (unat (ntime_since s e)) = max 0 (tv_sec e * 1000000000 + tv_nsec e - (tv_sec s * 1000000000 + tv_nsec s))"
proof -
  define d where "d = tv_sec e * 1000000000 + tv_nsec e - (tv_sec s * 1000000000 + tv_nsec s)"
  have neg: "ntime_since s e = 0" if "d < 0" using that assms unfolding d_def ntime_since_def Let_def by (auto split: if_splits)
  have pos: "ntime_since s e = of_int d" if "0 \<le> d" using that assms unfolding d_def ntime_since_def Let_def
    by (auto simp: algebra_simps split: if_splits)
  have "int (unat (of_int d :: u64)) = d" if "0 \<le> d"
    using that assms(5) by (simp add: d_def [symmetric] unsigned_of_int take_bit_int_eq_self)
  then show ?thesis using neg pos by (cases "0 \<le> d") (simp_all add: d_def)
qed

theorem ntime_since_exact_witness:
  "int (unat (ntime_since \<lparr>tv_sec = 5, tv_nsec = 999999999\<rparr> \<lparr>tv_sec = 7, tv_nsec = 1\<rparr>)) = 1000000002"
  using ntime_since_exact [of "\<lparr>tv_sec = 5, tv_nsec = 999999999\<rparr>" "\<lparr>tv_sec = 7, tv_nsec = 1\<rparr>"] by simp

section \<open>Records\<close>

lemma length_allChar: "length allChar = 62"
  by (simp add: allChar_def)

lemma generateString_chars: "c \<in> set (fst (generateString rnd t len)) \<Longrightarrow> c \<in> set allChar"
  by (auto simp: generateString_def length_allChar intro!: nth_mem)

lemma length_generateString [simp]: "length (fst (generateString rnd t len)) = len"
  by (simp add: generateString_def)

text \<open>Every call starts its sequence again, so of two strings made in the same second one is a prefix of the other.\<close>

lemma generateString_prefix: "m \<le> n \<Longrightarrow> prefix (fst (generateString rnd t m)) (fst (generateString rnd t n))"
  by (auto simp: generateString_def prefix_def intro!: exI [of _ "map (\<lambda>cnt. allChar ! (rnd t cnt mod 62)) [m..<n]"]
      simp flip: map_append upt_add_eq_append) (metis le_add_diff_inverse upt_add_eq_append zero_le)

lemma gen_logs_record:
  "r \<in> set (gen_logs rnd clock is seed pos) \<Longrightarrow> \<exists>i \<in> set is. \<exists>n. 50 \<le> n \<and> n \<le> 250 \<and> r = fst (generateString rnd (clock i) n)"
proof (induction "is" arbitrary: seed pos)
  case (Cons i "is")
  let ?n = "rnd seed pos mod 201 + 50"
  have n: "50 \<le> ?n" "?n \<le> 250" using mod_less_divisor [of 201 "rnd seed pos"] by linarith+
  have "r = fst (generateString rnd (clock i) ?n) \<or> r \<in> set (gen_logs rnd clock is (clock i) ?n)"
    using Cons.prems by (auto simp: Let_def generateString_def)
  then show ?case
  proof
    assume "r = fst (generateString rnd (clock i) ?n)"
    then show ?thesis using n by (intro bexI [of _ i] exI [of _ ?n]) simp_all
  next
    assume "r \<in> set (gen_logs rnd clock is (clock i) ?n)"
    from Cons.IH [OF this] show ?thesis by auto
  qed
qed simp

lemma length_gen_logs [simp]: "length (gen_logs rnd clock is seed pos) = length is"
  by (induction "is" arbitrary: seed pos) (simp_all add: Let_def split: prod.splits)

text \<open>
  The records are hardly random: when all of them are made within one second, as the seed is taken from the clock each time,
  any two of them agree up to the length of the shorter one.
\<close>

theorem logs_of_one_second_are_prefixes:
  assumes "\<And>i. clock i = t" "a \<in> set (gen_log rnd t clock)" "b \<in> set (gen_log rnd t clock)"
  shows "prefix a b \<or> prefix b a"
proof -
  obtain m n where "a = fst (generateString rnd t m)" "b = fst (generateString rnd t n)"
    using gen_logs_record [of a rnd clock "[0..<LOG_NUM]" t 0] gen_logs_record [of b rnd clock "[0..<LOG_NUM]" t 0] assms
    by (auto simp: gen_log_def)
  then show ?thesis using generateString_prefix [of m n rnd t] generateString_prefix [of n m rnd t] by (cases "m \<le> n") auto
qed

definition call_bytes :: "wal_call \<Rightarrow> string" where
  "call_bytes c = (case c of Wal_write l \<Rightarrow> l | Wal_fdatasync \<Rightarrow> [])"

definition wal_bytes :: "wal_call list \<Rightarrow> string" where
  "wal_bytes cs = concat (map call_bytes cs)"

lemma wal_bytes_append [simp]: "wal_bytes (a @ b) = wal_bytes a @ wal_bytes b"
  by (simp add: wal_bytes_def)

lemma wal_bytes_logs: "wal_bytes (concat (map (\<lambda>l. [Wal_write l, Wal_fdatasync]) logs)) = concat logs"
  by (induction logs) (simp_all add: wal_bytes_def call_bytes_def)

lemma wal_writes_bytes: "wal_bytes (wal_writes logs) = concat (replicate 100 (concat logs))"
proof -
  have "wal_bytes (concat (replicate k xs)) = concat (replicate k (wal_bytes xs))" for k xs
    by (induction k) (simp_all add: wal_bytes_def)
  then show ?thesis by (simp add: wal_writes_def wal_bytes_logs)
qed

text \<open>The file is long enough for the read at the end, and no byte of it is a null: the print-out runs behind the buffer.\<close>

lemma wal_writes_length: "50 * LOG_NUM \<le> length (wal_bytes (wal_writes (gen_log rnd t clock)))"
proof -
  let ?logs = "gen_log rnd t clock"
  have "50 \<le> length l" if "l \<in> set ?logs" for l
    using gen_logs_record [of l rnd clock "[0..<LOG_NUM]" t 0] that by (auto simp: gen_log_def)
  then have "50 * length xs \<le> length (concat xs)" if "set xs \<subseteq> set ?logs" for xs
    using that by (induction xs) (auto simp: add_mono)
  then have "50 * LOG_NUM \<le> length (concat ?logs)" by (metis gen_log_def length_gen_logs length_upt minus_nat.diff_0 subset_refl)
  then show ?thesis by (simp add: wal_writes_bytes length_concat sum_list_replicate numeral_eq_Suc)
qed

lemma concat_replicate_set: "c \<in> set (concat (replicate k xs)) \<Longrightarrow> c \<in> set xs"
  by (induction k) auto

theorem wal_main_overreads:
  "print_buffer (take 300 (wal_bytes (wal_writes (gen_log rnd t clock)))) = None \<and>
   length (take 300 (wal_bytes (wal_writes (gen_log rnd t clock)))) = 300"
proof -
  let ?b = "wal_bytes (wal_writes (gen_log rnd t clock))"
  have "c \<in> set allChar" if "c \<in> set ?b" for c
  proof -
    have "c \<in> set (concat (gen_log rnd t clock))" using that unfolding wal_writes_bytes by (rule concat_replicate_set)
    then obtain l where l: "l \<in> set (gen_log rnd t clock)" "c \<in> set l" by auto
    then obtain i n where "l = fst (generateString rnd (clock i) n)"
      using gen_logs_record [of l rnd clock "[0..<LOG_NUM]" t 0] by (auto simp: gen_log_def)
    then show ?thesis using l(2) generateString_chars by blast
  qed
  moreover have "CHR 0x00 \<notin> set allChar" by (simp add: allChar_def)
  ultimately have "CHR 0x00 \<notin> set (take 300 ?b)" using set_take_subset [of 300 ?b] by blast
  moreover have "300 \<le> length ?b" using wal_writes_length [of rnd t clock] by (simp add: LOG_NUM_def)
  ultimately show ?thesis by (simp add: print_buffer_def)
qed

end
