(* ===== verification/Wal_System.thy ===== *)
theory Wal_System
  imports Wal_Acc Inject
begin

text \<open>
  The measuring program \<^verbatim>\<open>wal_acc.c\<close> running on the guard: its calls (theory \<open>Wal_Acc\<close>), the writes of the guard split as in theory \<open>Aofguard_System\<close>, and
  the flushing thread, in any interleaving; then the second part of main, which opens the file again without \<open>O_APPEND\<close>.
  As the comment in the program asks, synchronisation is disabled, so that \<open>fdatasync\<close> on the guarded descriptor does nothing (\<open>inject_fdatasync\<close>).
\<close>

section \<open>The program\<close>

text \<open>The state: the guard, the calls to come and those that have returned, each with its result, which main ignores.\<close>

type_synonym wal_state = "guard_sys \<times> wal_call list \<times> (wal_call \<times> status) list"

inductive wal_step :: "(mem \<Rightarrow> nat \<Rightarrow> bytes \<Rightarrow> mem) \<Rightarrow> wal_state \<Rightarrow> wal_state \<Rightarrow> bool" for memcpy where
  begin_write: "write_begins memcpy (string_bytes l) S es S' \<Longrightarrow> writing S' \<noteq> None \<Longrightarrow>
    wal_step memcpy (S, Wal_write l # cs, ds) (S', Wal_write l # cs, ds)"
| begin_fails: "write_begins memcpy (string_bytes l) S es S' \<Longrightarrow> writing S' = None \<Longrightarrow>
    wal_step memcpy (S, Wal_write l # cs, ds) (S', cs, ds @ [(Wal_write l, result S')])"
| end_write: "write_ends memcpy S es S' \<Longrightarrow> wal_step memcpy (S, c # cs, ds) (S', cs, ds @ [(c, result S')])"
| sync: "writing S = None \<Longrightarrow> wal_step memcpy (S, Wal_fdatasync # cs, ds) (S, cs, ds @ [(Wal_fdatasync, Ret1)])"
| flusher: "afsync_step ok S = Some S' \<Longrightarrow> wal_step memcpy (S, cs, ds) (S', cs, ds)"

text \<open>The skipped synchronisation is what the interposed \<open>fdatasync\<close> does.\<close>

lemma sync_is_skipped: "disable_sync st \<Longrightarrow> guard_at st fd = Some (Some ag) \<Longrightarrow> inject_fdatasync ret fd st = Some (0, st, [])"
  by (simp add: inject_fdatasync_def)

text \<open>
  The second part of main: the file is closed, which leaves file and ring as they are (\<open>aofguard_deinit\<close>), opened again with \<open>O_RDWR\<close> alone, so that the guard
  recovers it from offset 0, and 300 bytes are read from where the offset then is.
\<close>

definition reopened :: "world \<Rightarrow> world" where
  "reopened w = w\<lparr>log := (log w)\<lparr>append_mode := False, offset := 0\<rparr>\<rparr>"

definition wal_second_part :: "(mem \<Rightarrow> nat \<Rightarrow> bytes \<Rightarrow> mem) \<Rightarrow> init_env \<Rightarrow> int \<Rightarrow> nat \<Rightarrow> world \<Rightarrow> aofguard \<Rightarrow> status \<times> world \<times> bytes" where
  "wal_second_part memcpy env fd sz w ag =
    (case aofguard_init env fd sz False (reopened w) ag of
       (r, ag, es) \<Rightarrow> (let w' = apply_events memcpy es (reopened w) in (r, w', take 300 (drop (offset (log w')) (content (log w'))))))"

section \<open>What has been written\<close>

definition wal_content :: "bytes \<Rightarrow> wal_call list \<Rightarrow> bytes" where
  "wal_content c ds = c @ string_bytes (wal_bytes ds)"

lemma wal_content_snoc: "wal_content c (ds @ [d]) = wal_content c ds @ string_bytes (call_bytes d)"
  by (simp add: wal_content_def wal_bytes_def string_bytes_def)

text \<open>As long as every call succeeded, the file and the ring have the records of the calls that returned.\<close>

definition wal_inv :: "nat \<Rightarrow> bytes \<Rightarrow> wal_call list \<Rightarrow> wal_state \<Rightarrow> bool" where
  "wal_inv cap c calls x \<longleftrightarrow> (case x of (S, cs, ds) \<Rightarrow>
     guard_sys_ok cap S \<and> calls = map fst ds @ cs \<and>
     (\<forall>d. writing S = Some d \<longrightarrow> (\<exists>l cs'. cs = Wal_write l # cs' \<and> d = string_bytes l)) \<and>
     ((\<forall>x \<in> set ds. snd x = Ret1) \<longrightarrow>
        content (log (world_of S)) = wal_content c (map fst ds) \<and> taken S = wal_content c (map fst ds)))"

lemma write_begins_same:
  assumes "write_begins memcpy d S es S'"
  shows "writing S = None \<and> (writing S' = None \<longrightarrow> result S' \<noteq> Ret1) \<and> (writing S' = None \<or> writing S' = Some d)"
  using assms by cases auto

lemma write_ends_same: "write_ends memcpy S es S' \<Longrightarrow> (\<exists>d. writing S = Some d) \<and> writing S' = None"
  by (auto elim: write_ends.cases)

lemma wal_step_inv:
  assumes "wal_step memcpy x x'" "wal_inv cap c calls x" "nvm_copy memcpy"
  shows "wal_inv cap c calls x'"
proof -
  have step: "step_ok memcpy UNIV cap S es S'" if "guard_step memcpy S es S'" "guard_sys_ok cap S" for S es S'
    by (rule guard_step_ok [OF that(1) assms(3) that(2) leaves_UNIV])
  from assms(1) show ?thesis
  proof cases
    case (begin_write l S es S' cs ds)
    then have "step_ok memcpy UNIV cap S es S'" using assms(2) by (intro step guard_step.write_begin) (auto simp: wal_inv_def)
    then show ?thesis using assms(2) begin_write write_begins_same [OF begin_write(3)] by (auto simp: wal_inv_def step_ok_def Let_def)
  next
    case (begin_fails l S es S' cs ds)
    then have "step_ok memcpy UNIV cap S es S'" using assms(2) by (intro step guard_step.write_begin) (auto simp: wal_inv_def)
    then show ?thesis using assms(2) begin_fails write_begins_same [OF begin_fails(3)] by (auto simp: wal_inv_def step_ok_def Let_def)
  next
    case (end_write S es S' d cs ds)
    then have s: "step_ok memcpy UNIV cap S es S'" using assms(2) by (intro step guard_step.write_end) (auto simp: wal_inv_def)
    obtain l where l: "writing S = Some (string_bytes l)" "d = Wal_write l" "writing S' = None"
      using assms(2) end_write write_ends_same [OF end_write(3)] by (auto simp: wal_inv_def)
    then show ?thesis
      using s assms(2) end_write(1,2) by (auto simp: wal_inv_def step_ok_def Let_def wal_content_snoc call_bytes_def)
  next
    case (sync S cs ds)
    then show ?thesis using assms(2) by (simp add: wal_inv_def wal_content_snoc call_bytes_def string_bytes_def)
  next
    case (flusher b S S' cs ds)
    then have "step_ok memcpy UNIV cap S [] S'" using assms(2) by (intro step guard_step.flusher) (auto simp: wal_inv_def)
    moreover have "writing S' = writing S"
      using flusher(3) by (auto simp: afsync_step_def Let_def split: afsync_thread.splits if_splits)
    ultimately show ?thesis using assms(2) flusher(1,2)
      by (cases "writing S") (auto simp: wal_inv_def step_ok_def Let_def)
  qed
qed

lemma wal_reachable_inv:
  assumes "(wal_step memcpy)\<^sup>*\<^sup>* (S0, calls, []) x" "started memcpy sz S0" "nvm_copy memcpy"
  shows "wal_inv (sz div BLOCK_SIZE * BLOCK_SIZE) (content (log (world_of S0))) calls x"
  using assms(1)
proof (induction rule: rtranclp_induct)
  case base
  have "writing S0 = None" "taken S0 = content (log (world_of S0))" using assms(2) by (auto simp: started_def guard_sys_init_def)
  then show ?case using started_ok [OF assms(2)] by (simp add: wal_inv_def wal_content_def wal_bytes_def string_bytes_def)
next
  case (step x y)
  then show ?case using wal_step_inv assms(3) by blast
qed

text \<open>A guard started on a file that holds \<open>c\<close>, and one write on it, for concrete instances.\<close>

definition sys_on :: "bytes \<Rightarrow> guard_sys" where
  "sys_on c = guard_sys_init (fresh_guard (2 * BLOCK_SIZE) (length c) small_guard) (apply_events movnti_copy (fresh_events (2 * BLOCK_SIZE) (length c))
     \<lparr>log = \<lparr>content = c, durable = length c, offset = 0, append_mode = True\<rparr>, nvm = None\<rparr>)"

lemma sys_on_fields:
  "writing (sys_on c) = None" "sem_done (sys_on c) = 0" "sem_start (sys_on c) = 0" "guard (sys_on c) = fresh_guard (2 * BLOCK_SIZE) (length c) small_guard"
  "content (log (world_of (sys_on c))) = c" "durable (log (world_of (sys_on c))) = length c" "append_mode (log (world_of (sys_on c)))"
  "taken (sys_on c) = c"
  by (simp_all add: sys_on_def guard_sys_init_def fresh_events_def apply_events_def)

lemma sys_on_started:
  assumes "length c < 2 ^ 48"
  shows "started movnti_copy (2 * BLOCK_SIZE) (sys_on c)"
  unfolding started_def
  using small_env_ok assms init_fresh_run [OF _ _ small_size_ok small_env_ok, of "\<lparr>log = \<lparr>content = c, durable = length c, offset = 0, append_mode = True\<rparr>, nvm = None\<rparr>" 3 False small_guard]
  by (intro exI [of _ small_env] exI [of _ 3] exI [of _ "\<lparr>log = \<lparr>content = c, durable = length c, offset = 0, append_mode = True\<rparr>, nvm = None\<rparr>"]
      exI [of _ small_guard] exI [of _ "fresh_guard (2 * BLOCK_SIZE) (length c) small_guard"] exI [of _ "fresh_events (2 * BLOCK_SIZE) (length c)"])
    (simp add: sys_on_def)

definition first_events :: "bytes \<Rightarrow> event list" where
  "first_events d = [Write d, Copy DATA_OFF d, Set64 BUF_END_OFF (of_nat (length d))]"

lemma fresh_write:
  assumes "length d < BLOCK_SIZE"
  shows "write_body (small_write\<lparr>write_ret := int (length d)\<rparr>) d (fresh_guard (2 * BLOCK_SIZE) n ag) =
    (Ret1, (fresh_guard (2 * BLOCK_SIZE) n ag)\<lparr>len := length d\<rparr>, first_events d)"
  using assms
  by (simp add: write_body_def make_room_def append_data_def start_afsync_def and_then_def small_write_def fresh_guard_def
      size_add_def RING_BUF_END_def RING_BUF_FORWARD_def BLOCK_SIZE_def nvm_set_64_def BUF_END_OFF_def Let_def first_events_def)

definition written_on :: "bytes \<Rightarrow> bytes \<Rightarrow> guard_sys" where
  "written_on c d = (sys_on c)\<lparr>guard := (guard (sys_on c))\<lparr>len := length d\<rparr>, world_of := apply_events movnti_copy (first_events d) (world_of (sys_on c)),
     writing := None, result := Ret1, taken := taken (sys_on c) @ d\<rparr>"

lemma first_write:
  assumes "string_bytes l = d" "0 < length d" "length d < BLOCK_SIZE" "length c < 2 ^ 40"
  shows "(wal_step movnti_copy)\<^sup>*\<^sup>* (sys_on c, Wal_write l # cs, []) (written_on c d, cs, [(Wal_write l, Ret1)])"
proof -
  let ?S = "(sys_on c)\<lparr>writing := Some d, result := Ret1\<rparr>"
  note F = sys_on_fields [of c]
  have run: "write_body (small_write\<lparr>write_ret := int (length d)\<rparr>) d (guard (sys_on c)) =
      (Ret1, (guard (sys_on c))\<lparr>len := length d\<rparr>, first_events d)"
    using fresh_write [OF assms(3)] F(4) by simp
  have g: "block_count (guard (sys_on c)) = 0" "wait_done (small_write\<lparr>write_ret := int (length d)\<rparr>) = None"
    "length (content (log (world_of (sys_on c)))) + length d < 2 ^ 48" "block_count ((guard (sys_on c))\<lparr>len := length d\<rparr>) = 0"
    "published (first_events d)"
    using F(4,5) assms(3,4) by (simp_all add: fresh_guard_def small_write_def first_events_def BLOCK_SIZE_def)
  note q = quiet_write [OF F(1) g(1) run g(2-5) refl written_on_def]
  have "result (written_on c d) = Ret1" by (simp add: written_on_def)
  then show ?thesis
    using wal_step.begin_write [of movnti_copy l "sys_on c" "[]" ?S cs "[]"]
      wal_step.end_write [of movnti_copy ?S "first_events d" "written_on c d" "Wal_write l" cs "[]"] q assms(1)
    by (auto intro: converse_rtranclp_into_rtranclp)
qed


section \<open>Properties\<close>




text \<open>
  C11: The second part of the benchmark reads the wrong place. When main opens the file again, without \<open>O_APPEND\<close>, after all calls have returned 1,
  a ring that lies in one piece and is no longer than the stable part of the file is written over the beginning of the file, whose first bytes are
  lost; and as main does not go back to the start, what it reads is not the head of the file but what lies behind the ring.
\<close>

theorem wal_reopen_overwrites_head:
  assumes "nvm_copy memcpy" "started memcpy sz S0" "(wal_step memcpy)\<^sup>*\<^sup>* (S0, calls, []) (S, [], ds)"
    and "\<forall>x \<in> set ds. snd x = Ret1" "len (guard S) \<noteq> capacity (guard S)"
    and "0 < len (guard S)" "len (guard S) \<le> fsync_len (guard S)" "start (guard S) + len (guard S) \<le> capacity (guard S)"
    and "0 \<le> fd" "init_succeeds env"
    and "c = wal_content (content (log (world_of S0))) calls" "ring = drop (fsync_len (guard S)) c"
  shows "length ring = len (guard S) \<and> (\<exists>w. wal_second_part memcpy env fd sz (world_of S) ag = (Ret1, w, take 300 (drop (length ring) (take (fsync_len (guard S)) c))) \<and>
    content (log w) = ring @ drop (length ring) (take (fsync_len (guard S)) c))"
proof -
  let ?cap = "sz div BLOCK_SIZE * BLOCK_SIZE" and ?g = "guard S" and ?w = "reopened (world_of S)"
  have inv: "guard_sys_ok ?cap S" "content (log (world_of S)) = c" "taken S = c"
    using wal_reachable_inv [OF assms(3,2,1)] assms(4,11) by (simp_all add: wal_inv_def)
  then have "guard_inv ?g (world_of S) c" "capacity ?g = ?cap" by (auto simp: guard_sys_ok_def guard_inv_holds)
  then have p: "persist ?cap (start ?g) (len ?g) (fsync_len ?g) (world_of S) c" "capacity ?g = ?cap" by (auto simp: guard_inv_def)
  then have l: "len ?g < ?cap" using assms(5) by (auto simp: persist_def ring_ok_def)
  have n: "length ring = len ?g" using p(1) by (simp add: persist_def assms(12))
  have "persist ?cap (start ?g) (len ?g) (fsync_len ?g) ?w c"
    using p(1) by (simp add: reopened_def persist_def)
  from recovery_without_append_overwrites [OF this assms(6) l assms(7) _ _ _ assms(9) refl assms(10), of ag memcpy] assms(8) p(2)
  obtain ag' es where "aofguard_init env fd sz False ?w ag = (Ret1, ag', es)"
    "content (log (apply_events memcpy es ?w)) = ring @ drop (len ?g) (take (fsync_len ?g) c)" "offset (log (apply_events memcpy es ?w)) = len ?g"
    by (auto simp: assms(12) reopened_def)
  then show ?thesis using n by (simp add: wal_second_part_def)
qed

theorem wal_reopen_overwrites_head_witness:
  "\<exists>w. wal_second_part movnti_copy small_env 3 (2 * BLOCK_SIZE) (world_of (written_on [1, 2, 3] [97, 98])) small_guard = (Ret1, w, [3]) \<and>
    content (log w) = [97, 98, 3]"
proof -
  have d: "string_bytes ''ab'' = [97, 98]" by (simp add: string_bytes_def)
  have run: "(wal_step movnti_copy)\<^sup>*\<^sup>* (sys_on [1, 2, 3], [Wal_write ''ab''], []) (written_on [1, 2, 3] [97, 98], [], [(Wal_write ''ab'', Ret1)])"
    using first_write [OF d, of "[1, 2, 3]" "[]"] by (simp add: BLOCK_SIZE_def)
  have g: "guard (written_on [1, 2, 3] [97, 98]) = (fresh_guard (2 * BLOCK_SIZE) 3 small_guard)\<lparr>len := 2\<rparr>"
    by (simp add: written_on_def sys_on_fields fresh_guard_def)
  show ?thesis
    using wal_reopen_overwrites_head [OF movnti.nvm_copy_axioms sys_on_started run _ _ _ _ _ _ small_env_ok refl refl, of 3 small_guard] g
    by (simp add: fresh_guard_def BLOCK_SIZE_def sys_on_fields wal_content_def wal_bytes_def call_bytes_def d)
qed

end
