(* ===== verification/Syscall.thy ===== *)
theory Syscall
  imports Inject_Table
begin

text \<open>
  The system call wrappers of \<^verbatim>\<open>wal_accel/src/syscall.c\<close> and the macro \<open>GET_OPEN_MODE\<close> of \<^verbatim>\<open>common.h\<close>, which reads the optional argument of \<open>open\<close>. The kernel is a
  parameter: a function from the number and the arguments of a call to the \<open>long\<close> that \<open>syscall\<close> returns. The interposed \<open>open\<close> and \<open>openat\<close> of theory \<open>Inject\<close> are
  composed with them at the end.
\<close>

section \<open>The wrappers\<close>

datatype sys_number = SYS_faccessat | SYS_rename | SYS_renameat | SYS_unlink | SYS_unlinkat | SYS_open | SYS_openat | SYS_write | SYS_read
  | SYS_fsync | SYS_fdatasync | SYS_fstat | SYS_ftruncate | SYS_mmap | SYS_close

datatype sys_arg = Arg_int u32 | Arg_path string | Arg_addr u64 | Arg_long u64

type_synonym kernel = "sys_number \<Rightarrow> sys_arg list \<Rightarrow> u64"

definition O_WRONLY :: u32 where "O_WRONLY = 0x1"
definition O_RDWR :: u32 where "O_RDWR = 0x2"
definition O_CREAT :: u32 where "O_CREAT = 0x40"
definition O_APPEND :: u32 where "O_APPEND = 0x400"
definition O_DIRECTORY :: u32 where "O_DIRECTORY = 0x10000"
definition O_TMPFILE :: u32 where "O_TMPFILE = 0x410000"

text \<open>The conversion of a \<open>long\<close> to the \<open>int\<close> that most wrappers return.\<close>

definition to_int :: "u64 \<Rightarrow> u32" where
  "to_int r = ucast r"

text \<open>\<open>args\<close> are the optional arguments; \<open>None\<close> is reading one that was not passed.\<close>

definition GET_OPEN_MODE :: "u32 \<Rightarrow> u32 list \<Rightarrow> u32 option" where
  "GET_OPEN_MODE flags args =
    (if flags AND O_CREAT \<noteq> 0 then case args of [] \<Rightarrow> None | mode # _ \<Rightarrow> Some mode else Some 0)"

definition syscall_faccessat :: "kernel \<Rightarrow> u32 \<Rightarrow> string \<Rightarrow> u32 \<Rightarrow> u32 \<Rightarrow> u32" where
  "syscall_faccessat k dirfd file mode flags = to_int (k SYS_faccessat [Arg_int dirfd, Arg_path file, Arg_int mode, Arg_int flags])"

definition syscall_rename :: "kernel \<Rightarrow> string \<Rightarrow> string \<Rightarrow> u32" where
  "syscall_rename k oldpath newpath = to_int (k SYS_rename [Arg_path oldpath, Arg_path newpath])"

definition syscall_renameat :: "kernel \<Rightarrow> u32 \<Rightarrow> string \<Rightarrow> u32 \<Rightarrow> string \<Rightarrow> u32" where
  "syscall_renameat k olddirfd oldpath newdirfd newpath =
    to_int (k SYS_renameat [Arg_int olddirfd, Arg_path oldpath, Arg_int newdirfd, Arg_path newpath])"

definition syscall_unlink :: "kernel \<Rightarrow> string \<Rightarrow> u32" where
  "syscall_unlink k file = to_int (k SYS_unlink [Arg_path file])"

definition syscall_unlinkat :: "kernel \<Rightarrow> u32 \<Rightarrow> string \<Rightarrow> u32 \<Rightarrow> u32" where
  "syscall_unlinkat k dirfd file flags = to_int (k SYS_unlinkat [Arg_int dirfd, Arg_path file, Arg_int flags])"

definition syscall_open :: "kernel \<Rightarrow> string \<Rightarrow> u32 \<Rightarrow> u32 list \<Rightarrow> u32 option" where
  "syscall_open k file flags args =
    map_option (\<lambda>mode. to_int (k SYS_open [Arg_path file, Arg_int flags, Arg_int mode])) (GET_OPEN_MODE flags args)"

definition syscall_openat :: "kernel \<Rightarrow> u32 \<Rightarrow> string \<Rightarrow> u32 \<Rightarrow> u32 list \<Rightarrow> u32 option" where
  "syscall_openat k dirfd file flags args =
    map_option (\<lambda>mode. to_int (k SYS_openat [Arg_int dirfd, Arg_path file, Arg_int flags, Arg_int mode])) (GET_OPEN_MODE flags args)"

definition syscall_write :: "kernel \<Rightarrow> u32 \<Rightarrow> u64 \<Rightarrow> u64 \<Rightarrow> u64" where
  "syscall_write k fd data n = k SYS_write [Arg_int fd, Arg_addr data, Arg_long n]"

definition syscall_read :: "kernel \<Rightarrow> u32 \<Rightarrow> u64 \<Rightarrow> u64 \<Rightarrow> u64" where
  "syscall_read k fd data n = k SYS_read [Arg_int fd, Arg_addr data, Arg_long n]"

definition syscall_fsync :: "kernel \<Rightarrow> u32 \<Rightarrow> u32" where
  "syscall_fsync k fd = to_int (k SYS_fsync [Arg_int fd])"

definition syscall_fdatasync :: "kernel \<Rightarrow> u32 \<Rightarrow> u32" where
  "syscall_fdatasync k fd = to_int (k SYS_fdatasync [Arg_int fd])"

definition syscall_fstat :: "kernel \<Rightarrow> u32 \<Rightarrow> u64 \<Rightarrow> u32" where
  "syscall_fstat k fd stat = to_int (k SYS_fstat [Arg_int fd, Arg_addr stat])"

definition syscall_ftruncate :: "kernel \<Rightarrow> u32 \<Rightarrow> u64 \<Rightarrow> u32" where
  "syscall_ftruncate k fd sz = to_int (k SYS_ftruncate [Arg_int fd, Arg_long sz])"

definition syscall_mmap :: "kernel \<Rightarrow> u64 \<Rightarrow> u64 \<Rightarrow> u32 \<Rightarrow> u32 \<Rightarrow> u32 \<Rightarrow> u64 \<Rightarrow> u64" where
  "syscall_mmap k addr n prot flags fd off =
    k SYS_mmap [Arg_addr addr, Arg_long n, Arg_int prot, Arg_int flags, Arg_int fd, Arg_long off]"

definition syscall_close :: "kernel \<Rightarrow> u32 \<Rightarrow> u32" where
  "syscall_close k fd = to_int (k SYS_close [Arg_int fd])"

section \<open>The interposed calls\<close>

text \<open>
  \<open>open\<close> and \<open>openat\<close> with their optional arguments: the mode is read by \<open>GET_OPEN_MODE\<close>, passed on as the optional argument of the wrapper, and read there again.
  \<open>read\<close> is the wrapper with its error result replaced.
\<close>

definition interposed_open :: "kernel \<Rightarrow> open_env \<Rightarrow> string \<Rightarrow> u32 \<Rightarrow> u32 list \<Rightarrow> inject \<Rightarrow> result" where
  "interposed_open k env file flags args st =
    Option.bind (GET_OPEN_MODE flags args) (\<lambda>mode.
    Option.bind (syscall_open k file flags [mode]) (\<lambda>fd. inject_open (\<lambda>_ _. sint fd) env file (sint flags) st))"

definition interposed_openat :: "kernel \<Rightarrow> open_env \<Rightarrow> u32 \<Rightarrow> string \<Rightarrow> u32 \<Rightarrow> u32 list \<Rightarrow> inject \<Rightarrow> result" where
  "interposed_openat k env dirfd file flags args st =
    Option.bind (GET_OPEN_MODE flags args) (\<lambda>mode.
    Option.bind (syscall_openat k dirfd file flags [mode]) (\<lambda>fd. inject_openat (\<lambda>_ _ _. sint fd) env (sint dirfd) file (sint flags) st))"

definition interposed_read :: "kernel \<Rightarrow> u32 \<Rightarrow> u64 \<Rightarrow> u64 \<Rightarrow> int" where
  "interposed_read k fd data n = inject_read (sint (syscall_read k fd data n))"

section \<open>Properties\<close>

text \<open>The results that the kernel gives for calls that return an \<open>int\<close>: -1, zero or a descriptor.\<close>

definition int_result :: "u64 \<Rightarrow> bool" where
  "int_result r \<longleftrightarrow> - (2 ^ 31) \<le> sint r \<and> sint r < 2 ^ 31"

lemma to_int_exact:
  assumes "int_result r"
  shows "sint (to_int r) = sint r"
proof -
  have "sint (to_int r) = signed_take_bit 31 (sint r)"
    by (simp add: to_int_def) (simp add: sint_uint unsigned_ucast_eq signed_take_bit_take_bit)
  then show ?thesis using assms by (simp add: int_result_def signed_take_bit_int_eq_self)
qed

text \<open>Every way the library itself opens files passes the mode that its flags ask for.\<close>

lemma library_opens_are_complete:
  "GET_OPEN_MODE O_DIRECTORY [] = Some 0" "GET_OPEN_MODE O_RDWR [] = Some 0" "GET_OPEN_MODE (O_CREAT OR O_RDWR) [0x1B6] = Some 0x1B6"
  by (simp_all add: GET_OPEN_MODE_def O_DIRECTORY_def O_RDWR_def O_CREAT_def)

text \<open>
  What \<open>open(2)\<close> says of the mode: it must be passed with \<open>O_CREAT\<close> and with \<open>O_TMPFILE\<close>, which consists of several bits, and is ignored otherwise.
  \<open>asked_mode\<close> is the mode that a caller asks for, \<open>mode_lost\<close> are the flags with which it is not passed on.
\<close>

definition needs_mode :: "u32 \<Rightarrow> bool" where
  "needs_mode flags \<longleftrightarrow> flags AND O_CREAT \<noteq> 0 \<or> flags AND O_TMPFILE = O_TMPFILE"

definition asked_mode :: "u32 \<Rightarrow> u32 list \<Rightarrow> u32" where
  "asked_mode flags args = (if needs_mode flags then hd args else 0)"

definition mode_lost :: "u32 \<Rightarrow> bool" where
  "mode_lost flags \<longleftrightarrow> flags AND O_TMPFILE = O_TMPFILE \<and> flags AND O_CREAT = 0"

lemma GET_OPEN_MODE_mode:
  assumes "needs_mode flags \<Longrightarrow> args \<noteq> []" "mode = (if mode_lost flags then 0 else asked_mode flags args)"
  shows "GET_OPEN_MODE flags args = Some mode" "GET_OPEN_MODE flags [mode] = Some mode"
  using assms by (auto simp: GET_OPEN_MODE_def needs_mode_def asked_mode_def mode_lost_def neq_Nil_conv split: list.split)

text \<open>
  C12: What the kernel is asked for when a program calls the interposed \<open>open\<close> or \<open>openat\<close>. When the caller passes a mode whenever \<open>open(2)\<close> requires one, neither of the two readings of
  the optional argument reads one that is missing; the kernel is called with the caller's flags and the mode asked for, with one exception: a mode that is passed with
  \<open>O_TMPFILE\<close> and without \<open>O_CREAT\<close> is lost, and the kernel is given 0. For every result that is an \<open>int\<close> the conversions on the way
  give the interposed function the value that the kernel returned.
\<close>

theorem open_reaches_kernel:
  assumes "needs_mode flags \<Longrightarrow> args \<noteq> []" "mode = (if mode_lost flags then 0 else asked_mode flags args)"
    and "int_result (k SYS_open [Arg_path file, Arg_int flags, Arg_int mode])"
    and "int_result (k SYS_openat [Arg_int dirfd, Arg_path file, Arg_int flags, Arg_int mode])"
  shows "interposed_open k env file flags args st =
      open_result env file (sint (k SYS_open [Arg_path file, Arg_int flags, Arg_int mode])) st \<and>
    interposed_openat k env dirfd file flags args st =
      open_result env file (sint (k SYS_openat [Arg_int dirfd, Arg_path file, Arg_int flags, Arg_int mode])) st"
  using GET_OPEN_MODE_mode [OF assms(1,2)] to_int_exact [OF assms(3)] to_int_exact [OF assms(4)]
  by (simp add: interposed_open_def interposed_openat_def syscall_open_def syscall_openat_def inject_open_def inject_openat_def)

theorem open_reaches_kernel_witness:
  "\<forall>env st. interposed_open (\<lambda>_ args. if args = [Arg_path ''wal'', Arg_int 0x42, Arg_int 0x180] then -1 else 7) env ''wal'' (O_CREAT OR O_RDWR) [0x180] st =
     Some (-1, st, [])"
proof (intro allI)
  fix env st
  have flags: "O_CREAT OR O_RDWR = 0x42" by (simp add: O_CREAT_def O_RDWR_def)
  have mode: "(0x180 :: u32) = (if mode_lost 0x42 then 0 else asked_mode 0x42 [0x180])"
    by (simp add: mode_lost_def asked_mode_def needs_mode_def O_CREAT_def)
  show "interposed_open (\<lambda>_ args. if args = [Arg_path ''wal'', Arg_int 0x42, Arg_int 0x180] then -1 else 7) env ''wal'' (O_CREAT OR O_RDWR) [0x180] st =
     Some (-1, st, [])"
    using open_reaches_kernel [OF _ mode, of "\<lambda>_ args. if args = [Arg_path ''wal'', Arg_int 0x42, Arg_int 0x180] then -1 else 7" "''wal''" 0 env st]
    unfolding flags by (simp add: int_result_def open_result_def handle_open_def)
qed

text \<open>
  The mode of a temporary file is lost: \<open>O_TMPFILE\<close> takes a mode too, but does not contain \<open>O_CREAT\<close>, and whatever the caller passes the kernel
  is given the mode 0.
\<close>

theorem tmpfile_mode_is_lost:
  "interposed_open k env dir (O_TMPFILE OR O_RDWR) [mode] st = interposed_open k env dir (O_TMPFILE OR O_RDWR) [] st \<and>
   syscall_open k dir (O_TMPFILE OR O_RDWR) [mode] = Some (to_int (k SYS_open [Arg_path dir, Arg_int (O_TMPFILE OR O_RDWR), Arg_int 0]))"
  by (simp add: interposed_open_def syscall_open_def GET_OPEN_MODE_def O_TMPFILE_def O_RDWR_def O_CREAT_def)

text \<open>\<open>wal_acc.c\<close> creates its log without passing a mode, and the missing argument is read.\<close>

lemma wal_open_lacks_mode: "interposed_open k env file (O_WRONLY OR O_CREAT OR O_APPEND) [] st = None"
  by (simp add: interposed_open_def GET_OPEN_MODE_def O_WRONLY_def O_CREAT_def O_APPEND_def)

end
