(* ===== verification/Log_Timestamp.thy ===== *)
theory Log_Timestamp
  imports Decimal
begin

text \<open>
  \<open>LOG\<close> of \<^verbatim>\<open>cxl_memory_sharing/log-timestamp.c\<close>, which the lock programs print with: a date formatted by \<open>strftime\<close> into an array of 20 bytes, milliseconds, and
  the message. The broken-down time that \<open>gmtime\<close> returns and the text that \<open>vprintf\<close> prints are arguments.
\<close>

section \<open>The code\<close>

text \<open>\<open>struct tm\<close> as far as it is printed; \<open>tm_year\<close> counts from 1900 and \<open>tm_mon\<close> from 0.\<close>

record tm =
  tm_year :: nat
  tm_mon :: nat
  tm_mday :: nat
  tm_hour :: nat
  tm_min :: nat
  tm_sec :: nat

text \<open>A number padded with zeros to \<open>w\<close> digits.\<close>

definition pad :: "nat \<Rightarrow> nat \<Rightarrow> string" where
  "pad w n = replicate (w - length (print_nat n)) (CHR ''0'') @ print_nat n"

text \<open>\<open>strftime\<close> with the format of \<open>LOG\<close> into \<open>max_bytes\<close> bytes; \<open>None\<close> when the text and its terminator do not fit and the array is unspecified.\<close>

definition strftime :: "nat \<Rightarrow> tm \<Rightarrow> string option" where
  "strftime max_bytes t =
    (let text = print_nat (tm_year t + 1900) @ ''-'' @ pad 2 (tm_mon t + 1) @ ''-'' @ pad 2 (tm_mday t) @ ''T'' @
           pad 2 (tm_hour t) @ '':'' @ pad 2 (tm_min t) @ '':'' @ pad 2 (tm_sec t) in
     if length text < max_bytes then Some text else None)"

definition LOG :: "tm \<Rightarrow> nat \<Rightarrow> string \<Rightarrow> string option" where
  "LOG t tv_usec message =
    map_option (\<lambda>date. ''['' @ date @ ''.'' @ pad 3 (tv_usec div 1000) @ ''Z] '' @ message) (strftime 20 t)"

section \<open>Lengths\<close>

lemma length_pad: "n < 10 ^ Suc k \<Longrightarrow> length (pad (Suc k) n) = Suc k"
  using length_print_nat [of n "Suc k"] by (simp add: pad_def)

text \<open>A time of day and a date; a second may be a leap second.\<close>

definition tm_ok :: "tm \<Rightarrow> bool" where
  "tm_ok t \<longleftrightarrow> tm_mon t < 12 \<and> tm_mday t \<le> 31 \<and> tm_hour t < 24 \<and> tm_min t < 60 \<and> tm_sec t \<le> 60"

text \<open>The array is large enough exactly until the year 9999, and the message then starts at a fixed column.\<close>

lemma LOG_prefix:
  assumes "tm_ok t" "tv_usec < 1000000"
  shows "LOG t tv_usec message \<noteq> None \<longleftrightarrow> tm_year t + 1900 < 10000"
    and "LOG t tv_usec message = Some out \<Longrightarrow> tm_year t + 1900 \<ge> 1000 \<Longrightarrow> drop 27 out = message"
proof -
  have two: "length (pad 2 n) = 2" if "n < 100" for n using length_pad [of n 1] that by (simp add: numeral_2_eq_2)
  have three: "length (pad 3 n) = 3" if "n < 1000" for n using length_pad [of n 2] that by (simp add: numeral_3_eq_3)
  have parts: "length (pad 2 (tm_mon t + 1)) = 2" "length (pad 2 (tm_mday t)) = 2" "length (pad 2 (tm_hour t)) = 2"
    "length (pad 2 (tm_min t)) = 2" "length (pad 2 (tm_sec t)) = 2" "length (pad 3 (tv_usec div 1000)) = 3"
    using assms by (intro two three; simp add: tm_ok_def)+
  let ?y = "print_nat (tm_year t + 1900)"
  have year: "length ?y < 5 \<longleftrightarrow> tm_year t + 1900 < 10000"
    using length_print_nat [of "tm_year t + 1900" 4] length_print_nat_ge [of 4 "tm_year t + 1900"] by fastforce
  then show "LOG t tv_usec message \<noteq> None \<longleftrightarrow> tm_year t + 1900 < 10000"
    using parts by (auto simp: LOG_def strftime_def Let_def)
  assume out: "LOG t tv_usec message = Some out" and "tm_year t + 1900 \<ge> 1000"
  then have "length ?y = 4" using year length_print_nat_ge [of 3 "tm_year t + 1900"] parts
    by (auto simp: LOG_def strftime_def Let_def split: if_splits)
  then show "drop 27 out = message" using out parts by (auto simp: LOG_def strftime_def Let_def split: if_splits)
qed

end
