(* ===== verification/Spec2Isabelle.thy ===== *)
theory Spec2Isabelle
  imports Crc Lock_Service Inject_Table Cbs_Pmem_System Cbs_Memkind Cbs_Pmemobj Cbs_Ssd Cbs_Pmemblk Cbs_Pmemkv
    Queue_Aof Queue_Pmemobj Dsa_Sharing Lock_Sharing Sharing_Mem Micro_Benchmarks
    Sharing_Start Weak_Sharing Wal_System Syscall Log_Timestamp
begin

text \<open>
  A verification of the example programs for persistent and shared memory in this repository. The programs are small and mostly independent;
  what they have in common is that their correctness depends on what a crash or another host can see, so most models make the
  memory behind the program explicit.

  \<^bold>\<open>The parts of the program and the theories that model them.\<close>

  \<^item> \<^verbatim>\<open>wal_accel/src\<close>: a library that interposes on the file calls of a process and guards append-only files with a ring buffer in persistent memory.
    \<open>Nvm\<close> is the memory and its two primitives (\<open>nvm_set_64\<close>, \<open>nvm_memcpy\<close>), \<open>Aofguard\<close> the guard of \<^verbatim>\<open>aofguard.c\<close> function by function as
    a trace of effects, \<open>Aofguard_Recovery\<close> its crash invariant, \<open>Aofguard_System\<close> the life of a guard: the interleaving with the flushing thread, with every result that
    the calls below can have, restarts after crashes, and the properties. \<open>Inject\<close> is
    \<^verbatim>\<open>inject.c\<close> (open, write, fsync, close, rename, unlink on the descriptor table), \<open>Inject_Table\<close> its invariants; \<open>Sha1\<close> is \<^verbatim>\<open>sha1.c\<close>, which names the NVM files.
    \<open>Syscall\<close> is \<^verbatim>\<open>syscall.c\<close> with the kernel as a parameter, below the interposed \<open>open\<close>. \<open>Wal_Acc\<close> is the measuring program \<^verbatim>\<open>wal_acc.c\<close>, and \<open>Wal_System\<close> runs it on the guard, its
    flushing thread included.
  \<^item> \<^verbatim>\<open>cbs_req\<close>: six page caches with the same interface, stated as the locales \<open>page_store\<close> and \<open>deleting_store\<close> in \<open>Page_Store\<close>. \<open>Cbs_Pmem\<close>, \<open>Cbs_Pmem_Recovery\<close> and
    \<open>Cbs_Pmem_System\<close> are the cache on raw persistent memory, \<open>Cbs_Memkind\<close> the volatile one, \<open>Cbs_Pmemobj\<close> the transactional one (over the transactions of \<open>Tx\<close>),
    \<open>Cbs_Ssd\<close> the mapped file, \<open>Cbs_Pmemblk\<close> and \<open>Cbs_Pmemkv\<close> the two over libraries.
  \<^item> \<^verbatim>\<open>simple_fifo_queue\<close>: \<open>Queue_Aof\<close> is the queue with an append-only log (its text format in \<open>Decimal\<close>), \<open>Queue_Pmemobj\<close> the transactional queue.
  \<^item> \<^verbatim>\<open>cxl_memory_sharing\<close>: hosts that share memory without coherent caches. \<open>Crc\<close> and \<open>Rw_Info\<close> are checksums and block helpers, \<open>Meta_Sharing\<close> the two programs of the flag protocol,
    \<^verbatim>\<open>meta_write.c\<close> and \<^verbatim>\<open>meta_read.c\<close>, and what holds of them in program order, \<open>Weak_Sharing\<close> the protocol with flushes that take effect late, with its properties, \<open>Sharing_Start\<close> the same with the start of the writer, \<open>Dsa_Move\<close> and \<open>Dsa_Sharing\<close> the same protocol with an accelerator doing the copies, \<open>Hash_KV\<close> and \<open>Lock_Service\<close> the lock server with its table,
    \<open>Lock_Sharing\<close> the readers and writers that use it, \<open>Log_Timestamp\<close> what they print, \<open>Sharing_Mem\<close> the single-host test.
    The main functions up to their loops stand in the theories of their loops.
  \<^item> The measuring programs: \<open>Pmem_Writers\<close> (\<^verbatim>\<open>rand_namespace.cpp\<close>, \<^verbatim>\<open>cpi_of_sfence.cpp\<close>) and \<open>Micro_Benchmarks\<close> (\<^verbatim>\<open>reproduce.c\<close>, \<^verbatim>\<open>memory_mode_test.c\<close>).

  \<open>Prelude\<close> holds the integer types, the outcomes of C calls and the shared lemmas.

  \<^bold>\<open>How code is modelled.\<close> C structs are records, enums and macros are datatypes and constants, and every function is a definition of the same name that takes the
  results of system and library calls as arguments. Integers are words, or natural numbers with the wrap-around written out. Undefined behaviour is a value (\<open>None\<close> or
  \<open>Undefined\<close>), failed assertions are \<open>Aborted\<close>. Loops that may not end are \<open>partial_function\<close>s into option, with lemmas that they return;
  no fuel is used. Where the order of effects matters, a function returns the trace of its effects and a crash is a prefix of
  it; where programs run concurrently, a step relation interleaves them with each other and with the caches. A \<open>clflushopt\<close> is issued and takes effect at any later moment, at the latest before the next fence of
  its host, as its documentation has it; a parameter \<open>sync\<close> of the step relations selects the flushing functions as they are compiled or the variants that the header compiles
  out, whose fence comes last. Libraries outside the repository and the kernel (\<open>libpmemobj\<close>, \<open>libpmemblk\<close>, \<open>pmemkv\<close>, \<open>memkind\<close>, DML)
  are parameters, with their documented behaviour as the assumptions of locales or of theorems.

  \<^bold>\<open>What the lemmas show.\<close> For the guard: writes append and are atomic under crashes, recovery rebuilds the contents and can be repeated, an
  acknowledged write survives without a flush (below), and the benchmark loses no record. These hold with failures of any call. Two cases the theorems set apart: a ring that is exactly full is
  taken for empty, and after a write that was cut short the file is no longer what the ring was given, so that recovery rebuilds the flushed part of the file and what the ring was given behind it. Other theorems show
  several ways in which data are lost or the writer blocks. For the page caches: each refines a map from
  requests to pages, with the preconditions its code needs, crash atomicity of writes for the persistent ones, and reading back what the test programs write. For the queues: first in, first out, crash atomicity, and what a restart forgets.
  For sharing, in every interleaving with late flushes: as the code is, the handshake on the flag holds, as many blocks arrive as are sent, and none with a wrong checksum is passed, but blocks are repeated and overtaken; with
  the fences of the variants that are compiled out, the blocks that arrive are the blocks sent, moved by a program or by the accelerator, or the last ones written under the lock. A writer may be restarted when nothing is on its way and not otherwise. The lock server implements a reader/writer lock
  and excludes writers as long as no call of the server or its clients fails and no client goes away; what each failure breaks is shown beside it. For the checksums and SHA-1: agreement with bitwise and standard reference definitions, and detection of bursts. The measuring programs: which bytes are written, what is durable when.

  \<^bold>\<open>Bounds.\<close> Blocks of up to 4 GB and any number of cache lines; file contents below \<open>2^48\<close> bytes for the guard, the range of the length it stores; reader counts below \<open>2^61\<close> for the locks, which any number of
  clients with bounded queues satisfies. All other parameters are arbitrary unless a theorem says otherwise.

  \<^bold>\<open>What is relied on.\<close> One thread of a process writes to a guarded file at a time, as the guard has no lock. \<open>fsync\<close> makes durable at least what the file held when it began, a crash keeps the
  durable prefix of a file and leaves anything of the rest. Loads and stores of one host take effect in program order, and only flushes are late.

  \<^bold>\<open>Not modelled.\<close> \<^verbatim>\<open>memkind_dram.c\<close> passes its arguments on to a library; the message macros of \<^verbatim>\<open>common.h\<close> only print, and the empty flushing functions for coherent hardware do nothing. Time measurement and
  command-line help are left out of the main functions, and so are the opening and mapping of files outside the sharing programs, except where a result of theirs is used. In the sharing protocols a cache line moves as a whole, and
  messages to and from the lock server are not torn.
\<close>

section \<open>Properties that span components\<close>




end
